(* ===== verification/Prelude.thy ===== *)
theory Prelude
  imports Main "HOL-Library.Word"
begin

text \<open>
  The shared vocabulary of the development: machine integers at the widths of
  \<^verbatim>\<open>stdint.h\<close>, byte buffers with the read and write at an offset that C code does
  through pointers into a buffer, the little-endian layout of integers in memory (the
  kernel is an x86-64 program), and C strings. Components declare their rewrite rules
  into the collections below, so that their clients can use them by name.
\<close>

unbundle bit_operations_syntax

type_synonym u8 = "8 word"
type_synonym u16 = "16 word"
type_synonym u32 = "32 word"
type_synonym u64 = "64 word"
type_synonym bytes = "u8 list"

named_theorems buf_simps \<open>reading and writing at an offset of a byte buffer\<close>
named_theorems heap_simps \<open>the kernel heap\<close>
named_theorems page_simps \<open>page allocation and reference counts\<close>
named_theorems disk_simps \<open>sectors, blocks and the on-disk structures\<close>

subsection \<open>Byte buffers\<close>

definition get_at :: "nat \<Rightarrow> nat \<Rightarrow> 'a list \<Rightarrow> 'a list" where
  "get_at off n b = take n (drop off b)"

definition put_at :: "nat \<Rightarrow> 'a list \<Rightarrow> 'a list \<Rightarrow> 'a list" where
  "put_at off xs b = take off b @ xs @ drop (off + length xs) b"

lemma length_get_at [simp]: "off + n \<le> length b \<Longrightarrow> length (get_at off n b) = n"
  by (simp add: get_at_def)

lemma length_put_at [simp]: "off + length xs \<le> length b \<Longrightarrow> length (put_at off xs b) = length b"
  by (simp add: put_at_def)

lemma get_put_same [buf_simps]:
  "off + length xs \<le> length b \<Longrightarrow> n = length xs \<Longrightarrow> get_at off n (put_at off xs b) = xs"
  by (simp add: get_at_def put_at_def)

lemma put_at_nth:
  assumes "off + length xs \<le> length b" "i < length b"
  shows "put_at off xs b ! i = (if off \<le> i \<and> i < off + length xs then xs ! (i - off) else b ! i)"
  using assms by (auto simp: put_at_def nth_append)

lemma get_put_other [buf_simps]:
  assumes "off + length xs \<le> length b" "off' + n \<le> length b"
    and "off' + n \<le> off \<or> off + length xs \<le> off'"
  shows "get_at off' n (put_at off xs b) = get_at off' n b"
  using assms by (intro nth_equalityI) (auto simp: get_at_def put_at_nth)

lemma put_get_same [buf_simps]:
  "off + n \<le> length b \<Longrightarrow> put_at off (get_at off n b) b = b"
  by (simp add: put_at_def get_at_def min_def) (metis append_take_drop_id drop_drop add.commute)

lemma put_put_same [buf_simps]:
  "off + length xs \<le> length b \<Longrightarrow> length ys = length xs \<Longrightarrow>
   put_at off ys (put_at off xs b) = put_at off ys b"
  by (simp add: put_at_def)

lemma drop_put_at_other:
  "off + length xs \<le> k \<Longrightarrow> off + length xs \<le> length b \<Longrightarrow> drop k (put_at off xs b) = drop k b"
  by (simp add: put_at_def)

lemma set_put_at: "set (put_at off xs b) \<subseteq> set xs \<union> set b"
  by (auto simp: put_at_def dest: in_set_takeD in_set_dropD)

lemma nth_upd: "xs[i := x] ! j = (if i = j \<and> j < length xs then x else xs ! j)"
  by (cases "i < length xs") (auto simp: nth_list_update list_update_beyond)

subsection \<open>Machine arithmetic without wrap-around\<close>

lemma unat_add_nowrap:
  "unat (x :: 'a::len word) + unat y < 2 ^ LENGTH('a) \<Longrightarrow> unat (x + y) = unat x + unat y"
  by (simp add: unat_word_ariths)

lemma unat_sub_nowrap: "(y :: 'a::len word) \<le> x \<Longrightarrow> unat (x - y) = unat x - unat y"
  by (simp add: unat_sub)

lemma unat_eq_iff: "x = y \<longleftrightarrow> unat x = unat (y :: 'a::len word)"
  by (simp add: word_unat_eq_iff)

lemma unat_of_nat_small: "n < 2 ^ LENGTH('a) \<Longrightarrow> unat (of_nat n :: 'a::len word) = n"
  by (simp add: unat_of_nat take_bit_nat_eq_self)

lemma word_offset_iff:
  assumes "n < 2 ^ LENGTH('a)"
  shows "a = d + of_nat n \<longleftrightarrow> unat (a - d :: 'a::len word) = n"
proof -
  have "a = d + of_nat n \<longleftrightarrow> a - d = of_nat n" by (auto simp: algebra_simps)
  then show ?thesis using assms by (simp add: unat_eq_iff unat_of_nat_small)
qed

subsection \<open>Little-endian integers\<close>

text \<open>
  \<open>le_bytes n w\<close> are the \<open>n\<close> bytes of \<open>w\<close> as they lie in memory, the least
  significant first; \<open>le_word\<close> reads them back.
\<close>

definition le_bytes :: "nat \<Rightarrow> 'a::len word \<Rightarrow> bytes" where
  "le_bytes n w = map (\<lambda>i. ucast (drop_bit (8 * i) w)) [0..<n]"

primrec le_word :: "bytes \<Rightarrow> 'a::len word" where
  "le_word [] = 0"
| "le_word (b # bs) = ucast b OR push_bit 8 (le_word bs)"

lemma length_le_bytes [simp]: "length (le_bytes n w) = n"
  by (simp add: le_bytes_def)

lemma bit_le_word:
  "bit (le_word bs :: 'a::len word) i \<longleftrightarrow>
     i < LENGTH('a) \<and> i div 8 < length bs \<and> bit (bs ! (i div 8)) (i mod 8)"
proof (induction bs arbitrary: i)
  case (Cons b bs)
  show ?case
  proof (cases "i < 8")
    case True
    then show ?thesis
      by (auto simp: bit_simps)
  next
    case False
    then have "\<not> bit b i" and "i div 8 = Suc ((i - 8) div 8)" and "i mod 8 = (i - 8) mod 8"
      using bit_imp_le_length [of b i] by (auto simp: div_if mod_if)
    then show ?thesis
      using False Cons.IH [of "i - 8"] by (auto simp: bit_simps)
  qed
qed simp

lemma le_word_le_bytes [simp]:
  "LENGTH('a) \<le> 8 * n \<Longrightarrow> le_word (le_bytes n w) = (w :: 'a::len word)"
  by (rule bit_word_eqI) (auto simp: bit_le_word le_bytes_def bit_simps div_less_iff_less_mult)

lemma le_bytes_le_word:
  assumes "length bs = n" "8 * n \<le> LENGTH('a)"
  shows "le_bytes n (le_word bs :: 'a::len word) = bs"
proof (rule nth_equalityI)
  fix i assume "i < length (le_bytes n (le_word bs :: 'a word))"
  then have i: "i < n" by simp
  show "le_bytes n (le_word bs :: 'a word) ! i = bs ! i"
  proof (rule bit_word_eqI)
    fix k assume "k < LENGTH(8)"
    then show "bit (le_bytes n (le_word bs :: 'a word) ! i) k = bit (bs ! i) k"
      using i assms by (auto simp: le_bytes_def bit_simps bit_le_word)
  qed
qed (use assms in simp)

subsection \<open>C strings\<close>

text \<open>
  A pointer to characters is modelled by the bytes from the pointer to the end of the
  array it points into. \<open>chr_at s i\<close> is \<open>s[i]\<close>; past the modelled bytes it reads
  the terminator, so a list without a zero byte stands for the string literal or
  argument with these characters. \<open>cstr s\<close> is the text of the string.
\<close>

definition chr_at :: "bytes \<Rightarrow> nat \<Rightarrow> u8" where
  "chr_at s i = (if i < length s then s ! i else 0)"

definition cstr :: "bytes \<Rightarrow> bytes" where
  "cstr s = takeWhile (\<lambda>c. c \<noteq> 0) s"

definition str :: "string \<Rightarrow> bytes" where
  "str s = map of_char s"

lemma chr_at_Nil [simp]: "chr_at [] i = 0"
  and chr_at_Cons_0 [simp]: "chr_at (c # s) 0 = c"
  and chr_at_Cons_Suc [simp]: "chr_at (c # s) (Suc i) = chr_at s i"
  by (simp_all add: chr_at_def)

lemma cstr_Nil [simp]: "cstr [] = []"
  and cstr_Cons [simp]: "cstr (c # s) = (if c = 0 then [] else c # cstr s)"
  by (simp_all add: cstr_def)

lemma cstr_no_nul [simp]: "0 \<notin> set (cstr s)"
  by (auto simp: cstr_def dest: set_takeWhileD)

lemma cstr_id [simp]: "0 \<notin> set s \<Longrightarrow> cstr s = s"
  unfolding cstr_def by (rule takeWhile_eq_all_conv [THEN iffD2]) auto

lemma cstr_terminated [simp]: "0 \<notin> set s \<Longrightarrow> cstr (s @ 0 # t) = s"
  by (induction s) auto

lemma cstr_Nil_iff: "cstr s = [] \<longleftrightarrow> chr_at s 0 = 0"
  by (cases s) auto

subsection \<open>Counting loops with an early return\<close>

text \<open>
  \<open>for_ok n f s\<close> is \<^verbatim>\<open>for (int i = 0; i < n; i++) { ... }\<close> over a state, where
  the body \<open>f i\<close> may return from the enclosing function: then it yields \<open>False\<close> and
  the loop ends.
\<close>

primrec for_ok :: "nat \<Rightarrow> (nat \<Rightarrow> 's \<Rightarrow> 's \<times> bool) \<Rightarrow> 's \<Rightarrow> 's \<times> bool" where
  "for_ok 0 f s = (s, True)"
| "for_ok (Suc n) f s = (let (s', ok) = for_ok n f s in if ok then f n s' else (s', False))"

lemma for_ok_inv:
  assumes "for_ok n f s = (s', ok)" "P 0 s"
    and "\<And>i s t. i < n \<Longrightarrow> P i s \<Longrightarrow> f i s = (t, True) \<Longrightarrow> P (Suc i) t"
    and "\<And>i s t. i < n \<Longrightarrow> P i s \<Longrightarrow> f i s = (t, False) \<Longrightarrow> Q t"
  shows "if ok then P n s' else Q s'"
  using assms
proof (induction n arbitrary: s' ok)
  case (Suc n)
  obtain t b where t: "for_ok n f s = (t, b)" by force
  have *: "if b then P n t else Q t" 
    by (rule Suc.IH [OF t Suc.prems(2)]; meson Suc.prems(3,4) less_SucI)
  obtain u c where u: "f n t = (u, c)" by force
  show ?case using Suc.prems(1) * t u Suc.prems(3,4) [of n t u] by (cases b; cases c) auto
qed auto

end
