(* ===== verification/Heap.thy ===== *)
theory Heap
  imports Prelude
begin

text \<open>
  The kernel heap of \<^verbatim>\<open>kernel/memory.c\<close> (\<^verbatim>\<open>memory_init\<close>, \<^verbatim>\<open>memory_alloc\<close>,
  \<^verbatim>\<open>heap_merge\<close>, \<^verbatim>\<open>memory_free\<close>): a first-fit allocator over a singly linked
  list of block headers. A header is a record with the address it lies at; the list of
  headers is the chain of \<^verbatim>\<open>next\<close> pointers from \<^verbatim>\<open>heap_start\<close>. Sizes and addresses
  are 64-bit words and wrap as \<^verbatim>\<open>size_t\<close> does. The invariant says that the blocks tile
  the heap area and that no two neighbours are free; with the blocks in use it determines
  the heap completely.
\<close>

record block_t =
  baddr :: u64
  bsize :: u64
  bfree :: bool

type_synonym heap = "block_t list"

definition sizeof_block :: u64 where
  "sizeof_block = 24"

definition heap_init :: "u64 \<Rightarrow> u64 \<Rightarrow> heap" where
  "heap_init heap_start_ptr heap_size =
     [\<lparr>baddr = heap_start_ptr, bsize = heap_size - sizeof_block, bfree = True\<rparr>]"

fun memory_alloc :: "heap \<Rightarrow> u64 \<Rightarrow> heap \<times> u64" where
  "memory_alloc [] sz = ([], 0)"
| "memory_alloc (cur # rest) sz =
     (if bfree cur \<and> bsize cur \<ge> sz then
        if bsize cur > sz + sizeof_block + 8 then
          (cur\<lparr>bsize := sz, bfree := False\<rparr> #
           \<lparr>baddr = baddr cur + sizeof_block + sz,
            bsize = bsize cur - sz - sizeof_block, bfree = True\<rparr> # rest,
           baddr cur + sizeof_block)
        else (cur\<lparr>bfree := False\<rparr> # rest, baddr cur + sizeof_block)
      else (let (rest', p) = memory_alloc rest sz in (cur # rest', p)))"

fun heap_merge :: "heap \<Rightarrow> heap" where
  "heap_merge (cur # nxt # rest) =
     (if bfree cur \<and> bfree nxt
      then heap_merge (cur\<lparr>bsize := bsize cur + (sizeof_block + bsize nxt)\<rparr> # rest)
      else cur # heap_merge (nxt # rest))"
| "heap_merge h = h"

definition memory_free :: "heap \<Rightarrow> u64 \<Rightarrow> heap" where
  "memory_free h ptr =
     (if ptr = 0 then h
      else heap_merge (map (\<lambda>b. if baddr b = ptr - sizeof_block then b\<lparr>bfree := True\<rparr> else b) h))"

subsection \<open>The invariant\<close>

text \<open>
  \<open>layout a e h\<close>: the blocks tile the addresses from \<open>a\<close> to \<open>e\<close>, each header directly
  behind the payload of the one before. \<open>coalesced\<close>: no two neighbours are free.
\<close>

fun layout :: "nat \<Rightarrow> nat \<Rightarrow> heap \<Rightarrow> bool" where
  "layout a e [] \<longleftrightarrow> a = e"
| "layout a e (b # bs) \<longleftrightarrow> unat (baddr b) = a \<and> layout (a + 24 + unat (bsize b)) e bs"

fun coalesced :: "heap \<Rightarrow> bool" where
  "coalesced (b # c # bs) \<longleftrightarrow> \<not> (bfree b \<and> bfree c) \<and> coalesced (c # bs)"
| "coalesced _ \<longleftrightarrow> True"

definition heap_inv :: "nat \<Rightarrow> nat \<Rightarrow> heap \<Rightarrow> bool" where
  "heap_inv a e h \<longleftrightarrow> 8 \<le> a \<and> e < 2 ^ 64 \<and> layout a e h \<and> coalesced h"

definition used :: "heap \<Rightarrow> block_t list" where
  "used h = filter (\<lambda>b. \<not> bfree b) h"

lemma used_simps [simp, heap_simps]:
  "used [] = []"
  "used (b # bs) = (if bfree b then used bs else b # used bs)"
  by (simp_all add: used_def)

lemma layout_le: "layout a e h \<Longrightarrow> a \<le> e"
  by (induction h arbitrary: a) force+

lemma layout_addr_ge: "layout a e h \<Longrightarrow> b \<in> set h \<Longrightarrow> a \<le> unat (baddr b)"
  by (induction h arbitrary: a) force+

lemma layout_block_le: "layout a e h \<Longrightarrow> b \<in> set h \<Longrightarrow> unat (baddr b) + 24 + unat (bsize b) \<le> e"
  by (induction h arbitrary: a) (auto dest: layout_le)

lemma layout_distinct: "layout a e h \<Longrightarrow> distinct (map baddr h)"
proof (induction h arbitrary: a)
  case (Cons b bs)
  then show ?case
    using layout_addr_ge [of "a + 24 + unat (bsize b)" e bs] by force
qed simp

lemma coalesced_Cons: "coalesced (b # bs) \<Longrightarrow> coalesced bs"
  by (cases bs) auto

lemma coalesced_hd_cong:
  "coalesced (b # bs) \<Longrightarrow> bfree b' = bfree b \<Longrightarrow> coalesced (b' # bs)"
  by (cases bs) auto

lemma coalesced_used_Cons: "coalesced bs \<Longrightarrow> \<not> bfree b \<Longrightarrow> coalesced (b # bs)"
  by (cases bs) auto

subsection \<open>Allocation\<close>

lemma layout_split:
  assumes "layout a e (cur # rest)" "8 \<le> a" "e < 2 ^ 64"
    and "bsize cur > sz + sizeof_block + 8" "sz \<le> bsize cur"
  shows "layout a e (cur\<lparr>bsize := sz, bfree := False\<rparr> #
           \<lparr>baddr = baddr cur + sizeof_block + sz,
            bsize = bsize cur - sz - sizeof_block, bfree = True\<rparr> # rest)"
proof -
  have le: "a + 24 + unat (bsize cur) \<le> e" and a: "unat (baddr cur) = a"
    using assms(1) by (auto dest: layout_le)
  have s: "unat sz \<le> unat (bsize cur)" using assms(5) by (simp add: word_le_nat_alt)
  have 1: "unat (sz + sizeof_block) = unat sz + 24"
    and 2: "unat (baddr cur + sizeof_block + sz) = a + 24 + unat sz"
    and "unat (sz + sizeof_block + 8) = unat sz + 32"
    using le s a assms(2,3) by (simp_all add: sizeof_block_def unat_word_ariths)
  then have big: "unat sz + 32 < unat (bsize cur)" using assms(4) by (simp add: word_less_nat_alt)
  have "bsize cur - sz - sizeof_block = bsize cur - (sz + sizeof_block)" by simp
  then have 3: "unat (bsize cur - sz - sizeof_block) = unat (bsize cur) - unat sz - 24"
    using 1 big by (simp only: unat_sub word_le_nat_alt)
  from assms(1) big show ?thesis by (simp add: a 2 3) (simp add: ac_simps)
qed

lemma memory_alloc_layout:
  "layout a e h \<Longrightarrow> 8 \<le> a \<Longrightarrow> e < 2 ^ 64 \<Longrightarrow> layout a e (fst (memory_alloc h sz))"
proof (induction h arbitrary: a)
  case (Cons b bs)
  then show ?case using layout_split [of a e b bs sz] by (auto split: prod.split)
qed simp

lemma memory_alloc_coalesced: "coalesced h \<Longrightarrow> coalesced (fst (memory_alloc h sz))"
proof (induction h)
  case (Cons b bs)
  have tl: "coalesced bs" using Cons.prems by (rule coalesced_Cons)
  show ?case
  proof (cases "bfree b \<and> sz \<le> bsize b")
    case True
    with Cons.prems tl show ?thesis by (cases bs) auto
  next
    case False
    obtain bs' p where al: "memory_alloc bs sz = (bs', p)" by force
    have "coalesced bs'" using Cons.IH [OF tl] al by simp
    moreover have "bs \<noteq> [] \<Longrightarrow> bs' \<noteq> [] \<and> (bfree (hd bs') \<longrightarrow> bfree (hd bs))"
      using al by (cases bs) (auto split: if_splits prod.splits)
    moreover have "bs = [] \<Longrightarrow> bs' = []" using al by simp
    ultimately show ?thesis using Cons.prems False al 
      by (cases bs; cases bs') auto
  qed
qed simp

lemma memory_alloc_inv: "heap_inv a e h \<Longrightarrow> heap_inv a e (fst (memory_alloc h sz))"
  by (simp add: heap_inv_def memory_alloc_layout memory_alloc_coalesced)

lemma memory_alloc_null:
  assumes "heap_inv a e h"
  shows "snd (memory_alloc h sz) = 0 \<longleftrightarrow> (\<forall>b \<in> set h. bfree b \<longrightarrow> bsize b < sz)"
proof -
  have "8 \<le> a \<Longrightarrow> e < 2 ^ 64 \<Longrightarrow> layout a e h \<Longrightarrow> ?thesis"
  proof (induction h arbitrary: a)
    case (Cons b bs)
    have "unat (baddr b + sizeof_block) = a + 24"
      using Cons.prems by (auto simp: sizeof_block_def unat_word_ariths dest: layout_le)
    then have "baddr b + sizeof_block \<noteq> 0" by auto
    moreover have "snd (memory_alloc bs sz) = 0 \<longleftrightarrow> (\<forall>b \<in> set bs. bfree b \<longrightarrow> bsize b < sz)"
      using Cons by (intro Cons.IH [of "a + 24 + unat (bsize b)"]) auto
    ultimately show ?case by (auto simp: split_beta not_less dest: leD)
  qed simp
  then show ?thesis using assms by (simp add: heap_inv_def)
qed

lemma memory_alloc_null_same: "heap_inv a e h \<Longrightarrow> snd (memory_alloc h sz) = 0 \<Longrightarrow> fst (memory_alloc h sz) = h"
proof (unfold memory_alloc_null)
  show "\<forall>b\<in>set h. bfree b \<longrightarrow> bsize b < sz \<Longrightarrow> fst (memory_alloc h sz) = h"
    by (induction h) (auto split: prod.splits simp: not_less)
qed

lemma memory_alloc_used:
  assumes "snd (memory_alloc h sz) \<noteq> 0"
  shows "\<exists>us vs b. used h = us @ vs \<and> used (fst (memory_alloc h sz)) = us @ b # vs \<and>
    sz \<le> bsize b \<and> baddr b + sizeof_block = snd (memory_alloc h sz) \<and> \<not> bfree b \<and>
    (\<exists>f \<in> set h. bfree f \<and> baddr f = baddr b \<and> bsize b \<le> bsize f)"
  using assms
proof (induction h)
  case (Cons c cs)
  show ?case
  proof (cases "bfree c \<and> sz \<le> bsize c")
    case True
    then show ?thesis
      by (intro exI [of _ "[]"] exI [of _ "used cs"]) auto
  next
    case False
    then have "snd (memory_alloc cs sz) \<noteq> 0" using Cons.prems by (auto simp: split_beta)
    from Cons.IH [OF this] obtain us vs b where "used cs = us @ vs" "used (fst (memory_alloc cs sz)) = us @ b # vs"
      "sz \<le> bsize b" "baddr b + sizeof_block = snd (memory_alloc cs sz)" "\<not> bfree b"
      "\<exists>f \<in> set cs. bfree f \<and> baddr f = baddr b \<and> bsize b \<le> bsize f"
      by blast
    then show ?thesis using False
      by (intro exI [of _ "if bfree c then us else c # us"] exI [of _ vs] exI [of _ b])
        (auto simp: split_beta)
  qed
qed simp

lemma heap_merge_layout: "layout a e h \<Longrightarrow> e < 2 ^ 64 \<Longrightarrow> layout a e (heap_merge h)"
proof (induction h arbitrary: a rule: heap_merge.induct)
  case (1 cur nxt rest)
  have le: "a + 24 + unat (bsize cur) + 24 + unat (bsize nxt) \<le> e"
    using 1(3) by (auto dest: layout_le)
  then have "unat (bsize cur + (sizeof_block + bsize nxt)) = unat (bsize cur) + 24 + unat (bsize nxt)"
    using 1(4) by (simp add: sizeof_block_def unat_word_ariths)
  then show ?case using 1 by (auto simp: algebra_simps)
qed auto

lemma heap_merge_hd: "h \<noteq> [] \<Longrightarrow> heap_merge h \<noteq> [] \<and> bfree (hd (heap_merge h)) = bfree (hd h)"
  by (induction h rule: heap_merge.induct) auto

lemma heap_merge_coalesced: "coalesced (heap_merge h)"
proof (induction h rule: heap_merge.induct)
  case (1 cur nxt rest)
  then show ?case
    using heap_merge_hd [of "nxt # rest"]
    by (cases "heap_merge (nxt # rest)") auto
qed auto

lemma heap_merge_used [simp]: "used (heap_merge h) = used h"
  by (induction h rule: heap_merge.induct) auto

text \<open>A coalesced heap is determined by its blocks in use.\<close>

lemma used_addr_gt:
  "layout a e (b # bs) \<Longrightarrow> c \<in> set (used bs) \<Longrightarrow> unat (baddr c) \<ge> a + 24 + unat (bsize b)"
  using layout_addr_ge [of "a + 24 + unat (bsize b)" e bs c] by (auto simp: used_def)

lemma free_gap_le:
  assumes "layout a e (b # bs)" "layout a e (c # cs)" "coalesced (b # bs)" "bfree b" "used bs = used cs"
  shows "unat (bsize c) \<le> unat (bsize b)"
proof (cases bs)
  case Nil
  then show ?thesis using assms by (auto dest: layout_le)
next
  case (Cons d ds)
  then have "d \<in> set (used cs)" using assms(3,4) assms(5) [symmetric] by simp
  then show ?thesis using used_addr_gt [OF assms(2), of d] assms(1) Cons by auto
qed

lemma heap_canonical:
  "layout a e h \<Longrightarrow> layout a e h' \<Longrightarrow> coalesced h \<Longrightarrow> coalesced h' \<Longrightarrow> used h = used h' \<Longrightarrow> h = h'"
proof (induction h arbitrary: a h')
  case Nil
  then show ?case by (cases h') (auto dest: layout_le)
next
  case (Cons b bs)
  then obtain c cs where h': "h' = c # cs"
    by (cases h') (auto dest: layout_le)
  have addr: "baddr b = baddr c" using Cons.prems h' by (simp add: unat_eq_iff)
  have free: "bfree b = bfree c"
    using used_addr_gt [of a e b bs c] used_addr_gt [of a e c cs b] Cons.prems h' 
    by (auto split: if_splits dest: sym [of "_ # _" "used _"])
  have "b = c"
  proof (cases "bfree b")
    case True
    then have "unat (bsize b) = unat (bsize c)"
      using free Cons.prems h' free_gap_le [of a e b bs c cs] free_gap_le [of a e c cs b bs] by auto
    then show ?thesis using addr free by (simp add: unat_eq_iff)
  qed (use free Cons.prems h' in auto)
  then show ?case using Cons h' by (auto dest: coalesced_Cons split: if_splits)
qed

subsection \<open>Freeing\<close>

definition set_free :: "u64 \<Rightarrow> heap \<Rightarrow> heap" where
  "set_free ad h = map (\<lambda>b. if baddr b = ad then b\<lparr>bfree := True\<rparr> else b) h"

lemma layout_set_free [simp]: "layout a e (set_free ad h) = layout a e h"
  by (induction h arbitrary: a) (auto simp: set_free_def)

lemma used_set_free [simp]: "used (set_free ad h) = filter (\<lambda>b. baddr b \<noteq> ad) (used h)"
  by (induction h) (auto simp: set_free_def)

lemma memory_free_alt: "memory_free h p = (if p = 0 then h else heap_merge (set_free (p - sizeof_block) h))"
  by (simp add: memory_free_def set_free_def)

lemma memory_free_inv: "heap_inv a e h \<Longrightarrow> heap_inv a e (memory_free h p)"
  by (simp add: heap_inv_def memory_free_alt heap_merge_layout heap_merge_coalesced)

lemma memory_free_used:
  "p \<noteq> 0 \<Longrightarrow> used (memory_free h p) = filter (\<lambda>b. baddr b \<noteq> p - sizeof_block) (used h)"
  by (simp add: memory_free_alt)

lemma used_distinct: "layout a e h \<Longrightarrow> distinct (map baddr (used h))"
  by (auto dest: layout_distinct simp: used_def distinct_map_filter)

lemma alloc_free_used:
  assumes "heap_inv a e h" "memory_alloc h sz = (h', p)" "p \<noteq> 0"
  shows "used (memory_free h' p) = used h"
proof -
  obtain us vs b where u: "used h = us @ vs" "used h' = us @ b # vs" "baddr b + sizeof_block = p"
    using memory_alloc_used [of h sz] assms(2,3) by auto
  have "layout a e h'" using memory_alloc_inv [OF assms(1), of sz] assms(2) by (simp add: heap_inv_def)
  from used_distinct [OF this] u(2) have "\<forall>c \<in> set (us @ vs). baddr c \<noteq> baddr b"
    by (fastforce simp: image_iff)
  then have "filter (\<lambda>c. baddr c \<noteq> baddr b) (us @ vs) = us @ vs" by simp
  then show ?thesis using u assms(3) by (auto simp: memory_free_used)
qed

lemma heap_inv_eqI: "heap_inv a e h \<Longrightarrow> heap_inv a e h' \<Longrightarrow> used h = used h' \<Longrightarrow> h = h'"
  unfolding heap_inv_def by (blast intro: heap_canonical)

lemma heap_init_inv:
  assumes "8 \<le> unat p" "24 \<le> unat n" "unat p + unat n < 2 ^ 64"
  shows "heap_inv (unat p) (unat p + unat n) (heap_init p n)"
proof -
  have "unat (n - sizeof_block) = unat n - 24" using assms by (simp add: sizeof_block_def unat_sub word_le_nat_alt)
  then show ?thesis using assms by (simp add: heap_inv_def heap_init_def)
qed

lemma layout_disjoint:
  "layout a e h \<Longrightarrow> b \<in> set h \<Longrightarrow> c \<in> set h \<Longrightarrow> b \<noteq> c \<Longrightarrow>
     unat (baddr b) + 24 + unat (bsize b) \<le> unat (baddr c) \<or> unat (baddr c) + 24 + unat (bsize c) \<le> unat (baddr b)"
proof (induction h arbitrary: a)
  case (Cons d ds)
  then show ?case using layout_addr_ge [of "a + 24 + unat (bsize d)" e ds] by fastforce
qed simp

subsection \<open>The allocator as an interface\<close>

text \<open>
  What the rest of the kernel relies on: allocation and release keep the invariant, a
  refused request changes nothing, and releasing what was allocated, in either order,
  gives the heap back as it was. The filesystem code uses one or two scratch buffers at a
  time; the lemmas below say that such a use leaves no trace in the heap.
\<close>

locale allocator =
  fixes alloc :: "'h \<Rightarrow> u64 \<Rightarrow> 'h \<times> u64"
    and release :: "'h \<Rightarrow> u64 \<Rightarrow> 'h"
    and inv :: "'h \<Rightarrow> bool"
  assumes alloc_inv: "inv h \<Longrightarrow> inv (fst (alloc h n))"
    and release_inv: "inv h \<Longrightarrow> inv (release h p)"
    and refused: "inv h \<Longrightarrow> snd (alloc h n) = 0 \<Longrightarrow> fst (alloc h n) = h"
    and restored: "inv h \<Longrightarrow> alloc h n = (h', p) \<Longrightarrow> p \<noteq> 0 \<Longrightarrow> release h' p = h"
    and restored_swapped: "inv h \<Longrightarrow> alloc h n = (h', p) \<Longrightarrow> p \<noteq> 0 \<Longrightarrow>
      alloc h' m = (h'', q) \<Longrightarrow> q \<noteq> 0 \<Longrightarrow> release (release h'' p) q = h"
begin

lemma scratch:
  assumes "inv h" "alloc h n = (h', p)"
  shows "(if p = 0 then h' else release h' p) = h"
  using assms refused [of h n] restored [of h n h' p] by auto

lemma scratch_nested:
  assumes "inv h" "alloc h n = (h', p)" "p \<noteq> 0" "alloc h' m = (h'', q)" "q \<noteq> 0"
  shows "release (release h'' q) p = h" "release (release h'' p) q = h"
proof -
  have "inv h'" using alloc_inv [OF assms(1), of n] assms(2) by simp
  then have "release h'' q = h'" using assms(4,5) by (rule restored)
  then show "release (release h'' q) p = h" using restored assms by simp
  show "release (release h'' p) q = h" using assms by (rule restored_swapped)
qed

end

lemma used_alloc2_swapped:
  assumes "heap_inv a e h" "memory_alloc h n = (h', p)" "p \<noteq> 0" "memory_alloc h' m = (h'', q)" "q \<noteq> 0"
  shows "used (memory_free (memory_free h'' p) q) = used h"
proof -
  have inv': "heap_inv a e h'" using memory_alloc_inv [OF assms(1), of n] assms(2) by simp
  have "used (memory_free (memory_free h'' p) q) = used (memory_free (memory_free h'' q) p)"
    using assms(3,5) by (simp add: memory_free_used conj_commute)
  also have "\<dots> = filter (\<lambda>b. baddr b \<noteq> p - sizeof_block) (used h')"
    using assms(3) alloc_free_used [OF inv' assms(4,5)] by (simp add: memory_free_used)
  also have "\<dots> = used h"
    using alloc_free_used [OF assms(1-3)] assms(3) by (simp add: memory_free_used)
  finally show ?thesis .
qed

interpretation kheap: allocator memory_alloc memory_free "heap_inv a e" for a e
proof (unfold_locales, goal_cases)
  case (1 h n) then show ?case by (rule memory_alloc_inv)
next
  case (2 h p) then show ?case by (rule memory_free_inv)
next
  case (3 h n) then show ?case by (rule memory_alloc_null_same)
next
  case (4 h n h' p)
  have "heap_inv a e h'" using memory_alloc_inv [OF 4(1), of n] 4(2) by simp
  then have "heap_inv a e (memory_free h' p)" by (rule memory_free_inv)
  then show ?case using 4 by (blast intro: heap_inv_eqI alloc_free_used)
next
  case (5 h n h' p m h'' q)
  have "heap_inv a e h''"
    using memory_alloc_inv [OF memory_alloc_inv [OF 5(1), of n], of m] 5(2,4) by simp
  then have "heap_inv a e (memory_free (memory_free h'' p) q)" by (intro memory_free_inv)
  then show ?case using 5 by (blast intro: heap_inv_eqI used_alloc2_swapped)
qed

subsection \<open>Histories of the heap\<close>

datatype heap_op = Alloc u64 | Free u64

fun heap_run :: "heap \<Rightarrow> heap_op list \<Rightarrow> heap" where
  "heap_run h [] = h"
| "heap_run h (Alloc n # ops) = heap_run (fst (memory_alloc h n)) ops"
| "heap_run h (Free p # ops) = heap_run (memory_free h p) ops"

lemma heap_run_inv: "heap_inv a e h \<Longrightarrow> heap_inv a e (heap_run h ops)"
  by (induction h ops rule: heap_run.induct) (auto intro: memory_alloc_inv memory_free_inv)

lemma heap_init_unused: "used (heap_init p n) = []"
  by (simp add: heap_init_def)

subsection \<open>Properties\<close>

text \<open>C1: a successful allocation takes a block out of a free one: the blocks in use before stay
  exactly as they were, the new one is large enough, starts one header behind the block
  it is carved from, and its payload overlaps no other block; the invariant is kept.\<close>

theorem memory_alloc_correct:
  assumes "heap_inv a e h" "memory_alloc h sz = (h', p)" "p \<noteq> 0"
  shows "heap_inv a e h' \<and> (\<exists>us vs b. used h = us @ vs \<and> used h' = us @ b # vs \<and> sz \<le> bsize b \<and>
    p = baddr b + sizeof_block \<and>
    (\<forall>c \<in> set (us @ vs). unat (baddr c) + 24 + unat (bsize c) \<le> unat (baddr b) \<or>
       unat (baddr b) + 24 + unat (bsize b) \<le> unat (baddr c)))"
proof -
  have inv: "heap_inv a e h'" using memory_alloc_inv [OF assms(1), of sz] assms(2) by simp
  obtain us vs b where u: "used h = us @ vs" "used h' = us @ b # vs" "sz \<le> bsize b"
    "p = baddr b + sizeof_block"
    using memory_alloc_used [of h sz] assms(2,3) by auto
  have lay: "layout a e h'" using inv by (simp add: heap_inv_def)
  have in_h': "x \<in> set h'" if "x \<in> set (us @ b # vs)" for x
    using that u(2) [symmetric] by (simp add: used_def)
  have "c \<noteq> b" if "c \<in> set (us @ vs)" for c
    using used_distinct [OF lay] that u(2) by auto
  then have "\<forall>c \<in> set (us @ vs). unat (baddr c) + 24 + unat (bsize c) \<le> unat (baddr b) \<or>
       unat (baddr b) + 24 + unat (bsize b) \<le> unat (baddr c)"
    using layout_disjoint [OF lay] in_h' by (metis UnCI UnE list.set_intros set_append)
  then show ?thesis using inv u by blast
qed

theorem memory_alloc_correct_witness:
  "heap_inv 0x200000 0x400000 (fst (memory_alloc (heap_init 0x200000 0x200000) 4096))"
proof -
  let ?h = "heap_init 0x200000 0x200000"
  have inv: "heap_inv 0x200000 0x400000 ?h"
    using heap_init_inv [of "0x200000" "0x200000"] by simp
  have "memory_alloc ?h 4096 = (fst (memory_alloc ?h 4096), 0x200018)"
    by (simp add: heap_init_def sizeof_block_def)
  from memory_alloc_correct [OF inv this] show ?thesis by simp
qed

text \<open>An allocation fails exactly when no free block is large enough, and then the heap is
  unchanged.\<close>

theorem memory_alloc_fails_iff:
  assumes "heap_inv a e h"
  shows "(snd (memory_alloc h sz) = 0 \<longleftrightarrow> (\<forall>b \<in> set h. bfree b \<longrightarrow> bsize b < sz)) \<and>
    (snd (memory_alloc h sz) = 0 \<longrightarrow> fst (memory_alloc h sz) = h)"
  using memory_alloc_null [OF assms] memory_alloc_null_same [OF assms] by blast

theorem memory_alloc_fails_iff_witness:
  "snd (memory_alloc (heap_init 0x200000 0x200000) 0x200000) = 0"
proof -
  have "heap_inv 0x200000 0x400000 (heap_init 0x200000 0x200000)"
    using heap_init_inv [of "0x200000" "0x200000"] by simp
  from memory_alloc_fails_iff [OF this] show ?thesis
    by (simp add: heap_init_def sizeof_block_def)
qed

text \<open>Releasing a block that was just allocated restores the heap exactly: the split of the
  free block is undone by the merge, whatever the rest of the heap looks like.\<close>

theorem memory_free_undoes_alloc:
  assumes "heap_inv a e h" "memory_alloc h sz = (h', p)"
  shows "memory_free h' p = h"
proof (cases "p = 0")
  case True
  then show ?thesis using kheap.refused [OF assms(1), of sz] assms(2) by (simp add: memory_free_def)
next
  case False
  with assms show ?thesis by (rule kheap.restored)
qed

theorem memory_free_undoes_alloc_witness:
  "memory_free (fst (memory_alloc (heap_init 0x200000 0x200000) 100)) 0x200018
     = heap_init 0x200000 0x200000"
proof -
  have "heap_inv 0x200000 0x400000 (heap_init 0x200000 0x200000)"
    using heap_init_inv [of "0x200000" "0x200000"] by simp
  moreover have "memory_alloc (heap_init 0x200000 0x200000) 100 =
    (fst (memory_alloc (heap_init 0x200000 0x200000) 100), 0x200018)"
    by (simp add: heap_init_def sizeof_block_def)
  ultimately show ?thesis by (rule memory_free_undoes_alloc)
qed

text \<open>C21: after any history of allocations and releases in which every block has been given back,
  the heap is again the single free block it was initialised to: no fragmentation stays behind.\<close>

theorem heap_recovers:
  assumes "8 \<le> unat p" "24 \<le> unat n" "unat p + unat n < 2 ^ 64"
    and "used (heap_run (heap_init p n) ops) = []"
  shows "heap_run (heap_init p n) ops = heap_init p n"
proof (rule heap_inv_eqI)
  show "heap_inv (unat p) (unat p + unat n) (heap_run (heap_init p n) ops)"
    using heap_init_inv [OF assms(1-3)] by (rule heap_run_inv)
qed (use heap_init_inv [OF assms(1-3)] assms(4) in \<open>simp_all add: heap_init_unused\<close>)

theorem heap_recovers_witness:
  "heap_run (heap_init 0x200000 0x200000) [Alloc 100, Alloc 8, Free 0x200018, Free 0x200094]
     = heap_init 0x200000 0x200000"
proof -
  have "used (heap_run (heap_init 0x200000 0x200000) [Alloc 100, Alloc 8, Free 0x200018, Free 0x200094]) = []"
    by (simp add: heap_init_def sizeof_block_def memory_free_def)
  then show ?thesis by (intro heap_recovers) simp_all
qed

end
