(* ===== verification/Tinyfs.thy ===== *)
theory Tinyfs
  imports Heap
begin

text \<open>
  The on-disk file system of \<^verbatim>\<open>kernel/fs/tinyfs.c\<close>: superblock, inodes and directory
  entries as they lie in 4096-byte blocks, the two bitmaps, and the operations on them. The
  functions use the sector operations of the disk driver, which are an argument here
  (\<open>disk_ops\<close>, instantiated by the driver in \<open>Ata\<close>), and a 4096-byte buffer of the kernel
  heap for every block they touch. Buffers are values; the allocation and release of
  their memory is done on the heap of the state.
\<close>

record 'd disk_ops =
  d_read :: "u32 \<Rightarrow> u8 \<Rightarrow> 'd \<Rightarrow> 'd \<times> bytes option"
  d_write :: "u32 \<Rightarrow> u8 \<Rightarrow> bytes \<Rightarrow> 'd \<Rightarrow> 'd \<times> int"

record tinyfs_superblock_t =
  magic :: u64
  total_blocks :: u64
  inode_count :: u64
  block_size :: u32
  root_inode :: u32
  inode_bitmap_block :: u64
  block_bitmap_block :: u64
  inode_table_block :: u64
  sb_padding :: bytes

record tinyfs_inode_t =
  mode :: u16
  uid :: u16
  isize :: u32
  atime :: u64
  mtime :: u64
  ctime :: u64
  direct_block :: u32
  indirect_block :: u32
  refcount :: u32
  padding1 :: u32
  padding2 :: bytes

record 'd fsys =
  fs_heap :: heap
  dev :: 'd
  sb :: tinyfs_superblock_t
  cwd_inum :: u32

definition TINYFS_MAGIC :: u64 where "TINYFS_MAGIC = 0x53465300"
definition TINYFS_BLOCK_SIZE :: nat where "TINYFS_BLOCK_SIZE = 4096"
definition TINYFS_SUPER_BLOCK :: u32 where "TINYFS_SUPER_BLOCK = 16"
definition TINYFS_DIRENTS_PER_BLOCK :: nat where "TINYFS_DIRENTS_PER_BLOCK = TINYFS_BLOCK_SIZE div 32"
definition TINYFS_TYPE_FILE :: u16 where "TINYFS_TYPE_FILE = 0x8000"
definition TINYFS_TYPE_DIR :: u16 where "TINYFS_TYPE_DIR = 0x4000"
definition ATA_SECTOR_SIZE :: nat where "ATA_SECTOR_SIZE = 512"

subsection \<open>Structures in blocks\<close>

definition get_superblock :: "bytes \<Rightarrow> tinyfs_superblock_t" where
  "get_superblock b = \<lparr>magic = le_word (get_at 0 8 b), total_blocks = le_word (get_at 8 8 b),
     inode_count = le_word (get_at 16 8 b), block_size = le_word (get_at 24 4 b),
     root_inode = le_word (get_at 28 4 b), inode_bitmap_block = le_word (get_at 32 8 b),
     block_bitmap_block = le_word (get_at 40 8 b), inode_table_block = le_word (get_at 48 8 b),
     sb_padding = get_at 56 8 b\<rparr>"

definition inode_bytes :: "tinyfs_inode_t \<Rightarrow> bytes" where
  "inode_bytes i = le_bytes 2 (mode i) @ le_bytes 2 (uid i) @ le_bytes 4 (isize i) @ le_bytes 8 (atime i) @
     le_bytes 8 (mtime i) @ le_bytes 8 (ctime i) @ le_bytes 4 (direct_block i) @ le_bytes 4 (indirect_block i) @
     le_bytes 4 (refcount i) @ le_bytes 4 (padding1 i) @ padding2 i"

definition get_inode :: "bytes \<Rightarrow> tinyfs_inode_t" where
  "get_inode b = \<lparr>mode = le_word (get_at 0 2 b), uid = le_word (get_at 2 2 b), isize = le_word (get_at 4 4 b),
     atime = le_word (get_at 8 8 b), mtime = le_word (get_at 16 8 b), ctime = le_word (get_at 24 8 b),
     direct_block = le_word (get_at 32 4 b), indirect_block = le_word (get_at 36 4 b),
     refcount = le_word (get_at 40 4 b), padding1 = le_word (get_at 44 4 b), padding2 = get_at 48 16 b\<rparr>"

definition zero_inode :: tinyfs_inode_t where
  "zero_inode = \<lparr>mode = 0, uid = 0, isize = 0, atime = 0, mtime = 0, ctime = 0, direct_block = 0,
     indirect_block = 0, refcount = 0, padding1 = 0, padding2 = replicate 16 0\<rparr>"

text \<open>The entry \<open>i\<close> of a directory block: its inode number, and a pointer to its name.\<close>

definition ent_inode :: "bytes \<Rightarrow> nat \<Rightarrow> u32" where
  "ent_inode b i = le_word (get_at (32 * i) 4 b)"

definition ent_name :: "bytes \<Rightarrow> nat \<Rightarrow> bytes" where
  "ent_name b i = drop (32 * i + 4) b"

subsection \<open>Blocks\<close>

definition block_to_lba :: "u32 \<Rightarrow> u32" where
  "block_to_lba bnum = bnum * of_nat (TINYFS_BLOCK_SIZE div ATA_SECTOR_SIZE)"

definition read_blocks :: "'d disk_ops \<Rightarrow> u32 \<Rightarrow> u8 \<Rightarrow> 'd fsys \<Rightarrow> 'd fsys \<times> bytes option" where
  "read_blocks D bnum count s =
     (let (d, r) = d_read D (block_to_lba bnum) (count * of_nat (TINYFS_BLOCK_SIZE div ATA_SECTOR_SIZE)) (dev s)
      in (s\<lparr>dev := d\<rparr>, r))"

definition write_blocks :: "'d disk_ops \<Rightarrow> u32 \<Rightarrow> u8 \<Rightarrow> bytes \<Rightarrow> 'd fsys \<Rightarrow> 'd fsys \<times> int" where
  "write_blocks D bnum count buf s =
     (let (d, r) = d_write D (block_to_lba bnum) (count * of_nat (TINYFS_BLOCK_SIZE div ATA_SECTOR_SIZE)) buf (dev s)
      in (s\<lparr>dev := d\<rparr>, r))"

text \<open>
  The frame of nearly every function below: a buffer of one block is allocated, \<open>fail\<close> is
  returned if there is none, and the buffer is released on every way out of the body.
\<close>

definition with_buf :: "'r \<Rightarrow> ('d fsys \<Rightarrow> 'd fsys \<times> 'r) \<Rightarrow> 'd fsys \<Rightarrow> 'd fsys \<times> 'r" where
  "with_buf fail body s =
     (let (h, p) = memory_alloc (fs_heap s) (of_nat TINYFS_BLOCK_SIZE) in
      if p = 0 then (s\<lparr>fs_heap := h\<rparr>, fail)
      else (let (s', r) = body (s\<lparr>fs_heap := h\<rparr>) in (s'\<lparr>fs_heap := memory_free (fs_heap s') p\<rparr>, r)))"

definition bitmap_test :: "bytes \<Rightarrow> nat \<Rightarrow> bool" where
  "bitmap_test bitmap i = (drop_bit (i mod 8) (bitmap ! (i div 8)) AND 1 \<noteq> 0)"

definition bitmap_set :: "bytes \<Rightarrow> nat \<Rightarrow> bytes" where
  "bitmap_set bitmap i = bitmap[i div 8 := bitmap ! (i div 8) OR push_bit (i mod 8) 1]"

definition bitmap_clear :: "bytes \<Rightarrow> nat \<Rightarrow> bytes" where
  "bitmap_clear bitmap i = bitmap[i div 8 := bitmap ! (i div 8) AND NOT (push_bit (i mod 8) 1)]"

definition tinyfs_init :: "'d disk_ops \<Rightarrow> 'd fsys \<Rightarrow> 'd fsys \<times> int" where
  "tinyfs_init D = with_buf (-1) (\<lambda>s.
     case read_blocks D TINYFS_SUPER_BLOCK 1 s of
       (s, None) \<Rightarrow> (s, -1)
     | (s, Some buf) \<Rightarrow>
         (let sp = get_superblock buf in
          if magic sp \<noteq> TINYFS_MAGIC then (s, -1) else (s\<lparr>sb := sp\<rparr>, 0)))"

definition inode_block :: "'d fsys \<Rightarrow> u32 \<Rightarrow> u32" where
  "inode_block s inum = ucast (inode_table_block (sb s) + ucast inum div 64)"

definition inode_offset :: "u32 \<Rightarrow> nat" where
  "inode_offset inum = unat (inum mod 64)"

definition tinyfs_read_inode :: "'d disk_ops \<Rightarrow> u32 \<Rightarrow> 'd fsys \<Rightarrow> 'd fsys \<times> tinyfs_inode_t option" where
  "tinyfs_read_inode D inum s =
     (if inode_count (sb s) \<le> ucast inum then (s, None)
      else with_buf None (\<lambda>s.
        case read_blocks D (inode_block s inum) 1 s of
          (s, None) \<Rightarrow> (s, None)
        | (s, Some buf) \<Rightarrow> (s, Some (get_inode (get_at (64 * inode_offset inum) 64 buf)))) s)"

definition tinyfs_write_inode :: "'d disk_ops \<Rightarrow> u32 \<Rightarrow> tinyfs_inode_t \<Rightarrow> 'd fsys \<Rightarrow> 'd fsys \<times> int" where
  "tinyfs_write_inode D inum inode s =
     (if inode_count (sb s) \<le> ucast inum then (s, -1)
      else with_buf (-1) (\<lambda>s.
        case read_blocks D (inode_block s inum) 1 s of
          (s, None) \<Rightarrow> (s, -1)
        | (s, Some buf) \<Rightarrow>
            write_blocks D (inode_block s inum) 1 (put_at (64 * inode_offset inum) (inode_bytes inode) buf) s) s)"

definition tinyfs_read_block :: "'d disk_ops \<Rightarrow> u32 \<Rightarrow> 'd fsys \<Rightarrow> 'd fsys \<times> bytes option" where
  "tinyfs_read_block D bnum s =
     (if total_blocks (sb s) \<le> ucast bnum then (s, None) else read_blocks D bnum 1 s)"

definition tinyfs_write_block :: "'d disk_ops \<Rightarrow> u32 \<Rightarrow> bytes \<Rightarrow> 'd fsys \<Rightarrow> 'd fsys \<times> int" where
  "tinyfs_write_block D bnum buf s =
     (if total_blocks (sb s) \<le> ucast bnum then (s, -1) else write_blocks D bnum 1 buf s)"

subsection \<open>Bitmaps\<close>

primrec first_clear :: "bytes \<Rightarrow> nat \<Rightarrow> nat \<Rightarrow> nat option" where
  "first_clear bitmap i 0 = None"
| "first_clear bitmap i (Suc n) =
     (if \<not> bitmap_test bitmap i then Some i else first_clear bitmap (Suc i) n)"

definition tinyfs_block_alloc :: "'d disk_ops \<Rightarrow> 'd fsys \<Rightarrow> 'd fsys \<times> int" where
  "tinyfs_block_alloc D = with_buf (-1) (\<lambda>s.
     case read_blocks D (ucast (block_bitmap_block (sb s))) 1 s of
       (s, None) \<Rightarrow> (s, -1)
     | (s, Some bitmap) \<Rightarrow>
         (case first_clear bitmap 0 (unat (total_blocks (sb s))) of
            None \<Rightarrow> (s, -1)
          | Some i \<Rightarrow> (fst (write_blocks D (ucast (block_bitmap_block (sb s))) 1 (bitmap_set bitmap i) s), int i)))"

definition tinyfs_block_free :: "'d disk_ops \<Rightarrow> u32 \<Rightarrow> 'd fsys \<Rightarrow> 'd fsys" where
  "tinyfs_block_free D bnum s = fst (with_buf () (\<lambda>s.
     case read_blocks D (ucast (block_bitmap_block (sb s))) 1 s of
       (s, None) \<Rightarrow> (s, ())
     | (s, Some bitmap) \<Rightarrow>
         (fst (write_blocks D (ucast (block_bitmap_block (sb s))) 1 (bitmap_clear bitmap (unat bnum)) s), ())) s)"

definition tinyfs_inode_alloc :: "'d disk_ops \<Rightarrow> 'd fsys \<Rightarrow> 'd fsys \<times> int" where
  "tinyfs_inode_alloc D s =
     (case with_buf (-1) (\<lambda>s.
        case read_blocks D (ucast (inode_bitmap_block (sb s))) 1 s of
          (s, None) \<Rightarrow> (s, -1)
        | (s, Some bitmap) \<Rightarrow>
            (case first_clear bitmap 1 (unat (inode_count (sb s)) - 1) of
               None \<Rightarrow> (s, -1)
             | Some i \<Rightarrow> (fst (write_blocks D (ucast (inode_bitmap_block (sb s))) 1 (bitmap_set bitmap i) s), int i))) s
      of (s, i) \<Rightarrow>
        if i < 0 then (s, -1)
        else (fst (tinyfs_write_inode D (word_of_int i) (zero_inode\<lparr>refcount := 1\<rparr>) s), i))"

definition tinyfs_inode_free :: "'d disk_ops \<Rightarrow> u32 \<Rightarrow> 'd fsys \<Rightarrow> 'd fsys" where
  "tinyfs_inode_free D inum s =
     (if inode_count (sb s) \<le> ucast inum then s
      else fst (with_buf () (\<lambda>s.
        case read_blocks D (ucast (inode_bitmap_block (sb s))) 1 s of
          (s, None) \<Rightarrow> (s, ())
        | (s, Some bitmap) \<Rightarrow>
            (fst (write_blocks D (ucast (inode_bitmap_block (sb s))) 1 (bitmap_clear bitmap (unat inum)) s), ())) s))"

subsection \<open>Directories\<close>

fun name_match :: "bytes \<Rightarrow> bytes \<Rightarrow> int" where
  "name_match (c # a) (d # b) =
     (if c \<noteq> 0 \<and> d \<noteq> 0 \<and> c = d then name_match a b else uint c - uint d)"
| "name_match a b = uint (chr_at a 0) - uint (chr_at b 0)"

definition free_entry :: "bytes \<Rightarrow> nat option" where
  "free_entry block = find (\<lambda>i. chr_at (ent_name block i) 0 = 0) [0..<TINYFS_DIRENTS_PER_BLOCK]"

definition set_entry :: "bytes \<Rightarrow> nat \<Rightarrow> u32 \<Rightarrow> bytes \<Rightarrow> bytes" where
  "set_entry block i ent_inum name =
     put_at (32 * i + 4) (take 27 (cstr name) @ [0]) (put_at (32 * i) (le_bytes 4 ent_inum) block)"

definition tinyfs_add_dirent :: "'d disk_ops \<Rightarrow> u32 \<Rightarrow> u32 \<Rightarrow> bytes \<Rightarrow> 'd fsys \<Rightarrow> 'd fsys \<times> int" where
  "tinyfs_add_dirent D dir_inum ent_inum name s =
     (case tinyfs_read_inode D dir_inum s of
        (s, None) \<Rightarrow> (s, -1)
      | (s, Some dir_inode) \<Rightarrow>
     if mode dir_inode AND TINYFS_TYPE_DIR = 0 then (s, -1)
     else (let (s, dir) =
             (if direct_block dir_inode = 0 then
                (let (s, block) = tinyfs_block_alloc D s in
                 if block < 0 then (s, None)
                 else (s, Some (dir_inode\<lparr>direct_block := word_of_int block, isize := 0\<rparr>)))
              else (s, Some dir_inode))
           in case dir of None \<Rightarrow> (s, -1)
       | Some dir_inode \<Rightarrow>
           (let (s, r) = with_buf (Inl (-1)) (\<lambda>s.
              case tinyfs_read_block D (direct_block dir_inode) s of
                (s, None) \<Rightarrow> (s, Inl (-1))
              | (s, Some block) \<Rightarrow>
                  (case free_entry block of
                     None \<Rightarrow> (s, Inl (-2))
                   | Some found \<Rightarrow>
                       (let block = set_entry block found ent_inum name;
                            new_size = (int found + 1) * 32;
                            dir_inode = (if new_size > sint (isize dir_inode)
                                         then dir_inode\<lparr>isize := word_of_int new_size\<rparr> else dir_inode);
                            (s, w) = tinyfs_write_block D (direct_block dir_inode) block s
                        in if w < 0 then (s, Inl (-1)) else (s, Inr dir_inode)))) s
            in case r of
                 Inl code \<Rightarrow> (s, code)
               | Inr dir_inode \<Rightarrow>
                   (let (s, w) = tinyfs_write_inode D dir_inum dir_inode s in (s, if w < 0 then -1 else 0)))))"

definition match_entry :: "bytes \<Rightarrow> bytes \<Rightarrow> nat option" where
  "match_entry block name =
     find (\<lambda>i. chr_at (ent_name block i) 0 \<noteq> 0 \<and> name_match name (ent_name block i) = 0) [0..<TINYFS_DIRENTS_PER_BLOCK]"

definition clear_entry :: "bytes \<Rightarrow> nat \<Rightarrow> bytes" where
  "clear_entry block i = put_at (32 * i + 4) [0] (put_at (32 * i) (le_bytes 4 (0 :: u32)) block)"

definition tinyfs_remove_dirent :: "'d disk_ops \<Rightarrow> u32 \<Rightarrow> bytes \<Rightarrow> 'd fsys \<Rightarrow> 'd fsys \<times> int" where
  "tinyfs_remove_dirent D dir_inum name s =
     (case tinyfs_read_inode D dir_inum s of
        (s, None) \<Rightarrow> (s, -1)
      | (s, Some dir_inode) \<Rightarrow>
     if mode dir_inode AND TINYFS_TYPE_DIR = 0 then (s, -1)
     else if direct_block dir_inode = 0 then (s, -1)
     else (let (s, ok) = with_buf False (\<lambda>s.
             case tinyfs_read_block D (direct_block dir_inode) s of
               (s, None) \<Rightarrow> (s, False)
             | (s, Some block) \<Rightarrow>
                 (case match_entry block name of
                    None \<Rightarrow> (s, False)
                  | Some found \<Rightarrow>
                      (let (s, w) = tinyfs_write_block D (direct_block dir_inode) (clear_entry block found) s
                       in (s, \<not> w < 0)))) s
           in if \<not> ok then (s, -1)
              else (let (s, w) = tinyfs_write_inode D dir_inum dir_inode s in (s, if w < 0 then -1 else 0))))"

end
