(* ===== verification/Volume.thy ===== *)
theory Volume
  imports Tinyfs
begin

text \<open>
  What the operations of \<open>Tinyfs\<close> do to a volume. The file system relies on a contract of the
  sector operations (the locale \<open>disk\<close>); under it, the effect of every operation is
  described by the contents of the blocks before and after (\<open>goes\<close>), with the layout of
  inodes in table blocks and of bits in the bitmap blocks made explicit.
\<close>

subsection \<open>Comparing names\<close>

lemma uint_eq_iff: "uint (c :: u8) - uint d = 0 \<longleftrightarrow> c = d"
  by (metis eq_iff_diff_eq_0 word_uint_eq_iff)

lemma name_match_eq_0: "name_match a b = 0 \<longleftrightarrow> cstr a = cstr b"
proof (induction a b rule: name_match.induct)
  case (1 c a d b)
  then show ?case using uint_eq_iff [of c d] by (cases "c = d") auto
qed (auto simp: cstr_Nil_iff uint_0_iff eq_commute [of "[]"])

subsection \<open>Inodes in blocks\<close>

definition inode_wf :: "tinyfs_inode_t \<Rightarrow> bool" where
  "inode_wf i \<longleftrightarrow> length (padding2 i) = 16"

lemma length_inode_bytes [simp]: "inode_wf i \<Longrightarrow> length (inode_bytes i) = 64"
  by (simp add: inode_bytes_def inode_wf_def)

lemma get_inode_bytes [disk_simps]: "inode_wf i \<Longrightarrow> get_inode (inode_bytes i) = i"
  by (simp add: get_inode_def inode_bytes_def get_at_def inode_wf_def)

lemma get_inode_wf [simp]: "length b = 64 \<Longrightarrow> inode_wf (get_inode b)"
  by (simp add: inode_wf_def get_inode_def)

lemma zero_inode_wf [simp]: "inode_wf zero_inode"
  by (simp add: inode_wf_def zero_inode_def)

lemma inode_wf_update [simp]:
  "inode_wf (i\<lparr>mode := m\<rparr>) = inode_wf i" "inode_wf (i\<lparr>isize := n\<rparr>) = inode_wf i"
  "inode_wf (i\<lparr>direct_block := b\<rparr>) = inode_wf i" "inode_wf (i\<lparr>refcount := r\<rparr>) = inode_wf i"
  by (simp_all add: inode_wf_def)

subsection \<open>Bitmaps\<close>

lemma bitmap_test_bit: "bitmap_test m i \<longleftrightarrow> bit (m ! (i div 8)) (i mod 8)"
  by (simp add: bitmap_test_def bit_iff_odd_drop_bit and_one_eq odd_iff_mod_2_eq_one)

lemma length_bitmap [simp]: "length (bitmap_set m i) = length m" "length (bitmap_clear m i) = length m"
  by (simp_all add: bitmap_set_def bitmap_clear_def)

lemma bitmap_set_test:
  assumes "i div 8 < length m" "j div 8 < length m"
  shows "bitmap_test (bitmap_set m i) j \<longleftrightarrow> j = i \<or> bitmap_test m j"
proof -
  have "j = i \<longleftrightarrow> j div 8 = i div 8 \<and> j mod 8 = i mod 8" by (metis div_mult_mod_eq)
  then show ?thesis
    using assms bit_imp_le_length [of "m ! (i div 8)" "j mod 8"]
    by (auto simp: bitmap_test_bit bitmap_set_def nth_list_update bit_simps)
qed

lemma bitmap_clear_test:
  assumes "i div 8 < length m" "j div 8 < length m"
  shows "bitmap_test (bitmap_clear m i) j \<longleftrightarrow> j \<noteq> i \<and> bitmap_test m j"
proof -
  have "j = i \<longleftrightarrow> j div 8 = i div 8 \<and> j mod 8 = i mod 8" by (metis div_mult_mod_eq)
  then show ?thesis
    using assms bit_imp_le_length [of "m ! (i div 8)" "j mod 8"]
    by (auto simp: bitmap_test_bit bitmap_clear_def nth_list_update bit_simps)
qed

lemma bitmap_clear_set:
  assumes "i div 8 < length m" "\<not> bitmap_test m i"
  shows "bitmap_clear (bitmap_set m i) i = m"
proof -
  have "(x OR push_bit k 1) AND NOT (push_bit k 1) = x" if "\<not> bit x k" for x :: u8 and k
    by (rule bit_word_eqI) (use that in \<open>auto simp: bit_simps\<close>)
  then show ?thesis
    using assms by (simp add: bitmap_set_def bitmap_clear_def bitmap_test_bit)
qed

lemma first_clear_Some:
  "first_clear m i n = Some k \<Longrightarrow> i \<le> k \<and> k < i + n \<and> \<not> bitmap_test m k \<and> (\<forall>j. i \<le> j \<and> j < k \<longrightarrow> bitmap_test m j)"
proof (induction n arbitrary: i)
  case (Suc n)
  show ?case
  proof (cases "bitmap_test m i")
    case True
    then have "first_clear m (Suc i) n = Some k" using Suc.prems by simp
    from Suc.IH [OF this] True show ?thesis by (auto simp: le_Suc_eq Suc_le_eq) (metis le_neq_implies_less)
  next
    case False
    then show ?thesis using Suc.prems by auto
  qed
qed simp

lemma first_clear_None: "first_clear m i n = None \<longleftrightarrow> (\<forall>j. i \<le> j \<and> j < i + n \<longrightarrow> bitmap_test m j)"
proof (induction n arbitrary: i)
  case (Suc n)
  have "(i \<le> j \<and> j < i + Suc n) \<longleftrightarrow> j = i \<or> (Suc i \<le> j \<and> j < Suc i + n)" for j by auto
  then show ?case using Suc.IH [of "Suc i"] by auto
qed auto

subsection \<open>What the file system expects of a disk\<close>

text \<open>
  The contract of the sector operations: on a disk that works (\<open>ok\<close>), reading returns the
  contents of the sectors and changes none, and writing changes exactly the sectors
  written. \<open>sect d n\<close> is the contents of sector \<open>n\<close>. The driver addresses 28 bits of sector
  numbers.
\<close>

locale disk =
  fixes D :: "'d disk_ops" and ok :: "'d \<Rightarrow> bool" and sect :: "'d \<Rightarrow> nat \<Rightarrow> bytes"
  assumes sector_length: "length (sect d i) = 512"
    and reads: "ok d \<Longrightarrow> 0 < n \<Longrightarrow> unat lba + unat n \<le> 2 ^ 28 \<Longrightarrow>
      \<exists>d'. d_read D lba n d = (d', Some (concat (map (sect d) [unat lba..<unat lba + unat n]))) \<and>
        ok d' \<and> sect d' = sect d"
    and writes: "ok d \<Longrightarrow> 0 < n \<Longrightarrow> unat lba + unat n \<le> 2 ^ 28 \<Longrightarrow> length buf = 512 * unat n \<Longrightarrow>
      \<exists>d'. d_write D lba n buf d = (d', 0) \<and> ok d' \<and> sect d' = (\<lambda>i.
        if unat lba \<le> i \<and> i < unat lba + unat n then get_at (512 * (i - unat lba)) 512 buf else sect d i)"

text \<open>Block \<open>b\<close> of a disk; a superblock that describes a volume the code can handle; a state of
  the file system in which the disk works and the heap has room for a buffer; and the
  effect of an operation: only the contents of blocks change, to \<open>B\<close>.\<close>

definition blk :: "('d \<Rightarrow> nat \<Rightarrow> bytes) \<Rightarrow> 'd \<Rightarrow> nat \<Rightarrow> bytes" where
  "blk sect d b = concat (map (sect d) [8 * b..<8 * b + 8])"

definition table_blocks :: "tinyfs_superblock_t \<Rightarrow> nat" where
  "table_blocks S = (unat (inode_count S) + 63) div 64"

definition sb_ok :: "tinyfs_superblock_t \<Rightarrow> bool" where
  "sb_ok S \<longleftrightarrow> unat (total_blocks S) \<le> 32768 \<and> unat (inode_count S) \<le> 32768 \<and> 0 < unat (inode_count S) \<and>
     inode_bitmap_block S < total_blocks S \<and> block_bitmap_block S < total_blocks S \<and>
     inode_bitmap_block S \<noteq> block_bitmap_block S \<and>
     unat (inode_table_block S) + table_blocks S \<le> unat (total_blocks S) \<and>
     (\<forall>b. unat (inode_table_block S) \<le> b \<and> b < unat (inode_table_block S) + table_blocks S \<longrightarrow>
        b \<noteq> unat (inode_bitmap_block S) \<and> b \<noteq> unat (block_bitmap_block S))"

definition heap_room :: "heap \<Rightarrow> bool" where
  "heap_room h \<longleftrightarrow> (\<exists>a e. heap_inv a e h) \<and> snd (memory_alloc h 4096) \<noteq> 0"

definition fs_good :: "('d \<Rightarrow> bool) \<Rightarrow> 'd fsys \<Rightarrow> bool" where
  "fs_good ok s \<longleftrightarrow> ok (dev s) \<and> sb_ok (sb s) \<and> heap_room (fs_heap s)"

definition goes :: "('d \<Rightarrow> bool) \<Rightarrow> ('d \<Rightarrow> nat \<Rightarrow> bytes) \<Rightarrow> 'd fsys \<Rightarrow> (nat \<Rightarrow> bytes) \<Rightarrow> 'd fsys \<Rightarrow> bool" where
  "goes ok sect s B t \<longleftrightarrow> fs_heap t = fs_heap s \<and> sb t = sb s \<and> cwd_inum t = cwd_inum s \<and> ok (dev t) \<and>
     blk sect (dev t) = B"

lemma goesD:
  assumes "goes ok sect s B t"
  shows "fs_heap t = fs_heap s" "sb t = sb s" "cwd_inum t = cwd_inum s" "ok (dev t)" "blk sect (dev t) = B"
  using assms by (simp_all add: goes_def)

lemma goes_trans: "goes ok sect s B t \<Longrightarrow> goes ok sect t B' u \<Longrightarrow> goes ok sect s B' u"
  by (simp add: goes_def)

lemma goes_good: "goes ok sect s B t \<Longrightarrow> fs_good ok s \<Longrightarrow> fs_good ok t"
  by (simp add: goes_def fs_good_def)

lemma with_buf_run:
  assumes "heap_room (fs_heap s)"
    and "\<And>h p. memory_alloc (fs_heap s) 4096 = (h, p) \<Longrightarrow> p \<noteq> 0 \<Longrightarrow>
      \<exists>t. body (s\<lparr>fs_heap := h\<rparr>) = (t, r) \<and> goes ok sect (s\<lparr>fs_heap := h\<rparr>) B t"
  shows "\<exists>t. with_buf fail body s = (t, r) \<and> goes ok sect s B t"
proof -
  obtain h p where al: "memory_alloc (fs_heap s) 4096 = (h, p)" by force
  have p: "p \<noteq> 0" using assms(1) al by (simp add: heap_room_def)
  obtain t where t: "body (s\<lparr>fs_heap := h\<rparr>) = (t, r)" "goes ok sect (s\<lparr>fs_heap := h\<rparr>) B t"
    using assms(2) [OF al p] by blast
  obtain a e where "heap_inv a e (fs_heap s)" using assms(1) by (auto simp: heap_room_def)
  then have "memory_free h p = fs_heap s" using kheap.restored al p by blast
  then have "with_buf fail body s = (t\<lparr>fs_heap := fs_heap s\<rparr>, r)"
    using al p t by (simp add: with_buf_def TINYFS_BLOCK_SIZE_def goes_def)
  then show ?thesis using t(2) by (simp add: goes_def)
qed

lemma get_at_concat:
  assumes "\<And>x. x \<in> set xs \<Longrightarrow> length x = m" "i < length xs"
  shows "get_at (m * i) m (concat xs) = xs ! i"
  using assms
proof (induction xs arbitrary: i)
  case (Cons x xs)
  then show ?case by (cases i) (auto simp: get_at_def)
qed simp

lemma concat_get_at:
  assumes "length buf = m * n"
  shows "concat (map (\<lambda>i. get_at (m * i) m buf) [0..<n]) = buf"
  using assms
proof (induction n arbitrary: buf)
  case (Suc n)
  have "concat (map (\<lambda>i. get_at (m * i) m (take (m * n) buf)) [0..<n]) = take (m * n) buf"
    using Suc by (intro Suc.IH) simp
  moreover have "get_at (m * i) m (take (m * n) buf) = get_at (m * i) m buf" if "i < n" for i
  proof -
    have "m * i + m \<le> m * n" using that by (metis Suc_leI mult_Suc_right add.commute mult_le_mono2)
    then show ?thesis by (simp add: get_at_def drop_take min_def)
  qed
  ultimately have "concat (map (\<lambda>i. get_at (m * i) m buf) [0..<n]) = take (m * n) buf"
    by (metis (mono_tags, lifting) atLeastLessThan_iff map_cong set_upt)
  moreover have "get_at (m * n) m buf = drop (m * n) buf" using Suc.prems by (simp add: get_at_def)
  ultimately show ?case by simp
qed simp

context disk
begin

lemma length_blk [simp]: "length (blk sect d b) = 4096"
  by (simp add: blk_def length_concat sector_length comp_def map_replicate_const sum_list_replicate)

lemma read_blocks_goes:
  assumes "ok (dev s)" "unat b < 2 ^ 25"
  shows "\<exists>t. read_blocks D b 1 s = (t, Some (blk sect (dev s) (unat b))) \<and> goes ok sect s (blk sect (dev s)) t"
proof -
  have lba: "unat (block_to_lba b) = 8 * unat b"
    using assms(2) by (simp add: block_to_lba_def TINYFS_BLOCK_SIZE_def ATA_SECTOR_SIZE_def unat_word_ariths)
  have n: "(1 :: u8) * of_nat (TINYFS_BLOCK_SIZE div ATA_SECTOR_SIZE) = 8"
    by (simp add: TINYFS_BLOCK_SIZE_def ATA_SECTOR_SIZE_def)
  from reads [OF assms(1), of 8 "block_to_lba b"] lba assms(2)
  obtain d' where "d_read D (block_to_lba b) 8 (dev s) = (d', Some (blk sect (dev s) (unat b)))" "ok d'" "sect d' = sect (dev s)"
    by (auto simp: blk_def)
  moreover from this(3) have "blk sect d' = blk sect (dev s)" by (intro ext) (simp only: blk_def)
  ultimately show ?thesis using n by (simp add: read_blocks_def goes_def)
qed

lemma write_blocks_goes:
  assumes "ok (dev s)" "unat b < 2 ^ 25" "length buf = 4096"
  shows "\<exists>t. write_blocks D b 1 buf s = (t, 0) \<and> goes ok sect s ((blk sect (dev s))(unat b := buf)) t"
proof -
  have lba: "unat (block_to_lba b) = 8 * unat b"
    using assms(2) by (simp add: block_to_lba_def TINYFS_BLOCK_SIZE_def ATA_SECTOR_SIZE_def unat_word_ariths)
  have n: "(1 :: u8) * of_nat (TINYFS_BLOCK_SIZE div ATA_SECTOR_SIZE) = 8"
    by (simp add: TINYFS_BLOCK_SIZE_def ATA_SECTOR_SIZE_def)
  from writes [OF assms(1), of 8 "block_to_lba b" buf, unfolded lba] assms(2,3)
  obtain d' where d: "d_write D (block_to_lba b) 8 buf (dev s) = (d', 0)" "ok d'"
    "sect d' = (\<lambda>i. if 8 * unat b \<le> i \<and> i < 8 * unat b + 8 then get_at (512 * (i - 8 * unat b)) 512 buf else sect (dev s) i)"
    by auto
  have "blk sect d' c = ((blk sect (dev s))(unat b := buf)) c" for c
  proof (cases "c = unat b")
    case True
    have "map (sect d') [8 * c..<8 * c + 8] = map (\<lambda>i. get_at (512 * i) 512 buf) [0..<8]"
      by (rule nth_equalityI) (simp_all add: d(3) True)
    then show ?thesis using concat_get_at [of buf 512 8] assms(3) True by (simp add: blk_def)
  next
    case False
    then have "map (sect d') [8 * c..<8 * c + 8] = map (sect (dev s)) [8 * c..<8 * c + 8]"
      by (auto simp: d(3))
    then have "blk sect d' c = blk sect (dev s) c" by (simp only: blk_def)
    then show ?thesis using False by simp
  qed
  then show ?thesis using n d by (simp add: write_blocks_def goes_def fun_eq_iff)
qed
end

subsection \<open>Inodes and bitmaps on a disk\<close>

definition table_block :: "tinyfs_superblock_t \<Rightarrow> u32 \<Rightarrow> nat" where
  "table_block S inum = unat (inode_table_block S) + unat inum div 64"

definition inode_at :: "tinyfs_superblock_t \<Rightarrow> (nat \<Rightarrow> bytes) \<Rightarrow> u32 \<Rightarrow> tinyfs_inode_t" where
  "inode_at S B inum = get_inode (get_at (64 * (unat inum mod 64)) 64 (B (table_block S inum)))"

definition put_inode :: "tinyfs_superblock_t \<Rightarrow> (nat \<Rightarrow> bytes) \<Rightarrow> u32 \<Rightarrow> tinyfs_inode_t \<Rightarrow> (nat \<Rightarrow> bytes)" where
  "put_inode S B inum i =
     B(table_block S inum := put_at (64 * (unat inum mod 64)) (inode_bytes i) (B (table_block S inum)))"

abbreviation valid_inum :: "tinyfs_superblock_t \<Rightarrow> u32 \<Rightarrow> bool" where
  "valid_inum S inum \<equiv> unat inum < unat (inode_count S)"

lemma table_block_range:
  assumes "valid_inum S inum"
  shows "table_block S inum < unat (inode_table_block S) + table_blocks S" "unat (inode_table_block S) \<le> table_block S inum"
proof -
  have "unat inum div 64 < (unat (inode_count S) + 63) div 64"
    using assms by (simp add: div_less_iff_less_mult)
  then show "table_block S inum < unat (inode_table_block S) + table_blocks S"
    by (simp add: table_block_def table_blocks_def)
qed (simp add: table_block_def)

lemma sb_okD:
  assumes "sb_ok S"
  shows "unat (total_blocks S) \<le> 32768" "unat (inode_count S) \<le> 32768" "0 < unat (inode_count S)"
    "unat (inode_bitmap_block S) < unat (total_blocks S)" "unat (block_bitmap_block S) < unat (total_blocks S)"
    "unat (inode_bitmap_block S) \<noteq> unat (block_bitmap_block S)"
    "valid_inum S inum \<Longrightarrow> table_block S inum < unat (total_blocks S)"
    "valid_inum S inum \<Longrightarrow> table_block S inum \<noteq> unat (inode_bitmap_block S)"
    "valid_inum S inum \<Longrightarrow> table_block S inum \<noteq> unat (block_bitmap_block S)"
  using assms table_block_range [of inum S] by (auto simp: sb_ok_def word_less_nat_alt unat_eq_iff)

lemma unat_ucast_32_64 [simp]: "unat (ucast (x :: u32) :: u64) = unat x"
  using unsigned_less [of x, where ?'a = nat] by (simp add: unsigned_ucast_eq take_bit_nat_eq_self_iff)

lemma unat_ucast_64_32: "unat (x :: u64) < 2 ^ 32 \<Longrightarrow> unat (ucast x :: u32) = unat x"
  by (simp add: unsigned_ucast_eq take_bit_nat_eq_self_iff)

lemma inode_block_eq:
  assumes "sb_ok (sb s)" "valid_inum (sb s) inum"
  shows "unat (inode_block s inum) = table_block (sb s) inum" "table_block (sb s) inum < 2 ^ 25"
proof -
  have lt: "table_block (sb s) inum < 32768" using sb_okD(1,7) [OF assms(1)] assms(2) by fastforce
  have "unat (ucast inum div 64 :: u64) = unat inum div 64" by (simp add: unat_div)
  moreover have "unat (inode_table_block (sb s)) + unat inum div 64 < 2 ^ 64"
    using lt by (simp add: table_block_def)
  ultimately have "unat (inode_table_block (sb s) + ucast inum div 64) = table_block (sb s) inum"
    by (simp add: unat_add_nowrap table_block_def)
  then show "unat (inode_block s inum) = table_block (sb s) inum"
    using lt by (simp add: inode_block_def unat_ucast_64_32)
  show "table_block (sb s) inum < 2 ^ 25" using lt by simp
qed

lemma inode_offset_eq: "inode_offset inum = unat inum mod 64"
  by (simp add: inode_offset_def unat_mod)

lemma inode_slot: "64 * (unat inum mod 64) + 64 \<le> 4096"
  using mod_less_divisor [of 64 "unat inum"] by linarith

lemma inode_at_put:
  assumes "\<And>b. length (B b) = 4096" "inode_wf x"
  shows "inode_at S (put_inode S B i x) j = (if i = j then x else inode_at S B j)"
proof (cases "table_block S i = table_block S j")
  case True
  then have div: "unat i div 64 = unat j div 64" by (simp add: table_block_def)
  show ?thesis
  proof (cases "i = j")
    case True
    then show ?thesis
      using assms inode_slot [of j] by (simp add: inode_at_def put_inode_def buf_simps disk_simps)
  next
    case False
    then have "unat i mod 64 \<noteq> unat j mod 64" using div by (metis div_mult_mod_eq unat_eq_iff)
    then have "64 * (unat j mod 64) + 64 \<le> 64 * (unat i mod 64) \<or> 64 * (unat i mod 64) + 64 \<le> 64 * (unat j mod 64)"
      by linarith
    then show ?thesis
      using False \<open>table_block S i = table_block S j\<close> assms inode_slot [of i] inode_slot [of j]
      by (simp add: inode_at_def put_inode_def get_put_other)
  qed
next
  case False
  then show ?thesis by (auto simp: inode_at_def put_inode_def)
qed

lemma put_inode_other: "c \<noteq> table_block S i \<Longrightarrow> put_inode S B i x c = B c"
  by (simp add: put_inode_def)

lemma length_put_inode:
  "(\<And>b. length (B b) = 4096) \<Longrightarrow> inode_wf x \<Longrightarrow> length (put_inode S B i x c) = 4096"
  using inode_slot [of i] by (simp add: put_inode_def)

lemma inode_at_other: "c \<noteq> table_block S i \<Longrightarrow> inode_at S (B(c := x)) i = inode_at S B i"
  by (simp add: inode_at_def)

lemma inode_at_wf: "length (B (table_block S i)) = 4096 \<Longrightarrow> inode_wf (inode_at S B i)"
  using inode_slot [of i] by (simp add: inode_at_def)

context disk
begin

abbreviation blocks :: "'d fsys \<Rightarrow> nat \<Rightarrow> bytes" where
  "blocks s \<equiv> blk sect (dev s)"

lemma read_inode_goes:
  assumes "fs_good ok s" "valid_inum (sb s) inum"
  shows "\<exists>t. tinyfs_read_inode D inum s = (t, Some (inode_at (sb s) (blocks s) inum)) \<and> goes ok sect s (blocks s) t"
proof -
  have g: "ok (dev s)" "sb_ok (sb s)" "heap_room (fs_heap s)" using assms(1) by (simp_all add: fs_good_def)
  have guard: "\<not> inode_count (sb s) \<le> ucast inum" using assms(2) by (simp add: word_le_nat_alt)
  have "\<exists>t. with_buf None (\<lambda>s. case read_blocks D (inode_block s inum) 1 s of (s, None) \<Rightarrow> (s, None)
        | (s, Some buf) \<Rightarrow> (s, Some (get_inode (get_at (64 * inode_offset inum) 64 buf)))) s =
      (t, Some (inode_at (sb s) (blocks s) inum)) \<and> goes ok sect s (blocks s) t"
  proof (rule with_buf_run [OF g(3)])
    fix h p
    let ?s = "s\<lparr>fs_heap := h\<rparr>"
    have "unat (inode_block ?s inum) = table_block (sb s) inum" "table_block (sb s) inum < 2 ^ 25"
      using inode_block_eq [of ?s inum] g(2) assms(2) by simp_all
    from read_blocks_goes [of ?s "inode_block ?s inum"] g(1) this
    show "\<exists>t. (case read_blocks D (inode_block ?s inum) 1 ?s of (s, None) \<Rightarrow> (s, None)
        | (s, Some buf) \<Rightarrow> (s, Some (get_inode (get_at (64 * inode_offset inum) 64 buf)))) =
        (t, Some (inode_at (sb s) (blocks s) inum)) \<and> goes ok sect ?s (blocks s) t"
      by (auto simp: inode_at_def inode_offset_eq)
  qed
  then show ?thesis using guard by (simp add: tinyfs_read_inode_def)
qed

lemma write_inode_goes:
  assumes "fs_good ok s" "valid_inum (sb s) inum" "inode_wf i"
  shows "\<exists>t. tinyfs_write_inode D inum i s = (t, 0) \<and> goes ok sect s (put_inode (sb s) (blocks s) inum i) t"
proof -
  have g: "ok (dev s)" "sb_ok (sb s)" "heap_room (fs_heap s)" using assms(1) by (simp_all add: fs_good_def)
  have guard: "\<not> inode_count (sb s) \<le> ucast inum" using assms(2) by (simp add: word_le_nat_alt)
  have "\<exists>t. with_buf (-1) (\<lambda>s. case read_blocks D (inode_block s inum) 1 s of (s, None) \<Rightarrow> (s, -1)
        | (s, Some buf) \<Rightarrow>
            write_blocks D (inode_block s inum) 1 (put_at (64 * inode_offset inum) (inode_bytes i) buf) s) s =
      (t, 0) \<and> goes ok sect s (put_inode (sb s) (blocks s) inum i) t"
  proof (rule with_buf_run [OF g(3)])
    fix h p
    let ?s = "s\<lparr>fs_heap := h\<rparr>"
    let ?b = "table_block (sb s) inum"
    have b: "unat (inode_block ?s inum) = ?b" "?b < 2 ^ 25"
      using inode_block_eq [of ?s inum] g(2) assms(2) by simp_all
    obtain t1 where t1: "read_blocks D (inode_block ?s inum) 1 ?s = (t1, Some (blocks s ?b))" "goes ok sect ?s (blocks s) t1"
      using read_blocks_goes [of ?s "inode_block ?s inum"] g(1) b by auto
    have same: "inode_block t1 inum = inode_block ?s inum" using goesD(2) [OF t1(2)] by (simp add: inode_block_def)
    let ?buf = "put_at (64 * inode_offset inum) (inode_bytes i) (blocks s ?b)"
    have "length ?buf = 4096" using inode_slot [of inum] assms(3) by (simp add: inode_offset_eq)
    then obtain t2 where t2: "write_blocks D (inode_block ?s inum) 1 ?buf t1 = (t2, 0)"
        "goes ok sect t1 ((blocks t1)(?b := ?buf)) t2"
      using write_blocks_goes [of t1 "inode_block ?s inum" ?buf] goesD(4) [OF t1(2)] b by auto
    have "goes ok sect ?s (put_inode (sb s) (blocks s) inum i) t2"
      using goes_trans [OF t1(2) t2(2)] goesD(5) [OF t1(2)] by (simp add: put_inode_def inode_offset_eq)
    then show "\<exists>t. (case read_blocks D (inode_block ?s inum) 1 ?s of (s, None) \<Rightarrow> (s, -1)
        | (s, Some buf) \<Rightarrow>
            write_blocks D (inode_block s inum) 1 (put_at (64 * inode_offset inum) (inode_bytes i) buf) s) = (t, 0) \<and>
        goes ok sect ?s (put_inode (sb s) (blocks s) inum i) t"
      using t1 t2 same by auto
  qed
  then show ?thesis using guard by (simp add: tinyfs_write_inode_def)
qed
end

subsection \<open>Allocation on a disk\<close>

definition set_bit_at :: "(nat \<Rightarrow> bytes) \<Rightarrow> nat \<Rightarrow> nat \<Rightarrow> (nat \<Rightarrow> bytes)" where
  "set_bit_at B b i = B(b := bitmap_set (B b) i)"

definition clear_bit_at :: "(nat \<Rightarrow> bytes) \<Rightarrow> nat \<Rightarrow> nat \<Rightarrow> (nat \<Rightarrow> bytes)" where
  "clear_bit_at B b i = B(b := bitmap_clear (B b) i)"

context disk
begin

text \<open>Reading a block into a buffer and going on with it.\<close>

lemma with_block_read:
  assumes "fs_good ok s" "bn (sb s) = b" "unat b < 2 ^ 25"
    and "\<And>u. goes ok sect (s\<lparr>fs_heap := fs_heap u\<rparr>) (blocks s) u \<Longrightarrow>
      \<exists>t. k (blocks s (unat b)) u = (t, r) \<and> goes ok sect u B t"
  shows "\<exists>t. with_buf fail (\<lambda>s. case read_blocks D (bn (sb s)) 1 s of (s, None) \<Rightarrow> (s, err) | (s, Some m) \<Rightarrow> k m s) s = (t, r) \<and>
    goes ok sect s B t"
proof (rule with_buf_run)
  show "heap_room (fs_heap s)" using assms(1) by (simp add: fs_good_def)
  fix h p
  let ?s = "s\<lparr>fs_heap := h\<rparr>"
  obtain u where u: "read_blocks D (bn (sb ?s)) 1 ?s = (u, Some (blocks s (unat b)))" "goes ok sect ?s (blocks s) u"
    using read_blocks_goes [of ?s b] assms(1-3) by (auto simp: fs_good_def)
  have "goes ok sect (s\<lparr>fs_heap := fs_heap u\<rparr>) (blocks s) u" using u(2) by (simp add: goes_def)
  from assms(4) [OF this] obtain t where "k (blocks s (unat b)) u = (t, r)" "goes ok sect u B t" by blast
  then show "\<exists>t. (case read_blocks D (bn (sb ?s)) 1 ?s of (s, None) \<Rightarrow> (s, err) | (s, Some m) \<Rightarrow> k m s) = (t, r) \<and>
      goes ok sect ?s B t"
    using u goes_trans by fastforce
qed

lemma write_after:
  assumes "goes ok sect s B u" "unat b < 2 ^ 25" "length buf = 4096"
  shows "\<exists>t. write_blocks D b 1 buf u = (t, 0) \<and> goes ok sect u (B(unat b := buf)) t"
  using write_blocks_goes [of u b buf] assms goesD(4,5) [OF assms(1)] by simp

lemma bitmap_blocks:
  assumes "fs_good ok s"
  shows "unat (ucast (block_bitmap_block (sb s)) :: u32) = unat (block_bitmap_block (sb s))"
    "unat (ucast (inode_bitmap_block (sb s)) :: u32) = unat (inode_bitmap_block (sb s))"
    "unat (block_bitmap_block (sb s)) < 2 ^ 25" "unat (inode_bitmap_block (sb s)) < 2 ^ 25"
  using sb_okD(1,4,5) [of "sb s"] assms by (simp_all add: fs_good_def unat_ucast_64_32)

lemma block_alloc_goes:
  assumes "fs_good ok s"
  defines "b \<equiv> unat (block_bitmap_block (sb s))"
  shows "\<exists>t. tinyfs_block_alloc D s =
      (t, case first_clear (blocks s b) 0 (unat (total_blocks (sb s))) of None \<Rightarrow> -1 | Some i \<Rightarrow> int i) \<and>
    goes ok sect s (case first_clear (blocks s b) 0 (unat (total_blocks (sb s))) of None \<Rightarrow> blocks s
      | Some i \<Rightarrow> set_bit_at (blocks s) b i) t"
  unfolding tinyfs_block_alloc_def
proof (rule with_block_read [OF assms(1), where bn = "\<lambda>S. ucast (block_bitmap_block S)"])
  fix u assume u: "goes ok sect (s\<lparr>fs_heap := fs_heap u\<rparr>) (blocks s) u"
  let ?b = "ucast (block_bitmap_block (sb s)) :: u32"
  have sb: "sb u = sb s" using goesD(2) [OF u] by simp
  note B = bitmap_blocks(1,3) [OF assms(1)]
  show "\<exists>t. (case first_clear (blocks s (unat ?b)) 0 (unat (total_blocks (sb u))) of None \<Rightarrow> (u, -1)
      | Some i \<Rightarrow> (fst (write_blocks D (ucast (block_bitmap_block (sb u))) 1 (bitmap_set (blocks s (unat ?b)) i) u), int i)) =
    (t, case first_clear (blocks s b) 0 (unat (total_blocks (sb s))) of None \<Rightarrow> -1 | Some i \<Rightarrow> int i) \<and>
    goes ok sect u (case first_clear (blocks s b) 0 (unat (total_blocks (sb s))) of None \<Rightarrow> blocks s
      | Some i \<Rightarrow> set_bit_at (blocks s) b i) t"
  proof (cases "first_clear (blocks s b) 0 (unat (total_blocks (sb s)))")
    case None
    then show ?thesis using u sb B by (auto simp: b_def goes_def)
  next
    case (Some i)
    from write_after [OF u, of ?b "bitmap_set (blocks s b) i"] Some sb B show ?thesis
      by (auto simp: b_def set_bit_at_def)
  qed
qed (use bitmap_blocks(1,3) [OF assms(1)] in simp_all)

lemma block_free_goes:
  assumes "fs_good ok s"
  shows "goes ok sect s (clear_bit_at (blocks s) (unat (block_bitmap_block (sb s))) (unat n)) (tinyfs_block_free D n s)"
proof -
  let ?b = "ucast (block_bitmap_block (sb s)) :: u32"
  note B = bitmap_blocks(1,3) [OF assms(1)]
  have "\<exists>t. with_buf () (\<lambda>s. case read_blocks D (ucast (block_bitmap_block (sb s))) 1 s of (s, None) \<Rightarrow> (s, ())
     | (s, Some bitmap) \<Rightarrow>
         (fst (write_blocks D (ucast (block_bitmap_block (sb s))) 1 (bitmap_clear bitmap (unat n)) s), ())) s = (t, ()) \<and>
     goes ok sect s (clear_bit_at (blocks s) (unat (block_bitmap_block (sb s))) (unat n)) t"
  proof (rule with_block_read [OF assms(1), where bn = "\<lambda>S. ucast (block_bitmap_block S)"])
    fix u assume u: "goes ok sect (s\<lparr>fs_heap := fs_heap u\<rparr>) (blocks s) u"
    from write_after [OF u, of ?b "bitmap_clear (blocks s (unat ?b)) (unat n)"] goesD(2) [OF u] B
    show "\<exists>t. (fst (write_blocks D (ucast (block_bitmap_block (sb u))) 1 (bitmap_clear (blocks s (unat ?b)) (unat n)) u), ()) =
      (t, ()) \<and> goes ok sect u (clear_bit_at (blocks s) (unat (block_bitmap_block (sb s))) (unat n)) t"
      by (auto simp: clear_bit_at_def)
  qed (use B in simp_all)
  then show ?thesis by (auto simp: tinyfs_block_free_def)
qed

lemma inode_free_goes:
  assumes "fs_good ok s" "valid_inum (sb s) n"
  shows "goes ok sect s (clear_bit_at (blocks s) (unat (inode_bitmap_block (sb s))) (unat n)) (tinyfs_inode_free D n s)"
proof -
  let ?b = "ucast (inode_bitmap_block (sb s)) :: u32"
  note B = bitmap_blocks(2,4) [OF assms(1)]
  have "\<exists>t. with_buf () (\<lambda>s. case read_blocks D (ucast (inode_bitmap_block (sb s))) 1 s of (s, None) \<Rightarrow> (s, ())
     | (s, Some bitmap) \<Rightarrow>
         (fst (write_blocks D (ucast (inode_bitmap_block (sb s))) 1 (bitmap_clear bitmap (unat n)) s), ())) s = (t, ()) \<and>
     goes ok sect s (clear_bit_at (blocks s) (unat (inode_bitmap_block (sb s))) (unat n)) t"
  proof (rule with_block_read [OF assms(1), where bn = "\<lambda>S. ucast (inode_bitmap_block S)"])
    fix u assume u: "goes ok sect (s\<lparr>fs_heap := fs_heap u\<rparr>) (blocks s) u"
    from write_after [OF u, of ?b "bitmap_clear (blocks s (unat ?b)) (unat n)"] goesD(2) [OF u] B
    show "\<exists>t. (fst (write_blocks D (ucast (inode_bitmap_block (sb u))) 1 (bitmap_clear (blocks s (unat ?b)) (unat n)) u), ()) =
      (t, ()) \<and> goes ok sect u (clear_bit_at (blocks s) (unat (inode_bitmap_block (sb s))) (unat n)) t"
      by (auto simp: clear_bit_at_def)
  qed (use B in simp_all)
  then show ?thesis using assms(2) by (auto simp: tinyfs_inode_free_def word_le_nat_alt)
qed

lemma inode_alloc_goes:
  assumes "fs_good ok s"
  defines "b \<equiv> unat (inode_bitmap_block (sb s))"
  shows "case first_clear (blocks s b) 1 (unat (inode_count (sb s)) - 1) of
      None \<Rightarrow> \<exists>t. tinyfs_inode_alloc D s = (t, -1) \<and> goes ok sect s (blocks s) t
    | Some i \<Rightarrow> \<exists>t. tinyfs_inode_alloc D s = (t, int i) \<and>
        goes ok sect s (put_inode (sb s) (set_bit_at (blocks s) b i) (of_nat i) (zero_inode\<lparr>refcount := 1\<rparr>)) t"
proof -
  let ?b = "ucast (inode_bitmap_block (sb s)) :: u32"
  let ?f = "first_clear (blocks s b) 1 (unat (inode_count (sb s)) - 1)"
  note B = bitmap_blocks(2,4) [OF assms(1)]
  have "\<exists>t. with_buf (-1) (\<lambda>s. case read_blocks D (ucast (inode_bitmap_block (sb s))) 1 s of
          (s, None) \<Rightarrow> (s, -1)
        | (s, Some bitmap) \<Rightarrow>
            (case first_clear bitmap 1 (unat (inode_count (sb s)) - 1) of
               None \<Rightarrow> (s, -1)
             | Some i \<Rightarrow> (fst (write_blocks D (ucast (inode_bitmap_block (sb s))) 1 (bitmap_set bitmap i) s), int i))) s =
      (t, case ?f of None \<Rightarrow> -1 | Some i \<Rightarrow> int i) \<and>
      goes ok sect s (case ?f of None \<Rightarrow> blocks s | Some i \<Rightarrow> set_bit_at (blocks s) b i) t"
  proof (rule with_block_read [OF assms(1), where bn = "\<lambda>S. ucast (inode_bitmap_block S)"])
    fix u assume u: "goes ok sect (s\<lparr>fs_heap := fs_heap u\<rparr>) (blocks s) u"
    have sb: "sb u = sb s" using goesD(2) [OF u] by simp
    show "\<exists>t. (case first_clear (blocks s (unat ?b)) 1 (unat (inode_count (sb u)) - 1) of None \<Rightarrow> (u, -1)
        | Some i \<Rightarrow> (fst (write_blocks D (ucast (inode_bitmap_block (sb u))) 1 (bitmap_set (blocks s (unat ?b)) i) u), int i)) =
      (t, case ?f of None \<Rightarrow> -1 | Some i \<Rightarrow> int i) \<and>
      goes ok sect u (case ?f of None \<Rightarrow> blocks s | Some i \<Rightarrow> set_bit_at (blocks s) b i) t"
    proof (cases ?f)
      case None
      then show ?thesis using u sb B by (auto simp: b_def goes_def)
    next
      case (Some i)
      from write_after [OF u, of ?b "bitmap_set (blocks s b) i"] Some sb B show ?thesis
        by (auto simp: b_def set_bit_at_def)
    qed
  qed (use B in simp_all)
  then obtain t where t: "tinyfs_inode_alloc D s = (case ?f of None \<Rightarrow> (t, -1)
      | Some i \<Rightarrow> (fst (tinyfs_write_inode D (word_of_int (int i)) (zero_inode\<lparr>refcount := 1\<rparr>) t), int i))"
      "goes ok sect s (case ?f of None \<Rightarrow> blocks s | Some i \<Rightarrow> set_bit_at (blocks s) b i) t"
    by (auto simp: tinyfs_inode_alloc_def split: option.splits)
  show ?thesis
  proof (cases ?f)
    case None
    then show ?thesis using t by simp
  next
    case (Some i)
    have i: "i < unat (inode_count (sb s))" using first_clear_Some [OF Some] by auto
    have n: "unat (inode_count (sb s)) \<le> 32768" using sb_okD(2) [of "sb s"] assms(1) by (simp add: fs_good_def)
    then have v: "valid_inum (sb t) (of_nat i)" using i goesD(2) [OF t(2)] by (simp add: unat_of_nat_small)
    from write_inode_goes [OF goes_good [OF t(2) assms(1)] v, of "zero_inode\<lparr>refcount := 1\<rparr>"]
    obtain t' where "tinyfs_write_inode D (of_nat i) (zero_inode\<lparr>refcount := 1\<rparr>) t = (t', 0)"
      "goes ok sect t (put_inode (sb t) (blocks t) (of_nat i) (zero_inode\<lparr>refcount := 1\<rparr>)) t'" by auto
    then show ?thesis using t Some goes_trans goesD(2,5) [OF t(2)] by fastforce
  qed
qed

lemma read_block_goes:
  assumes "ok (dev s)" "sb_ok (sb s)" "unat n < unat (total_blocks (sb s))"
  shows "\<exists>t. tinyfs_read_block D n s = (t, Some (blocks s (unat n))) \<and> goes ok sect s (blocks s) t"
proof -
  have "unat n < 2 ^ 25" using assms(3) sb_okD(1) [OF assms(2)] by simp
  then show ?thesis
    using read_blocks_goes [of s n] assms by (simp add: tinyfs_read_block_def word_le_nat_alt)
qed

lemma write_block_goes:
  assumes "ok (dev s)" "sb_ok (sb s)" "unat n < unat (total_blocks (sb s))" "length buf = 4096"
  shows "\<exists>t. tinyfs_write_block D n buf s = (t, 0) \<and> goes ok sect s ((blocks s)(unat n := buf)) t"
proof -
  have "unat n < 2 ^ 25" using assms(3) sb_okD(1) [OF assms(2)] by simp
  then show ?thesis
    using write_blocks_goes [of s n buf] assms by (simp add: tinyfs_write_block_def word_le_nat_alt)
qed
end

end
