(* ===== verification/Vfs.thy ===== *)
theory Vfs
  imports Volume
begin

text \<open>
  The path operations of \<^verbatim>\<open>kernel/fs/vfs.c\<close> over the inodes, blocks and directories of
  \<open>Tinyfs\<close>. A path argument is \<open>None\<close> for a null pointer. Operations that fill a buffer
  return the bytes they write to it.
\<close>

abbreviation (input) slash :: u8 where "slash \<equiv> 47"
abbreviation (input) dot :: u8 where "dot \<equiv> 46"
abbreviation (input) newline :: u8 where "newline \<equiv> 10"

fun string_compare :: "bytes \<Rightarrow> bytes \<Rightarrow> int" where
  "string_compare (c # a) (d # b) =
     (if c \<noteq> 0 \<and> d \<noteq> 0 \<and> c = d then string_compare a b else uint c - uint d)"
| "string_compare a b = uint (chr_at a 0) - uint (chr_at b 0)"

definition fs_init :: "'d disk_ops \<Rightarrow> 'd fsys \<Rightarrow> 'd fsys" where
  "fs_init D s = (let (s, r) = tinyfs_init D s in s\<lparr>cwd_inum := 0\<rparr>)"

definition is_dir :: "tinyfs_inode_t \<Rightarrow> bool" where
  "is_dir inode \<longleftrightarrow> mode inode AND 0xF000 = TINYFS_TYPE_DIR"

definition is_file :: "tinyfs_inode_t \<Rightarrow> bool" where
  "is_file inode \<longleftrightarrow> mode inode AND 0xF000 = TINYFS_TYPE_FILE"

definition lookup_entry :: "bytes \<Rightarrow> bytes \<Rightarrow> nat option" where
  "lookup_entry block name =
     find (\<lambda>i. chr_at (ent_name block i) 0 \<noteq> 0 \<and> string_compare name (ent_name block i) = 0)
       [0..<TINYFS_DIRENTS_PER_BLOCK]"

definition find_dirent :: "'d disk_ops \<Rightarrow> u32 \<Rightarrow> bytes \<Rightarrow> 'd fsys \<Rightarrow> 'd fsys \<times> u32 option" where
  "find_dirent D dir_inum name s =
     (case tinyfs_read_inode D dir_inum s of
        (s, None) \<Rightarrow> (s, None)
      | (s, Some inode) \<Rightarrow>
     if \<not> is_dir inode then (s, None)
     else with_buf None (\<lambda>s.
       if direct_block inode > 0 then
         (case tinyfs_read_block D (direct_block inode) s of
            (s, None) \<Rightarrow> (s, None)
          | (s, Some block) \<Rightarrow> (s, map_option (ent_inode block) (lookup_entry block name)))
       else (s, None)) s)"

text \<open>
  The loop of \<^verbatim>\<open>resolve_path\<close>: \<open>component\<close> is the part of \<^verbatim>\<open>component\<close> filled so far, of
  which only 28 characters are kept. \<open>path_step\<close> is what happens at the end of a component.
\<close>

definition path_step :: "'d disk_ops \<Rightarrow> u32 \<Rightarrow> bytes \<Rightarrow> 'd fsys \<Rightarrow> 'd fsys \<times> u32 option" where
  "path_step D current component s =
     (if component = [dot, dot] then if current \<noteq> 0 then find_dirent D current [dot, dot] s else (s, Some current)
      else if component = [dot] then (s, Some current)
      else find_dirent D current component s)"

fun resolve_loop :: "'d disk_ops \<Rightarrow> u32 \<Rightarrow> bytes \<Rightarrow> bytes \<Rightarrow> 'd fsys \<Rightarrow> 'd fsys \<times> u32 option" where
  "resolve_loop D current component [] s =
     (if component \<noteq> [] then path_step D current component s else (s, Some current))"
| "resolve_loop D current component (c # path) s =
     (if c = slash \<or> c = 0 then
        (case (if component \<noteq> [] then path_step D current component s else (s, Some current)) of
           (s, None) \<Rightarrow> (s, None)
         | (s, Some current) \<Rightarrow> if c = 0 then (s, Some current) else resolve_loop D current [] path s)
      else resolve_loop D current (if length component < 28 then component @ [c] else component) path s)"

definition resolve_path :: "'d disk_ops \<Rightarrow> bytes \<Rightarrow> 'd fsys \<Rightarrow> 'd fsys \<times> u32 option" where
  "resolve_path D path s =
     (let (current, path) = (if chr_at path 0 = slash then (0, tl path) else (cwd_inum s, path)) in
      if chr_at path 0 = 0 then (s, Some current) else resolve_loop D current [] path s)"

definition ls_entry :: "bytes \<Rightarrow> int \<Rightarrow> nat \<Rightarrow> bytes \<Rightarrow> bytes" where
  "ls_entry block buf_size i out =
     (if chr_at (ent_name block i) 0 = 0 then out
      else out @ take (nat (buf_size - 2 - int (length out))) (cstr (ent_name block i)) @ [newline])"

definition fs_ls :: "'d disk_ops \<Rightarrow> bytes option \<Rightarrow> int \<Rightarrow> 'd fsys \<Rightarrow> 'd fsys \<times> (int \<times> bytes)" where
  "fs_ls D path buf_size s =
     (let (s, inum) =
        (case path of None \<Rightarrow> (s, Some (cwd_inum s))
         | Some p \<Rightarrow> if chr_at p 0 = 0 then (s, Some (cwd_inum s)) else resolve_path D p s)
      in case inum of None \<Rightarrow> (s, (-1, []))
       | Some inum \<Rightarrow>
      (case tinyfs_read_inode D inum s of
         (s, None) \<Rightarrow> (s, (-1, []))
       | (s, Some inode) \<Rightarrow>
      if \<not> is_dir inode then (s, (-1, []))
      else with_buf (-1, []) (\<lambda>s.
        let (s, out) =
          (if direct_block inode > 0 then
             (case tinyfs_read_block D (direct_block inode) s of
                (s, None) \<Rightarrow> (s, [])
              | (s, Some block) \<Rightarrow> (s, fold (ls_entry block buf_size) [0..<TINYFS_DIRENTS_PER_BLOCK] []))
           else (s, []))
        in (s, (int (length out), out @ [0]))) s))"

fun last_slash_from :: "bytes \<Rightarrow> nat \<Rightarrow> nat option \<Rightarrow> nat option" where
  "last_slash_from [] i l = l"
| "last_slash_from (c # p) i l =
     (if c = 0 then l else last_slash_from p (Suc i) (if c = slash then Some i else l))"

definition split_path :: "bytes \<Rightarrow> nat \<Rightarrow> nat \<Rightarrow> bytes \<times> bytes" where
  "split_path path parent_size comp_size =
     (case last_slash_from path 0 None of
        None \<Rightarrow> ([], take (comp_size - 1) (cstr path))
      | Some 0 \<Rightarrow> ([slash], take (comp_size - 1) (cstr (drop 1 path)))
      | Some k \<Rightarrow> (take (min k (parent_size - 1)) path, take (comp_size - 1) (cstr (drop (k + 1) path))))"

definition parent_inum :: "'d disk_ops \<Rightarrow> bytes \<Rightarrow> 'd fsys \<Rightarrow> 'd fsys \<times> u32 option" where
  "parent_inum D parent_path s =
     (if chr_at parent_path 0 = 0 then (s, Some (cwd_inum s)) else resolve_path D parent_path s)"

text \<open>
  The common beginning of \<^verbatim>\<open>fs_mkdir\<close> and \<^verbatim>\<open>fs_create\<close>: find the parent directory, which
  must not have an entry of the new name, and take an inode.
\<close>

definition new_entry :: "'d disk_ops \<Rightarrow> bytes \<Rightarrow> 'd fsys \<Rightarrow> 'd fsys \<times> (u32 \<times> bytes \<times> int) option" where
  "new_entry D path s =
     (let (parent_path, component) = split_path path 256 29 in
      if chr_at component 0 = 0 then (s, None)
      else (case parent_inum D parent_path s of
        (s, None) \<Rightarrow> (s, None)
      | (s, Some parent) \<Rightarrow>
     (case tinyfs_read_inode D parent s of
        (s, None) \<Rightarrow> (s, None)
      | (s, Some pinode) \<Rightarrow>
     if \<not> is_dir pinode then (s, None)
     else (case find_dirent D parent component s of
        (s, Some existing) \<Rightarrow> (s, None)
      | (s, None) \<Rightarrow>
     (let (s, inum) = tinyfs_inode_alloc D s in
      if inum < 0 then (s, None) else (s, Some (parent, component, inum)))))))"

definition dir_block :: "u32 \<Rightarrow> u32 \<Rightarrow> bytes" where
  "dir_block inum parent =
     set_entry (set_entry (replicate TINYFS_BLOCK_SIZE 0) 0 inum [dot]) 1 parent [dot, dot]"

definition fs_mkdir :: "'d disk_ops \<Rightarrow> bytes option \<Rightarrow> 'd fsys \<Rightarrow> 'd fsys \<times> int" where
  "fs_mkdir D path s =
     (case path of None \<Rightarrow> (s, -1)
      | Some path \<Rightarrow>
     if chr_at path 0 = 0 \<or> (chr_at path 0 = slash \<and> chr_at path 1 = 0) then (s, -1)
     else (case new_entry D path s of
        (s, None) \<Rightarrow> (s, -1)
      | (s, Some (parent, component, inum)) \<Rightarrow>
     (let inode = zero_inode\<lparr>mode := TINYFS_TYPE_DIR OR 0x01ED, refcount := 1\<rparr>;
          inum = (word_of_int inum :: u32);
          (s, block) = tinyfs_block_alloc D s in
      if block < 0 then (tinyfs_inode_free D inum s, -1)
      else (let block = (word_of_int block :: u32);
                (s, w) = tinyfs_write_inode D inum (inode\<lparr>direct_block := block, isize := 64\<rparr>) s in
        if w < 0 then (tinyfs_inode_free D inum (tinyfs_block_free D block s), -1)
        else (let (s, ok) = with_buf False (\<lambda>s.
                    let (s, w) = tinyfs_write_block D block (dir_block inum parent) s in (s, \<not> w < 0)) s in
          if \<not> ok then (tinyfs_inode_free D inum s, -1)
          else (let (s, w) = tinyfs_add_dirent D parent inum component s in
            if w < 0 then (tinyfs_inode_free D inum (tinyfs_block_free D block s), -1)
            else (s, 0)))))))"

definition dir_empty :: "bytes \<Rightarrow> bool" where
  "dir_empty block \<longleftrightarrow> list_all (\<lambda>i. chr_at (ent_name block i) 0 = 0 \<or>
     string_compare (ent_name block i) [dot] = 0 \<or> string_compare (ent_name block i) [dot, dot] = 0)
     [0..<TINYFS_DIRENTS_PER_BLOCK]"

text \<open>The common end of \<^verbatim>\<open>fs_rmdir\<close> and \<^verbatim>\<open>fs_delete\<close>.\<close>

definition unlink :: "'d disk_ops \<Rightarrow> bytes \<Rightarrow> u32 \<Rightarrow> tinyfs_inode_t \<Rightarrow> 'd fsys \<Rightarrow> 'd fsys \<times> int" where
  "unlink D path target_inum inode s =
     (let (parent_path, component) = split_path path 256 29 in
      case parent_inum D parent_path s of
        (s, None) \<Rightarrow> (s, -1)
      | (s, Some parent) \<Rightarrow>
     (let (s, r) = tinyfs_remove_dirent D parent component s in
      if r < 0 then (s, -1)
      else (let s = (if direct_block inode \<noteq> 0 then tinyfs_block_free D (direct_block inode) s else s)
            in (tinyfs_inode_free D target_inum s, 0))))"

definition fs_rmdir :: "'d disk_ops \<Rightarrow> bytes option \<Rightarrow> 'd fsys \<Rightarrow> 'd fsys \<times> int" where
  "fs_rmdir D path s =
     (case path of None \<Rightarrow> (s, -1)
      | Some path \<Rightarrow>
     if chr_at path 0 = 0 \<or> (chr_at path 0 = slash \<and> chr_at path 1 = 0) then (s, -1)
     else (case resolve_path D path s of
        (s, None) \<Rightarrow> (s, -1)
      | (s, Some target_inum) \<Rightarrow>
     (case tinyfs_read_inode D target_inum s of
        (s, None) \<Rightarrow> (s, -1)
      | (s, Some inode) \<Rightarrow>
     if \<not> is_dir inode then (s, -1)
     else (let (s, ok) =
       (if direct_block inode \<noteq> 0 then with_buf False (\<lambda>s.
          case tinyfs_read_block D (direct_block inode) s of
            (s, None) \<Rightarrow> (s, True)
          | (s, Some block) \<Rightarrow> (s, dir_empty block)) s
        else (s, True))
       in if \<not> ok then (s, -1) else unlink D path target_inum inode s))))"

definition fs_create :: "'d disk_ops \<Rightarrow> bytes option \<Rightarrow> 'd fsys \<Rightarrow> 'd fsys \<times> int" where
  "fs_create D path s =
     (case path of None \<Rightarrow> (s, -1)
      | Some path \<Rightarrow>
     if chr_at path 0 = 0 then (s, -1)
     else (case new_entry D path s of
        (s, None) \<Rightarrow> (s, -1)
      | (s, Some (parent, component, inum)) \<Rightarrow>
     (let inode = zero_inode\<lparr>mode := TINYFS_TYPE_FILE OR 0x01ED, refcount := 1\<rparr>;
          inum = (word_of_int inum :: u32);
          (s, w) = tinyfs_write_inode D inum inode s in
      if w < 0 then (tinyfs_inode_free D inum s, -1)
      else (let (s, w) = tinyfs_add_dirent D parent inum component s in
        if w < 0 then (tinyfs_inode_free D inum s, -1) else (s, 0)))))"

definition fs_delete :: "'d disk_ops \<Rightarrow> bytes option \<Rightarrow> 'd fsys \<Rightarrow> 'd fsys \<times> int" where
  "fs_delete D path s =
     (case path of None \<Rightarrow> (s, -1)
      | Some path \<Rightarrow>
     if chr_at path 0 = 0 then (s, -1)
     else (case resolve_path D path s of
        (s, None) \<Rightarrow> (s, -1)
      | (s, Some target_inum) \<Rightarrow>
     (case tinyfs_read_inode D target_inum s of
        (s, None) \<Rightarrow> (s, -1)
      | (s, Some inode) \<Rightarrow>
     if is_dir inode then (s, -1)
     else if \<not> is_file inode then (s, -1)
     else unlink D path target_inum inode s)))"

definition fs_rename :: "'d disk_ops \<Rightarrow> bytes option \<Rightarrow> bytes option \<Rightarrow> 'd fsys \<Rightarrow> 'd fsys \<times> int" where
  "fs_rename D oldpath newpath s =
     (case oldpath of None \<Rightarrow> (s, -1)
      | Some oldpath \<Rightarrow> (case newpath of None \<Rightarrow> (s, -1)
      | Some newpath \<Rightarrow>
     if chr_at oldpath 0 = 0 \<or> chr_at newpath 0 = 0 then (s, -1)
     else (case resolve_path D oldpath s of
        (s, None) \<Rightarrow> (s, -1)
      | (s, Some target_inum) \<Rightarrow>
     (case tinyfs_read_inode D target_inum s of
        (s, None) \<Rightarrow> (s, -1)
      | (s, Some inode) \<Rightarrow>
     (let (old_parent_path, old_component) = split_path oldpath 256 29 in
      if chr_at old_component 0 = 0 then (s, -1)
      else (case parent_inum D old_parent_path s of
        (s, None) \<Rightarrow> (s, -1)
      | (s, Some old_parent) \<Rightarrow>
     (let (new_parent_path, new_component) = split_path newpath 256 29 in
      if chr_at new_component 0 = 0 then (s, -1)
      else (case parent_inum D new_parent_path s of
        (s, None) \<Rightarrow> (s, -1)
      | (s, Some new_parent) \<Rightarrow>
     (case find_dirent D new_parent new_component s of
        (s, Some existing) \<Rightarrow> (s, -1)
      | (s, None) \<Rightarrow>
     (let (s, r) = tinyfs_add_dirent D new_parent target_inum new_component s in
      if r < 0 then (s, -1)
      else (let (s, r) = tinyfs_remove_dirent D old_parent old_component s in
        (s, if r < 0 then -1 else 0))))))))))))"

definition fs_copy :: "'d disk_ops \<Rightarrow> bytes option \<Rightarrow> bytes option \<Rightarrow> 'd fsys \<Rightarrow> 'd fsys \<times> int" where
  "fs_copy D src dst s =
     (case src of None \<Rightarrow> (s, -1)
      | Some src \<Rightarrow> (case dst of None \<Rightarrow> (s, -1)
      | Some dst \<Rightarrow>
     if chr_at src 0 = 0 \<or> chr_at dst 0 = 0 then (s, -1)
     else (case resolve_path D src s of
        (s, None) \<Rightarrow> (s, -1)
      | (s, Some src_inum) \<Rightarrow>
     (case tinyfs_read_inode D src_inum s of
        (s, None) \<Rightarrow> (s, -1)
      | (s, Some src_inode) \<Rightarrow>
     if \<not> is_file src_inode then (s, -1)
     else (let (s, r) = fs_create D (Some dst) s in
      if r < 0 then (s, -1)
      else (case resolve_path D dst s of
        (s, None) \<Rightarrow> (s, -1)
      | (s, Some dst_inum) \<Rightarrow>
     (case tinyfs_read_inode D dst_inum s of
        (s, None) \<Rightarrow> (s, -1)
      | (s, Some dst_inode) \<Rightarrow>
     if \<not> is_file dst_inode then (s, -1)
     else if isize src_inode = 0 then (s, 0)
     else (let (s, r) = with_buf None (\<lambda>s.
             case tinyfs_read_block D (direct_block src_inode) s of
               (s, None) \<Rightarrow> (s, None)
             | (s, Some buf) \<Rightarrow>
                 (let (s, dst_block) = (if direct_block dst_inode = 0 then tinyfs_block_alloc D s
                                        else (s, uint (direct_block dst_inode))) in
                  if dst_block < 0 then (s, None)
                  else (let (s, w) = tinyfs_write_block D (word_of_int dst_block) buf s in
                    (s, if w < 0 then None else Some (word_of_int dst_block :: u32))))) s
           in case r of None \<Rightarrow> (s, -1)
            | Some dst_block \<Rightarrow>
                (let (s, w) = tinyfs_write_inode D dst_inum
                       (dst_inode\<lparr>direct_block := dst_block, isize := isize src_inode\<rparr>) s
                 in (s, if w < 0 then -1 else 0))))))))))"

definition file_block :: "bytes \<Rightarrow> u32 \<Rightarrow> bytes" where
  "file_block data len =
     put_at 0 (map (chr_at data) [0..<min (unat len) TINYFS_BLOCK_SIZE]) (replicate TINYFS_BLOCK_SIZE 0)"

definition fs_write_file :: "'d disk_ops \<Rightarrow> bytes option \<Rightarrow> bytes \<Rightarrow> u32 \<Rightarrow> 'd fsys \<Rightarrow> 'd fsys \<times> int" where
  "fs_write_file D path data len s =
     (case path of None \<Rightarrow> (s, -1)
      | Some path \<Rightarrow>
     if chr_at path 0 = 0 then (s, -1)
     else (let (s, ignored) = fs_delete D (Some path) s;
               (s, r) = fs_create D (Some path) s in
      if r < 0 then (s, -1)
      else (case resolve_path D path s of
        (s, None) \<Rightarrow> (s, -1)
      | (s, Some inum) \<Rightarrow>
     (case tinyfs_read_inode D inum s of
        (s, None) \<Rightarrow> (s, -1)
      | (s, Some inode) \<Rightarrow>
     if len = 0 then (s, 0)
     else (let (s, block) = tinyfs_block_alloc D s in
      if block < 0 then (s, -1)
      else (let block = (word_of_int block :: u32);
                (s, ok) = with_buf False (\<lambda>s.
                  let (s, w) = tinyfs_write_block D block (file_block data len) s in (s, \<not> w < 0)) s in
        if \<not> ok then (tinyfs_block_free D block s, -1)
        else (let (s, w) = tinyfs_write_inode D inum (inode\<lparr>direct_block := block, isize := len\<rparr>) s
              in (s, if w < 0 then -1 else sint len))))))))"

definition fs_cd :: "'d disk_ops \<Rightarrow> bytes option \<Rightarrow> 'd fsys \<Rightarrow> 'd fsys \<times> int" where
  "fs_cd D path s =
     (case path of None \<Rightarrow> (s\<lparr>cwd_inum := 0\<rparr>, 0)
      | Some path \<Rightarrow>
     if chr_at path 0 = 0 \<or> (chr_at path 0 = slash \<and> chr_at path 1 = 0) then (s\<lparr>cwd_inum := 0\<rparr>, 0)
     else (case resolve_path D path s of
        (s, None) \<Rightarrow> (s, -1)
      | (s, Some inum) \<Rightarrow>
     (case tinyfs_read_inode D inum s of
        (s, None) \<Rightarrow> (s, -1)
      | (s, Some inode) \<Rightarrow> if \<not> is_dir inode then (s, -1) else (s\<lparr>cwd_inum := inum\<rparr>, 0))))"

text \<open>
  \<^verbatim>\<open>fs_cat\<close> computes the length to copy as an \<^verbatim>\<open>int\<close>; a negative one (a file size of \<open>2 ^ 31\<close>
  or more, or a buffer of size 0) makes \<^verbatim>\<open>memory_copy\<close> run over all of memory, which is
  the result \<open>None\<close> here. On its error paths it releases the outer buffer before the inner
  one; the heap is the same either way (\<open>kheap.scratch_nested\<close>).
\<close>

definition cat_chunk :: "int \<Rightarrow> bytes \<Rightarrow> bytes \<Rightarrow> bytes" where
  "cat_chunk sz block out = out @ take (nat (min (sz - int (length out)) (int TINYFS_BLOCK_SIZE))) block"

primrec cat_indirect :: "'d disk_ops \<Rightarrow> bytes \<Rightarrow> int \<Rightarrow> nat \<Rightarrow> nat \<Rightarrow> bytes \<Rightarrow> 'd fsys \<Rightarrow> 'd fsys \<times> bytes option" where
  "cat_indirect D indirect sz i 0 out s = (s, Some out)"
| "cat_indirect D indirect sz i (Suc n) out s =
     (if int (length out) < sz then
        (let b = le_word (get_at (4 * i) 4 indirect) in
         if b = (0 :: u32) then (s, Some out)
         else (case tinyfs_read_block D b s of
             (s, None) \<Rightarrow> (s, None)
           | (s, Some block) \<Rightarrow> cat_indirect D indirect sz (Suc i) n (cat_chunk sz block out) s))
      else (s, Some out))"

definition cat_data :: "'d disk_ops \<Rightarrow> tinyfs_inode_t \<Rightarrow> int \<Rightarrow> 'd fsys \<Rightarrow> 'd fsys \<times> (int \<times> bytes) option" where
  "cat_data D inode sz s =
     (case (if direct_block inode > 0 then
              (case tinyfs_read_block D (direct_block inode) s of
                 (s, None) \<Rightarrow> (s, Inl (Some (-1, [])))
               | (s, Some block) \<Rightarrow> if sz < 0 then (s, Inl None) else (s, Inr (cat_chunk sz block [])))
            else (s, Inr [])) of
        (s, Inl r) \<Rightarrow> (s, r)
      | (s, Inr out) \<Rightarrow>
          (let (s, r) =
             (if int (length out) < sz \<and> indirect_block inode > 0 then with_buf None (\<lambda>s.
                case tinyfs_read_block D (indirect_block inode) s of
                  (s, None) \<Rightarrow> (s, None)
                | (s, Some indirect) \<Rightarrow> cat_indirect D indirect sz 0 1024 out s) s
              else (s, Some out))
           in case r of None \<Rightarrow> (s, Some (-1, []))
              | Some out \<Rightarrow> (s, Some (int (length out), out @ [0]))))"

definition fs_cat :: "'d disk_ops \<Rightarrow> bytes \<Rightarrow> int \<Rightarrow> 'd fsys \<Rightarrow> 'd fsys \<times> (int \<times> bytes) option" where
  "fs_cat D name buf_size s =
     (case resolve_path D name s of
        (s, None) \<Rightarrow> (s, Some (-1, []))
      | (s, Some inum) \<Rightarrow>
     (case tinyfs_read_inode D inum s of
        (s, None) \<Rightarrow> (s, Some (-1, []))
      | (s, Some inode) \<Rightarrow>
     if \<not> is_file inode then (s, Some (-1, []))
     else if isize inode = 0 then (s, Some (0, []))
     else with_buf (Some (-1, [])) (cat_data D inode (min (sint (isize inode)) (buf_size - 1))) s))"

end
