(* ===== verification/Ata.thy ===== *)
theory Ata
  imports Volume
begin

text \<open>
  The disk driver of \<^verbatim>\<open>kernel/fs/ata.c\<close>: transfers of sectors by programmed I/O through the
  ports of the primary ATA channel. The port instructions of \<^verbatim>\<open>kernel/io.h\<close> reach hardware,
  so they are an argument of the driver; what the driver relies on of the drive behind
  them is the locale \<open>ata_drive\<close>, and under it the driver keeps the contract \<open>disk\<close> of the
  file system.
\<close>

record 'd port_io =
  inb :: "u16 \<Rightarrow> 'd \<Rightarrow> 'd \<times> u8"
  inw :: "u16 \<Rightarrow> 'd \<Rightarrow> 'd \<times> u16"
  outb :: "u16 \<Rightarrow> u8 \<Rightarrow> 'd \<Rightarrow> 'd"
  outw :: "u16 \<Rightarrow> u16 \<Rightarrow> 'd \<Rightarrow> 'd"

definition ATA_DATA :: u16 where "ATA_DATA = 0x1F0"
definition ATA_SECT_COUNT :: u16 where "ATA_SECT_COUNT = 0x1F2"
definition ATA_LBA_LO :: u16 where "ATA_LBA_LO = 0x1F3"
definition ATA_LBA_MID :: u16 where "ATA_LBA_MID = 0x1F4"
definition ATA_LBA_HI :: u16 where "ATA_LBA_HI = 0x1F5"
definition ATA_DRIVE :: u16 where "ATA_DRIVE = 0x1F6"
definition ATA_CMD_STAT :: u16 where "ATA_CMD_STAT = 0x1F7"
definition ATA_CMD_READ :: u8 where "ATA_CMD_READ = 0x20"
definition ATA_CMD_WRITE :: u8 where "ATA_CMD_WRITE = 0x30"
definition ATA_MASTER :: u8 where "ATA_MASTER = 0xE0"
definition ATA_STATUS_BSY :: u8 where "ATA_STATUS_BSY = 0x80"
definition ATA_STATUS_DRQ :: u8 where "ATA_STATUS_DRQ = 0x08"
definition ATA_STATUS_ERR :: u8 where "ATA_STATUS_ERR = 0x01"
definition ATA_TIMEOUT :: nat where "ATA_TIMEOUT = 10000000"

lemmas ata_consts = ATA_DATA_def ATA_SECT_COUNT_def ATA_LBA_LO_def ATA_LBA_MID_def ATA_LBA_HI_def
  ATA_DRIVE_def ATA_CMD_STAT_def ATA_CMD_READ_def ATA_CMD_WRITE_def ATA_MASTER_def ATA_STATUS_BSY_def
  ATA_STATUS_DRQ_def ATA_STATUS_ERR_def

text \<open>The two polling loops; the argument \<open>Suc n\<close> is the value of \<^verbatim>\<open>timeout\<close>.\<close>

primrec wait_busy :: "'d port_io \<Rightarrow> nat \<Rightarrow> 'd \<Rightarrow> 'd \<times> int" where
  "wait_busy io 0 d = (d, -1)"
| "wait_busy io (Suc n) d =
     (let (d, st) = inb io ATA_CMD_STAT d in
      if st AND ATA_STATUS_BSY \<noteq> 0 then if n = 0 then (d, -1) else wait_busy io n d else (d, 0))"

definition ata_wait_busy :: "'d port_io \<Rightarrow> 'd \<Rightarrow> 'd \<times> int" where
  "ata_wait_busy io = wait_busy io ATA_TIMEOUT"

primrec wait_drq :: "'d port_io \<Rightarrow> nat \<Rightarrow> 'd \<Rightarrow> 'd \<times> int" where
  "wait_drq io 0 d = (d, -1)"
| "wait_drq io (Suc n) d =
     (let (d, st) = inb io ATA_CMD_STAT d in
      if st AND ATA_STATUS_DRQ = 0 then
        (let (d, stat) = inb io ATA_CMD_STAT d in
         if stat AND ATA_STATUS_ERR \<noteq> 0 then (d, -1)
         else if stat AND ATA_STATUS_BSY \<noteq> 0 then (d, -1)
         else if n = 0 then (d, -1) else wait_drq io n d)
      else (d, 0))"

definition ata_wait_drq :: "'d port_io \<Rightarrow> 'd \<Rightarrow> 'd \<times> int" where
  "ata_wait_drq io = wait_drq io ATA_TIMEOUT"

definition ata_command :: "'d port_io \<Rightarrow> u32 \<Rightarrow> u8 \<Rightarrow> u8 \<Rightarrow> 'd \<Rightarrow> 'd" where
  "ata_command io lba count cmd d =
     outb io ATA_CMD_STAT cmd
    (outb io ATA_LBA_HI (ucast (drop_bit 16 lba AND 0xFF))
    (outb io ATA_LBA_MID (ucast (drop_bit 8 lba AND 0xFF))
    (outb io ATA_LBA_LO (ucast (lba AND 0xFF))
    (outb io ATA_SECT_COUNT count
    (outb io ATA_DRIVE (ATA_MASTER OR ucast (drop_bit 24 lba AND 0x0F)) d)))))"

primrec in_words :: "'d port_io \<Rightarrow> nat \<Rightarrow> 'd \<Rightarrow> 'd \<times> bytes" where
  "in_words io 0 d = (d, [])"
| "in_words io (Suc n) d =
     (let (d, w) = inw io ATA_DATA d; (d, ws) = in_words io n d in (d, le_bytes 2 w @ ws))"

primrec out_words :: "'d port_io \<Rightarrow> nat \<Rightarrow> bytes \<Rightarrow> 'd \<Rightarrow> 'd" where
  "out_words io 0 buf d = d"
| "out_words io (Suc n) buf d = out_words io n (drop 2 buf) (outw io ATA_DATA (le_word (take 2 buf)) d)"

primrec read_loop :: "'d port_io \<Rightarrow> nat \<Rightarrow> bytes \<Rightarrow> 'd \<Rightarrow> 'd \<times> bytes option" where
  "read_loop io 0 buf d = (d, Some buf)"
| "read_loop io (Suc n) buf d =
     (let (d, r) = ata_wait_busy io d in
      if r < 0 then (d, None)
      else (let (d, r) = ata_wait_drq io d in
        if r < 0 then (d, None)
        else (let (d, ws) = in_words io 256 d in read_loop io n (buf @ ws) d)))"

primrec write_loop :: "'d port_io \<Rightarrow> nat \<Rightarrow> bytes \<Rightarrow> 'd \<Rightarrow> 'd \<times> int" where
  "write_loop io 0 buf d = (d, 0)"
| "write_loop io (Suc n) buf d =
     (let (d, r) = ata_wait_busy io d in
      if r < 0 then (d, -1)
      else (let (d, r) = ata_wait_drq io d in
        if r < 0 then (d, -1)
        else write_loop io n (drop 512 buf) (out_words io 256 buf d)))"

definition ata_read_sectors :: "'d port_io \<Rightarrow> u32 \<Rightarrow> u8 \<Rightarrow> 'd \<Rightarrow> 'd \<times> bytes option" where
  "ata_read_sectors io lba count d =
     (let (d, r) = ata_wait_busy io d in
      if r < 0 then (d, None)
      else read_loop io (unat count) [] (ata_command io lba count ATA_CMD_READ d))"

definition ata_write_sectors :: "'d port_io \<Rightarrow> u32 \<Rightarrow> u8 \<Rightarrow> bytes \<Rightarrow> 'd \<Rightarrow> 'd \<times> int" where
  "ata_write_sectors io lba count buf d =
     (let (d, r) = ata_wait_busy io d in
      if r < 0 then (d, -1)
      else write_loop io (unat count) buf (ata_command io lba count ATA_CMD_WRITE d))"

definition ata_ops :: "'d port_io \<Rightarrow> 'd disk_ops" where
  "ata_ops io = \<lparr>d_read = ata_read_sectors io, d_write = ata_write_sectors io\<rparr>"

subsection \<open>The drive\<close>

text \<open>
  The registers and the data phase of an ATA drive in 28-bit LBA mode, as the ATA standard
  describes them: a command moves its sectors one by one through the data port, 256 words
  each. A data phase has the number of the current sector, the number of sectors that
  follow it, and the number of words of the current sector already moved.
\<close>

datatype phase = Idle | DataIn nat nat nat | DataOut nat nat nat

record drive =
  r_drive :: u8
  r_count :: u8
  r_lo :: u8
  r_mid :: u8
  r_hi :: u8
  ph :: phase
  media :: "nat \<Rightarrow> nat \<Rightarrow> u16"

definition reg_lba :: "drive \<Rightarrow> nat" where
  "reg_lba v = unat (r_lo v) + 2 ^ 8 * unat (r_mid v) + 2 ^ 16 * unat (r_hi v) + 2 ^ 24 * (unat (r_drive v) mod 16)"

definition reg_sectors :: "drive \<Rightarrow> nat" where
  "reg_sectors v = (if r_count v = 0 then 256 else unat (r_count v))"

definition drive_outb :: "u16 \<Rightarrow> u8 \<Rightarrow> drive \<Rightarrow> drive" where
  "drive_outb p x v =
     (if p = ATA_DRIVE then v\<lparr>r_drive := x\<rparr>
      else if p = ATA_SECT_COUNT then v\<lparr>r_count := x\<rparr>
      else if p = ATA_LBA_LO then v\<lparr>r_lo := x\<rparr>
      else if p = ATA_LBA_MID then v\<lparr>r_mid := x\<rparr>
      else if p = ATA_LBA_HI then v\<lparr>r_hi := x\<rparr>
      else if p = ATA_CMD_STAT \<and> x = ATA_CMD_READ then v\<lparr>ph := DataIn (reg_lba v) (reg_sectors v - 1) 0\<rparr>
      else if p = ATA_CMD_STAT \<and> x = ATA_CMD_WRITE then v\<lparr>ph := DataOut (reg_lba v) (reg_sectors v - 1) 0\<rparr>
      else v)"

fun advance :: "phase \<Rightarrow> phase" where
  "advance Idle = Idle"
| "advance (DataIn l n k) =
     (if k + 1 < 256 then DataIn l n (k + 1) else case n of 0 \<Rightarrow> Idle | Suc m \<Rightarrow> DataIn (l + 1) m 0)"
| "advance (DataOut l n k) =
     (if k + 1 < 256 then DataOut l n (k + 1) else case n of 0 \<Rightarrow> Idle | Suc m \<Rightarrow> DataOut (l + 1) m 0)"

fun drive_word :: "drive \<Rightarrow> u16" where
  "drive_word v = (case ph v of DataIn l n k \<Rightarrow> media v l k | _ \<Rightarrow> 0)"

definition drive_inw :: "drive \<Rightarrow> drive" where
  "drive_inw v = (case ph v of DataIn l n k \<Rightarrow> v\<lparr>ph := advance (ph v)\<rparr> | _ \<Rightarrow> v)"

definition drive_outw :: "u16 \<Rightarrow> drive \<Rightarrow> drive" where
  "drive_outw x v = (case ph v of
     DataOut l n k \<Rightarrow> v\<lparr>ph := advance (ph v), media := (media v)(l := (media v l)(k := x))\<rparr> | _ \<Rightarrow> v)"

definition sector :: "drive \<Rightarrow> nat \<Rightarrow> bytes" where
  "sector v l = concat (map (\<lambda>k. le_bytes 2 (media v l k)) [0..<256])"

lemma funpow_advance:
  "k + n \<le> 255 \<Longrightarrow> (advance ^^ n) (DataIn l m k) = DataIn l m (k + n)"
  "k + n \<le> 255 \<Longrightarrow> (advance ^^ n) (DataOut l m k) = DataOut l m (k + n)"
  by (induction n) auto

lemma advance_sector:
  "(advance ^^ 256) (DataIn l m 0) = (case m of 0 \<Rightarrow> Idle | Suc j \<Rightarrow> DataIn (l + 1) j 0)"
  "(advance ^^ 256) (DataOut l m 0) = (case m of 0 \<Rightarrow> Idle | Suc j \<Rightarrow> DataOut (l + 1) j 0)"
proof -
  have "(256 :: nat) = Suc 255" by simp
  then show "(advance ^^ 256) (DataIn l m 0) = (case m of 0 \<Rightarrow> Idle | Suc j \<Rightarrow> DataIn (l + 1) j 0)"
    "(advance ^^ 256) (DataOut l m 0) = (case m of 0 \<Rightarrow> Idle | Suc j \<Rightarrow> DataOut (l + 1) j 0)"
    by (simp_all only: funpow.simps comp_apply funpow_advance [of 0 255]) simp_all
qed

lemma sector_written:
  assumes "512 \<le> length buf"
    and "media v' = (media v)(l := (\<lambda>j. if j < 256 then le_word (get_at (2 * j) 2 buf) else media v l j))"
  shows "sector v' = (sector v)(l := take 512 buf)"
proof
  fix i
  have "le_bytes 2 (le_word (get_at (2 * j) 2 buf) :: u16) = get_at (2 * j) 2 (take 512 buf)" if "j < 256" for j
  proof -
    have "get_at (2 * j) 2 (take 512 buf) = get_at (2 * j) 2 buf" using that by (simp add: get_at_def drop_take min_def)
    then show ?thesis using that assms(1) by (simp add: le_bytes_le_word)
  qed
  then have "concat (map (\<lambda>j. le_bytes 2 (media v' l j)) [0..<256]) = concat (map (\<lambda>j. get_at (2 * j) 2 (take 512 buf)) [0..<256])"
    by (intro arg_cong [of _ _ concat] map_cong) (simp_all add: assms(2))
  also have "\<dots> = take 512 buf" by (rule concat_get_at) (use assms(1) in simp)
  finally show "sector v' i = ((sector v)(l := take 512 buf)) i"
    using assms(2) by (simp add: sector_def)
qed

lemma lba_split:
  fixes lb :: u32
  assumes "unat lb < 2 ^ 28"
  shows "unat (ucast (lb AND 0xFF) :: u8) + 2 ^ 8 * unat (ucast (drop_bit 8 lb AND 0xFF) :: u8) +
      2 ^ 16 * unat (ucast (drop_bit 16 lb AND 0xFF) :: u8) +
      2 ^ 24 * (unat (ATA_MASTER OR ucast (drop_bit 24 lb AND 0x0F)) mod 16) = unat lb"
proof -
  have byte: "unat (ucast (x AND 0xFF) :: u8) = unat x mod 256" for x :: u32
  proof -
    have "x AND 0xFF = take_bit 8 x" using take_bit_eq_mask [of 8 x] by (simp add: mask_eq_exp_minus_1)
    then show ?thesis by (simp add: unsigned_ucast_eq unsigned_take_bit_eq take_bit_eq_mod unat_mod)
  qed
  have top: "unat (ATA_MASTER OR ucast (x AND 0x0F)) mod 16 = unat x mod 16" for x :: u32
  proof -
    have "x AND 0x0F = take_bit 4 x" using take_bit_eq_mask [of 4 x] by (simp add: mask_eq_exp_minus_1)
    moreover have "take_bit 4 ATA_MASTER = 0" by (simp add: ATA_MASTER_def)
    ultimately have "take_bit 4 (ATA_MASTER OR ucast (x AND 0x0F)) = take_bit 4 (ucast x)"
      by (simp add: take_bit_or) (rule bit_word_eqI, auto simp: bit_simps)
    then have "unat (take_bit 4 (ATA_MASTER OR ucast (x AND 0x0F))) = unat (take_bit 4 (ucast x :: u8))" by simp
    then show ?thesis by (simp add: unsigned_ucast_eq take_bit_eq_mod mod_mod_cancel unat_mod)
  qed
  have d: "unat (drop_bit k lb) = unat lb div 2 ^ k" for k
    unfolding unsigned_drop_bit_eq by (simp add: drop_bit_eq_div take_bit_nat_eq_self unsigned_less [of lb, where ?'a = nat, simplified])
  have "n mod 256 + 256 * (n div 256 mod 256) + 65536 * (n div 65536 mod 256) + 16777216 * (n div 16777216 mod 16) = n"
    if "n < 2 ^ 28" for n :: nat
  proof -
    have "n div 65536 = n div 256 div 256" "n div 16777216 = n div 256 div 256 div 256"
      by (simp_all flip: div_mult2_eq)
    moreover have "n div 16777216 < 16" using that by (simp add: div_less_iff_less_mult)
    ultimately show ?thesis
      using div_mult_mod_eq [of n 256] div_mult_mod_eq [of "n div 256" 256] div_mult_mod_eq [of "n div 256 div 256" 256]
      by (simp only: mod_less)
  qed
  moreover have "(2 :: nat) ^ 8 = 256" "(2 :: nat) ^ 16 = 65536" "(2 :: nat) ^ 24 = 16777216" by simp_all
  ultimately show ?thesis using assms by (simp only: byte top d)
qed

text \<open>
  What the driver relies on: the ports reach such a drive (\<open>view d\<close> is its state), which reports
  busy for a number of polls below the driver's limit; when not busy, it reports no error,
  and asks for data exactly in a data phase.
\<close>

locale ata_drive =
  fixes io :: "'d port_io" and view :: "'d \<Rightarrow> drive" and busy :: "'d \<Rightarrow> nat"
  assumes patience: "busy d < ATA_TIMEOUT"
    and status_busy: "0 < busy d \<Longrightarrow> \<exists>d' st. inb io ATA_CMD_STAT d = (d', st) \<and> st AND ATA_STATUS_BSY \<noteq> 0 \<and>
      view d' = view d \<and> busy d' = busy d - 1"
    and status_ready: "busy d = 0 \<Longrightarrow> \<exists>d' st. inb io ATA_CMD_STAT d = (d', st) \<and> st AND ATA_STATUS_BSY = 0 \<and>
      (st AND ATA_STATUS_DRQ \<noteq> 0 \<longleftrightarrow> ph (view d) \<noteq> Idle) \<and> st AND ATA_STATUS_ERR = 0 \<and>
      view d' = view d \<and> busy d' = 0"
    and register: "busy d = 0 \<Longrightarrow> view (outb io p x d) = drive_outb p x (view d)"
    and register_busy: "busy d = 0 \<Longrightarrow> p \<noteq> ATA_CMD_STAT \<Longrightarrow> busy (outb io p x d) = 0"
    and data_in: "busy d = 0 \<Longrightarrow> ph (view d) = DataIn l n k \<Longrightarrow>
      \<exists>d'. inw io ATA_DATA d = (d', drive_word (view d)) \<and> view d' = drive_inw (view d) \<and>
        (k + 1 < 256 \<longrightarrow> busy d' = 0)"
    and data_out: "busy d = 0 \<Longrightarrow> ph (view d) = DataOut l n k \<Longrightarrow>
      view (outw io ATA_DATA w d) = drive_outw w (view d) \<and> (k + 1 < 256 \<longrightarrow> busy (outw io ATA_DATA w d) = 0)"
begin

lemma wait_busy_ok:
  "busy d < n \<Longrightarrow> \<exists>d'. wait_busy io n d = (d', 0) \<and> view d' = view d \<and> busy d' = 0"
proof (induction n arbitrary: d)
  case (Suc n)
  show ?case
  proof (cases "busy d = 0")
    case True
    from status_ready [OF True] show ?thesis by auto
  next
    case False
    then obtain d' st where s: "inb io ATA_CMD_STAT d = (d', st)" "st AND ATA_STATUS_BSY \<noteq> 0" "view d' = view d" "busy d' = busy d - 1"
      using status_busy by blast
    moreover have "busy d' < n" "n \<noteq> 0" using s(4) False Suc.prems by auto
    ultimately show ?thesis using Suc.IH [of d'] by auto
  qed
qed simp

lemma ata_wait_busy_ok: "\<exists>d'. ata_wait_busy io d = (d', 0) \<and> view d' = view d \<and> busy d' = 0"
  unfolding ata_wait_busy_def by (rule wait_busy_ok) (rule patience)

lemma ata_wait_drq_ok:
  assumes "busy d = 0" "ph (view d) \<noteq> Idle"
  shows "\<exists>d'. ata_wait_drq io d = (d', 0) \<and> view d' = view d \<and> busy d' = 0"
proof -
  obtain n where n: "ATA_TIMEOUT = Suc n" using patience not0_implies_Suc by (metis not_less_zero)
  show ?thesis unfolding ata_wait_drq_def n using status_ready [OF assms(1)] assms(2) by auto
qed

lemma command_ok:
  assumes "busy d = 0" "unat lb < 2 ^ 28" "count \<noteq> 0" "cmd = ATA_CMD_READ \<or> cmd = ATA_CMD_WRITE"
  shows "media (view (ata_command io lb count cmd d)) = media (view d)"
    "ph (view (ata_command io lb count cmd d)) =
      (if cmd = ATA_CMD_READ then DataIn else DataOut) (unat lb) (unat count - 1) 0"
  using assms lba_split [OF assms(2), unfolded ATA_MASTER_def]
  by (auto simp: ata_command_def register register_busy drive_outb_def ata_consts reg_lba_def reg_sectors_def)

lemma in_words_ok:
  assumes "busy d = 0" "ph (view d) = DataIn l m k" "k + n \<le> 256" "0 < n"
  shows "\<exists>d'. in_words io n d = (d', concat (map (\<lambda>j. le_bytes 2 (media (view d) l j)) [k..<k + n])) \<and>
    media (view d') = media (view d) \<and> ph (view d') = (advance ^^ n) (DataIn l m k)"
  using assms
proof (induction n arbitrary: d k)
  case (Suc n)
  obtain d1 where d1: "inw io ATA_DATA d = (d1, media (view d) l k)" "view d1 = (view d)\<lparr>ph := advance (DataIn l m k)\<rparr>"
      "k + 1 < 256 \<longrightarrow> busy d1 = 0"
    using data_in [OF Suc.prems(1,2)] Suc.prems(2) by (auto simp: drive_inw_def)
  show ?case
  proof (cases "n = 0")
    case True
    then show ?thesis using d1 by simp
  next
    case False
    then have k: "k + 1 < 256" "busy d1 = 0" using Suc.prems(3) d1(3) by auto
    obtain d2 where "in_words io n d1 = (d2, concat (map (\<lambda>j. le_bytes 2 (media (view d1) l j)) [k + 1..<k + 1 + n]))"
      "media (view d2) = media (view d1)" "ph (view d2) = (advance ^^ n) (DataIn l m (k + 1))"
      using Suc.IH [OF k(2), of "k + 1"] d1(2) k(1) Suc.prems(3) False by auto
    then show ?thesis using d1 k by (simp add: upt_rec [of k] funpow_swap1)
  qed
qed simp

lemma out_words_ok:
  assumes "busy d = 0" "ph (view d) = DataOut l m k" "k + n \<le> 256" "0 < n" "2 * n \<le> length buf"
  shows "ph (view (out_words io n buf d)) = (advance ^^ n) (DataOut l m k) \<and>
    media (view (out_words io n buf d)) = (media (view d))(l := (\<lambda>j.
      if k \<le> j \<and> j < k + n then le_word (get_at (2 * (j - k)) 2 buf) else media (view d) l j))"
  using assms
proof (induction n arbitrary: d k buf)
  case (Suc n)
  let ?d1 = "outw io ATA_DATA (le_word (take 2 buf)) d"
  have d1: "view ?d1 = (view d)\<lparr>ph := advance (DataOut l m k), media := (media (view d))(l := (media (view d) l)(k := le_word (take 2 buf)))\<rparr>"
      "k + 1 < 256 \<longrightarrow> busy ?d1 = 0"
    using data_out [OF Suc.prems(1,2)] Suc.prems(2) by (auto simp: drive_outw_def)
  show ?case
  proof (cases "n = 0")
    case True
    then show ?thesis using d1 by (auto simp: get_at_def fun_eq_iff)
  next
    case False
    then have k: "k + 1 < 256" "busy ?d1 = 0" using Suc.prems(3) d1(2) by auto
    have shift: "get_at (2 * (j - Suc k)) 2 (drop 2 buf) = get_at (2 * (j - k)) 2 buf" if "Suc k \<le> j" for j
    proof -
      have "2 * (j - Suc k) + 2 = 2 * (j - k)" using that by simp
      then show ?thesis by (simp add: get_at_def)
    qed
    have "ph (view (out_words io n (drop 2 buf) ?d1)) = (advance ^^ n) (DataOut l m (k + 1)) \<and>
      media (view (out_words io n (drop 2 buf) ?d1)) = (media (view ?d1))(l := (\<lambda>j.
        if k + 1 \<le> j \<and> j < k + 1 + n then le_word (get_at (2 * (j - (k + 1))) 2 (drop 2 buf)) else media (view ?d1) l j))"
    proof (rule Suc.IH [OF k(2)])
      show "ph (view ?d1) = DataOut l m (k + 1)" using d1(1) k(1) by simp
    qed (use k(1) Suc.prems(3,5) False in auto)
    then have u: "ph (view (out_words io n (drop 2 buf) ?d1)) = (advance ^^ n) (DataOut l m (k + 1))"
      "media (view (out_words io n (drop 2 buf) ?d1)) i j =
        (if i = l \<and> Suc k \<le> j \<and> j < Suc k + n then le_word (get_at (2 * (j - Suc k)) 2 (drop 2 buf)) else media (view ?d1) i j)"
      for i j by auto
    have "media (view (out_words io (Suc n) buf d)) i j =
        (if i = l \<and> k \<le> j \<and> j < k + Suc n then le_word (get_at (2 * (j - k)) 2 buf) else media (view d) i j)" for i j
      using u(2) [of i j] d1(1) shift [of j] False by (cases "j = k") (auto simp: get_at_def [of 0])
    then show ?thesis using u(1) k(1) by (auto simp: funpow_swap1 fun_eq_iff)
  qed
qed simp

lemma read_loop_ok:
  "ph (view d) = DataIn l n 0 \<Longrightarrow>
   \<exists>d'. read_loop io (Suc n) buf d = (d', Some (buf @ concat (map (sector (view d)) [l..<l + Suc n]))) \<and>
     media (view d') = media (view d) \<and> ph (view d') = Idle"
proof (induction n arbitrary: d l buf)
  case (Suc n)
  obtain d1 where d1: "ata_wait_busy io d = (d1, 0)" "view d1 = view d" "busy d1 = 0" using ata_wait_busy_ok by blast
  obtain d2 where d2: "ata_wait_drq io d1 = (d2, 0)" "view d2 = view d" "busy d2 = 0"
    using ata_wait_drq_ok [OF d1(3)] d1(2) Suc.prems by auto
  obtain d3 where d3: "in_words io 256 d2 = (d3, sector (view d) l)" "media (view d3) = media (view d)"
      "ph (view d3) = DataIn (l + 1) n 0"
    using in_words_ok [OF d2(3), of l "Suc n" 0 256] d2(2) Suc.prems by (auto simp: sector_def advance_sector)
  have "sector (view d3) = sector (view d)" using d3(2) by (simp add: sector_def fun_eq_iff)
  with Suc.IH [OF d3(3), of "buf @ sector (view d) l"] d1 d2 d3 show ?case
    by (auto simp: upt_rec [of l] simp del: upt_Suc)
next
  case 0
  obtain d1 where d1: "ata_wait_busy io d = (d1, 0)" "view d1 = view d" "busy d1 = 0" using ata_wait_busy_ok by blast
  obtain d2 where d2: "ata_wait_drq io d1 = (d2, 0)" "view d2 = view d" "busy d2 = 0"
    using ata_wait_drq_ok [OF d1(3)] d1(2) 0 by auto
  show ?case
    using in_words_ok [OF d2(3), of l 0 0 256] d1 d2 0 by (auto simp: sector_def advance_sector)
qed

lemma write_loop_ok:
  "ph (view d) = DataOut l n 0 \<Longrightarrow> length buf = 512 * Suc n \<Longrightarrow>
   \<exists>d'. write_loop io (Suc n) buf d = (d', 0) \<and> ph (view d') = Idle \<and>
     sector (view d') = (\<lambda>i. if l \<le> i \<and> i < l + Suc n then get_at (512 * (i - l)) 512 buf else sector (view d) i)"
proof (induction n arbitrary: d l buf)
  case (Suc n)
  obtain d1 where d1: "ata_wait_busy io d = (d1, 0)" "view d1 = view d" "busy d1 = 0" using ata_wait_busy_ok by blast
  obtain d2 where d2: "ata_wait_drq io d1 = (d2, 0)" "view d2 = view d" "busy d2 = 0"
    using ata_wait_drq_ok [OF d1(3)] d1(2) Suc.prems by auto
  let ?d3 = "out_words io 256 buf d2"
  have d3: "ph (view ?d3) = DataOut (l + 1) n 0" "sector (view ?d3) = (sector (view d))(l := take 512 buf)"
    using out_words_ok [OF d2(3), of l "Suc n" 0 256 buf] d2(2) Suc.prems
    by (simp_all add: advance_sector sector_written cong: if_cong)
  obtain d' where d': "write_loop io (Suc n) (drop 512 buf) ?d3 = (d', 0)" "ph (view d') = Idle"
    "sector (view d') = (\<lambda>i. if l + 1 \<le> i \<and> i < l + 1 + Suc n then get_at (512 * (i - (l + 1))) 512 (drop 512 buf)
       else sector (view ?d3) i)"
    using Suc.IH [OF d3(1), of "drop 512 buf"] Suc.prems(2) by auto
  have "get_at (512 * (i - (l + 1))) 512 (drop 512 buf) = get_at (512 * (i - l)) 512 buf" if "l + 1 \<le> i" for i
  proof -
    have "512 * (i - (l + 1)) + 512 = 512 * (i - l)" using that by simp
    then show ?thesis by (simp add: get_at_def)
  qed
  then have "sector (view d') = (\<lambda>i. if l \<le> i \<and> i < l + Suc (Suc n) then get_at (512 * (i - l)) 512 buf else sector (view d) i)"
    unfolding d'(3) d3(2) by (auto simp: fun_eq_iff get_at_def [of 0])
  then show ?case using d1 d2 d' by auto
next
  case 0
  obtain d1 where d1: "ata_wait_busy io d = (d1, 0)" "view d1 = view d" "busy d1 = 0" using ata_wait_busy_ok by blast
  obtain d2 where d2: "ata_wait_drq io d1 = (d2, 0)" "view d2 = view d" "busy d2 = 0"
    using ata_wait_drq_ok [OF d1(3)] d1(2) 0 by auto
  have "ph (view (out_words io 256 buf d2)) = Idle" "sector (view (out_words io 256 buf d2)) = (sector (view d))(l := take 512 buf)"
    using out_words_ok [OF d2(3), of l 0 0 256 buf] d2(2) 0
      sector_written [of buf "view (out_words io 256 buf d2)" "view d" l]
    by (simp_all add: advance_sector cong: if_cong)
  then show ?case using d1 d2 0 by (auto simp: fun_eq_iff get_at_def)
qed

end

sublocale ata_drive \<subseteq> disk "ata_ops io" "\<lambda>d. ph (view d) = Idle" "\<lambda>d. sector (view d)"
proof
  show "length (sector (view d) i) = 512" for d i
    by (simp add: sector_def length_concat comp_def map_replicate_const sum_list_replicate)
  fix d and n :: u8 and lba :: u32
  assume d: "ph (view d) = Idle" and n: "0 < n" "unat lba + unat n \<le> 2 ^ 28"
  have pos: "0 < unat n" using n(1) by (simp add: word_less_nat_alt)
  then have n0: "n \<noteq> 0" "unat n = Suc (unat n - 1)" and lba: "unat lba < 2 ^ 28" using n(2) by auto
  obtain d1 where d1: "ata_wait_busy io d = (d1, 0)" "view d1 = view d" "busy d1 = 0" using ata_wait_busy_ok by blast
  note R = command_ok [OF d1(3) lba n0(1), of ATA_CMD_READ, simplified] and W = command_ok [OF d1(3) lba n0(1), of ATA_CMD_WRITE, simplified]
  have same: "sector u = sector v" if "media u = media v" for u v using that by (simp add: sector_def fun_eq_iff)
  show "\<exists>d'. d_read (ata_ops io) lba n d = (d', Some (concat (map (sector (view d)) [unat lba..<unat lba + unat n]))) \<and>
      ph (view d') = Idle \<and> sector (view d') = sector (view d)"
  proof -
    have "ph (view (ata_command io lba n ATA_CMD_READ d1)) = DataIn (unat lba) (unat n - 1) 0" using R(2) by simp
    from read_loop_ok [OF this, of "[]", folded n0(2)]
    obtain d' where "read_loop io (unat n) [] (ata_command io lba n ATA_CMD_READ d1) =
        (d', Some (concat (map (sector (view (ata_command io lba n ATA_CMD_READ d1))) [unat lba..<unat lba + unat n])))"
      "media (view d') = media (view (ata_command io lba n ATA_CMD_READ d1))" "ph (view d') = Idle" by auto
    then show ?thesis
      using d1 same [OF R(1)] same [of "view d'" "view d"] R(1) by (simp add: ata_ops_def ata_read_sectors_def)
  qed
  fix buf :: bytes assume buf: "length buf = 512 * unat n"
  have ph: "ph (view (ata_command io lba n ATA_CMD_WRITE d1)) = DataOut (unat lba) (unat n - 1) 0"
    using W(2) by (simp add: ata_consts)
  from write_loop_ok [OF this, of buf, folded n0(2)] buf
  obtain d' where "write_loop io (unat n) buf (ata_command io lba n ATA_CMD_WRITE d1) = (d', 0)" "ph (view d') = Idle"
    "sector (view d') = (\<lambda>i. if unat lba \<le> i \<and> i < unat lba + unat n then get_at (512 * (i - unat lba)) 512 buf
        else sector (view (ata_command io lba n ATA_CMD_WRITE d1)) i)" by blast
  then show "\<exists>d'. d_write (ata_ops io) lba n buf d = (d', 0) \<and> ph (view d') = Idle \<and>
      sector (view d') = (\<lambda>i. if unat lba \<le> i \<and> i < unat lba + unat n then get_at (512 * (i - unat lba)) 512 buf
        else sector (view d) i)"
    using d1 same [OF W(1)] by (simp add: ata_ops_def ata_write_sectors_def cong: if_cong)
qed
context ata_drive
begin

lemma drive_disk: "disk (ata_ops io) (\<lambda>d. ph (view d) = Idle) (\<lambda>d. sector (view d))"
  by unfold_locales

end

subsection \<open>A simulated drive\<close>

text \<open>
  A drive behind the ports that is busy for three polls after every command and for two
  after every sector.
\<close>

record sim =
  sim_drive :: drive
  polls :: u8

definition sim_status :: "sim \<Rightarrow> u8" where
  "sim_status d = (if 0 < polls d then 0xD0 else if ph (sim_drive d) = Idle then 0x50 else 0x58)"

definition sector_end :: "phase \<Rightarrow> bool" where
  "sector_end p = (case p of Idle \<Rightarrow> False | DataIn l n k \<Rightarrow> k + 1 = 256 | DataOut l n k \<Rightarrow> k + 1 = 256)"

definition sim_io :: "sim port_io" where
  "sim_io = \<lparr>
     inb = (\<lambda>p d. if p = ATA_CMD_STAT then (if 0 < polls d then d\<lparr>polls := polls d - 1\<rparr> else d, sim_status d) else (d, 0)),
     inw = (\<lambda>p d. (if p = ATA_DATA then d\<lparr>sim_drive := drive_inw (sim_drive d),
         polls := if sector_end (ph (sim_drive d)) then 2 else polls d\<rparr> else d, drive_word (sim_drive d))),
     outb = (\<lambda>p x d. d\<lparr>sim_drive := drive_outb p x (sim_drive d), polls := if p = ATA_CMD_STAT then 3 else polls d\<rparr>),
     outw = (\<lambda>p x d. if p = ATA_DATA then d\<lparr>sim_drive := drive_outw x (sim_drive d),
         polls := if sector_end (ph (sim_drive d)) then 2 else polls d\<rparr> else d)\<rparr>"

interpretation sim: ata_drive sim_io sim_drive "\<lambda>d. unat (polls d)"
proof
  show "unat (polls d) < ATA_TIMEOUT" for d
    using unsigned_less [of "polls d", where ?'a = nat] by (simp add: ATA_TIMEOUT_def)
  show "\<exists>d' st. inb sim_io ATA_CMD_STAT d = (d', st) \<and> st AND ATA_STATUS_BSY \<noteq> 0 \<and>
      sim_drive d' = sim_drive d \<and> unat (polls d') = unat (polls d) - 1" if "0 < unat (polls d)" for d
    using that by (auto simp: sim_io_def sim_status_def ATA_STATUS_BSY_def unat_gt_0 word_gt_0 unat_minus_one)
  show "\<exists>d' st. inb sim_io ATA_CMD_STAT d = (d', st) \<and> st AND ATA_STATUS_BSY = 0 \<and>
      (st AND ATA_STATUS_DRQ \<noteq> 0 \<longleftrightarrow> ph (sim_drive d) \<noteq> Idle) \<and> st AND ATA_STATUS_ERR = 0 \<and>
      sim_drive d' = sim_drive d \<and> unat (polls d') = 0" if "unat (polls d) = 0" for d
    using that by (auto simp: sim_io_def sim_status_def ATA_STATUS_BSY_def ATA_STATUS_DRQ_def ATA_STATUS_ERR_def unat_eq_0)
qed (auto simp: sim_io_def sector_end_def)

definition blank_drive :: drive where
  "blank_drive = \<lparr>r_drive = 0, r_count = 0, r_lo = 0, r_mid = 0, r_hi = 0, ph = Idle, media = (\<lambda>i k. 0)\<rparr>"

definition blank_sim :: sim where
  "blank_sim = \<lparr>sim_drive = blank_drive, polls = 0\<rparr>"

subsection \<open>The driver\<close>

text \<open>C22: with a drive that answers as the ATA standard says and that is ready within the
  driver's limit of polls, writing sectors succeeds and reading them back returns what was
  written; all other sectors keep their contents, and the drive is idle again.\<close>

theorem ata_write_read:
  assumes "ata_drive io view busy" "ph (view d) = Idle" "0 < n" "unat lba + unat n \<le> 2 ^ 28" "length buf = 512 * unat n"
  shows "\<exists>d1 d2. ata_write_sectors io lba n buf d = (d1, 0) \<and> ata_read_sectors io lba n d1 = (d2, Some buf) \<and>
    ph (view d1) = Idle \<and> ph (view d2) = Idle \<and>
    (\<forall>i. i < unat lba \<or> unat lba + unat n \<le> i \<longrightarrow> sector (view d2) i = sector (view d) i)"
proof -
  let ?ok = "\<lambda>d. ph (view d) = Idle" and ?sect = "\<lambda>d. sector (view d)"
  have disk: "disk (ata_ops io) ?ok ?sect" by (rule ata_drive.drive_disk [OF assms(1)])
  from disk.writes [OF disk assms(2-5)]
  obtain d1 where d1: "ata_write_sectors io lba n buf d = (d1, 0)" "?ok d1"
    "sector (view d1) = (\<lambda>i. if unat lba \<le> i \<and> i < unat lba + unat n then get_at (512 * (i - unat lba)) 512 buf
       else sector (view d) i)"
    by (auto simp: ata_ops_def)
  from disk.reads [OF disk d1(2) assms(3,4)]
  obtain d2 where d2: "ata_read_sectors io lba n d1 = (d2, Some (concat (map (sector (view d1)) [unat lba..<unat lba + unat n])))"
    "?ok d2" "sector (view d2) = sector (view d1)"
    by (auto simp: ata_ops_def)
  have "map (sector (view d1)) [unat lba..<unat lba + unat n] = map (\<lambda>i. get_at (512 * i) 512 buf) [0..<unat n]"
    by (rule nth_equalityI) (simp_all add: d1(3))
  then have "concat (map (sector (view d1)) [unat lba..<unat lba + unat n]) = buf"
    using concat_get_at [OF assms(5)] by simp
  then show ?thesis using d1 d2 by auto
qed

theorem ata_write_read_witness:
  "\<exists>d1 d2. ata_write_sectors sim_io 17 2 (replicate 1024 7) blank_sim = (d1, 0) \<and>
    ata_read_sectors sim_io 17 2 d1 = (d2, Some (replicate 1024 7)) \<and>
    ph (sim_drive d1) = Idle \<and> ph (sim_drive d2) = Idle \<and>
    (\<forall>i. i < 17 \<or> 19 \<le> i \<longrightarrow> sector (sim_drive d2) i = sector (sim_drive blank_sim) i)"
  using ata_write_read [OF sim.ata_drive_axioms, of blank_sim 2 17 "replicate 1024 7"]
  by (simp add: blank_sim_def blank_drive_def)

text \<open>A drive that never stops being busy makes every transfer fail, after the driver has
  polled the status as often as its limit says and without sending it a command.\<close>

theorem ata_busy_timeout:
  assumes "\<And>d. inb io ATA_CMD_STAT d = (poll d, st)" "st AND ATA_STATUS_BSY \<noteq> 0"
  shows "ata_read_sectors io lba n d = ((poll ^^ ATA_TIMEOUT) d, None) \<and>
    ata_write_sectors io lba n buf d = ((poll ^^ ATA_TIMEOUT) d, -1)"
proof -
  have "wait_busy io (Suc k) d = ((poll ^^ Suc k) d, -1)" for k d
    using assms by (induction k arbitrary: d) (simp_all add: funpow_swap1)
  moreover have "ATA_TIMEOUT = Suc 9999999" by (simp add: ATA_TIMEOUT_def)
  ultimately have "ata_wait_busy io d = ((poll ^^ ATA_TIMEOUT) d, -1)" by (metis ata_wait_busy_def)
  then show ?thesis
    by (simp add: ata_read_sectors_def ata_write_sectors_def)
qed

definition stuck_io :: "nat port_io" where
  "stuck_io = \<lparr>inb = (\<lambda>p d. (d + 1, 0x80)), inw = (\<lambda>p d. (d, 0)), outb = (\<lambda>p x d. 0), outw = (\<lambda>p x d. 0)\<rparr>"

theorem ata_busy_timeout_witness:
  "ata_read_sectors stuck_io 17 2 0 = (10000000, None) \<and> ata_write_sectors stuck_io 17 2 [] 0 = (10000000, -1)"
proof -
  have "(Suc ^^ k) 0 = k" for k by (induction k) auto
  moreover have "inb stuck_io ATA_CMD_STAT d = (Suc d, 0x80)" for d by (simp add: stuck_io_def)
  ultimately show ?thesis
    using ata_busy_timeout [of stuck_io Suc "0x80" 17 2 0 "[]"] by (simp add: ATA_STATUS_BSY_def ATA_TIMEOUT_def)
qed

end
