(* ===== verification/Files.thy ===== *)
theory Files
  imports Vfs Ata
begin

text \<open>
  Directories and paths: a directory block as a finite map from names to inode numbers, the
  effect of the directory operations on the map, the laws of inodes, blocks and
  directories on the disk driver, and the meaning of paths.
\<close>

lemma string_compare_name_match: "string_compare a b = name_match a b"
  by (induction a b rule: string_compare.induct) auto

subsection \<open>Directory blocks as maps\<close>

text \<open>
  A directory block is well formed when every name ends within its field of 28 bytes; it
  stands for a map from names to inode numbers.
\<close>

definition ent_field :: "bytes \<Rightarrow> nat \<Rightarrow> bytes" where
  "ent_field b i = get_at (32 * i + 4) 28 b"

definition dir_wf :: "bytes \<Rightarrow> bool" where
  "dir_wf b \<longleftrightarrow> length b = 4096 \<and> (\<forall>i < 128. 0 \<in> set (ent_field b i))"

definition dir_map :: "bytes \<Rightarrow> bytes \<Rightarrow> u32 option" where
  "dir_map b name = map_option (ent_inode b) (lookup_entry b name)"

lemma cstr_take: "0 \<in> set (take n xs) \<Longrightarrow> cstr (take n xs) = cstr xs"
  by (induction xs arbitrary: n) (auto simp: take_Cons split: nat.splits)

lemma chr_at_cstr: "chr_at a 0 = 0 \<longleftrightarrow> cstr a = []"
  by (simp add: cstr_Nil_iff)

lemma ent_name_field:
  assumes "dir_wf b" "i < 128"
  shows "cstr (ent_name b i) = cstr (ent_field b i)"
  using assms cstr_take [of 28 "ent_name b i"] by (simp add: dir_wf_def ent_field_def ent_name_def get_at_def)

definition put_entry :: "bytes \<Rightarrow> nat \<Rightarrow> u32 \<Rightarrow> bytes \<Rightarrow> bytes" where
  "put_entry b i n txt = put_at (32 * i + 4) (txt @ [0]) (put_at (32 * i) (le_bytes 4 n) b)"

lemma set_entry_put: "set_entry b i n name = put_entry b i n (take 27 (cstr name))"
  by (simp add: set_entry_def put_entry_def)

lemma clear_entry_put: "clear_entry b i = put_entry b i 0 []"
  by (simp add: clear_entry_def put_entry_def)

lemma put_entry:
  assumes "dir_wf b" "i < 128" "length txt \<le> 27" "0 \<notin> set txt" "j < 128"
  shows "length (put_entry b i n txt) = 4096"
    and "ent_inode (put_entry b i n txt) j = (if j = i then n else ent_inode b j)"
    and "j \<noteq> i \<Longrightarrow> ent_field (put_entry b i n txt) j = ent_field b j"
    and "cstr (ent_field (put_entry b i n txt) i) = txt"
    and "0 \<in> set (ent_field (put_entry b i n txt) i)"
proof -
  let ?b1 = "put_at (32 * i) (le_bytes 4 n) b"
  have len: "length b = 4096" using assms(1) by (simp add: dir_wf_def)
  have b1: "length ?b1 = 4096" using len assms(2) by simp
  show "length (put_entry b i n txt) = 4096" using b1 assms(2,3) by (simp add: put_entry_def)
  show "ent_inode (put_entry b i n txt) j = (if j = i then n else ent_inode b j)"
  proof (cases "j = i")
    case True
    have "get_at (32 * i) 4 (put_entry b i n txt) = get_at (32 * i) 4 ?b1"
      unfolding put_entry_def by (rule get_put_other) (use b1 assms(2,3) in auto)
    then show ?thesis using True len assms(2) by (simp add: ent_inode_def get_put_same)
  next
    case False
    have "get_at (32 * j) 4 (put_entry b i n txt) = get_at (32 * j) 4 ?b1"
      unfolding put_entry_def by (rule get_put_other) (use b1 assms(2,3,5) False in auto)
    also have "\<dots> = get_at (32 * j) 4 b"
      by (rule get_put_other) (use len assms(2,5) False in auto)
    finally show ?thesis using False by (simp add: ent_inode_def)
  qed
  show "ent_field (put_entry b i n txt) j = ent_field b j" if "j \<noteq> i"
  proof -
    have "get_at (32 * j + 4) 28 (put_entry b i n txt) = get_at (32 * j + 4) 28 ?b1"
      unfolding put_entry_def by (rule get_put_other) (use b1 assms(2,3,5) that in auto)
    also have "\<dots> = get_at (32 * j + 4) 28 b"
      by (rule get_put_other) (use len assms(2,5) that in auto)
    finally show ?thesis by (simp add: ent_field_def)
  qed
  have field: "ent_field (put_entry b i n txt) i = txt @ 0 # get_at (32 * i + 4 + Suc (length txt)) (27 - length txt) ?b1"
  proof -
    have k: "28 - length txt = Suc (27 - length txt)" using assms(3) by simp
    show ?thesis using assms(2,3) b1 by (simp add: ent_field_def put_entry_def put_at_def get_at_def k)
  qed
  show "cstr (ent_field (put_entry b i n txt) i) = txt" unfolding field using assms(4) by simp
  show "0 \<in> set (ent_field (put_entry b i n txt) i)" unfolding field by simp
qed

lemma put_entry_wf:
  assumes "dir_wf b" "i < 128" "length txt \<le> 27" "0 \<notin> set txt"
  shows "dir_wf (put_entry b i n txt)"
  using assms put_entry [OF assms] unfolding dir_wf_def by (metis zero_less_numeral)

lemma put_entry_name:
  assumes "dir_wf b" "i < 128" "length txt \<le> 27" "0 \<notin> set txt" "j < 128"
  shows "cstr (ent_name (put_entry b i n txt) j) = (if j = i then txt else cstr (ent_name b j))"
  using assms put_entry(3,4) [OF assms] ent_name_field [OF put_entry_wf [OF assms(1-4)] assms(5)] ent_name_field [OF assms(1,5)]
  by simp

lemma lookup_entry_eq:
  "lookup_entry b name = find (\<lambda>i. cstr (ent_name b i) \<noteq> [] \<and> cstr name = cstr (ent_name b i)) [0..<128]"
  by (simp add: lookup_entry_def chr_at_cstr string_compare_name_match name_match_eq_0 TINYFS_DIRENTS_PER_BLOCK_def
      TINYFS_BLOCK_SIZE_def)

lemma match_entry_lookup: "match_entry b name = lookup_entry b name"
  by (simp add: match_entry_def lookup_entry_def string_compare_name_match)

lemma lookup_Some:
  "lookup_entry b name = Some i \<Longrightarrow> i < 128 \<and> cstr (ent_name b i) = cstr name \<and> cstr name \<noteq> [] \<and>
     (\<forall>j < i. cstr (ent_name b j) \<noteq> cstr name)"
  unfolding lookup_entry_eq find_Some_iff by auto

lemma lookup_None:
  "lookup_entry b name = None \<longleftrightarrow> cstr name = [] \<or> (\<forall>i < 128. cstr (ent_name b i) \<noteq> cstr name)"
  unfolding lookup_entry_eq find_None_iff by (auto simp: eq_commute)

lemma lookup_entry_cong:
  assumes "\<And>j. j < 128 \<Longrightarrow> cstr (ent_name b' j) = cstr name \<longleftrightarrow> cstr (ent_name b j) = cstr name"
  shows "lookup_entry b' name = lookup_entry b name"
  unfolding lookup_entry_eq
proof (rule find_cong)
  fix j assume "j \<in> set [0..<128::nat]"
  then show "(cstr (ent_name b' j) \<noteq> [] \<and> cstr name = cstr (ent_name b' j)) =
      (cstr (ent_name b j) \<noteq> [] \<and> cstr name = cstr (ent_name b j))"
    using assms [of j] by (metis atLeastLessThan_iff set_upt)
qed simp

lemma dir_map_add:
  assumes "dir_wf b" "i < 128" "cstr (ent_name b i) = []" "length txt \<le> 27" "0 \<notin> set txt" "txt \<noteq> []" "dir_map b txt = None"
  shows "dir_map (put_entry b i n txt) name = (if cstr name = txt then Some n else dir_map b name)"
proof -
  note N = put_entry_name [OF assms(1,2,4,5)] and I = put_entry(2) [OF assms(1,2,4,5)]
  have no: "cstr (ent_name b j) \<noteq> txt" if "j < 128" for j
    using assms(5-7) that by (auto simp: dir_map_def lookup_None)
  show ?thesis
  proof (cases "cstr name = txt")
    case True
    have "lookup_entry (put_entry b i n txt) name = Some i"
      unfolding lookup_entry_eq find_Some_iff
    proof (intro exI [of _ i] conjI allI impI)
      show "\<not> (cstr (ent_name (put_entry b i n txt) ([0..<128] ! j)) \<noteq> [] \<and>
          cstr name = cstr (ent_name (put_entry b i n txt) ([0..<128] ! j)))" if "j < i" for j
        using that assms(2) no [of j] N [of j] True by simp
    qed (use assms(2,6) True N [of i] in auto)
    then show ?thesis using True I [of i] assms(2) by (simp add: dir_map_def)
  next
    case False
    show ?thesis
    proof (cases "cstr name = []")
      case True
      then show ?thesis using False by (simp add: dir_map_def lookup_None [THEN iffD2])
    next
      case ne: False
      have "lookup_entry (put_entry b i n txt) name = lookup_entry b name"
        by (rule lookup_entry_cong) (use False ne N assms(3) in auto)
      moreover have "ent_inode (put_entry b i n txt) j = ent_inode b j" if "lookup_entry b name = Some j" for j
      proof -
        have "j < 128" "j \<noteq> i" using lookup_Some [OF that] assms(3) by auto
        then show ?thesis using I [of j] by simp
      qed
      ultimately show ?thesis using False by (cases "lookup_entry b name") (simp_all add: dir_map_def)
    qed
  qed
qed

text \<open>No name stands twice in the block.\<close>

definition dir_distinct :: "bytes \<Rightarrow> bool" where
  "dir_distinct b \<longleftrightarrow> (\<forall>j < 128. \<forall>k < 128. cstr (ent_name b j) = cstr (ent_name b k) \<longrightarrow> cstr (ent_name b j) \<noteq> [] \<longrightarrow> j = k)"

lemma dir_map_remove:
  assumes "dir_wf b" "lookup_entry b txt = Some i" "dir_distinct b"
  shows "dir_map (clear_entry b i) name = (if cstr name = cstr txt then None else dir_map b name)"
proof -
  note L = lookup_Some [OF assms(2)]
  have i: "i < 128" using L by simp
  note N = put_entry_name [OF assms(1) i, of "[]", simplified] and I = put_entry(2) [OF assms(1) i, of "[]", simplified]
  show ?thesis
  proof (cases "cstr name = cstr txt")
    case True
    have "lookup_entry (clear_entry b i) name = None"
      unfolding lookup_None clear_entry_put
    proof (intro disjI2 allI impI)
      fix j :: nat assume j: "j < 128"
      show "cstr (ent_name (put_entry b i 0 []) j) \<noteq> cstr name"
      proof (cases "j = i")
        case False
        then have "cstr (ent_name b j) \<noteq> cstr (ent_name b i)" using assms(3) i j L unfolding dir_distinct_def by metis
        then show ?thesis using False N [OF j] True L by simp
      qed (use N [OF j] True L in auto)
    qed
    then show ?thesis using True by (simp add: dir_map_def)
  next
    case False
    have "lookup_entry (clear_entry b i) name = lookup_entry b name"
    proof (cases "cstr name = []")
      case ne: False
      show ?thesis by (rule lookup_entry_cong) (use False ne N L in \<open>auto simp: clear_entry_put\<close>)
    qed (simp add: lookup_None [THEN iffD2])
    moreover have "ent_inode (clear_entry b i) j = ent_inode b j" if "lookup_entry b name = Some j" for j
    proof -
      have "j < 128" "j \<noteq> i" using lookup_Some [OF that] L False by auto
      then show ?thesis using I [of j] by (simp add: clear_entry_put)
    qed
    ultimately show ?thesis using False by (cases "lookup_entry b name") (simp_all add: dir_map_def)
  qed
qed

subsection \<open>Directories on a disk\<close>

definition data_block :: "tinyfs_superblock_t \<Rightarrow> u32 \<Rightarrow> bool" where
  "data_block S b \<longleftrightarrow> 0 < b \<and> unat b < unat (total_blocks S) \<and> unat b \<noteq> unat (inode_bitmap_block S) \<and>
     unat b \<noteq> unat (block_bitmap_block S) \<and>
     (unat b < unat (inode_table_block S) \<or> unat (inode_table_block S) + table_blocks S \<le> unat b)"

definition dir_ok :: "tinyfs_superblock_t \<Rightarrow> (nat \<Rightarrow> bytes) \<Rightarrow> u32 \<Rightarrow> bool" where
  "dir_ok S B dir \<longleftrightarrow> valid_inum S dir \<and> is_dir (inode_at S B dir) \<and> data_block S (direct_block (inode_at S B dir)) \<and>
     dir_wf (B (unat (direct_block (inode_at S B dir))))"

abbreviation dir_contents :: "tinyfs_superblock_t \<Rightarrow> (nat \<Rightarrow> bytes) \<Rightarrow> u32 \<Rightarrow> bytes" where
  "dir_contents S B dir \<equiv> B (unat (direct_block (inode_at S B dir)))"

lemma data_block_table: "data_block S b \<Longrightarrow> valid_inum S i \<Longrightarrow> unat b \<noteq> table_block S i"
  using table_block_range [of i S] by (auto simp: data_block_def)

lemma is_dir_mode: "is_dir i \<Longrightarrow> mode i AND TINYFS_TYPE_DIR \<noteq> 0"
proof
  assume "is_dir i" "mode i AND TINYFS_TYPE_DIR = 0"
  moreover have "mode i AND TINYFS_TYPE_DIR = (mode i AND 0xF000) AND TINYFS_TYPE_DIR"
    by (simp add: TINYFS_TYPE_DIR_def and.assoc)
  ultimately show False by (simp add: is_dir_def TINYFS_TYPE_DIR_def)
qed

lemma is_dir_isize [simp]: "is_dir (i\<lparr>isize := n\<rparr>) = is_dir i"
  by (simp add: is_dir_def)

lemma free_entry_Some: "free_entry b = Some i \<Longrightarrow> i < 128 \<and> cstr (ent_name b i) = []"
  unfolding free_entry_def find_Some_iff by (auto simp: TINYFS_DIRENTS_PER_BLOCK_def TINYFS_BLOCK_SIZE_def chr_at_cstr)

lemma take_cstr [simp]: "0 \<notin> set (take k (cstr name))"
  by (meson cstr_no_nul in_set_takeD)

lemma set_entry_wf: "dir_wf b \<Longrightarrow> i < 128 \<Longrightarrow> dir_wf (set_entry b i n name)"
  by (simp add: set_entry_put put_entry_wf)

lemma clear_entry_wf: "dir_wf b \<Longrightarrow> i < 128 \<Longrightarrow> dir_wf (clear_entry b i)"
  by (simp add: clear_entry_put put_entry_wf)

definition grown :: "tinyfs_inode_t \<Rightarrow> nat \<Rightarrow> tinyfs_inode_t" where
  "grown ino i = (if (int i + 1) * 32 > sint (isize ino) then ino\<lparr>isize := word_of_int ((int i + 1) * 32)\<rparr> else ino)"

lemma grown_fields [simp]:
  "direct_block (grown ino i) = direct_block ino" "is_dir (grown ino i) = is_dir ino" "inode_wf (grown ino i) = inode_wf ino"
  by (simp_all add: grown_def)

text \<open>The volume after a change of the contents of a directory.\<close>

definition dir_update :: "tinyfs_superblock_t \<Rightarrow> (nat \<Rightarrow> bytes) \<Rightarrow> u32 \<Rightarrow> bytes \<Rightarrow> tinyfs_inode_t \<Rightarrow> (nat \<Rightarrow> bytes)" where
  "dir_update S B dir b ino = put_inode S (B(unat (direct_block (inode_at S B dir)) := b)) dir ino"

lemma dir_update_ok:
  assumes "dir_ok S B dir" "dir_wf b" "inode_wf ino" "is_dir ino" "direct_block ino = direct_block (inode_at S B dir)"
    and "\<And>b. length (B b) = 4096"
  shows "dir_ok S (dir_update S B dir b ino) dir" "dir_contents S (dir_update S B dir b ino) dir = b"
    "inode_at S (dir_update S B dir b ino) dir = ino"
proof -
  let ?d = "unat (direct_block (inode_at S B dir))"
  have v: "valid_inum S dir" and d: "?d \<noteq> table_block S dir"
    using assms(1) data_block_table by (auto simp: dir_ok_def)
  have len: "length ((B(?d := b)) c) = 4096" for c using assms(2,6) by (simp add: dir_wf_def)
  show i: "inode_at S (dir_update S B dir b ino) dir = ino"
    using inode_at_put [of "B(?d := b)" ino S dir dir] len assms(3) by (simp add: dir_update_def)
  show c: "dir_contents S (dir_update S B dir b ino) dir = b"
    using i assms(5) put_inode_other [OF d] by (simp add: dir_update_def)
  show "dir_ok S (dir_update S B dir b ino) dir"
    using assms(1,2,4,5) v i c by (simp add: dir_ok_def)
qed

context disk
begin

lemma find_dirent_goes:
  assumes "fs_good ok s" "dir_ok (sb s) (blocks s) dir"
  shows "\<exists>t. find_dirent D dir name s = (t, dir_map (dir_contents (sb s) (blocks s) dir) name) \<and> goes ok sect s (blocks s) t"
proof -
  let ?i = "inode_at (sb s) (blocks s) dir"
  have d: "valid_inum (sb s) dir" "is_dir ?i" "data_block (sb s) (direct_block ?i)" using assms(2) by (simp_all add: dir_ok_def)
  have lt: "unat (direct_block ?i) < unat (total_blocks (sb s))" "0 < direct_block ?i" using d(3) by (simp_all add: data_block_def)
  obtain t where t: "tinyfs_read_inode D dir s = (t, Some ?i)" "goes ok sect s (blocks s) t"
    using read_inode_goes [OF assms(1) d(1)] by blast
  note gt = goesD [OF t(2)] and good = goes_good [OF t(2) assms(1)]
  have "\<exists>u. with_buf None (\<lambda>s. if direct_block ?i > 0 then
         (case tinyfs_read_block D (direct_block ?i) s of (s, None) \<Rightarrow> (s, None)
          | (s, Some block) \<Rightarrow> (s, map_option (ent_inode block) (lookup_entry block name))) else (s, None)) t =
      (u, dir_map (dir_contents (sb s) (blocks s) dir) name) \<and> goes ok sect t (blocks t) u"
  proof (rule with_buf_run)
    show "heap_room (fs_heap t)" using good by (simp add: fs_good_def)
    fix h p
    from read_block_goes [of "t\<lparr>fs_heap := h\<rparr>" "direct_block ?i"] good gt lt
    show "\<exists>u. (if direct_block ?i > 0 then
         (case tinyfs_read_block D (direct_block ?i) (t\<lparr>fs_heap := h\<rparr>) of (s, None) \<Rightarrow> (s, None)
          | (s, Some block) \<Rightarrow> (s, map_option (ent_inode block) (lookup_entry block name))) else (t\<lparr>fs_heap := h\<rparr>, None)) =
      (u, dir_map (dir_contents (sb s) (blocks s) dir) name) \<and> goes ok sect (t\<lparr>fs_heap := h\<rparr>) (blocks t) u"
      by (auto simp: fs_good_def dir_map_def)
  qed
  then obtain u where "with_buf None (\<lambda>s. if direct_block ?i > 0 then
         (case tinyfs_read_block D (direct_block ?i) s of (s, None) \<Rightarrow> (s, None)
          | (s, Some block) \<Rightarrow> (s, map_option (ent_inode block) (lookup_entry block name))) else (s, None)) t =
      (u, dir_map (dir_contents (sb s) (blocks s) dir) name)" "goes ok sect s (blocks s) u"
    using gt(5) goes_trans [OF t(2)] by auto
  then show ?thesis using t d(2) by (simp add: find_dirent_def)
qed

text \<open>The part of \<^verbatim>\<open>tinyfs_add_dirent\<close> that works on the directory block.\<close>

definition add_body :: "u32 \<Rightarrow> bytes \<Rightarrow> tinyfs_inode_t \<Rightarrow> 'd fsys \<Rightarrow> 'd fsys \<times> (int + tinyfs_inode_t)" where
  "add_body n name dir_inode = (\<lambda>s.
     case tinyfs_read_block D (direct_block dir_inode) s of
       (s, None) \<Rightarrow> (s, Inl (-1))
     | (s, Some block) \<Rightarrow>
         (case free_entry block of
            None \<Rightarrow> (s, Inl (-2))
          | Some found \<Rightarrow>
              (let (s, w) = tinyfs_write_block D (direct_block dir_inode) (set_entry block found n name) s
               in if w < 0 then (s, Inl (-1)) else (s, Inr (grown dir_inode found)))))"

lemma add_dirent_eq:
  assumes "tinyfs_read_inode D dir s = (t, Some ino)" "is_dir ino" "direct_block ino \<noteq> 0"
  shows "tinyfs_add_dirent D dir n name s =
    (let (s, r) = with_buf (Inl (-1)) (add_body n name ino) t
     in case r of Inl code \<Rightarrow> (s, code)
      | Inr i \<Rightarrow> (let (s, w) = tinyfs_write_inode D dir i s in (s, if w < 0 then -1 else 0)))"
proof -
  have "(\<lambda>s. case tinyfs_read_block D (direct_block ino) s of
                (s, None) \<Rightarrow> (s, Inl (-1))
              | (s, Some block) \<Rightarrow>
                  (case free_entry block of
                     None \<Rightarrow> (s, Inl (-2))
                   | Some found \<Rightarrow>
                       (let block = set_entry block found n name;
                            new_size = (int found + 1) * 32;
                            dir_inode = (if new_size > sint (isize ino)
                                         then ino\<lparr>isize := word_of_int new_size\<rparr> else ino);
                            (s, w) = tinyfs_write_block D (direct_block dir_inode) block s
                        in if w < 0 then (s, Inl (-1)) else (s, Inr dir_inode)))) = add_body n name ino"
    by (simp add: add_body_def grown_def fun_eq_iff Let_def split: prod.splits option.splits)
  then show ?thesis using assms is_dir_mode [OF assms(2)] by (simp add: tinyfs_add_dirent_def) (simp add: Let_def)
qed

lemma dir_read:
  assumes "fs_good ok s" "dir_ok (sb s) (blocks s) dir"
  obtains t where "tinyfs_read_inode D dir s = (t, Some (inode_at (sb s) (blocks s) dir))" "goes ok sect s (blocks s) t"
    "is_dir (inode_at (sb s) (blocks s) dir)" "direct_block (inode_at (sb s) (blocks s) dir) \<noteq> 0"
    "fs_good ok t" "unat (direct_block (inode_at (sb s) (blocks s) dir)) < unat (total_blocks (sb t))"
proof -
  have d: "valid_inum (sb s) dir" "is_dir (inode_at (sb s) (blocks s) dir)" "data_block (sb s) (direct_block (inode_at (sb s) (blocks s) dir))"
    using assms(2) by (simp_all add: dir_ok_def)
  obtain t where t: "tinyfs_read_inode D dir s = (t, Some (inode_at (sb s) (blocks s) dir))" "goes ok sect s (blocks s) t"
    using read_inode_goes [OF assms(1) d(1)] by blast
  show thesis by (rule that [OF t d(2)]) (use d(3) goes_good [OF t(2) assms(1)] goesD(2) [OF t(2)] in \<open>auto simp: data_block_def\<close>)
qed

lemma add_dirent_full:
  assumes "fs_good ok s" "dir_ok (sb s) (blocks s) dir" "free_entry (dir_contents (sb s) (blocks s) dir) = None"
  shows "\<exists>t. tinyfs_add_dirent D dir n name s = (t, -2) \<and> goes ok sect s (blocks s) t"
proof -
  let ?i = "inode_at (sb s) (blocks s) dir"
  obtain t where t: "tinyfs_read_inode D dir s = (t, Some ?i)" "goes ok sect s (blocks s) t" "is_dir ?i" "direct_block ?i \<noteq> 0"
    and good: "fs_good ok t" and lt: "unat (direct_block ?i) < unat (total_blocks (sb t))"
    by (rule dir_read [OF assms(1,2)])
  have "\<exists>u. with_buf (Inl (-1)) (add_body n name ?i) t = (u, Inl (-2)) \<and> goes ok sect t (blocks t) u"
  proof (rule with_buf_run)
    show "heap_room (fs_heap t)" using good by (simp add: fs_good_def)
    fix h p
    from read_block_goes [of "t\<lparr>fs_heap := h\<rparr>" "direct_block ?i"] good lt goesD(5) [OF t(2)] assms(3)
    show "\<exists>u. add_body n name ?i (t\<lparr>fs_heap := h\<rparr>) = (u, Inl (-2)) \<and> goes ok sect (t\<lparr>fs_heap := h\<rparr>) (blocks t) u"
      by (auto simp: fs_good_def add_body_def)
  qed
  then show ?thesis using add_dirent_eq [OF t(1,3,4)] goesD(5) [OF t(2)] goes_trans [OF t(2)] by auto
qed

lemma add_dirent_goes:
  assumes "fs_good ok s" "dir_ok (sb s) (blocks s) dir" "free_entry (dir_contents (sb s) (blocks s) dir) = Some i"
  shows "\<exists>t. tinyfs_add_dirent D dir n name s = (t, 0) \<and>
    goes ok sect s (dir_update (sb s) (blocks s) dir (set_entry (dir_contents (sb s) (blocks s) dir) i n name)
      (grown (inode_at (sb s) (blocks s) dir) i)) t"
proof -
  let ?i = "inode_at (sb s) (blocks s) dir"
  let ?d = "unat (direct_block ?i)"
  let ?b = "set_entry (blocks s ?d) i n name"
  obtain t where t: "tinyfs_read_inode D dir s = (t, Some ?i)" "goes ok sect s (blocks s) t" "is_dir ?i" "direct_block ?i \<noteq> 0"
    and good: "fs_good ok t" and lt: "?d < unat (total_blocks (sb t))"
    by (rule dir_read [OF assms(1,2)])
  have len: "length ?b = 4096"
    using free_entry_Some [OF assms(3)] assms(2) set_entry_wf [of "blocks s ?d" i n name] by (simp add: dir_ok_def dir_wf_def)
  have "\<exists>u. with_buf (Inl (-1)) (add_body n name ?i) t = (u, Inr (grown ?i i)) \<and> goes ok sect t ((blocks s)(?d := ?b)) u"
  proof (rule with_buf_run)
    show "heap_room (fs_heap t)" using good by (simp add: fs_good_def)
    fix h p
    let ?t = "t\<lparr>fs_heap := h\<rparr>"
    have g: "ok (dev ?t)" "sb_ok (sb ?t)" "?d < unat (total_blocks (sb ?t))" using good lt by (simp_all add: fs_good_def)
    obtain u where u: "tinyfs_read_block D (direct_block ?i) ?t = (u, Some (blocks s ?d))" "goes ok sect ?t (blocks s) u"
      using read_block_goes [OF g] goesD(5) [OF t(2)] by auto
    obtain w where w: "tinyfs_write_block D (direct_block ?i) ?b u = (w, 0)" "goes ok sect u ((blocks s)(?d := ?b)) w"
      using write_block_goes [of u "direct_block ?i" ?b] goesD(2,4,5) [OF u(2)] g len by auto
    show "\<exists>w. add_body n name ?i ?t = (w, Inr (grown ?i i)) \<and> goes ok sect ?t ((blocks s)(?d := ?b)) w"
      using u w assms(3) goes_trans [OF u(2) w(2)] by (auto simp: add_body_def)
  qed
  then obtain u where u: "with_buf (Inl (-1)) (add_body n name ?i) t = (u, Inr (grown ?i i))" "goes ok sect s ((blocks s)(?d := ?b)) u"
    using goes_trans [OF t(2)] by blast
  have "valid_inum (sb u) dir" using assms(2) goesD(2) [OF u(2)] by (simp add: dir_ok_def)
  moreover have "inode_wf ?i" by (rule inode_at_wf) simp
  ultimately obtain w where w: "tinyfs_write_inode D dir (grown ?i i) u = (w, 0)"
      "goes ok sect u (put_inode (sb u) (blocks u) dir (grown ?i i)) w"
    using write_inode_goes [OF goes_good [OF u(2) assms(1)], of dir "grown ?i i"] by auto
  then show ?thesis
    using add_dirent_eq [OF t(1,3,4)] u goesD(2,5) [OF u(2)] goes_trans [OF u(2) w(2)] by (auto simp: dir_update_def)
qed

definition remove_body :: "bytes \<Rightarrow> tinyfs_inode_t \<Rightarrow> 'd fsys \<Rightarrow> 'd fsys \<times> bool" where
  "remove_body name dir_inode = (\<lambda>s.
     case tinyfs_read_block D (direct_block dir_inode) s of
       (s, None) \<Rightarrow> (s, False)
     | (s, Some block) \<Rightarrow>
         (case match_entry block name of
            None \<Rightarrow> (s, False)
          | Some found \<Rightarrow>
              (let (s, w) = tinyfs_write_block D (direct_block dir_inode) (clear_entry block found) s in (s, \<not> w < 0))))"

lemma remove_dirent_eq:
  assumes "tinyfs_read_inode D dir s = (t, Some ino)" "is_dir ino" "direct_block ino \<noteq> 0"
  shows "tinyfs_remove_dirent D dir name s =
    (let (s, ok) = with_buf False (remove_body name ino) t
     in if \<not> ok then (s, -1) else (let (s, w) = tinyfs_write_inode D dir ino s in (s, if w < 0 then -1 else 0)))"
  using assms is_dir_mode [OF assms(2)] by (simp add: tinyfs_remove_dirent_def remove_body_def)

lemma remove_dirent_goes:
  assumes "fs_good ok s" "dir_ok (sb s) (blocks s) dir"
  shows "case lookup_entry (dir_contents (sb s) (blocks s) dir) name of
      None \<Rightarrow> \<exists>t. tinyfs_remove_dirent D dir name s = (t, -1) \<and> goes ok sect s (blocks s) t
    | Some i \<Rightarrow> \<exists>t. tinyfs_remove_dirent D dir name s = (t, 0) \<and>
        goes ok sect s (dir_update (sb s) (blocks s) dir (clear_entry (dir_contents (sb s) (blocks s) dir) i)
          (inode_at (sb s) (blocks s) dir)) t"
proof -
  let ?i = "inode_at (sb s) (blocks s) dir"
  let ?d = "unat (direct_block ?i)"
  let ?l = "lookup_entry (blocks s ?d) name"
  let ?B = "case ?l of None \<Rightarrow> blocks s | Some i \<Rightarrow> (blocks s)(?d := clear_entry (blocks s ?d) i)"
  obtain t where t: "tinyfs_read_inode D dir s = (t, Some ?i)" "goes ok sect s (blocks s) t" "is_dir ?i" "direct_block ?i \<noteq> 0"
    and good: "fs_good ok t" and lt: "?d < unat (total_blocks (sb t))"
    by (rule dir_read [OF assms(1,2)])
  have len: "length (clear_entry (blocks s ?d) i) = 4096" if "?l = Some i" for i
    using lookup_Some [OF that] by (simp add: clear_entry_def)
  have "\<exists>u. with_buf False (remove_body name ?i) t = (u, ?l \<noteq> None) \<and> goes ok sect t ?B u"
  proof (rule with_buf_run)
    show "heap_room (fs_heap t)" using good by (simp add: fs_good_def)
    fix h p
    let ?t = "t\<lparr>fs_heap := h\<rparr>"
    have g: "ok (dev ?t)" "sb_ok (sb ?t)" "?d < unat (total_blocks (sb ?t))" using good lt by (simp_all add: fs_good_def)
    obtain u where u: "tinyfs_read_block D (direct_block ?i) ?t = (u, Some (blocks s ?d))" "goes ok sect ?t (blocks s) u"
      using read_block_goes [OF g] goesD(5) [OF t(2)] by auto
    show "\<exists>u. remove_body name ?i ?t = (u, ?l \<noteq> None) \<and> goes ok sect ?t ?B u"
    proof (cases ?l)
      case None
      then show ?thesis using u by (auto simp: remove_body_def match_entry_lookup)
    next
      case (Some i)
      obtain w where "tinyfs_write_block D (direct_block ?i) (clear_entry (blocks s ?d) i) u = (w, 0)"
          "goes ok sect u ((blocks s)(?d := clear_entry (blocks s ?d) i)) w"
        using write_block_goes [of u "direct_block ?i" "clear_entry (blocks s ?d) i"] goesD(2,4,5) [OF u(2)] g len [OF Some] by auto
      then show ?thesis using u Some goes_trans [OF u(2)] by (auto simp: remove_body_def match_entry_lookup)
    qed
  qed
  then obtain u where u: "with_buf False (remove_body name ?i) t = (u, ?l \<noteq> None)" "goes ok sect s ?B u"
    using goes_trans [OF t(2)] by blast
  have "valid_inum (sb u) dir" using assms(2) goesD(2) [OF u(2)] by (simp add: dir_ok_def)
  moreover have "inode_wf ?i" by (rule inode_at_wf) simp
  ultimately obtain w where "tinyfs_write_inode D dir ?i u = (w, 0)" "goes ok sect u (put_inode (sb u) (blocks u) dir ?i) w"
    using write_inode_goes [OF goes_good [OF u(2) assms(1)], of dir ?i] by auto
  then show ?thesis
    using remove_dirent_eq [OF t(1,3,4), of name] u goesD(2,5) [OF u(2)] goes_trans [OF u(2)]
    by (auto simp: dir_update_def split: option.splits)
qed
end

subsection \<open>The file system on the disk driver\<close>

text \<open>
  The blocks of the volume behind the driver, and the states in which the file system can
  work: the drive is idle, the superblock describes a volume of the size the bitmaps can
  describe, and the heap has room for a buffer. A directory is in order (\<open>dir_inv\<close>) when its
  inode and its block are, and no name is listed twice.
\<close>

definition vol :: "('d \<Rightarrow> drive) \<Rightarrow> 'd fsys \<Rightarrow> nat \<Rightarrow> bytes" where
  "vol view s = blk (\<lambda>d. sector (view d)) (dev s)"

definition fs_ready :: "('d \<Rightarrow> drive) \<Rightarrow> 'd fsys \<Rightarrow> bool" where
  "fs_ready view s = fs_good (\<lambda>d. ph (view d) = Idle) s"

definition dir_inv :: "('d \<Rightarrow> drive) \<Rightarrow> 'd fsys \<Rightarrow> u32 \<Rightarrow> bool" where
  "dir_inv view s dir \<longleftrightarrow> dir_ok (sb s) (vol view s) dir \<and> dir_distinct (dir_contents (sb s) (vol view s) dir)"

text \<open>The directory as the map that its look-up computes.\<close>

definition listing :: "'d port_io \<Rightarrow> u32 \<Rightarrow> 'd fsys \<Rightarrow> bytes \<Rightarrow> u32 option" where
  "listing io dir s name = snd (find_dirent (ata_ops io) dir name s)"

lemma length_vol [simp]: "length (vol view s b) = 4096"
  by (simp add: vol_def blk_def sector_def length_concat comp_def map_replicate_const sum_list_replicate)

lemma listing_eq:
  assumes "ata_drive io view busy" "fs_ready view s" "dir_ok (sb s) (vol view s) dir"
  shows "listing io dir s = dir_map (dir_contents (sb s) (vol view s) dir)"
proof
  show "listing io dir s name = dir_map (dir_contents (sb s) (vol view s) dir) name" for name
    using disk.find_dirent_goes [OF ata_drive.drive_disk [OF assms(1)], of s dir name] assms(2,3)
    by (auto simp: listing_def fs_ready_def vol_def)
qed

lemma put_entry_distinct:
  assumes "dir_wf b" "dir_distinct b" "i < 128" "length txt \<le> 27" "0 \<notin> set txt" "txt = [] \<or> dir_map b txt = None"
  shows "dir_distinct (put_entry b i n txt)"
proof -
  note N = put_entry_name [OF assms(1,3-5)]
  have "txt \<noteq> cstr (ent_name b j)" if "j < 128" "txt \<noteq> []" for j
    using assms(5,6) that by (auto simp: dir_map_def lookup_None)
  then show ?thesis
    using assms(2) N unfolding dir_distinct_def by metis
qed

lemma goes_vol:
  assumes "goes (\<lambda>d. ph (view d) = Idle) (\<lambda>d. sector (view d)) s B t" "fs_ready view s"
  shows "fs_ready view t" "sb t = sb s" "cwd_inum t = cwd_inum s" "vol view t = B"
  using assms goes_good [OF assms(1)] goesD [OF assms(1)] by (simp_all add: fs_ready_def vol_def)

text \<open>C10: a directory on the disk is a map from names to inode numbers, and adding an entry
  under a name it does not have updates that map at the name and nowhere else; only if
  the block of the directory has no free entry the code reports -2, and the map is as
  before. Names of up to 27 characters are stored in full.\<close>

theorem tinyfs_add_dirent_map:
  assumes "ata_drive io view busy" "fs_ready view s" "dir_inv view s dir"
    and "cstr name \<noteq> []" "length (cstr name) \<le> 27" "listing io dir s name = None"
  shows "\<exists>t r. tinyfs_add_dirent (ata_ops io) dir n name s = (t, r) \<and> fs_ready view t \<and> dir_inv view t dir \<and>
    (if free_entry (dir_contents (sb s) (vol view s) dir) = None then r = -2 \<and> listing io dir t = listing io dir s
     else r = 0 \<and> (\<forall>m. listing io dir t m = (if cstr m = cstr name then Some n else listing io dir s m)))"
proof -
  let ?ok = "\<lambda>d. ph (view d) = Idle" and ?sect = "\<lambda>d. sector (view d)"
  let ?S = "sb s" and ?V = "vol view s"
  let ?b = "dir_contents ?S ?V dir" and ?i = "inode_at ?S ?V dir"
  note dk = ata_drive.drive_disk [OF assms(1)]
  have ok: "fs_good ?ok s" "dir_ok ?S ?V dir" "dir_distinct ?b" using assms(2,3) by (simp_all add: fs_ready_def dir_inv_def)
  note V = vol_def [of view s]
  have wf: "dir_wf ?b" using ok(2) by (simp add: dir_ok_def)
  note L = listing_eq [OF assms(1)]
  show ?thesis
  proof (cases "free_entry ?b")
    case None
    with disk.add_dirent_full [OF dk ok(1), of dir n name] ok(2)
    obtain t where t: "tinyfs_add_dirent (ata_ops io) dir n name s = (t, -2)" "goes ?ok ?sect s ?V t" by (auto simp: V)
    note g = goes_vol [OF t(2) assms(2)]
    have "dir_inv view t dir" using g assms(3) by (simp add: dir_inv_def)
    then show ?thesis using t g None L [OF assms(2) ok(2)] L [OF g(1)] by (auto simp: dir_inv_def)
  next
    case (Some j)
    let ?b' = "set_entry ?b j n name"
    from disk.add_dirent_goes [OF dk ok(1), of dir j n name] ok(2) Some
    obtain t where t: "tinyfs_add_dirent (ata_ops io) dir n name s = (t, 0)"
      "goes ?ok ?sect s (dir_update ?S ?V dir ?b' (grown ?i j)) t" by (auto simp: V)
    note g = goes_vol [OF t(2) assms(2)] and fe = free_entry_Some [OF Some]
    have w': "dir_wf ?b'" using set_entry_wf [OF wf] fe by simp
    have u: "dir_ok ?S (vol view t) dir" "dir_contents ?S (vol view t) dir = ?b'"
      using dir_update_ok [OF ok(2) w', of "grown ?i j"] ok(2) inode_at_wf [of ?V ?S dir] g(4)
      by (auto simp: dir_ok_def)
    have none: "dir_map ?b (take 27 (cstr name)) = None" using assms(5,6) L [OF assms(2) ok(2)]
      by (simp add: dir_map_def lookup_entry_eq)
    have "dir_distinct ?b'"
      unfolding set_entry_put using put_entry_distinct [OF wf ok(3), of j "take 27 (cstr name)" n] fe none by simp
    then have inv: "dir_inv view t dir" using u g(2) by (simp add: dir_inv_def)
    have "listing io dir t m = (if cstr m = cstr name then Some n else listing io dir s m)" for m
      using dir_map_add [OF wf, of j "take 27 (cstr name)" n m] fe none assms(4,5)
        L [OF g(1)] L [OF assms(2) ok(2)] u g(2) by (simp add: set_entry_put)
    then show ?thesis using t g Some inv by auto
  qed
qed

text \<open>C18: removing the entry of a name that the directory has makes the map undefined there
  and leaves every other name alone; for a name it does not have the operation fails and
  changes nothing.\<close>

theorem tinyfs_remove_dirent_map:
  assumes "ata_drive io view busy" "fs_ready view s" "dir_inv view s dir"
  shows "\<exists>t r. tinyfs_remove_dirent (ata_ops io) dir name s = (t, r) \<and> fs_ready view t \<and> dir_inv view t dir \<and>
    r = (if listing io dir s name = None then -1 else 0) \<and>
    (\<forall>m. listing io dir t m = (if cstr m = cstr name then None else listing io dir s m))"
proof -
  let ?ok = "\<lambda>d. ph (view d) = Idle" and ?sect = "\<lambda>d. sector (view d)"
  let ?S = "sb s" and ?V = "vol view s"
  let ?b = "dir_contents ?S ?V dir" and ?i = "inode_at ?S ?V dir"
  note dk = ata_drive.drive_disk [OF assms(1)]
  have ok: "fs_good ?ok s" "dir_ok ?S ?V dir" "dir_distinct ?b" using assms(2,3) by (simp_all add: fs_ready_def dir_inv_def)
  note V = vol_def [of view s]
  have wf: "dir_wf ?b" using ok(2) by (simp add: dir_ok_def)
  note L = listing_eq [OF assms(1)]
  note R = disk.remove_dirent_goes [OF dk ok(1), of dir name, folded V, OF ok(2)]
  show ?thesis
  proof (cases "lookup_entry ?b name")
    case None
    with R obtain t where t: "tinyfs_remove_dirent (ata_ops io) dir name s = (t, -1)" "goes ?ok ?sect s ?V t" by auto
    note g = goes_vol [OF t(2) assms(2)]
    have inv: "dir_inv view t dir" using g assms(3) by (simp add: dir_inv_def)
    have "dir_map ?b m = None" if "cstr m = cstr name" for m using None that by (simp add: dir_map_def lookup_entry_eq)
    then show ?thesis using t g None inv L [OF assms(2) ok(2)] L [OF g(1)] by (auto simp: dir_inv_def)
  next
    case (Some j)
    let ?b' = "clear_entry ?b j"
    from R Some obtain t where t: "tinyfs_remove_dirent (ata_ops io) dir name s = (t, 0)"
      "goes ?ok ?sect s (dir_update ?S ?V dir ?b' ?i) t" by auto
    note g = goes_vol [OF t(2) assms(2)]
    have j: "j < 128" using lookup_Some [OF Some] by simp
    have w': "dir_wf ?b'" using clear_entry_wf [OF wf j] .
    have u: "dir_ok ?S (vol view t) dir" "dir_contents ?S (vol view t) dir = ?b'"
      using dir_update_ok [OF ok(2) w', of ?i] ok(2) inode_at_wf [of ?V ?S dir] g(4) by (auto simp: dir_ok_def)
    have "dir_distinct ?b'"
      unfolding clear_entry_put using put_entry_distinct [OF wf ok(3) j, of "[]" 0] by simp
    then have inv: "dir_inv view t dir" using u g(2) by (simp add: dir_inv_def)
    have "listing io dir t m = (if cstr m = cstr name then None else listing io dir s m)" for m
      using dir_map_remove [OF wf Some ok(3), of m] L [OF g(1)] L [OF assms(2) ok(2)] u g(2) by simp
    moreover have "listing io dir s name \<noteq> None" using Some L [OF assms(2) ok(2)] by (simp add: dir_map_def)
    ultimately show ?thesis using t g inv by auto
  qed
qed

text \<open>Writing an inode changes what is read for that inode number and for no other one,
  wherever the two lie in the inode table.\<close>

theorem tinyfs_inode_roundtrip:
  assumes "ata_drive io view busy" "fs_ready view s" "valid_inum (sb s) i" "valid_inum (sb s) j" "inode_wf x"
  shows "\<exists>t. tinyfs_write_inode (ata_ops io) i x s = (t, 0) \<and> fs_ready view t \<and>
    snd (tinyfs_read_inode (ata_ops io) j t) = (if i = j then Some x else snd (tinyfs_read_inode (ata_ops io) j s))"
proof -
  note dk = ata_drive.drive_disk [OF assms(1)]
  have good: "fs_good (\<lambda>d. ph (view d) = Idle) s" using assms(2) by (simp add: fs_ready_def)
  from disk.write_inode_goes [OF dk good assms(3,5)]
  obtain t where t: "tinyfs_write_inode (ata_ops io) i x s = (t, 0)"
    "goes (\<lambda>d. ph (view d) = Idle) (\<lambda>d. sector (view d)) s (put_inode (sb s) (vol view s) i x) t" by (auto simp: vol_def)
  note g = goes_vol [OF t(2) assms(2)]
  have R: "snd (tinyfs_read_inode (ata_ops io) j u) = Some (inode_at (sb u) (vol view u) j)"
    if "fs_ready view u" "sb u = sb s" for u
    using disk.read_inode_goes [OF dk, of u j] that assms(4) by (auto simp: fs_ready_def vol_def)
  show ?thesis using t g R [OF g(1,2)] R [OF assms(2)] inode_at_put [of "vol view s" x "sb s" i j] assms(5) by auto
qed

text \<open>Block allocation returns the lowest block that the bitmap shows as free and marks
  exactly that one, and fails exactly when all blocks are taken; freeing the block
  afterwards restores the volume byte by byte.\<close>

theorem tinyfs_block_alloc_lowest:
  assumes "ata_drive io view busy" "fs_ready view s"
  defines "bm \<equiv> unat (block_bitmap_block (sb s))" and "n \<equiv> unat (total_blocks (sb s))"
  shows "\<exists>t r. tinyfs_block_alloc (ata_ops io) s = (t, r) \<and> fs_ready view t \<and>
    (r = -1 \<longleftrightarrow> (\<forall>j < n. bitmap_test (vol view s bm) j)) \<and>
    (r = -1 \<longrightarrow> vol view t = vol view s) \<and>
    (r \<noteq> -1 \<longrightarrow> 0 \<le> r \<and> r < int n \<and> \<not> bitmap_test (vol view s bm) (nat r) \<and>
      (\<forall>j < nat r. bitmap_test (vol view s bm) j) \<and>
      (\<forall>j < n. bitmap_test (vol view t bm) j \<longleftrightarrow> j = nat r \<or> bitmap_test (vol view s bm) j) \<and>
      (\<forall>c. c \<noteq> bm \<longrightarrow> vol view t c = vol view s c) \<and>
      vol view (tinyfs_block_free (ata_ops io) (word_of_int r) t) = vol view s)"
proof -
  note dk = ata_drive.drive_disk [OF assms(1)]
  have good: "fs_good (\<lambda>d. ph (view d) = Idle) s" using assms(2) by (simp add: fs_ready_def)
  have n: "n \<le> 32768" using good sb_okD(1) [of "sb s"] by (simp add: fs_good_def n_def)
  let ?f = "first_clear (vol view s bm) 0 n"
  from disk.block_alloc_goes [OF dk good, folded vol_def [of view s], folded bm_def n_def]
  obtain t where t: "tinyfs_block_alloc (ata_ops io) s = (t, case ?f of None \<Rightarrow> -1 | Some i \<Rightarrow> int i)"
    "goes (\<lambda>d. ph (view d) = Idle) (\<lambda>d. sector (view d)) s (case ?f of None \<Rightarrow> vol view s | Some i \<Rightarrow> set_bit_at (vol view s) bm i) t"
    by blast
  note g = goes_vol [OF t(2) assms(2)]
  show ?thesis
  proof (cases ?f)
    case None
    then show ?thesis using t g first_clear_None [of "vol view s bm" 0 n] by auto
  next
    case (Some i)
    note F = first_clear_Some [OF Some]
    have i: "i div 8 < 4096" "j < n \<Longrightarrow> j div 8 < 4096" for j using F n by auto
    have w: "unat (word_of_int (int i) :: u32) = i" using F n by (simp add: unat_of_nat_small)
    have "fs_good (\<lambda>d. ph (view d) = Idle) t" using g(1) by (simp add: fs_ready_def)
    from disk.block_free_goes [OF dk this, of "word_of_int (int i)"]
    have "goes (\<lambda>d. ph (view d) = Idle) (\<lambda>d. sector (view d)) t (clear_bit_at (vol view t) bm i)
        (tinyfs_block_free (ata_ops io) (word_of_int (int i)) t)"
      using g(2) w by (simp add: vol_def bm_def)
    from goes_vol(4) [OF this g(1)] have "vol view (tinyfs_block_free (ata_ops io) (word_of_int (int i)) t) = vol view s"
      using g(4) Some F i bitmap_clear_set [of i "vol view s bm"] by (simp add: clear_bit_at_def set_bit_at_def)
    moreover have "\<forall>j < n. bitmap_test (vol view t bm) j \<longleftrightarrow> j = i \<or> bitmap_test (vol view s bm) j"
      using g(4) Some i bitmap_set_test [of i "vol view s bm"] by (simp add: set_bit_at_def)
    moreover have "\<forall>c. c \<noteq> bm \<longrightarrow> vol view t c = vol view s c" using g(4) Some by (simp add: set_bit_at_def)
    moreover have "\<not> (\<forall>j < n. bitmap_test (vol view s bm) j)" using F by auto
    ultimately show ?thesis using t(1) g(1) Some F by auto
  qed
qed

subsection \<open>Paths\<close>

text \<open>
  What a path means: the components between its slashes, of which empty ones are skipped
  and the others cut to 28 characters, walked from the root or the working directory.
\<close>

fun split_slash :: "bytes \<Rightarrow> bytes list" where
  "split_slash [] = [[]]"
| "split_slash (c # p) = (if c = slash then [] # split_slash p
     else (case split_slash p of [] \<Rightarrow> [[c]] | w # ws \<Rightarrow> (c # w) # ws))"

definition components :: "bytes \<Rightarrow> bytes list" where
  "components p = map (take 28) (filter (\<lambda>w. w \<noteq> []) (split_slash p))"

primrec walk :: "'d disk_ops \<Rightarrow> bytes list \<Rightarrow> u32 \<Rightarrow> 'd fsys \<Rightarrow> 'd fsys \<times> u32 option" where
  "walk D [] cur s = (s, Some cur)"
| "walk D (w # ws) cur s = (case path_step D cur w s of (s, None) \<Rightarrow> (s, None) | (s, Some cur) \<Rightarrow> walk D ws cur s)"

lemma split_slash_ne [simp]: "split_slash p \<noteq> []"
  by (induction p) (auto split: list.splits)

lemma take_snoc: "take n (take n w @ [c]) = (if length w < n then w @ [c] else take n w)"
  by (auto simp: take_Cons')

lemma resolve_loop_walk:
  "resolve_loop D cur (take 28 w) p s =
   (let ws = split_slash (cstr p) in walk D (map (take 28) (filter (\<lambda>w. w \<noteq> []) ((w @ hd ws) # tl ws))) cur s)"
proof (induction p arbitrary: cur w s)
  case (Cons c p)
  show ?case
  proof (cases "c = slash \<or> c = 0")
    case False
    have "(if length (take 28 w) < 28 then take 28 w @ [c] else take 28 w) = take 28 (w @ [c])"
      by (simp add: take_Cons')
    then have "resolve_loop D cur (take 28 w) (c # p) s = resolve_loop D cur (take 28 (w @ [c])) p s" using False by simp
    also note Cons.IH
    finally show ?thesis using False by (cases "split_slash (cstr p)") (auto simp: Let_def)
  next
    case True
    obtain v vs where v: "split_slash (cstr p) = v # vs" by (meson neq_Nil_conv split_slash_ne)
    have IH: "resolve_loop D cur [] p s = walk D (map (take 28) (filter (\<lambda>w. w \<noteq> []) (v # vs))) cur s" for cur s
      using Cons.IH [of cur "[]" s] v by simp
    have nil: "take 28 w \<noteq> [] \<longleftrightarrow> w \<noteq> []" by simp
    show ?thesis
    proof (cases "c = 0")
      case True
      then show ?thesis by (simp add: Let_def split: prod.splits option.splits)
    next
      case False
      then have c: "c = slash" using True by simp
      show ?thesis using v IH by (cases "w = []") (simp_all add: c Let_def split: prod.splits option.splits)
    qed
  qed
qed (simp add: Let_def split: prod.splits option.splits)


lemma resolve_path_walks:
  "resolve_path D path s =
     walk D (components (cstr path)) (if chr_at path 0 = slash then 0 else cwd_inum s) s"
proof -
  have loop: "resolve_loop D cur [] p s = walk D (components (cstr p)) cur s" for cur p
  proof -
    obtain v vs where v: "split_slash (cstr p) = v # vs" by (meson neq_Nil_conv split_slash_ne)
    show ?thesis using resolve_loop_walk [of D cur "[]" p s] by (simp add: v components_def Let_def)
  qed
  have "components [] = []" "components (slash # p) = components p" for p by (simp_all add: components_def)
  then show ?thesis
    by (cases path) (auto simp: resolve_path_def loop cstr_Nil_iff [symmetric] simp del: resolve_loop.simps)
qed

text \<open>C19: path resolution is the walk along the components of the path: it starts at the root
  for a path that begins with a slash and at the working directory otherwise, skips empty
  components, follows the others (cut to 28 characters) one by one and fails as soon as one
  of them is not found.\<close>

theorem resolve_path_walk:
  "resolve_path D path s =
     walk D (components (cstr path)) (if chr_at path 0 = slash then 0 else cwd_inum s) s"
  by (rule resolve_path_walks)

lemma last_slash_from:
  "(slash \<notin> set (cstr p) \<and> last_slash_from p i l = l) \<or>
   (\<exists>k < length (cstr p). cstr p ! k = slash \<and> slash \<notin> set (drop (Suc k) (cstr p)) \<and> last_slash_from p i l = Some (i + k))"
proof (induction p arbitrary: i l)
  case (Cons c p)
  show ?case
  proof (cases "c = 0")
    case False
    note IH = Cons.IH [of "Suc i" "if c = slash then Some i else l"]
    show ?thesis
    proof (cases "slash \<in> set (cstr p)")
      case True
      with IH obtain k where "k < length (cstr p)" "cstr p ! k = slash" "slash \<notin> set (drop (Suc k) (cstr p))"
        "last_slash_from p (Suc i) (if c = slash then Some i else l) = Some (Suc i + k)" by auto
      then show ?thesis using False by (intro disjI2 exI [of _ "Suc k"]) simp
    next
      case no: False
      then have "last_slash_from p (Suc i) (if c = slash then Some i else l) = (if c = slash then Some i else l)"
        using IH by auto (metis nth_mem)+
      then show ?thesis using False no by (cases "c = slash") (auto intro!: exI [of _ 0])
    qed
  qed simp
qed simp

lemma cstr_prefix:
  "k \<le> length (cstr p) \<Longrightarrow> take k p = take k (cstr p)" "k \<le> length (cstr p) \<Longrightarrow> cstr (drop k p) = drop k (cstr p)"
  by (induction p arbitrary: k) (auto simp: take_Cons' drop_Cons' split: if_splits)

text \<open>Splitting a path at its last slash: when both parts fit their buffers, a path without
  a slash has no parent, and any other is its parent, a slash and a last component without
  a slash; the parent of a path below the root is the root.\<close>

theorem split_path_join:
  assumes "length (cstr path) < parent_size" "length (cstr path) < comp_size"
  shows "let (parent, component) = split_path path parent_size comp_size in
    slash \<notin> set component \<and>
    (if slash \<notin> set (cstr path) then parent = [] \<and> component = cstr path
     else \<exists>p. cstr path = p @ slash # component \<and> parent = (if p = [] then [slash] else p))"
proof -
  consider "slash \<notin> set (cstr path)" "last_slash_from path 0 None = None" |
    k where "k < length (cstr path)" "cstr path ! k = slash" "slash \<notin> set (drop (Suc k) (cstr path))" "last_slash_from path 0 None = Some k"
    using last_slash_from [of path 0 None] by auto
  then show ?thesis
  proof cases
    case 1
    then show ?thesis using assms by (simp add: split_path_def)
  next
    case (2 k)
    have eq: "cstr path = take k (cstr path) @ slash # drop (Suc k) (cstr path)"
      by (rule id_take_nth_drop [OF 2(1), unfolded 2(2)])
    have sl: "slash \<in> set (cstr path)" using nth_mem [OF 2(1)] by (simp only: 2(2))
    have "min k (parent_size - 1) = k" using 2(1) assms(1) by linarith
    then have "take (min k (parent_size - 1)) path = take k (cstr path)"
      using cstr_prefix(1) [OF less_imp_le [OF 2(1)]] by (simp only:)
    moreover have "take (comp_size - 1) (cstr (drop (Suc k) path)) = drop (Suc k) (cstr path)"
      using 2(1) assms(2) cstr_prefix(2) [of "Suc k" path] by simp
    ultimately have split: "split_path path parent_size comp_size =
        (if k = 0 then [slash] else take k (cstr path), drop (Suc k) (cstr path))"
      using 2(4) by (cases k) (simp_all add: split_path_def)
    have "\<exists>p. cstr path = p @ slash # drop (Suc k) (cstr path) \<and>
        (if k = 0 then [slash] else take k (cstr path)) = (if p = [] then [slash] else p)"
      by (rule exI, rule conjI, rule eq) (use 2(1) in auto)
    then show ?thesis unfolding split Let_def prod.case using 2(3) sl by (simp only: if_False not_True_eq_False not_False_eq_True simp_thms)
  qed
qed

theorem split_path_join_witness:
  "\<exists>p. str ''/usr/ls'' = p @ slash # snd (split_path (str ''/usr/ls'') 256 29)"
  using split_path_join [of "str ''/usr/ls''" 256 29] by (auto simp: str_def Let_def split: prod.splits)

end
