(* ===== verification/Fileio.thy ===== *)
theory Fileio
  imports Files
begin

text \<open>
  Whole files: resolving a plain name, creating a file, writing it and reading it, each with
  its effect on the blocks of the volume, up to the round trip through
  \<^verbatim>\<open>fs_write_file\<close> and \<^verbatim>\<open>fs_cat\<close>.
\<close>

text \<open>The name of a file in one directory, as a path.\<close>

definition plain_name :: "bytes \<Rightarrow> bool" where
  "plain_name name \<longleftrightarrow> name \<noteq> [] \<and> length name \<le> 27 \<and> 0 \<notin> set name \<and> slash \<notin> set name \<and> name \<noteq> [dot] \<and> name \<noteq> [dot, dot]"

lemma split_slash_plain: "slash \<notin> set p \<Longrightarrow> split_slash p = [p]"
  by (induction p) auto

lemma resolve_plain:
  assumes "plain_name name"
  shows "resolve_path D name s = find_dirent D (cwd_inum s) name s"
    "resolve_path D (slash # name) s = find_dirent D 0 name s"
proof -
  have "slash \<notin> set name" using assms by (simp add: plain_name_def)
  then have "chr_at name 0 \<noteq> slash" by (cases name) auto
  moreover have "components name = [name]" "components (slash # name) = [name]" "cstr name = name"
    using assms by (auto simp: plain_name_def components_def split_slash_plain)
  moreover
  have "path_step D cur name s = find_dirent D cur name s" for cur
    using assms by (simp add: plain_name_def path_step_def)
  ultimately show "resolve_path D name s = find_dirent D (cwd_inum s) name s"
    "resolve_path D (slash # name) s = find_dirent D 0 name s"
    by (simp_all add: resolve_path_walks split: prod.splits option.splits)
qed

lemma sint_small: "unat (x :: u32) < 2 ^ 31 \<Longrightarrow> sint x = int (unat x)"
proof -
  assume "unat x < 2 ^ 31"
  then have "int (unat x) < 2 ^ 31" by (metis of_nat_less_iff of_nat_numeral of_nat_power)
  then have "uint x < 2 ^ 31" by simp
  then have "signed_take_bit 31 (uint x) = uint x" by (intro signed_take_bit_int_eq_self order_trans [OF _ uint_ge_0]) auto
  then show ?thesis by (simp add: sint_uint)
qed

lemma cat_chunk_all: "n \<le> 4096 \<Longrightarrow> cat_chunk (int n) b [] = take n b"
  by (simp add: cat_chunk_def TINYFS_BLOCK_SIZE_def)

definition file_ok :: "tinyfs_superblock_t \<Rightarrow> tinyfs_inode_t \<Rightarrow> bool" where
  "file_ok S ino \<longleftrightarrow> is_file ino \<and> 0 < isize ino \<and> unat (isize ino) \<le> 4096 \<and> 0 < direct_block ino \<and>
     unat (direct_block ino) < unat (total_blocks S)"

context disk
begin

lemma tinyfs_init_goes:
  assumes "ok (dev s)" "heap_room (fs_heap s)" "magic (get_superblock (blocks s 16)) = TINYFS_MAGIC"
  shows "\<exists>t. tinyfs_init D s = (t, 0) \<and> fs_heap t = fs_heap s \<and> sb t = get_superblock (blocks s 16) \<and> ok (dev t) \<and>
    blocks t = blocks s"
proof -
  obtain h p where al: "memory_alloc (fs_heap s) 4096 = (h, p)" by force
  have p: "p \<noteq> 0" using assms(2) al by (simp add: heap_room_def)
  obtain a e where "heap_inv a e (fs_heap s)" using assms(2) by (auto simp: heap_room_def)
  then have free: "memory_free h p = fs_heap s" using kheap.restored al p by blast
  obtain u where u: "read_blocks D TINYFS_SUPER_BLOCK 1 (s\<lparr>fs_heap := h\<rparr>) = (u, Some (blocks s 16))"
      "goes ok sect (s\<lparr>fs_heap := h\<rparr>) (blocks s) u"
    using read_blocks_goes [of "s\<lparr>fs_heap := h\<rparr>" 16] assms(1) by (auto simp: TINYFS_SUPER_BLOCK_def)
  show ?thesis
    using al p free u assms(3) goesD [OF u(2)]
    by (simp add: tinyfs_init_def with_buf_def TINYFS_BLOCK_SIZE_def Let_def)
qed

lemma fs_cat_goes:
  assumes "resolve_path D name s = (t, Some n)" "goes ok sect s (blocks s) t" "fs_good ok s" "valid_inum (sb s) n"
  defines "ino \<equiv> inode_at (sb s) (blocks s) n"
  assumes "file_ok (sb s) ino" "int (unat (isize ino)) < buf_size"
  shows "\<exists>u. fs_cat D name buf_size s = (u, Some (int (unat (isize ino)),
      take (unat (isize ino)) (blocks s (unat (direct_block ino))) @ [0])) \<and> goes ok sect s (blocks s) u"
proof -
  let ?n = "unat (isize ino)" and ?b = "blocks s (unat (direct_block ino))"
  have good: "fs_good ok t" using goes_good [OF assms(2,3)] .
  obtain u where u: "tinyfs_read_inode D n t = (u, Some ino)" "goes ok sect s (blocks s) u"
    using read_inode_goes [OF good, of n] goesD [OF assms(2)] assms(4) goes_trans [OF assms(2)] by (auto simp: ino_def)
  have f: "is_file ino" "isize ino \<noteq> 0" "?n \<le> 4096" "0 < direct_block ino" "unat (direct_block ino) < unat (total_blocks (sb s))"
    using assms(6) by (auto simp: file_ok_def)
  have sz: "min (sint (isize ino)) (buf_size - 1) = int ?n"
  proof -
    have "sint (isize ino) = int ?n" using f(3) by (intro sint_small) simp
    then show ?thesis using assms(7) by simp
  qed
  have chunk: "cat_chunk (int ?n) ?b [] = take ?n ?b" using f(3) by (rule cat_chunk_all)
  have "\<exists>w. with_buf (Some (-1, [])) (cat_data D ino (int ?n)) u = (w, Some (int ?n, take ?n ?b @ [0])) \<and>
      goes ok sect u (blocks s) w"
  proof (rule with_buf_run)
    show "heap_room (fs_heap u)" using goesD(1) [OF u(2)] assms(3) by (simp add: fs_good_def)
    fix h p
    obtain w where "tinyfs_read_block D (direct_block ino) (u\<lparr>fs_heap := h\<rparr>) = (w, Some ?b)" "goes ok sect (u\<lparr>fs_heap := h\<rparr>) (blocks s) w"
      using read_block_goes [of "u\<lparr>fs_heap := h\<rparr>" "direct_block ino"] goesD [OF u(2)] f(5) assms(3) by (auto simp: fs_good_def)
    then show "\<exists>w. cat_data D ino (int ?n) (u\<lparr>fs_heap := h\<rparr>) = (w, Some (int ?n, take ?n ?b @ [0])) \<and>
      goes ok sect (u\<lparr>fs_heap := h\<rparr>) (blocks s) w"
      using f(3,4) chunk by (simp add: cat_data_def)
  qed
  then obtain w where "fs_cat D name buf_size s = (w, Some (int ?n, take ?n ?b @ [0]))" "goes ok sect u (blocks s) w"
    unfolding fs_cat_def using assms(1) u(1) f(1,2) sz by auto
  then show ?thesis using goes_trans [OF u(2)] by blast
qed
end

subsection \<open>Creating and writing a file\<close>

text \<open>
  Free blocks and inodes are really free: nothing the bitmaps show as free is a block of the
  volume's own structures, the block of the directory \<open>dir\<close>, or its inode.
\<close>

definition free_ok :: "tinyfs_superblock_t \<Rightarrow> (nat \<Rightarrow> bytes) \<Rightarrow> u32 \<Rightarrow> bool" where
  "free_ok S B dir \<longleftrightarrow>
     (\<forall>b < unat (total_blocks S). \<not> bitmap_test (B (unat (block_bitmap_block S))) b \<longrightarrow>
        data_block S (of_nat b) \<and> b \<noteq> unat (direct_block (inode_at S B dir))) \<and>
     (\<forall>i < unat (inode_count S). 0 < i \<and> \<not> bitmap_test (B (unat (inode_bitmap_block S))) i \<longrightarrow> i \<noteq> unat dir)"

definition new_inode :: tinyfs_inode_t where
  "new_inode = zero_inode\<lparr>mode := TINYFS_TYPE_FILE OR 0x01ED, refcount := 1\<rparr>"

lemma new_inode_simps [simp]: "inode_wf new_inode" "is_file new_inode" "\<not> is_dir new_inode"
  by (simp_all add: new_inode_def is_file_def is_dir_def TINYFS_TYPE_FILE_def TINYFS_TYPE_DIR_def)

lemma dir_frame:
  assumes "inode_at S B' dir = inode_at S B dir" "B' (unat (direct_block (inode_at S B dir))) = dir_contents S B dir"
  shows "dir_ok S B' dir = dir_ok S B dir" "dir_contents S B' dir = dir_contents S B dir"
  using assms by (simp_all add: dir_ok_def)

text \<open>The volume after a file has been created under inode \<open>i\<close>.\<close>

definition with_inode :: "tinyfs_superblock_t \<Rightarrow> (nat \<Rightarrow> bytes) \<Rightarrow> nat \<Rightarrow> (nat \<Rightarrow> bytes)" where
  "with_inode S B i = put_inode S (put_inode S (set_bit_at B (unat (inode_bitmap_block S)) i) (of_nat i)
     (zero_inode\<lparr>refcount := 1\<rparr>)) (of_nat i) new_inode"

definition created :: "tinyfs_superblock_t \<Rightarrow> (nat \<Rightarrow> bytes) \<Rightarrow> u32 \<Rightarrow> bytes \<Rightarrow> nat \<Rightarrow> nat \<Rightarrow> (nat \<Rightarrow> bytes)" where
  "created S B dir name i j = dir_update S (with_inode S B i) dir
     (set_entry (dir_contents S B dir) j (of_nat i) name) (grown (inode_at S B dir) j)"

lemma with_inode:
  assumes "sb_ok S" "dir_ok S B dir" "\<And>b. length (B b) = 4096" "i < unat (inode_count S)" "i \<noteq> unat dir"
  shows "inode_at S (with_inode S B i) dir = inode_at S B dir" "inode_at S (with_inode S B i) (of_nat i) = new_inode"
    "length (with_inode S B i b) = 4096" "valid_inum S (of_nat i)" "(of_nat i :: u32) \<noteq> dir"
    "b \<noteq> unat (inode_bitmap_block S) \<Longrightarrow> b \<noteq> table_block S (of_nat i) \<Longrightarrow> with_inode S B i b = B b"
proof -
  let ?B1 = "set_bit_at B (unat (inode_bitmap_block S)) i" and ?n = "of_nat i :: u32"
  let ?B2 = "put_inode S ?B1 ?n (zero_inode\<lparr>refcount := 1\<rparr>)"
  have cnt: "unat (inode_count S) \<le> 32768" by (rule sb_okD(2) [OF assms(1)])
  have n: "unat ?n = i" using assms(4) cnt by (simp add: unat_of_nat_small)
  show v: "valid_inum S ?n" using n assms(4) by simp
  show ne: "?n \<noteq> dir" using n assms(5) by auto
  have l1: "length (?B1 b) = 4096" for b using assms(3) by (simp add: set_bit_at_def)
  have l2: "length (?B2 b) = 4096" for b using length_put_inode [of ?B1] l1 by simp
  show "length (with_inode S B i b) = 4096" using length_put_inode [of ?B2] l2 by (simp add: with_inode_def)
  have "unat (inode_bitmap_block S) \<noteq> table_block S dir"
    using sb_okD(8) [OF assms(1), of dir] assms(2) by (auto simp: dir_ok_def)
  then have "inode_at S ?B1 dir = inode_at S B dir" by (simp add: set_bit_at_def inode_at_other)
  then show "inode_at S (with_inode S B i) dir = inode_at S B dir"
    using ne inode_at_put [of ?B2 new_inode S ?n dir] inode_at_put [of ?B1 "zero_inode\<lparr>refcount := 1\<rparr>" S ?n dir] l1 l2
    by (simp add: with_inode_def)
  show "inode_at S (with_inode S B i) ?n = new_inode"
    using inode_at_put [of ?B2 new_inode S ?n ?n] l2 by (simp add: with_inode_def)
  show "with_inode S B i b = B b" if "b \<noteq> unat (inode_bitmap_block S)" "b \<noteq> table_block S ?n"
    using that by (simp add: with_inode_def put_inode_other set_bit_at_def)
qed

lemma created:
  fixes name :: bytes
  assumes "sb_ok S" "dir_ok S B dir" "\<And>b. length (B b) = 4096" "i < unat (inode_count S)" "i \<noteq> unat dir"
    and "free_entry (dir_contents S B dir) = Some j"
  defines "C \<equiv> created S B dir name i j"
  shows "dir_ok S (with_inode S B i) dir" "dir_contents S (with_inode S B i) dir = dir_contents S B dir"
    "dir_ok S C dir" "dir_contents S C dir = set_entry (dir_contents S B dir) j (of_nat i) name"
    "inode_at S C (of_nat i) = new_inode" "direct_block (inode_at S C dir) = direct_block (inode_at S B dir)"
    "C (unat (block_bitmap_block S)) = B (unat (block_bitmap_block S))"
    "length (C b) = 4096"
proof -
  let ?n = "of_nat i :: u32" and ?W = "with_inode S B i" and ?d = "unat (direct_block (inode_at S B dir))"
  let ?b = "set_entry (dir_contents S B dir) j ?n name"
  note W = with_inode [OF assms(1-5)]
  have D: "data_block S (direct_block (inode_at S B dir))" "valid_inum S dir" using assms(2) by (simp_all add: dir_ok_def)
  have d: "?d \<noteq> unat (inode_bitmap_block S)" "?d \<noteq> unat (block_bitmap_block S)" "valid_inum S m \<Longrightarrow> ?d \<noteq> table_block S m" for m
    using D(1) data_block_table [OF D(1)] by (simp_all add: data_block_def)
  have Wd: "?W ?d = B ?d" using W(4,6) d by simp
  then show ok: "dir_ok S ?W dir" and cont: "dir_contents S ?W dir = dir_contents S B dir"
    using dir_frame [of S ?W dir B] W(1) assms(2) by simp_all
  have wf: "dir_wf ?b" using set_entry_wf free_entry_Some [OF assms(6)] assms(2) by (simp add: dir_ok_def)
  have g: "inode_wf (grown (inode_at S B dir) j)" "is_dir (grown (inode_at S B dir) j)"
    "direct_block (grown (inode_at S B dir) j) = direct_block (inode_at S ?W dir)"
    using inode_at_wf [of B S dir] assms(2,3) W(1) by (simp_all add: dir_ok_def)
  note U = dir_update_ok [OF ok wf g W(3)]
  show "dir_ok S C dir" "dir_contents S C dir = ?b" "direct_block (inode_at S C dir) = direct_block (inode_at S B dir)"
    using U by (simp_all add: C_def created_def)
  have l: "length ((?W(?d := ?b)) c) = 4096" for c using W(3) wf by (simp add: dir_wf_def)
  have C: "C = put_inode S (?W(?d := ?b)) dir (grown (inode_at S B dir) j)"
    by (simp add: C_def created_def dir_update_def W(1))
  show "inode_at S C ?n = new_inode"
    unfolding C using inode_at_put [of "?W(?d := ?b)" "grown (inode_at S B dir) j" S dir ?n] l g(1) W(2,5) d(3) [OF W(4)]
    by (simp add: inode_at_other)
  show "length (C b) = 4096" unfolding C using length_put_inode [of "?W(?d := ?b)"] l g(1) by simp
  show "C (unat (block_bitmap_block S)) = B (unat (block_bitmap_block S))"
  proof -
    let ?bb = "unat (block_bitmap_block S)"
    have "?bb \<noteq> table_block S dir" "?bb \<noteq> table_block S ?n" "?bb \<noteq> unat (inode_bitmap_block S)"
      using sb_okD(6) [OF assms(1)] sb_okD(9) [OF assms(1) D(2)] sb_okD(9) [OF assms(1) W(4)] by auto
    then show ?thesis unfolding C using W(6) [of ?bb] d(2) by (simp add: put_inode_other)
  qed
qed

text \<open>The volume after a file of \<open>len\<close> bytes has been written to block \<open>b\<close>.\<close>

definition written :: "tinyfs_superblock_t \<Rightarrow> (nat \<Rightarrow> bytes) \<Rightarrow> nat \<Rightarrow> nat \<Rightarrow> bytes \<Rightarrow> u32 \<Rightarrow> (nat \<Rightarrow> bytes)" where
  "written S C i b data len = put_inode S ((set_bit_at C (unat (block_bitmap_block S)) b)(b := file_block data len)) (of_nat i)
     (new_inode\<lparr>direct_block := of_nat b, isize := len\<rparr>)"

lemma split_plain: "plain_name name \<Longrightarrow> split_path name 256 29 = ([], name)"
proof -
  assume p: "plain_name name"
  then have "last_slash_from name 0 None = None" using last_slash_from [of name 0 None] unfolding plain_name_def by (metis cstr_id nth_mem)
  then show ?thesis using p by (simp add: split_path_def plain_name_def)
qed

context disk
begin

lemma find_plain:
  assumes "fs_good ok s" "dir_ok (sb s) (blocks s) (cwd_inum s)" "plain_name name"
  shows "\<exists>t. resolve_path D name s = (t, dir_map (dir_contents (sb s) (blocks s) (cwd_inum s)) name) \<and> goes ok sect s (blocks s) t"
  using find_dirent_goes [OF assms(1,2), of name] assms(3) by (simp add: resolve_plain)

lemma fs_delete_absent:
  assumes "fs_good ok s" "dir_ok (sb s) (blocks s) (cwd_inum s)" "plain_name name"
    and "dir_map (dir_contents (sb s) (blocks s) (cwd_inum s)) name = None"
  shows "\<exists>t. fs_delete D (Some name) s = (t, -1) \<and> goes ok sect s (blocks s) t"
proof -
  have "chr_at name 0 \<noteq> 0" using assms(3) by (cases name) (auto simp: plain_name_def)
  then show ?thesis using find_plain [OF assms(1-3)] assms(4) by (auto simp: fs_delete_def)
qed

lemma new_entry_goes:
  assumes "fs_good ok s" "dir_ok (sb s) (blocks s) (cwd_inum s)" "plain_name name"
    and "dir_map (dir_contents (sb s) (blocks s) (cwd_inum s)) name = None"
    and "first_clear (blocks s (unat (inode_bitmap_block (sb s)))) 1 (unat (inode_count (sb s)) - 1) = Some i"
  shows "\<exists>t. new_entry D name s = (t, Some (cwd_inum s, name, int i)) \<and>
    goes ok sect s (put_inode (sb s) (set_bit_at (blocks s) (unat (inode_bitmap_block (sb s))) i) (of_nat i)
      (zero_inode\<lparr>refcount := 1\<rparr>)) t"
proof -
  let ?dir = "cwd_inum s"
  have name: "chr_at name 0 \<noteq> 0" using assms(3) by (cases name) (auto simp: plain_name_def)
  have d: "valid_inum (sb s) ?dir" "is_dir (inode_at (sb s) (blocks s) ?dir)" using assms(2) by (simp_all add: dir_ok_def)
  obtain t1 where t1: "tinyfs_read_inode D ?dir s = (t1, Some (inode_at (sb s) (blocks s) ?dir))" "goes ok sect s (blocks s) t1"
    using read_inode_goes [OF assms(1) d(1)] by blast
  note g1 = goesD [OF t1(2)] and good1 = goes_good [OF t1(2) assms(1)]
  obtain t2 where t2: "find_dirent D ?dir name t1 = (t2, None)" "goes ok sect t1 (blocks t1) t2"
    using find_dirent_goes [OF good1, of ?dir name] assms(2,4) g1 by auto
  note g2 = goesD [OF t2(2)] and good2 = goes_good [OF t2(2) good1]
  obtain t3 where t3: "tinyfs_inode_alloc D t2 = (t3, int i)"
    "goes ok sect t2 (put_inode (sb s) (set_bit_at (blocks s) (unat (inode_bitmap_block (sb s))) i) (of_nat i)
      (zero_inode\<lparr>refcount := 1\<rparr>)) t3"
    using inode_alloc_goes [OF good2] assms(5) g1 g2 by auto
  have "new_entry D name s = (t3, Some (?dir, name, int i))"
    using t1(1) t2(1) t3(1) d(2) name split_plain [OF assms(3)] by (simp add: new_entry_def parent_inum_def)
  then show ?thesis using goes_trans [OF t1(2) goes_trans [OF t2(2) t3(2)]] by blast
qed

lemma fs_create_goes:
  assumes "fs_good ok s" "dir_ok (sb s) (blocks s) (cwd_inum s)" "plain_name name"
    and "dir_map (dir_contents (sb s) (blocks s) (cwd_inum s)) name = None"
    and "first_clear (blocks s (unat (inode_bitmap_block (sb s)))) 1 (unat (inode_count (sb s)) - 1) = Some i"
    and "i \<noteq> unat (cwd_inum s)"
    and "free_entry (dir_contents (sb s) (blocks s) (cwd_inum s)) = Some j"
  shows "\<exists>t. fs_create D (Some name) s = (t, 0) \<and> goes ok sect s (created (sb s) (blocks s) (cwd_inum s) name i j) t"
proof -
  let ?S = "sb s" and ?B = "blocks s" and ?dir = "cwd_inum s" and ?n = "of_nat i :: u32"
  let ?B1 = "put_inode ?S (set_bit_at ?B (unat (inode_bitmap_block ?S)) i) ?n (zero_inode\<lparr>refcount := 1\<rparr>)"
  have S: "sb_ok ?S" using assms(1) by (simp add: fs_good_def)
  have i: "i < unat (inode_count ?S)" using first_clear_Some [OF assms(5)] by auto
  note W = with_inode [OF S assms(2) length_blk i assms(6)] and C = created [OF S assms(2) length_blk i assms(6,7)]
  have name: "chr_at name 0 \<noteq> 0" using assms(3) by (cases name) (auto simp: plain_name_def)
  obtain t1 where t1: "new_entry D name s = (t1, Some (?dir, name, int i))" "goes ok sect s ?B1 t1"
    using new_entry_goes [OF assms(1-5)] by blast
  note g1 = goesD [OF t1(2)] and good1 = goes_good [OF t1(2) assms(1)]
  obtain t2 where t2: "tinyfs_write_inode D ?n new_inode t1 = (t2, 0)" "goes ok sect t1 (put_inode (sb t1) (blocks t1) ?n new_inode) t2"
    using write_inode_goes [OF good1, of ?n new_inode] W(4) g1(2) by auto
  have B2: "put_inode (sb t1) (blocks t1) ?n new_inode = with_inode ?S ?B i" using g1 by (simp add: with_inode_def)
  note t2' = t2(2) [unfolded B2]
  note g2 = goesD [OF t2'] and good2 = goes_good [OF t2' good1]
  have "\<exists>t. tinyfs_add_dirent D ?dir ?n name t2 = (t, 0) \<and> goes ok sect t2 (created ?S ?B ?dir name i j) t"
    using add_dirent_goes [OF good2, of ?dir j ?n name] C(1,2) assms(7) g1 g2 W(1) by (simp add: created_def)
  then obtain t3 where t3: "tinyfs_add_dirent D ?dir ?n name t2 = (t3, 0)" "goes ok sect t2 (created ?S ?B ?dir name i j) t3" by blast
  have "fs_create D (Some name) s = (t3, 0)"
    using name t1(1) t2(1) t3(1) by (simp add: fs_create_def new_inode_def [symmetric])
  then show ?thesis using goes_trans [OF t1(2) goes_trans [OF t2' t3(2)]] by blast
qed

lemma fs_write_file_goes:
  assumes "fs_good ok s" "dir_ok (sb s) (blocks s) (cwd_inum s)" "plain_name name"
    and "dir_map (dir_contents (sb s) (blocks s) (cwd_inum s)) name = None"
    and "first_clear (blocks s (unat (inode_bitmap_block (sb s)))) 1 (unat (inode_count (sb s)) - 1) = Some i"
    and "i \<noteq> unat (cwd_inum s)"
    and "free_entry (dir_contents (sb s) (blocks s) (cwd_inum s)) = Some j"
    and "first_clear (blocks s (unat (block_bitmap_block (sb s)))) 0 (unat (total_blocks (sb s))) = Some b"
    and "len \<noteq> 0"
  shows "\<exists>t. fs_write_file D (Some name) data len s = (t, sint len) \<and>
    goes ok sect s (written (sb s) (created (sb s) (blocks s) (cwd_inum s) name i j) i b data len) t"
proof -
  let ?S = "sb s" and ?B = "blocks s" and ?dir = "cwd_inum s" and ?n = "of_nat i :: u32" and ?k = "of_nat b :: u32"
  let ?C = "created ?S ?B ?dir name i j"
  have S: "sb_ok ?S" using assms(1) by (simp add: fs_good_def)
  have i: "i < unat (inode_count ?S)" using first_clear_Some [OF assms(5)] by auto
  have b: "b < unat (total_blocks ?S)" "unat ?k = b"
    using first_clear_Some [OF assms(8)] sb_okD(1) [OF S] by (auto simp: unat_of_nat_small)
  note W = with_inode [OF S assms(2) length_blk i assms(6)] and C = created [OF S assms(2) length_blk i assms(6,7)]
  have name: "chr_at name 0 \<noteq> 0" and cname: "cstr name = name" "name \<noteq> []" "length name \<le> 27" "0 \<notin> set name"
    using assms(3) by (cases name, auto simp: plain_name_def)
  obtain t0 where t0: "fs_delete D (Some name) s = (t0, -1)" "goes ok sect s ?B t0"
    using fs_delete_absent [OF assms(1-4)] by blast
  note g0 = goesD [OF t0(2)] and good0 = goes_good [OF t0(2) assms(1)]
  obtain t1 where t1: "fs_create D (Some name) t0 = (t1, 0)" "goes ok sect t0 ?C t1"
    using fs_create_goes [OF good0, of name i j] assms(2-7) g0 by auto
  note g1 = goesD [OF t1(2)] and good1 = goes_good [OF t1(2) good0]
  have wf: "dir_wf (dir_contents ?S ?B ?dir)" using assms(2) by (simp add: dir_ok_def)
  have "dir_map (dir_contents ?S ?C ?dir) name = Some ?n"
    unfolding C(4) set_entry_put using dir_map_add [OF wf, of j "take 27 (cstr name)" ?n name] free_entry_Some [OF assms(7)]
      assms(4) cname by simp
  then obtain t2 where t2: "resolve_path D name t1 = (t2, Some ?n)" "goes ok sect t1 ?C t2"
    using find_plain [OF good1 _ assms(3)] C(3) g0 g1 by auto
  note g2 = goesD [OF t2(2)] and good2 = goes_good [OF t2(2) good1]
  obtain t3 where t3: "tinyfs_read_inode D ?n t2 = (t3, Some new_inode)" "goes ok sect t2 ?C t3"
    using read_inode_goes [OF good2, of ?n] W(4) C(5) g0 g1 g2 by auto
  note g3 = goesD [OF t3(2)] and good3 = goes_good [OF t3(2) good2]
  obtain t4 where t4: "tinyfs_block_alloc D t3 = (t4, int b)" "goes ok sect t3 (set_bit_at ?C (unat (block_bitmap_block ?S)) b) t4"
    using block_alloc_goes [OF good3] assms(8) C(7) g0 g1 g2 g3 by auto
  note g4 = goesD [OF t4(2)] and good4 = goes_good [OF t4(2) good3]
  let ?B5 = "(set_bit_at ?C (unat (block_bitmap_block ?S)) b)(b := file_block data len)"
  have len: "length (file_block data len) = 4096" by (simp add: file_block_def TINYFS_BLOCK_SIZE_def)
  have "\<exists>t. with_buf False (\<lambda>s. let (s, w) = tinyfs_write_block D ?k (file_block data len) s in (s, \<not> w < 0)) t4 = (t, True) \<and>
      goes ok sect t4 ?B5 t"
  proof (rule with_buf_run)
    show "heap_room (fs_heap t4)" using good4 by (simp add: fs_good_def)
    fix h p
    show "\<exists>t. (let (s, w) = tinyfs_write_block D ?k (file_block data len) (t4\<lparr>fs_heap := h\<rparr>) in (s, \<not> w < 0)) = (t, True) \<and>
      goes ok sect (t4\<lparr>fs_heap := h\<rparr>) ?B5 t"
      using write_block_goes [of "t4\<lparr>fs_heap := h\<rparr>" ?k "file_block data len"] len b g0 g1 g2 g3 g4 good4
      by (auto simp: fs_good_def)
  qed
  then obtain t5 where t5: "with_buf False (\<lambda>s. let (s, w) = tinyfs_write_block D ?k (file_block data len) s in (s, \<not> w < 0)) t4 = (t5, True)"
    "goes ok sect t4 ?B5 t5" by blast
  note g5 = goesD [OF t5(2)] and good5 = goes_good [OF t5(2) good4]
  obtain t6 where t6: "tinyfs_write_inode D ?n (new_inode\<lparr>direct_block := ?k, isize := len\<rparr>) t5 = (t6, 0)"
    "goes ok sect t5 (written ?S ?C i b data len) t6"
    using write_inode_goes [OF good5, of ?n "new_inode\<lparr>direct_block := ?k, isize := len\<rparr>"] W(4) g0 g1 g2 g3 g4 g5
    by (auto simp: written_def)
  have "fs_write_file D (Some name) data len s = (t6, sint len)"
    using name t0(1) t1(1) t2(1) t3(1) t4(1) t5(1) t6(1) assms(9) by (simp add: fs_write_file_def)
  moreover have "goes ok sect s (written ?S ?C i b data len) t6"
    using t0 t1 t2 t3 t4 t5 t6 by (meson goes_trans)
  ultimately show ?thesis by blast
qed
end

lemma file_block_take:
  assumes "unat len \<le> 4096"
  shows "take (unat len) (file_block data len) = map (chr_at data) [0..<unat len]"
  using assms by (simp add: file_block_def TINYFS_BLOCK_SIZE_def put_at_def)

lemma written:
  assumes "sb_ok S" "dir_ok S C dir" "\<And>b. length (C b) = 4096" "valid_inum S (of_nat i)" "of_nat i \<noteq> dir"
    and "data_block S (of_nat b)" "b < 2 ^ 32" "b \<noteq> unat (direct_block (inode_at S C dir))"
  shows "dir_ok S (written S C i b data len) dir" "dir_contents S (written S C i b data len) dir = dir_contents S C dir"
    "inode_at S (written S C i b data len) (of_nat i) = new_inode\<lparr>direct_block := of_nat b, isize := len\<rparr>"
    "written S C i b data len b = file_block data len"
proof -
  let ?n = "of_nat i :: u32" and ?bb = "unat (block_bitmap_block S)"
  let ?d = "unat (direct_block (inode_at S C dir))"
  let ?B = "(set_bit_at C ?bb b)(b := file_block data len)"
  let ?i = "new_inode\<lparr>direct_block := of_nat b, isize := len\<rparr>"
  have b: "unat (of_nat b :: u32) = b" using assms(7) by (simp add: unat_of_nat_small)
  have D: "data_block S (direct_block (inode_at S C dir))" "valid_inum S dir" using assms(2) by (simp_all add: dir_ok_def)
  have l: "length (?B c) = 4096" for c using assms(3) by (simp add: set_bit_at_def file_block_def TINYFS_BLOCK_SIZE_def)
  have bt: "b \<noteq> table_block S m" if "valid_inum S m" for m using data_block_table [OF assms(6) that] b by simp
  have "inode_at S ?B dir = inode_at S C dir"
    using bt [OF D(2)] sb_okD(9) [OF assms(1) D(2)] by (simp add: inode_at_other set_bit_at_def)
  then have I: "inode_at S (written S C i b data len) dir = inode_at S C dir"
    using inode_at_put [of ?B ?i S ?n dir] l assms(5) by (simp add: written_def)
  have "?d \<noteq> table_block S ?n" "?d \<noteq> ?bb" using data_block_table [OF D(1) assms(4)] D(1) by (simp_all add: data_block_def)
  then have "written S C i b data len ?d = C ?d"
    using assms(8) by (simp add: written_def put_inode_other set_bit_at_def)
  then show "dir_ok S (written S C i b data len) dir" "dir_contents S (written S C i b data len) dir = dir_contents S C dir"
    using dir_frame [of S "written S C i b data len" dir C] I assms(2) by simp_all
  show "inode_at S (written S C i b data len) ?n = ?i"
    using inode_at_put [of ?B ?i S ?n ?n] l by (simp add: written_def)
  show "written S C i b data len b = file_block data len"
    using bt [OF assms(4)] by (simp add: written_def put_inode_other)
qed

text \<open>C17: a file written into the working directory is read back as it was written: with a free
  inode, a free block and a free directory entry, writing up to 4096 bytes under a new name
  reports their number, \<^verbatim>\<open>fs_cat\<close> with a large enough buffer then returns exactly these bytes,
  and the other names of the directory are untouched.\<close>

theorem fs_write_file_cat:
  assumes "ata_drive io view busy" "fs_ready view s" "dir_inv view s (cwd_inum s)"
    and "free_ok (sb s) (vol view s) (cwd_inum s)" "plain_name name" "listing io (cwd_inum s) s name = None"
    and "first_clear (vol view s (unat (inode_bitmap_block (sb s)))) 1 (unat (inode_count (sb s)) - 1) \<noteq> None"
    and "first_clear (vol view s (unat (block_bitmap_block (sb s)))) 0 (unat (total_blocks (sb s))) \<noteq> None"
    and "free_entry (dir_contents (sb s) (vol view s) (cwd_inum s)) \<noteq> None"
    and "0 < len" "unat len \<le> 4096" "int (unat len) < buf_size"
  shows "\<exists>t. fs_write_file (ata_ops io) (Some name) data len s = (t, int (unat len)) \<and>
    snd (fs_cat (ata_ops io) name buf_size t) = Some (int (unat len), map (chr_at data) [0..<unat len] @ [0]) \<and>
    (\<forall>m. cstr m \<noteq> name \<longrightarrow> listing io (cwd_inum s) t m = listing io (cwd_inum s) s m)"
proof -
  let ?ok = "\<lambda>d. ph (view d) = Idle" and ?sect = "\<lambda>d. sector (view d)"
  let ?S = "sb s" and ?V = "vol view s" and ?dir = "cwd_inum s"
  note dk = ata_drive.drive_disk [OF assms(1)] and V = vol_def [of view s] and L = listing_eq [OF assms(1)]
  have ok: "fs_good ?ok s" "dir_ok ?S ?V ?dir" "sb_ok ?S"
    using assms(2,3) by (simp_all add: fs_ready_def dir_inv_def fs_good_def)
  have wf: "dir_wf (dir_contents ?S ?V ?dir)" using ok(2) by (simp add: dir_ok_def)
  obtain i b j where f: "first_clear (?V (unat (inode_bitmap_block ?S))) 1 (unat (inode_count ?S) - 1) = Some i"
    "first_clear (?V (unat (block_bitmap_block ?S))) 0 (unat (total_blocks ?S)) = Some b"
    "free_entry (dir_contents ?S ?V ?dir) = Some j" using assms(7-9) by blast
  have i: "i < unat (inode_count ?S)" "i \<noteq> unat ?dir"
  proof -
    have "0 < i" "\<not> bitmap_test (?V (unat (inode_bitmap_block ?S))) i" "i < unat (inode_count ?S)"
      using first_clear_Some [OF f(1)] by auto
    then show "i < unat (inode_count ?S)" "i \<noteq> unat ?dir" using assms(4) unfolding free_ok_def by blast+
  qed
  have b: "data_block ?S (of_nat b)" "b \<noteq> unat (direct_block (inode_at ?S ?V ?dir))" "b < 2 ^ 32"
    using first_clear_Some [OF f(2)] assms(4) sb_okD(1) [OF ok(3)] by (auto simp: free_ok_def)
  have none: "dir_map (dir_contents ?S ?V ?dir) name = None" using assms(6) L [OF assms(2) ok(2)] by simp
  have cname: "cstr name = name" "name \<noteq> []" "length name \<le> 27" "0 \<notin> set name"
    using assms(5) by (auto simp: plain_name_def)
  let ?C = "created ?S ?V ?dir name i j" and ?n = "of_nat i :: u32"
  let ?W = "written ?S ?C i b data len"
  have "sint len = int (unat len)" by (rule sint_small) (use assms(11) in simp)
  then have len: "len \<noteq> 0" "sint len = int (unat len)" using assms(10) by auto
  obtain t where t: "fs_write_file (ata_ops io) (Some name) data len s = (t, int (unat len))" "goes ?ok ?sect s ?W t"
    using disk.fs_write_file_goes [OF dk ok(1) _ assms(5), folded V, OF ok(2) none f(1) i(2) f(3,2) len(1), of data] len(2) by auto
  note g = goes_vol [OF t(2) assms(2)]
  note C = created [OF ok(3,2) length_vol i f(3)] and I = with_inode [OF ok(3,2) length_vol i]
  have P: "dir_ok ?S ?W ?dir" "dir_contents ?S ?W ?dir = dir_contents ?S ?C ?dir"
    "inode_at ?S ?W ?n = new_inode\<lparr>direct_block := of_nat b, isize := len\<rparr>" "?W b = file_block data len"
    using written [OF ok(3) C(3) C(8) I(4,5) b(1,3)] b(2) C(6) by simp_all
  have map: "dir_map (dir_contents ?S ?W ?dir) m = (if cstr m = name then Some ?n else dir_map (dir_contents ?S ?V ?dir) m)" for m
    unfolding P(2) C(4) set_entry_put
    using dir_map_add [OF wf, of j "take 27 (cstr name)" ?n m] free_entry_Some [OF f(3)] none cname by simp
  have ok': "dir_ok (sb t) (vol view t) ?dir" using P(1) g by simp
  have goodt: "fs_good ?ok t" using g(1) by (simp add: fs_ready_def)
  note Vt = vol_def [of view t]
  obtain u where u: "resolve_path (ata_ops io) name t = (u, Some ?n)" "goes ?ok ?sect t (vol view t) u"
    using disk.find_plain [OF dk goodt _ assms(5), folded Vt] ok' g map [of name] cname(1) by auto
  have fo: "file_ok (sb t) (inode_at (sb t) (vol view t) ?n)"
    using P(3) g b(1) assms(10,11) by (simp add: file_ok_def data_block_def is_file_def new_inode_def TINYFS_TYPE_FILE_def)
  have un: "unat (of_nat b :: u32) = b" using b(3) by (simp add: unat_of_nat_small)
  from disk.fs_cat_goes [OF dk u(1) _ goodt, folded Vt, OF u(2), of buf_size] I(4) g(2) fo assms(12) P(3,4) g(4) un
  have "snd (fs_cat (ata_ops io) name buf_size t) = Some (int (unat len), take (unat len) (file_block data len) @ [0])"
    by auto
  moreover have "listing io ?dir t m = listing io ?dir s m" if "cstr m \<noteq> name" for m
    using L [OF g(1) ok'] L [OF assms(2) ok(2)] map [of m] that g by simp
  ultimately show ?thesis using t(1) file_block_take [OF assms(11), of data] by auto
qed

end
