(* ===== verification/Mkfs.thy ===== *)
theory Mkfs
  imports Fileio
begin

text \<open>
  The formatting tool \<^verbatim>\<open>tools/mkfs.tinyfs.c\<close>: the bytes it writes to a disk image, in the order
  it writes them. An image is a function from byte offsets to bytes; the file functions of
  the host and the error exits on them are not modelled.
\<close>

definition TINYFS_INODE_COUNT :: u64 where "TINYFS_INODE_COUNT = 64"
definition TINYFS_TOTAL_BLOCKS :: u64 where "TINYFS_TOTAL_BLOCKS = 16384"
definition TINYFS_BOOT_BLOCKS :: nat where "TINYFS_BOOT_BLOCKS = 16"
definition SUPER_BLOCK :: nat where "SUPER_BLOCK = TINYFS_BOOT_BLOCKS"
definition INODE_BITMAP_BLOCK :: nat where "INODE_BITMAP_BLOCK = SUPER_BLOCK + 1"
definition BLOCK_BITMAP_BLOCK :: nat where "BLOCK_BITMAP_BLOCK = INODE_BITMAP_BLOCK + 4"
definition INODE_TABLE_BLOCK :: nat where "INODE_TABLE_BLOCK = BLOCK_BITMAP_BLOCK + 4"
definition INODE_TABLE_BLOCKS :: nat where "INODE_TABLE_BLOCKS = 64"
definition ROOT_DATA_BLOCK :: nat where "ROOT_DATA_BLOCK = INODE_TABLE_BLOCK + INODE_TABLE_BLOCKS"
definition METADATA_END_BLOCK :: nat where "METADATA_END_BLOCK = ROOT_DATA_BLOCK + 1"

lemmas mkfs_layout = TINYFS_BOOT_BLOCKS_def SUPER_BLOCK_def INODE_BITMAP_BLOCK_def BLOCK_BITMAP_BLOCK_def
  INODE_TABLE_BLOCK_def INODE_TABLE_BLOCKS_def ROOT_DATA_BLOCK_def METADATA_END_BLOCK_def TINYFS_BLOCK_SIZE_def

type_synonym image = "nat \<Rightarrow> u8"

definition write_at :: "nat \<Rightarrow> bytes \<Rightarrow> image \<Rightarrow> image" where
  "write_at offset buf img = (\<lambda>i. if offset \<le> i \<and> i < offset + length buf then buf ! (i - offset) else img i)"

definition superblock_bytes :: "tinyfs_superblock_t \<Rightarrow> bytes" where
  "superblock_bytes S = le_bytes 8 (magic S) @ le_bytes 8 (total_blocks S) @ le_bytes 8 (inode_count S) @
     le_bytes 4 (block_size S) @ le_bytes 4 (root_inode S) @ le_bytes 8 (inode_bitmap_block S) @
     le_bytes 8 (block_bitmap_block S) @ le_bytes 8 (inode_table_block S) @ sb_padding S"

definition mkfs_sb :: tinyfs_superblock_t where
  "mkfs_sb = \<lparr>magic = TINYFS_MAGIC, total_blocks = TINYFS_TOTAL_BLOCKS, inode_count = TINYFS_INODE_COUNT,
     block_size = of_nat TINYFS_BLOCK_SIZE, root_inode = 0, inode_bitmap_block = of_nat INODE_BITMAP_BLOCK,
     block_bitmap_block = of_nat BLOCK_BITMAP_BLOCK, inode_table_block = of_nat INODE_TABLE_BLOCK,
     sb_padding = replicate 8 0\<rparr>"

definition mkfs_inode_bitmap :: bytes where
  "mkfs_inode_bitmap = (replicate (TINYFS_BLOCK_SIZE * 4) 0)[0 := 0xFF]"

definition mkfs_block_bitmap :: bytes where
  "mkfs_block_bitmap =
     fold (\<lambda>i b. bitmap_set b i) [0..<METADATA_END_BLOCK + 7] (replicate (TINYFS_BLOCK_SIZE * 4) 0)"

definition mkfs_inode :: "u16 \<Rightarrow> u32 \<Rightarrow> nat \<Rightarrow> tinyfs_inode_t" where
  "mkfs_inode type n block =
     zero_inode\<lparr>mode := type OR 0x01ED, isize := n, direct_block := of_nat block, refcount := 1\<rparr>"

definition mkfs_inodes :: "tinyfs_inode_t list" where
  "mkfs_inodes =
     [mkfs_inode TINYFS_TYPE_DIR (9 * 32) ROOT_DATA_BLOCK,
      mkfs_inode TINYFS_TYPE_FILE 25 (ROOT_DATA_BLOCK + 1),
      mkfs_inode TINYFS_TYPE_FILE 13 (ROOT_DATA_BLOCK + 2),
      mkfs_inode TINYFS_TYPE_DIR (2 * 32) (ROOT_DATA_BLOCK + 3),
      mkfs_inode TINYFS_TYPE_DIR (2 * 32) (ROOT_DATA_BLOCK + 4),
      mkfs_inode TINYFS_TYPE_DIR (2 * 32) (ROOT_DATA_BLOCK + 5),
      mkfs_inode TINYFS_TYPE_DIR (2 * 32) (ROOT_DATA_BLOCK + 6),
      mkfs_inode TINYFS_TYPE_DIR (2 * 32) (ROOT_DATA_BLOCK + 7)]"

definition mkfs_inode_table :: bytes where
  "mkfs_inode_table =
     put_at 0 (concat (map inode_bytes mkfs_inodes)) (replicate (TINYFS_BLOCK_SIZE * INODE_TABLE_BLOCKS) 0)"

definition dirent_bytes :: "u32 \<times> bytes \<Rightarrow> bytes" where
  "dirent_bytes = (\<lambda>(n, name). le_bytes 4 n @ put_at 0 (name @ [0]) (replicate 28 0))"

definition root_entries :: "(u32 \<times> bytes) list" where
  "root_entries = [(0, str ''.''), (0, str ''..''), (1, str ''README.txt''), (2, str ''hello.txt''), (3, str ''bin''),
     (4, str ''tmp''), (5, str ''dev''), (6, str ''home''), (7, str ''usr'')]"

definition sub_entries :: "u32 \<Rightarrow> (u32 \<times> bytes) list" where
  "sub_entries n = [(n, str ''.''), (0, str ''..'')]"

definition readme_text :: bytes where
  "readme_text = str ''welcome to some-tiny-os!'' @ [newline]"

definition hello_text :: bytes where
  "hello_text = str ''hello there!'' @ [newline]"

definition write_block_at :: "nat \<Rightarrow> bytes \<Rightarrow> image \<Rightarrow> image" where
  "write_block_at b = write_at (b * TINYFS_BLOCK_SIZE)"

abbreviation dir_bytes :: "(u32 \<times> bytes) list \<Rightarrow> bytes" where
  "dir_bytes es \<equiv> concat (map dirent_bytes es)"

definition mkfs :: "image \<Rightarrow> image" where
  "mkfs =
     write_block_at (ROOT_DATA_BLOCK + 7) (dir_bytes (sub_entries 7)) \<circ>
     write_block_at (ROOT_DATA_BLOCK + 6) (dir_bytes (sub_entries 6)) \<circ>
     write_block_at (ROOT_DATA_BLOCK + 5) (dir_bytes (sub_entries 5)) \<circ>
     write_block_at (ROOT_DATA_BLOCK + 4) (dir_bytes (sub_entries 4)) \<circ>
     write_block_at (ROOT_DATA_BLOCK + 3) (dir_bytes (sub_entries 3)) \<circ>
     write_block_at (ROOT_DATA_BLOCK + 2) hello_text \<circ>
     write_block_at (ROOT_DATA_BLOCK + 1) readme_text \<circ>
     write_block_at ROOT_DATA_BLOCK (dir_bytes root_entries) \<circ>
     write_block_at INODE_TABLE_BLOCK mkfs_inode_table \<circ>
     write_block_at BLOCK_BITMAP_BLOCK mkfs_block_bitmap \<circ>
     write_block_at INODE_BITMAP_BLOCK mkfs_inode_bitmap \<circ>
     write_block_at SUPER_BLOCK (superblock_bytes mkfs_sb)"

subsection \<open>The blocks of a formatted image\<close>

definition img_block :: "image \<Rightarrow> nat \<Rightarrow> bytes" where
  "img_block img b = map (\<lambda>i. img (4096 * b + i)) [0..<4096]"

lemma length_img_block [simp]: "length (img_block img b) = 4096"
  by (simp add: img_block_def)

lemma write_block_same:
  assumes "length buf \<le> 4096"
  shows "img_block (write_block_at b buf img) b = put_at 0 buf (img_block img b)"
  using assms by (intro nth_equalityI) (auto simp: img_block_def write_block_at_def write_at_def TINYFS_BLOCK_SIZE_def put_at_nth)

lemma write_block_first:
  assumes "4096 \<le> length buf"
  shows "img_block (write_block_at b buf img) b = take 4096 buf"
  using assms by (intro nth_equalityI) (auto simp: img_block_def write_block_at_def write_at_def TINYFS_BLOCK_SIZE_def)

lemma write_block_other:
  assumes "c < b \<or> b + (length buf + 4095) div 4096 \<le> c"
  shows "img_block (write_block_at b buf img) c = img_block img c"
proof -
  have "\<not> (b * 4096 \<le> 4096 * c + i \<and> 4096 * c + i < b * 4096 + length buf)" if "i < 4096" for i
    using assms
  proof
    assume "c < b"
    then show ?thesis using that by linarith
  next
    assume "b + (length buf + 4095) div 4096 \<le> c"
    moreover have "length buf \<le> 4096 * ((length buf + 4095) div 4096)"
      using dividend_less_div_times [of 4096 "length buf + 4095"] by simp
    ultimately show ?thesis by linarith
  qed
  then show ?thesis by (auto simp: img_block_def write_block_at_def write_at_def TINYFS_BLOCK_SIZE_def)
qed

definition pad :: "bytes \<Rightarrow> bytes" where
  "pad b = b @ replicate (4096 - length b) 0"

text \<open>An image that holds nothing but the boot code.\<close>

definition fresh :: "image \<Rightarrow> bool" where
  "fresh img \<longleftrightarrow> (\<forall>i. TINYFS_BOOT_BLOCKS * TINYFS_BLOCK_SIZE \<le> i \<longrightarrow> img i = 0)"

lemma fresh_block: "fresh img \<Longrightarrow> 16 \<le> b \<Longrightarrow> img_block img b = replicate 4096 0"
  by (auto simp: fresh_def img_block_def mkfs_layout list_eq_iff_nth_eq)

lemma length_dirent [simp]: "length name \<le> 27 \<Longrightarrow> length (dirent_bytes (n, name)) = 32"
  by (simp add: dirent_bytes_def)

lemma length_mkfs [simp]:
  "length (superblock_bytes mkfs_sb) = 64" "length mkfs_inode_bitmap = 16384" "length mkfs_block_bitmap = 16384"
  "length mkfs_inode_table = 262144" "length (dir_bytes root_entries) = 288" "length (dir_bytes (sub_entries n)) = 64"
  "length readme_text = 25" "length hello_text = 13"
proof -
  have "length (fold (\<lambda>i b. bitmap_set b i) xs b) = length b" for xs b by (induction xs arbitrary: b) simp_all
  then show "length mkfs_block_bitmap = 16384" by (simp add: mkfs_block_bitmap_def TINYFS_BLOCK_SIZE_def)
  have "inode_wf (mkfs_inode t n b)" for t n b by (simp add: mkfs_inode_def)
  then show "length mkfs_inode_table = 262144"
    by (simp add: mkfs_inode_table_def mkfs_inodes_def mkfs_layout)
qed (simp_all add: superblock_bytes_def mkfs_sb_def mkfs_inode_bitmap_def TINYFS_BLOCK_SIZE_def root_entries_def sub_entries_def
  readme_text_def hello_text_def str_def)

lemma mkfs_blocks:
  assumes "fresh img"
  defines "V \<equiv> img_block (mkfs img)"
  shows "V 16 = pad (superblock_bytes mkfs_sb)" "V 17 = take 4096 mkfs_inode_bitmap" "V 21 = take 4096 mkfs_block_bitmap"
    "V 25 = take 4096 mkfs_inode_table" "V 89 = pad (dir_bytes root_entries)" "V 90 = pad readme_text" "V 91 = pad hello_text"
    "V 92 = pad (dir_bytes (sub_entries 3))" "V 93 = pad (dir_bytes (sub_entries 4))" "V 94 = pad (dir_bytes (sub_entries 5))"
    "V 95 = pad (dir_bytes (sub_entries 6))" "V 96 = pad (dir_bytes (sub_entries 7))"
  unfolding V_def mkfs_def comp_apply
  by (simp_all add: mkfs_layout write_block_same write_block_first write_block_other fresh_block [OF assms(1)] pad_def put_at_def)

lemma mkfs_sb_read: "get_superblock (pad (superblock_bytes mkfs_sb)) = mkfs_sb"
  by (simp add: get_superblock_def superblock_bytes_def pad_def get_at_def mkfs_sb_def)

lemma mkfs_sb_ok [simp]: "sb_ok mkfs_sb"
  by (simp add: sb_ok_def mkfs_sb_def mkfs_layout TINYFS_TOTAL_BLOCKS_def TINYFS_INODE_COUNT_def table_blocks_def)

lemma mkfs_sb_fields [simp]:
  "unat (inode_count mkfs_sb) = 64" "unat (total_blocks mkfs_sb) = 16384" "unat (inode_bitmap_block mkfs_sb) = 17"
  "unat (block_bitmap_block mkfs_sb) = 21" "unat (inode_table_block mkfs_sb) = 25" "table_blocks mkfs_sb = 1"
  by (simp_all add: mkfs_sb_def mkfs_layout TINYFS_TOTAL_BLOCKS_def TINYFS_INODE_COUNT_def table_blocks_def)

lemma mkfs_inode_wf [simp]: "inode_wf (mkfs_inode t n b)"
  by (simp add: mkfs_inode_def)

lemma get_at_prefix: "off + n \<le> k \<Longrightarrow> get_at off n (take k b) = get_at off n b"
  by (simp add: get_at_def drop_take min_def)

lemma get_at_append: "off + n \<le> length a \<Longrightarrow> get_at off n (a @ b) = get_at off n a"
  by (simp add: get_at_def)

lemma mkfs_inode_at:
  assumes "fresh img" "unat i < 8"
  shows "inode_at mkfs_sb (img_block (mkfs img)) i = mkfs_inodes ! unat i"
proof -
  let ?bs = "map inode_bytes mkfs_inodes"
  have wf: "inode_wf x" if "x \<in> set mkfs_inodes" for x using that by (auto simp: mkfs_inodes_def)
  have n: "length mkfs_inodes = 8" by (simp add: mkfs_inodes_def)
  have tab: "take 4096 mkfs_inode_table = take 4096 (concat ?bs @ drop 512 (replicate 262144 0))"
    by (simp add: mkfs_inode_table_def mkfs_layout put_at_def mkfs_inodes_def)
  have len: "length (concat ?bs) = 512" by (simp add: mkfs_inodes_def)
  have "get_at (64 * unat i) 64 (take 4096 mkfs_inode_table) = get_at (64 * unat i) 64 (concat ?bs)"
    unfolding tab using assms(2) len by (simp add: get_at_prefix get_at_append)
  also have "\<dots> = ?bs ! unat i" by (rule get_at_concat) (use wf n assms(2) in auto)
  also have "\<dots> = inode_bytes (mkfs_inodes ! unat i)" using n assms(2) by simp
  finally show ?thesis
    using mkfs_blocks(4) [OF assms(1)] assms(2) wf [of "mkfs_inodes ! unat i"] n
    by (simp add: inode_at_def table_block_def disk_simps)
qed

text \<open>A block that holds the entries \<open>es\<close> and is empty otherwise.\<close>

definition names_ok :: "(u32 \<times> bytes) list \<Rightarrow> bool" where
  "names_ok es \<longleftrightarrow> length es \<le> 128 \<and> distinct (map snd es) \<and>
     list_all (\<lambda>e. length (snd e) \<le> 27 \<and> 0 \<notin> set (snd e) \<and> snd e \<noteq> []) es"

lemma dir_block_entry:
  assumes "names_ok es" "i < 128"
  shows "get_at (32 * i) 32 (pad (dir_bytes es)) = (if i < length es then dirent_bytes (es ! i) else replicate 32 0)"
proof -
  have l: "length (dirent_bytes e) = 32" if "e \<in> set es" for e
    using assms(1) that by (cases e) (auto simp: names_ok_def list_all_iff)
  then have len: "length (dir_bytes es) = 32 * length es"
    by (induction es) auto
  show ?thesis
  proof (cases "i < length es")
    case True
    have "get_at (32 * i) 32 (pad (dir_bytes es)) = get_at (32 * i) 32 (dir_bytes es)"
      using True len by (simp add: pad_def get_at_append)
    also have "\<dots> = map dirent_bytes es ! i" by (rule get_at_concat) (use l True in auto)
    finally show ?thesis using True by simp
  next
    case False
    then show ?thesis using assms len by (simp add: pad_def get_at_def names_ok_def)
  qed
qed

lemma le_word_zeros [simp]: "le_word (replicate n 0) = 0"
  by (induction n) simp_all

lemma cstr_zeros [simp]: "cstr (replicate n 0) = []"
  by (cases n) simp_all

lemma dir_block_fields:
  assumes "names_ok es" "i < 128"
  shows "ent_inode (pad (dir_bytes es)) i = (if i < length es then fst (es ! i) else 0)"
    "cstr (ent_field (pad (dir_bytes es)) i) = (if i < length es then snd (es ! i) else [])"
    "0 \<in> set (ent_field (pad (dir_bytes es)) i)"
proof -
  let ?b = "pad (dir_bytes es)"
  note E = dir_block_entry [OF assms]
  have I: "ent_inode ?b i = le_word (take 4 (get_at (32 * i) 32 ?b))" by (simp add: ent_inode_def get_at_def min_def)
  have F: "ent_field ?b i = drop 4 (get_at (32 * i) 32 ?b)"
    by (simp add: ent_field_def get_at_def drop_take add.commute)
  have n: "length (snd (es ! i)) \<le> 27" "0 \<notin> set (snd (es ! i))" if "i < length es"
    using assms(1) that by (auto simp: names_ok_def list_all_length)
  show "ent_inode ?b i = (if i < length es then fst (es ! i) else 0)"
    unfolding I E by (auto simp: dirent_bytes_def split: prod.splits)
  show "cstr (ent_field ?b i) = (if i < length es then snd (es ! i) else [])"
    unfolding F E using n by (auto simp: dirent_bytes_def put_at_def split: prod.splits)
  show "0 \<in> set (ent_field ?b i)"
    unfolding F E using n by (auto simp: dirent_bytes_def put_at_def split: prod.splits)
qed

lemma length_pad: "length b \<le> 4096 \<Longrightarrow> length (pad b) = 4096"
  by (simp add: pad_def)

lemma dir_bytes_ok:
  assumes "names_ok es"
  shows "dir_wf (pad (dir_bytes es))" "dir_distinct (pad (dir_bytes es))"
    "dir_map (pad (dir_bytes es)) name = map_of (map prod.swap es) (cstr name)"
proof -
  let ?b = "pad (dir_bytes es)"
  have l: "length (dirent_bytes e) = 32" if "e \<in> set es" for e
    using assms that by (cases e) (auto simp: names_ok_def list_all_iff)
  then have "length (dir_bytes es) = 32 * length es" by (induction es) auto
  then show wf: "dir_wf ?b" using assms dir_block_fields(3) [OF assms] by (simp add: dir_wf_def length_pad names_ok_def)
  have N: "cstr (ent_name ?b i) = (if i < length es then snd (es ! i) else [])" if "i < 128" for i
    using ent_name_field [OF wf that] dir_block_fields(2) [OF assms that] by simp
  have d: "distinct (map snd es)" "length es \<le> 128" using assms by (simp_all add: names_ok_def)
  have ne: "snd (es ! i) \<noteq> []" if "i < length es" for i
    using assms that by (auto simp: names_ok_def list_all_length)
  show "dir_distinct ?b"
    using d N unfolding dir_distinct_def by (auto simp: distinct_conv_nth)
  show "dir_map ?b name = map_of (map prod.swap es) (cstr name)"
  proof (cases "map_of (map prod.swap es) (cstr name)")
    case None
    then have "cstr name \<notin> set (map snd es)" by (simp add: map_of_eq_None_iff image_image)
    then have "lookup_entry ?b name = None"
      unfolding lookup_None using N by (metis length_map nth_map nth_mem)
    then show ?thesis using None by (simp add: dir_map_def)
  next
    case (Some n)
    then have "(n, cstr name) \<in> set es" by (auto dest: map_of_SomeD)
    then obtain i where i: "i < length es" "es ! i = (n, cstr name)" by (auto simp: in_set_conv_nth)
    have "lookup_entry ?b name = Some i"
      unfolding lookup_entry_eq find_Some_iff
    proof (intro exI [of _ i] conjI allI impI)
      show "\<not> (cstr (ent_name ?b ([0..<128] ! j)) \<noteq> [] \<and> cstr name = cstr (ent_name ?b ([0..<128] ! j)))" if "j < i" for j
        using that i d N [of j] nth_eq_iff_index_eq [OF d(1), of i j] by auto
    qed (use i d N [of i] ne [of i] in auto)
    then show ?thesis using Some i d dir_block_fields(1) [OF assms, of i] by (simp add: dir_map_def)
  qed
qed

subsection \<open>A formatted volume behind the driver\<close>

definition holds :: "('d \<Rightarrow> drive) \<Rightarrow> 'd \<Rightarrow> image \<Rightarrow> bool" where
  "holds view d img \<longleftrightarrow> (\<forall>b. blk (\<lambda>d. sector (view d)) d b = img_block img b)"

lemma bitmap_fold:
  assumes "n \<le> 8 * length b" "j < 8 * length b"
  shows "bitmap_test (fold (\<lambda>i b. bitmap_set b i) [0..<n] b) j \<longleftrightarrow> j < n \<or> bitmap_test b j"
  using assms(1)
proof (induction n)
  case (Suc n)
  let ?f = "fold (\<lambda>i b. bitmap_set b i) [0..<n] b"
  have "length (fold (\<lambda>i b. bitmap_set b i) xs c) = length c" for xs c by (induction xs arbitrary: c) simp_all
  then have "bitmap_test (bitmap_set ?f n) j \<longleftrightarrow> j = n \<or> bitmap_test ?f j"
    using Suc.prems assms(2) by (intro bitmap_set_test) (simp_all add: div_less_iff_less_mult mult.commute)
  then show ?case using Suc by auto
qed simp

lemma mkfs_used:
  assumes "fresh img" "b < 16384"
  shows "bitmap_test (img_block (mkfs img) 21) b \<longleftrightarrow> b < 97"
proof -
  have "bitmap_test (take 4096 m) b = bitmap_test m b" for m
    using assms(2) by (simp add: bitmap_test_bit div_less_iff_less_mult)
  moreover have "bitmap_test (replicate 16384 0) b = False" using assms(2) by (simp add: bitmap_test_bit div_less_iff_less_mult)
  ultimately show ?thesis
    using bitmap_fold [of 97 "replicate 16384 0" b] assms(2) mkfs_blocks(3) [OF assms(1)]
    by (simp add: mkfs_block_bitmap_def mkfs_layout)
qed

lemma names_ok_mkfs: "names_ok root_entries" "names_ok (sub_entries n)"
  by (simp_all add: names_ok_def root_entries_def sub_entries_def str_def)

definition dir_entries :: "u32 \<Rightarrow> (u32 \<times> bytes) list" where
  "dir_entries i = (if i = 0 then root_entries else sub_entries i)"

lemma mkfs_dir:
  assumes "fresh img" "i \<in> {0, 3, 4, 5, 6, 7}"
  defines "V \<equiv> img_block (mkfs img)"
  shows "dir_ok mkfs_sb V i" "dir_contents mkfs_sb V i = pad (dir_bytes (dir_entries i))"
    "unat (direct_block (inode_at mkfs_sb V i)) = 89 + unat i"
proof -
  have lt: "unat i < 8" using assms(2) by auto
  have ino: "inode_at mkfs_sb V i = mkfs_inodes ! unat i" unfolding V_def by (rule mkfs_inode_at [OF assms(1) lt])
  have i: "unat (direct_block (inode_at mkfs_sb V i)) = 89 + unat i" "is_dir (inode_at mkfs_sb V i)"
    unfolding ino using assms(2)
    by (auto simp: mkfs_inodes_def mkfs_inode_def mkfs_layout is_dir_def TINYFS_TYPE_DIR_def)
  have c: "V (89 + unat i) = pad (dir_bytes (dir_entries i))"
    using assms(2) mkfs_blocks [OF assms(1)] by (auto simp: V_def dir_entries_def)
  have "names_ok (dir_entries i)" by (simp add: dir_entries_def names_ok_mkfs)
  then have "dir_wf (V (89 + unat i))" unfolding c by (rule dir_bytes_ok(1))
  then show "dir_ok mkfs_sb V i" "dir_contents mkfs_sb V i = pad (dir_bytes (dir_entries i))"
    "unat (direct_block (inode_at mkfs_sb V i)) = 89 + unat i"
    using i c lt by (simp_all add: dir_ok_def data_block_def word_less_nat_alt)
qed

lemma mkfs_free_ok:
  assumes "fresh img"
  shows "free_ok mkfs_sb (img_block (mkfs img)) 0"
proof -
  have "data_block mkfs_sb (of_nat b) \<and> b \<noteq> 89" if "b < 16384" "97 \<le> b" for b
    using that by (auto simp: data_block_def unat_of_nat_small word_less_nat_alt)
  then show ?thesis
    using mkfs_used [OF assms] mkfs_dir(3) [OF assms, of 0] by (auto simp: free_ok_def)
qed


lemma mounted:
  assumes "ata_drive io view busy" "ph (view (dev s)) = Idle" "heap_room (fs_heap s)"
    and "fresh img" "holds view (dev s) (mkfs img)"
  defines "t \<equiv> fs_init (ata_ops io) s"
  shows "fs_ready view t" "sb t = mkfs_sb" "cwd_inum t = 0" "vol view t = img_block (mkfs img)"
    "i \<in> {0, 3, 4, 5, 6, 7} \<Longrightarrow> dir_inv view t i"
    "listing io 0 t name = map_of (map prod.swap root_entries) (cstr name)"
    "dir_map (dir_contents (sb t) (vol view t) 0) name = map_of (map prod.swap root_entries) (cstr name)"
proof -
  let ?ok = "\<lambda>d. ph (view d) = Idle" and ?sect = "\<lambda>d. sector (view d)"
  let ?V = "img_block (mkfs img)"
  note dk = ata_drive.drive_disk [OF assms(1)]
  have V: "blk ?sect (dev s) = ?V" using assms(5) by (auto simp: holds_def)
  obtain u where u: "tinyfs_init (ata_ops io) s = (u, 0)" "fs_heap u = fs_heap s" "sb u = mkfs_sb" "?ok (dev u)" "blk ?sect (dev u) = ?V"
    using disk.tinyfs_init_goes [OF dk, of s] assms(2,3) mkfs_blocks(1) [OF assms(4)] mkfs_sb_read V
    by (auto simp: mkfs_sb_def)
  show t: "fs_ready view t" "sb t = mkfs_sb" "cwd_inum t = 0" "vol view t = ?V"
    using u assms(3) by (simp_all add: t_def fs_init_def fs_ready_def fs_good_def vol_def)
  show dirs: "dir_inv view t i" if "i \<in> {0, 3, 4, 5, 6, 7}" for i
  proof -
    have "names_ok (dir_entries i)" by (simp add: dir_entries_def names_ok_mkfs)
    then show ?thesis using mkfs_dir [OF assms(4) that] dir_bytes_ok(2) t by (simp add: dir_inv_def)
  qed
  have d0: "dir_ok (sb t) (vol view t) 0" using dirs [of 0] by (simp add: dir_inv_def)
  show M: "dir_map (dir_contents (sb t) (vol view t) 0) name = map_of (map prod.swap root_entries) (cstr name)"
    using mkfs_dir(2) [OF assms(4), of 0] dir_bytes_ok(3) [OF names_ok_mkfs(1)] t by (simp add: dir_entries_def)
  show "listing io 0 t name = map_of (map prod.swap root_entries) (cstr name)"
    using listing_eq [OF assms(1) t(1) d0] M by simp
qed

text \<open>C23: the kernel mounts what \<^verbatim>\<open>mkfs.tinyfs\<close> has formatted: on a drive that holds the image,
  initialisation succeeds, every directory the tool made is in order, all free blocks are
  really free, the root directory lists exactly the names the tool put there, and reading
  the two files it made returns their texts.\<close>

theorem mkfs_mounts:
  assumes "ata_drive io view busy" "ph (view (dev s)) = Idle" "heap_room (fs_heap s)"
    and "fresh img" "holds view (dev s) (mkfs img)" "25 < buf_size"
  defines "t \<equiv> fs_init (ata_ops io) s"
  shows "fs_ready view t \<and> sb t = mkfs_sb \<and> cwd_inum t = 0 \<and> list_all (dir_inv view t) [0, 3, 4, 5, 6, 7] \<and>
    free_ok (sb t) (vol view t) 0 \<and>
    (\<forall>name. listing io 0 t name = map_of (map prod.swap root_entries) (cstr name)) \<and>
    snd (fs_cat (ata_ops io) (str ''README.txt'') buf_size t) = Some (25, readme_text @ [0]) \<and>
    snd (fs_cat (ata_ops io) (str ''/hello.txt'') buf_size t) = Some (13, hello_text @ [0])"
proof -
  let ?ok = "\<lambda>d. ph (view d) = Idle" and ?sect = "\<lambda>d. sector (view d)"
  let ?V = "img_block (mkfs img)"
  note dk = ata_drive.drive_disk [OF assms(1)]
  note MT = mounted [OF assms(1-5), folded t_def]
  note t = MT(1-4) and M = MT(7)
  have d0: "dir_ok (sb t) (vol view t) 0" using MT(5) [of 0] by (simp add: dir_inv_def)
  have good: "fs_good ?ok t" using t(1) by (simp add: fs_ready_def)
  have files: "file_ok mkfs_sb (inode_at mkfs_sb ?V 1)" "file_ok mkfs_sb (inode_at mkfs_sb ?V 2)"
    "isize (inode_at mkfs_sb ?V 1) = 25" "isize (inode_at mkfs_sb ?V 2) = 13"
    "unat (direct_block (inode_at mkfs_sb ?V 1)) = 90" "unat (direct_block (inode_at mkfs_sb ?V 2)) = 91"
    by (simp_all add: mkfs_inode_at [OF assms(4)] mkfs_inodes_def mkfs_inode_def file_ok_def is_file_def
        TINYFS_TYPE_FILE_def mkfs_layout)
  have txt_ok: "take 25 (?V 90) = readme_text" "take 13 (?V 91) = hello_text"
    using mkfs_blocks(6,7) [OF assms(4)] by (simp_all add: pad_def)
  have cat: "snd (fs_cat (ata_ops io) p buf_size t) = Some (int (unat (isize (inode_at mkfs_sb ?V n))),
      take (unat (isize (inode_at mkfs_sb ?V n))) (?V (unat (direct_block (inode_at mkfs_sb ?V n)))) @ [0])"
    if pre: "plain_name name" "p = name \<or> p = slash # name" "map_of (map prod.swap root_entries) (cstr name) = Some n"
      "unat n < 64" "file_ok mkfs_sb (inode_at mkfs_sb ?V n)" "int (unat (isize (inode_at mkfs_sb ?V n))) < buf_size" for p name n
  proof -
    have "resolve_path (ata_ops io) p t = find_dirent (ata_ops io) 0 name t" using pre(2) t(3) by (auto simp: resolve_plain [OF pre(1)])
    then obtain w where "resolve_path (ata_ops io) p t = (w, Some n)" "goes ?ok ?sect t (blk ?sect (dev t)) w"
      using disk.find_dirent_goes [OF dk good, of 0 name] d0 M [of name] pre(3) by (auto simp: vol_def)
    from disk.fs_cat_goes [OF dk this good, of buf_size] pre(4-6) t show ?thesis by (auto simp: vol_def)
  qed
  have names: "plain_name (str ''README.txt'')" "plain_name (str ''hello.txt'')"
    "map_of (map prod.swap root_entries) (cstr (str ''README.txt'')) = Some 1"
    "map_of (map prod.swap root_entries) (cstr (str ''hello.txt'')) = Some 2"
    "str ''/hello.txt'' = slash # str ''hello.txt''"
    by (simp_all add: plain_name_def str_def root_entries_def)
  have "snd (fs_cat (ata_ops io) (str ''README.txt'') buf_size t) = Some (25, readme_text @ [0])"
    using cat [OF names(1) _ names(3)] files txt_ok assms(6) by simp
  moreover have "snd (fs_cat (ata_ops io) (str ''/hello.txt'') buf_size t) = Some (13, hello_text @ [0])"
    using cat [OF names(2) _ names(4), of "str ''/hello.txt''"] names(5) files txt_ok assms(6) by simp
  ultimately show ?thesis using t MT(5,6) mkfs_free_ok [OF assms(4)] by simp
qed

subsection \<open>A concrete volume\<close>

text \<open>The simulated drive with a formatted image on it, before and after mounting.\<close>

definition image_sim :: "image \<Rightarrow> sim" where
  "image_sim img = \<lparr>sim_drive = blank_drive\<lparr>media := (\<lambda>i k. le_word [img (512 * i + 2 * k), img (512 * i + 2 * k + 1)])\<rparr>, polls = 0\<rparr>"

definition demo_boot :: "sim fsys" where
  "demo_boot = \<lparr>fs_heap = heap_init 0x200000 0x200000, dev = image_sim (mkfs (\<lambda>i. 0)), sb = get_superblock (replicate 64 0), cwd_inum = 0\<rparr>"

definition demo :: "sim fsys" where
  "demo = fs_init (ata_ops sim_io) demo_boot"

lemma pairs: "concat (map (\<lambda>k. [f (2 * k), f (2 * k + 1)]) [0..<n]) = map f [0..<2 * n]"
  by (induction n) auto

lemma chunks: "concat (map (\<lambda>q. map (\<lambda>j. f (m * q + j)) [0..<m]) [a..<a + n]) = map f [m * a..<m * (a + n)]"
proof (induction n)
  case (Suc n)
  have "map (\<lambda>j. f (m * (a + n) + j)) [0..<m] = map f [m * (a + n)..<m * (a + n) + m]"
    by (rule nth_equalityI) simp_all
  then have "concat (map (\<lambda>q. map (\<lambda>j. f (m * q + j)) [0..<m]) [a..<a + Suc n]) =
      map f ([m * a..<m * (a + n)] @ [m * (a + n)..<m * (a + n) + m])" using Suc by simp
  also have "[m * a..<m * (a + n)] @ [m * (a + n)..<m * (a + n) + m] = [m * a..<m * (a + n) + m]"
    by (rule upt_add_eq_append [symmetric, of "m * a" "m * (a + n)" m]) simp
  finally show ?case by (simp add: ac_simps)
qed simp

lemma image_sim_holds: "holds sim_drive (image_sim img) img"
proof -
  have w: "le_bytes 2 (le_word [a, b] :: u16) = [a, b]" for a b by (rule le_bytes_le_word) simp_all
  have "sector (sim_drive (image_sim img)) = (\<lambda>i. map (\<lambda>j. img (512 * i + j)) [0..<512])"
  proof
    show "sector (sim_drive (image_sim img)) i = map (\<lambda>j. img (512 * i + j)) [0..<512]" for i
    using pairs [of "\<lambda>j. img (512 * i + j)" 256] by (simp add: sector_def image_sim_def w add.assoc del: le_word.simps)
  qed
  then have "blk (\<lambda>d. sector (sim_drive d)) (image_sim img) b = map img [512 * (8 * b)..<512 * (8 * b + 8)]" for b
    using chunks [of img 512 "8 * b" 8] by (simp add: blk_def)
  moreover have "map img [4096 * b..<4096 * b + 4096] = img_block img b" for b
    by (rule nth_equalityI) (simp_all add: img_block_def)
  ultimately show ?thesis by (simp add: holds_def)
qed

lemma demo_heap: "heap_room (heap_init 0x200000 0x200000)"
proof -
  have "heap_inv 0x200000 0x400000 (heap_init 0x200000 0x200000)" using heap_init_inv [of "0x200000" "0x200000"] by simp
  moreover have "snd (memory_alloc (heap_init 0x200000 0x200000) 4096) \<noteq> 0" by (simp add: heap_init_def sizeof_block_def)
  ultimately show ?thesis by (auto simp: heap_room_def)
qed

lemma fresh_zero: "fresh (\<lambda>i. 0)"
  by (simp add: fresh_def)

lemma demo_facts:
  "fs_ready sim_drive demo" "sb demo = mkfs_sb" "cwd_inum demo = 0" "vol sim_drive demo = img_block (mkfs (\<lambda>i. 0))"
  "dir_inv sim_drive demo 0" "listing sim_io 0 demo name = map_of (map prod.swap root_entries) (cstr name)"
proof -
  have d: "ph (sim_drive (dev demo_boot)) = Idle" "heap_room (fs_heap demo_boot)"
    "holds sim_drive (dev demo_boot) (mkfs (\<lambda>i. 0))"
    using image_sim_holds demo_heap by (simp_all add: demo_boot_def image_sim_def blank_drive_def)
  note D = mounted [OF sim.ata_drive_axioms d(1,2) fresh_zero d(3), folded demo_def]
  show "fs_ready sim_drive demo" "sb demo = mkfs_sb" "cwd_inum demo = 0" "vol sim_drive demo = img_block (mkfs (\<lambda>i. 0))"
    "dir_inv sim_drive demo 0" "listing sim_io 0 demo name = map_of (map prod.swap root_entries) (cstr name)"
    using D by simp_all
qed

theorem mkfs_mounts_witness:
  "snd (fs_cat (ata_ops sim_io) (str ''README.txt'') 512 (fs_init (ata_ops sim_io) demo_boot)) = Some (25, readme_text @ [0])"
  using mkfs_mounts [OF sim.ata_drive_axioms, of demo_boot "\<lambda>i. 0" 512] image_sim_holds demo_heap fresh_zero
  by (simp add: demo_boot_def image_sim_def blank_drive_def)

lemma demo_no_entry: "listing sim_io 0 demo (str ''notes'') = None"
  by (simp add: demo_facts str_def root_entries_def)

lemma demo_free_entry: "free_entry (dir_contents (sb demo) (vol sim_drive demo) 0) \<noteq> None"
proof -
  let ?b = "pad (dir_bytes root_entries)"
  have "dir_contents (sb demo) (vol sim_drive demo) 0 = ?b"
    using mkfs_dir(2) [OF fresh_zero, of 0] by (simp add: demo_facts dir_entries_def)
  moreover have "chr_at (ent_name ?b 9) 0 = 0"
    using ent_name_field [OF dir_bytes_ok(1) [OF names_ok_mkfs(1)], of 9] dir_block_fields(2) [OF names_ok_mkfs(1), of 9]
    by (simp add: chr_at_cstr root_entries_def)
  ultimately show ?thesis
    unfolding free_entry_def find_None_iff
    by (auto simp: TINYFS_DIRENTS_PER_BLOCK_def TINYFS_BLOCK_SIZE_def intro!: exI [of _ 9])
qed

theorem tinyfs_add_dirent_map_witness:
  "\<exists>t r. tinyfs_add_dirent (ata_ops sim_io) 0 9 (str ''notes'') demo = (t, r) \<and> r = 0 \<and>
    listing sim_io 0 t (str ''notes'') = Some 9 \<and> listing sim_io 0 t (str ''bin'') = Some 3"
proof -
  have "cstr (str ''notes'') = str ''notes''" "cstr (str ''bin'') = str ''bin''" "str ''bin'' \<noteq> str ''notes''" "length (str ''notes'') = 5"
    by (simp_all add: str_def)
  moreover have "listing sim_io 0 demo (str ''bin'') = Some 3" by (simp add: demo_facts str_def root_entries_def)
  ultimately show ?thesis
    using tinyfs_add_dirent_map [OF sim.ata_drive_axioms demo_facts(1,5), of "str ''notes''" 9] demo_no_entry demo_free_entry
    by (fastforce simp: str_def)
qed

theorem tinyfs_remove_dirent_map_witness:
  "\<exists>t. tinyfs_remove_dirent (ata_ops sim_io) 0 (str ''bin'') demo = (t, 0) \<and> listing sim_io 0 t (str ''bin'') = None"
proof -
  have "listing sim_io 0 demo (str ''bin'') = Some 3" by (simp add: demo_facts str_def root_entries_def)
  then show ?thesis using tinyfs_remove_dirent_map [OF sim.ata_drive_axioms demo_facts(1,5), of "str ''bin''"] by auto
qed

theorem tinyfs_inode_roundtrip_witness:
  "\<exists>t. tinyfs_write_inode (ata_ops sim_io) 9 zero_inode demo = (t, 0) \<and>
    snd (tinyfs_read_inode (ata_ops sim_io) 9 t) = Some zero_inode"
  using tinyfs_inode_roundtrip [OF sim.ata_drive_axioms demo_facts(1), of 9 9 zero_inode] by (auto simp: demo_facts)

theorem tinyfs_block_alloc_lowest_witness:
  "snd (tinyfs_block_alloc (ata_ops sim_io) demo) = 97"
proof -
  have used: "bitmap_test (vol sim_drive demo 21) j \<longleftrightarrow> j < 97" if "j < 16384" for j
    using mkfs_used [OF fresh_zero that] by (simp add: demo_facts)
  obtain t r where r: "tinyfs_block_alloc (ata_ops sim_io) demo = (t, r)"
    "r = -1 \<longleftrightarrow> (\<forall>j < 16384. bitmap_test (vol sim_drive demo 21) j)"
    "r \<noteq> -1 \<longrightarrow> 0 \<le> r \<and> r < 16384 \<and> \<not> bitmap_test (vol sim_drive demo 21) (nat r) \<and>
      (\<forall>j < nat r. bitmap_test (vol sim_drive demo 21) j)"
    using tinyfs_block_alloc_lowest [OF sim.ata_drive_axioms demo_facts(1)] by (auto simp: demo_facts(2))
  have "r \<noteq> -1" using r(2) used [of 97] by auto
  then have n: "nat r < 16384" "\<not> nat r < 97" "\<forall>j < nat r. bitmap_test (vol sim_drive demo 21) j" "0 \<le> r"
    using r(3) used [of "nat r"] by auto
  moreover have "\<not> bitmap_test (vol sim_drive demo 21) 97" using used [of 97] by simp
  ultimately have "\<not> 97 < nat r" by blast
  then show ?thesis using r(1) n by simp
qed

theorem fs_write_file_cat_witness:
  "\<exists>t. fs_write_file (ata_ops sim_io) (Some (str ''notes'')) (str ''remember'') 8 demo = (t, 8) \<and>
    snd (fs_cat (ata_ops sim_io) (str ''notes'') 100 t) = Some (8, str ''remember'' @ [0])"
proof -
  have "first_clear (vol sim_drive demo 17) 1 63 \<noteq> None"
  proof
    assume "first_clear (vol sim_drive demo 17) 1 63 = None"
    then have "bitmap_test (vol sim_drive demo 17) 8" by (simp add: first_clear_None)
    then show False using mkfs_blocks(2) [OF fresh_zero] by (simp add: demo_facts mkfs_inode_bitmap_def TINYFS_BLOCK_SIZE_def bitmap_test_bit)
  qed
  moreover have "first_clear (vol sim_drive demo 21) 0 16384 \<noteq> None"
  proof
    assume "first_clear (vol sim_drive demo 21) 0 16384 = None"
    then have "bitmap_test (vol sim_drive demo 21) 97" by (simp add: first_clear_None)
    then show False using mkfs_used [OF fresh_zero, of 97] by (simp add: demo_facts)
  qed
  moreover have "map (chr_at (str ''remember'')) [0..<8] = str ''remember''" by (simp add: str_def chr_at_def upt_rec)
  ultimately show ?thesis
    using fs_write_file_cat [OF sim.ata_drive_axioms demo_facts(1), of "str ''notes''" 8 100 "str ''remember''"]
      demo_facts(5) mkfs_free_ok [OF fresh_zero] demo_no_entry demo_free_entry
    by (simp add: demo_facts(2-4) plain_name_def) (auto simp: str_def)
qed

end
