(* ===== verification/Pages.thy ===== *)
theory Pages
  imports Heap
begin

text \<open>
  Physical memory and page frames of \<^verbatim>\<open>kernel/memory.c\<close>: the byte loops
  \<^verbatim>\<open>memory_copy\<close> and \<^verbatim>\<open>memory_set\<close>, the page frame allocator
  \<^verbatim>\<open>memory_alloc_page\<close> (it hands out the frames of a fixed area one after the
  other and never takes one back), the reference counts of frames, the demand-paging
  regions of a task, and the spinlock. Physical memory is a total function from addresses
  to bytes; the kernel runs with the area identity-mapped, so an address of the C code is
  a physical address. Static arrays of the C code are fields of the state record and not
  bytes of that memory.
\<close>

type_synonym memory = "u64 \<Rightarrow> u8"

record kmem =
  phys :: memory
  heap_blocks :: heap
  page_alloc_cur :: u64
  page_alloc_end :: u64
  page_refcounts :: "u32 list"

primrec memory_copy :: "memory \<Rightarrow> u64 \<Rightarrow> u64 \<Rightarrow> nat \<Rightarrow> memory" where
  "memory_copy m dest src 0 = m"
| "memory_copy m dest src (Suc i) =
     (let m' = memory_copy m dest src i in m'(dest + of_nat i := m' (src + of_nat i)))"

primrec memory_set :: "memory \<Rightarrow> u64 \<Rightarrow> u8 \<Rightarrow> nat \<Rightarrow> memory" where
  "memory_set m dest val 0 = m"
| "memory_set m dest val (Suc i) = (memory_set m dest val i)(dest + of_nat i := val)"

definition memory_page_init :: "kmem \<Rightarrow> kmem" where
  "memory_page_init k = k\<lparr>page_alloc_cur := 0x600000, page_alloc_end := 0x800000\<rparr>"

definition memory_alloc_page :: "kmem \<Rightarrow> kmem \<times> u64" where
  "memory_alloc_page k =
     (if page_alloc_cur k \<ge> page_alloc_end k then (k, 0)
      else (let addr = page_alloc_cur k in
        (k\<lparr>phys := memory_set (phys k) addr 0 4096, page_alloc_cur := page_alloc_cur k + 4096\<rparr>, addr)))"

subsection \<open>Reference counts of frames\<close>

definition PAGE_ALLOC_START :: u64 where
  "PAGE_ALLOC_START = 0x600000"

definition PAGE_ALLOC_END :: u64 where
  "PAGE_ALLOC_END = 0x800000"

definition MAX_PHYS_PAGES :: nat where
  "MAX_PHYS_PAGES = unat ((PAGE_ALLOC_END - PAGE_ALLOC_START) div 4096)"

definition phys_to_idx :: "u64 \<Rightarrow> int" where
  "phys_to_idx p =
     (if p < PAGE_ALLOC_START \<or> p \<ge> PAGE_ALLOC_END then -1
      else uint ((p - PAGE_ALLOC_START) div 4096))"

definition page_ref_init :: "kmem \<Rightarrow> kmem" where
  "page_ref_init k = k\<lparr>page_refcounts := replicate MAX_PHYS_PAGES 0\<rparr>"

definition page_ref_inc :: "kmem \<Rightarrow> u64 \<Rightarrow> kmem" where
  "page_ref_inc k p =
     (let idx = phys_to_idx p in
      if idx \<ge> 0 then k\<lparr>page_refcounts := (page_refcounts k)[nat idx := page_refcounts k ! nat idx + 1]\<rparr>
      else k)"

definition page_ref_dec :: "kmem \<Rightarrow> u64 \<Rightarrow> kmem" where
  "page_ref_dec k p =
     (let idx = phys_to_idx p in
      if idx \<ge> 0 \<and> page_refcounts k ! nat idx > 0
      then k\<lparr>page_refcounts := (page_refcounts k)[nat idx := page_refcounts k ! nat idx - 1]\<rparr>
      else k)"

definition page_ref_get :: "kmem \<Rightarrow> u64 \<Rightarrow> u32" where
  "page_ref_get k p =
     (let idx = phys_to_idx p in if idx < 0 then 0 else page_refcounts k ! nat idx)"

definition memory_init :: "kmem \<Rightarrow> u64 \<Rightarrow> u64 \<Rightarrow> kmem" where
  "memory_init k heap_start_ptr heap_size =
     page_ref_init (memory_page_init (k\<lparr>heap_blocks := heap_init heap_start_ptr heap_size\<rparr>))"

subsection \<open>Demand-paging regions\<close>

record vm_region_t =
  vm_start :: u64
  vm_end :: u64
  vm_flags :: u64

type_synonym vm_regions = "vm_region_t list"

definition MAX_VM_REGIONS :: nat where
  "MAX_VM_REGIONS = 8"

definition vm_region_init :: vm_regions where
  "vm_region_init = replicate MAX_VM_REGIONS \<lparr>vm_start = 0, vm_end = 0, vm_flags = 0\<rparr>"

definition vm_unused :: "vm_region_t \<Rightarrow> bool" where
  "vm_unused r \<longleftrightarrow> vm_start r = 0 \<and> vm_end r = 0"

fun vm_region_add :: "vm_regions \<Rightarrow> u64 \<Rightarrow> u64 \<Rightarrow> u64 \<Rightarrow> vm_regions option" where
  "vm_region_add [] s e fl = None"
| "vm_region_add (r # rs) s e fl =
     (if vm_unused r then Some (\<lparr>vm_start = s, vm_end = e, vm_flags = fl\<rparr> # rs)
      else map_option ((#) r) (vm_region_add rs s e fl))"

fun vm_region_contains :: "vm_regions \<Rightarrow> u64 \<Rightarrow> u64 option" where
  "vm_region_contains [] addr = None"
| "vm_region_contains (r # rs) addr =
     (if vm_unused r then vm_region_contains rs addr
      else if addr \<ge> vm_start r \<and> addr < vm_end r then Some (vm_flags r)
      else vm_region_contains rs addr)"

definition vm_region_copy :: "vm_regions \<Rightarrow> vm_regions" where
  "vm_region_copy src =
     map (\<lambda>r. \<lparr>vm_start = vm_start r, vm_end = vm_end r, vm_flags = vm_flags r\<rparr>) src"

subsection \<open>Spinlocks\<close>

record spinlock_t =
  lock :: u32

definition sync_lock_test_and_set :: "spinlock_t \<Rightarrow> spinlock_t \<times> u32" where
  "sync_lock_test_and_set sl = (sl\<lparr>lock := 1\<rparr>, lock sl)"

definition spinlock_init :: "spinlock_t \<Rightarrow> spinlock_t" where
  "spinlock_init sl = sl\<lparr>lock := 0\<rparr>"

definition spinlock_release :: "spinlock_t \<Rightarrow> spinlock_t" where
  "spinlock_release sl = sl\<lparr>lock := 0\<rparr>"

definition spinlock_try_acquire :: "spinlock_t \<Rightarrow> spinlock_t \<times> bool" where
  "spinlock_try_acquire sl = (let (sl', old) = sync_lock_test_and_set sl in (sl', old = 0))"

text \<open>
  \<^verbatim>\<open>spinlock_acquire\<close> repeats the atomic exchange until it reads 0. Processors that
  use the lock interleave at the exchange, so the lock and its users are a step relation:
  one exchange, one attempt or one release of one user is a step.
\<close>

datatype lock_user = Idle | Spinning | Holding

record lock_sys =
  the_lock :: spinlock_t
  users :: "nat \<Rightarrow> lock_user"

inductive lock_step :: "lock_sys \<Rightarrow> lock_sys \<Rightarrow> bool" where
  acquire_call: "users s i = Idle \<Longrightarrow> lock_step s (s\<lparr>users := (users s)(i := Spinning)\<rparr>)"
| acquire_spin: "users s i = Spinning \<Longrightarrow> sync_lock_test_and_set (the_lock s) = (l', old) \<Longrightarrow>
     lock_step s (s\<lparr>the_lock := l', users := (users s)(i := (if old \<noteq> 0 then Spinning else Holding))\<rparr>)"
| try_acquire: "users s i = Idle \<Longrightarrow> spinlock_try_acquire (the_lock s) = (l', ok) \<Longrightarrow>
     lock_step s (s\<lparr>the_lock := l', users := (users s)(i := (if ok then Holding else Idle))\<rparr>)"
| release: "users s i = Holding \<Longrightarrow>
     lock_step s (s\<lparr>the_lock := spinlock_release (the_lock s), users := (users s)(i := Idle)\<rparr>)"

definition lock_start :: lock_sys where
  "lock_start = \<lparr>the_lock = spinlock_init \<lparr>lock = 0\<rparr>, users = (\<lambda>_. Idle)\<rparr>"

inductive lock_reachable :: "lock_sys \<Rightarrow> bool" where
  start: "lock_reachable lock_start"
| step: "lock_reachable s \<Longrightarrow> lock_step s t \<Longrightarrow> lock_reachable t"

subsection \<open>Memory loops\<close>

lemma memory_set_eq:
  "n \<le> 2 ^ 64 \<Longrightarrow> memory_set m d v n a = (if unat (a - d) < n then v else m a)"
proof (induction n)
  case (Suc n)
  then have "a = d + of_nat n \<longleftrightarrow> unat (a - d) = n" by (intro word_offset_iff) simp
  then show ?case using Suc by auto
qed simp

lemma memory_copy_eq:
  assumes "n \<le> 2 ^ 64" "\<And>a. unat (a - src) < n \<Longrightarrow> \<not> unat (a - d) < n"
  shows "memory_copy m d src n a = (if unat (a - d) < n then m (src + (a - d)) else m a)"
  using assms
proof (induction n arbitrary: a)
  case (Suc n)
  have disj: "\<not> unat (b - d) < n" if "unat (b - src) < Suc n" for b
    using Suc.prems(2) [OF that] by simp
  have IH: "memory_copy m d src n b = (if unat (b - d) < n then m (src + (b - d)) else m b)" for b
    using Suc.prems(1) disj by (intro Suc.IH) auto
  have n: "unat (of_nat n :: u64) = n" using Suc.prems(1) by (simp add: unat_of_nat_small)
  have eq: "a = d + of_nat n \<longleftrightarrow> unat (a - d) = n"
    using Suc.prems(1) by (intro word_offset_iff) simp
  have "memory_copy m d src n (src + of_nat n) = m (src + of_nat n)"
    using disj [of "src + of_nat n"] n by (simp add: IH)
  then show ?case using eq IH [of a] n by (auto simp: Let_def)
qed simp

subsection \<open>Frames\<close>

text \<open>
  \<open>frames_ok\<close>: the allocator is at a frame boundary of its area, and every frame of
  the area has a counter. \<open>free_frame k a\<close>: the byte \<open>a\<close> lies in a frame that is
  still to be handed out.
\<close>

definition frames_ok :: "kmem \<Rightarrow> bool" where
  "frames_ok k \<longleftrightarrow> page_alloc_end k = 0x800000 \<and> 0x600000 \<le> page_alloc_cur k \<and>
     page_alloc_cur k \<le> 0x800000 \<and> 4096 dvd unat (page_alloc_cur k) \<and>
     length (page_refcounts k) = MAX_PHYS_PAGES"

definition free_frame :: "kmem \<Rightarrow> u64 \<Rightarrow> bool" where
  "free_frame k a \<longleftrightarrow> page_alloc_cur k \<le> a \<and> a < page_alloc_end k"

lemma MAX_PHYS_PAGES_eq [simp]: "MAX_PHYS_PAGES = 512"
  by (simp add: MAX_PHYS_PAGES_def PAGE_ALLOC_START_def PAGE_ALLOC_END_def)

lemma memory_init_frames_ok: "frames_ok (memory_init k p n)"
  by (simp add: frames_ok_def memory_init_def page_ref_init_def memory_page_init_def)

lemma memory_alloc_page_frames_ok:
  assumes "frames_ok k"
  shows "frames_ok (fst (memory_alloc_page k))"
proof (cases "page_alloc_end k \<le> page_alloc_cur k")
  case False
  define c where "c = unat (page_alloc_cur k)"
  have c: "0x600000 \<le> c" "c < 0x800000" "4096 dvd c"
    using assms False by (auto simp: frames_ok_def c_def word_le_nat_alt word_less_nat_alt)
  then have "c + 4096 \<le> 0x800000" by (elim dvdE) simp
  then have "unat (page_alloc_cur k + 4096) = c + 4096"
    by (simp add: unat_word_ariths c_def)
  then show ?thesis
    using assms False c \<open>c + 4096 \<le> 0x800000\<close>
    by (simp add: frames_ok_def memory_alloc_page_def word_le_nat_alt Let_def)
qed (use assms in \<open>simp add: memory_alloc_page_def\<close>)

lemma memory_alloc_page_fail [page_simps]:
  "page_alloc_end k \<le> page_alloc_cur k \<Longrightarrow> memory_alloc_page k = (k, 0)"
  by (simp add: memory_alloc_page_def)

lemma memory_alloc_page_succeed [page_simps]:
  "\<not> page_alloc_end k \<le> page_alloc_cur k \<Longrightarrow> memory_alloc_page k =
     (k\<lparr>phys := memory_set (phys k) (page_alloc_cur k) 0 4096,
        page_alloc_cur := page_alloc_cur k + 4096\<rparr>, page_alloc_cur k)"
  by (simp add: memory_alloc_page_def Let_def)

lemma frames_okD:
  assumes "frames_ok k" "page_alloc_cur k < page_alloc_end k"
  shows "unat (page_alloc_cur k + 4096) = unat (page_alloc_cur k) + 4096"
    and "unat (page_alloc_cur k) + 4096 \<le> 0x800000" "0x600000 \<le> unat (page_alloc_cur k)"
proof -
  define c where "c = unat (page_alloc_cur k)"
  have c: "0x600000 \<le> c" "c < 0x800000" "4096 dvd c"
    using assms by (auto simp: frames_ok_def c_def word_le_nat_alt word_less_nat_alt)
  then have "c + 4096 \<le> 0x800000" by (elim dvdE) simp
  with c show "unat (page_alloc_cur k + 4096) = unat (page_alloc_cur k) + 4096"
    "unat (page_alloc_cur k) + 4096 \<le> 0x800000" "0x600000 \<le> unat (page_alloc_cur k)"
    by (simp_all add: unat_word_ariths c_def)
qed

lemma in_page_iff:
  assumes "unat p + 4096 \<le> 2 ^ 64"
  shows "unat (a - p :: u64) < 4096 \<longleftrightarrow> unat p \<le> unat a \<and> unat a < unat p + 4096"
proof (cases "p \<le> a")
  case True
  then show ?thesis by (auto simp: unat_sub word_le_nat_alt)
next
  case False
  then have lt: "unat a < unat p" by (simp add: word_le_nat_alt)
  have "unat (a - p) = (2 ^ 64 + unat a) - unat p"
    using lt by (simp add: unat_sub_if' word_le_nat_alt)
  then show ?thesis using lt assms by simp
qed

lemma memory_alloc_pageD:
  assumes "frames_ok k" "memory_alloc_page k = (k', p)" "p \<noteq> 0"
  shows "page_alloc_cur k < page_alloc_end k" "p = page_alloc_cur k" "free_frame k p"
    "4096 dvd unat p" "unat p + 4096 \<le> 0x800000"
    "phys k' a = (if unat (a - p) < 4096 then 0 else phys k a)"
    "free_frame k' a \<longleftrightarrow> free_frame k a \<and> \<not> unat (a - p) < 4096"
    "page_refcounts k' = page_refcounts k" "heap_blocks k' = heap_blocks k"
    "page_alloc_end k' = page_alloc_end k"
proof -
  show lt: "page_alloc_cur k < page_alloc_end k"
    using assms(2,3) by (auto simp: memory_alloc_page_def not_le split: if_splits)
  then have k': "k' = k\<lparr>phys := memory_set (phys k) (page_alloc_cur k) 0 4096,
        page_alloc_cur := page_alloc_cur k + 4096\<rparr>" and p: "p = page_alloc_cur k"
    using assms(2) by (auto simp: page_simps)
  show "p = page_alloc_cur k" by (rule p)
  show "free_frame k p" using lt p by (simp add: free_frame_def)
  show "4096 dvd unat p" using assms(1) p by (simp add: frames_ok_def)
  note fr = frames_okD [OF assms(1) lt]
  show le: "unat p + 4096 \<le> 0x800000" using fr p by simp
  show "phys k' a = (if unat (a - p) < 4096 then 0 else phys k a)"
    using p by (simp add: k' memory_set_eq)
  show "free_frame k' a \<longleftrightarrow> free_frame k a \<and> \<not> unat (a - p) < 4096"
    using fr p le in_page_iff [of p a] by (auto simp: k' free_frame_def word_le_nat_alt word_less_nat_alt)
qed (use assms(2) in \<open>auto simp: memory_alloc_page_def Let_def split: if_splits\<close>)

lemma phys_to_idx_pool:
  "phys_to_idx p \<ge> 0 \<longleftrightarrow> 0x600000 \<le> p \<and> p < 0x800000"
  by (auto simp: phys_to_idx_def PAGE_ALLOC_START_def PAGE_ALLOC_END_def not_less not_le)

lemma phys_to_idx_nat:
  assumes "0x600000 \<le> p" "p < 0x800000"
  shows "nat (phys_to_idx p) = (unat p - 0x600000) div 4096" "nat (phys_to_idx p) < 512"
proof -
  have "nat (uint ((p - 0x600000) div 4096)) = unat ((p - 0x600000) div 4096)" by simp
  also have "\<dots> = (unat p - 0x600000) div 4096"
    using assms(1) by (simp add: unat_div unat_sub word_le_nat_alt)
  finally show *: "nat (phys_to_idx p) = (unat p - 0x600000) div 4096"
    using assms by (simp add: phys_to_idx_def PAGE_ALLOC_START_def PAGE_ALLOC_END_def not_less not_le)
  have "unat p < 0x800000" using assms(2) by (simp add: word_less_nat_alt)
  then show "nat (phys_to_idx p) < 512" unfolding * by (simp add: div_less_iff_less_mult)
qed

lemma page_ref_get_pool [page_simps]:
  "0x600000 \<le> p \<Longrightarrow> p < 0x800000 \<Longrightarrow>
     page_ref_get k p = page_refcounts k ! ((unat p - 0x600000) div 4096)"
  using phys_to_idx_pool [of p] phys_to_idx_nat [of p] by (simp add: page_ref_get_def Let_def)

lemma page_ref_get_outside [page_simps]:
  "\<not> (0x600000 \<le> p \<and> p < 0x800000) \<Longrightarrow> page_ref_get k p = 0"
  using phys_to_idx_pool [of p] by (auto simp: page_ref_get_def Let_def)

lemma page_ref_outside [page_simps]:
  assumes "\<not> (0x600000 \<le> p \<and> p < 0x800000)"
  shows "page_ref_inc k p = k" "page_ref_dec k p = k"
  using phys_to_idx_pool [of p] assms by (auto simp: page_ref_inc_def page_ref_dec_def Let_def)

lemma page_ref_frame [simp]:
  "phys (page_ref_inc k p) = phys k" "phys (page_ref_dec k p) = phys k"
  "heap_blocks (page_ref_inc k p) = heap_blocks k" "heap_blocks (page_ref_dec k p) = heap_blocks k"
  "page_alloc_cur (page_ref_inc k p) = page_alloc_cur k" "page_alloc_cur (page_ref_dec k p) = page_alloc_cur k"
  "page_alloc_end (page_ref_inc k p) = page_alloc_end k" "page_alloc_end (page_ref_dec k p) = page_alloc_end k"
  "length (page_refcounts (page_ref_inc k p)) = length (page_refcounts k)"
  "length (page_refcounts (page_ref_dec k p)) = length (page_refcounts k)"
  by (simp_all add: page_ref_inc_def page_ref_dec_def Let_def)

lemma page_ref_frames_ok [simp]:
  "frames_ok (page_ref_inc k p) = frames_ok k" "frames_ok (page_ref_dec k p) = frames_ok k"
  by (simp_all add: frames_ok_def)

definition same_frame :: "u64 \<Rightarrow> u64 \<Rightarrow> bool" where
  "same_frame p q \<longleftrightarrow> 0x600000 \<le> p \<and> p < 0x800000 \<and> 0x600000 \<le> q \<and> q < 0x800000 \<and>
     unat p div 4096 = unat q div 4096"

lemma frame_idx_eq:
  fixes p q :: u64
  assumes "0x600000 \<le> p" "0x600000 \<le> q"
  shows "(unat p - 0x600000) div 4096 = (unat q - 0x600000) div 4096 \<longleftrightarrow>
    unat p div 4096 = unat q div 4096"
proof -
  have 1: "(unat x - 0x600000) div 4096 = unat x div 4096 - 0x600" if "0x600000 \<le> x" for x :: u64
    using div_mult_self1 [of "unat x - 0x600000" 4096 "0x600"] that by (simp add: word_le_nat_alt)
  have 2: "0x600 \<le> unat x div 4096" if "0x600000 \<le> x" for x :: u64
    using div_le_mono [of "0x600000" "unat x" 4096] that by (simp add: word_le_nat_alt)
  show ?thesis
    by (simp add: 1 [OF assms(1)] 1 [OF assms(2)] eq_diff_iff [OF 2 2, OF assms])
qed

lemma page_ref_inc_get:
  assumes "frames_ok k"
  shows "page_ref_get (page_ref_inc k p) q = (if same_frame p q then page_ref_get k q + 1 else page_ref_get k q)"
proof (cases "0x600000 \<le> p \<and> p < 0x800000 \<and> 0x600000 \<le> q \<and> q < 0x800000")
  case True
  then have "page_refcounts (page_ref_inc k p) =
      (page_refcounts k)[(unat p - 0x600000) div 4096 := page_refcounts k ! ((unat p - 0x600000) div 4096) + 1]"
    using phys_to_idx_pool [of p] phys_to_idx_nat [of p] by (simp add: page_ref_inc_def Let_def)
  moreover have "(unat q - 0x600000) div 4096 < 512" using True phys_to_idx_nat [of q] by simp
  ultimately show ?thesis
    using True assms frame_idx_eq [of p q]
    by (auto simp: page_ref_get_pool same_frame_def frames_ok_def nth_list_update)
qed (auto simp: same_frame_def page_simps)

lemma page_ref_dec_get:
  assumes "frames_ok k"
  shows "page_ref_get (page_ref_dec k p) q =
    (if same_frame p q \<and> page_ref_get k q > 0 then page_ref_get k q - 1 else page_ref_get k q)"
proof (cases "0x600000 \<le> p \<and> p < 0x800000 \<and> 0x600000 \<le> q \<and> q < 0x800000")
  case True
  let ?i = "(unat p - 0x600000) div 4096"
  have "page_refcounts (page_ref_dec k p) =
      (if page_refcounts k ! ?i > 0 then (page_refcounts k)[?i := page_refcounts k ! ?i - 1] else page_refcounts k)"
    using True phys_to_idx_pool [of p] phys_to_idx_nat [of p] by (simp add: page_ref_dec_def Let_def)
  moreover have "(unat q - 0x600000) div 4096 < 512" using True phys_to_idx_nat [of q] by simp
  ultimately show ?thesis
    using True assms frame_idx_eq [of p q]
    by (auto simp: page_ref_get_pool same_frame_def frames_ok_def nth_list_update)
qed (auto simp: same_frame_def page_simps)

subsection \<open>Regions\<close>

definition vm_covers :: "vm_regions \<Rightarrow> u64 \<Rightarrow> bool" where
  "vm_covers rs addr \<longleftrightarrow> (\<exists>r \<in> set rs. \<not> vm_unused r \<and> vm_start r \<le> addr \<and> addr < vm_end r)"

lemma vm_region_contains_iff: "vm_region_contains rs addr \<noteq> None \<longleftrightarrow> vm_covers rs addr"
  by (induction rs) (auto simp: vm_covers_def)

lemma vm_region_contains_flags:
  "vm_region_contains rs addr = Some fl \<Longrightarrow>
     \<exists>r \<in> set rs. \<not> vm_unused r \<and> vm_start r \<le> addr \<and> addr < vm_end r \<and> vm_flags r = fl"
  by (induction rs) (auto split: if_splits)

lemma vm_region_add_None: "vm_region_add rs s e fl = None \<longleftrightarrow> (\<forall>r \<in> set rs. \<not> vm_unused r)"
  by (induction rs) auto

lemma vm_region_add_covers:
  "vm_region_add rs s e fl = Some rs' \<Longrightarrow>
     length rs' = length rs \<and> (vm_covers rs' addr \<longleftrightarrow> vm_covers rs addr \<or> s \<le> addr \<and> addr < e)"
proof (induction rs arbitrary: rs')
  case (Cons r rs)
  show ?case
  proof (cases "vm_unused r")
    case True
    then show ?thesis using Cons.prems by (auto simp: vm_covers_def vm_unused_def)
  next
    case False
    then obtain rs2 where "vm_region_add rs s e fl = Some rs2" "rs' = r # rs2"
      using Cons.prems by auto
    then show ?thesis using Cons.IH by (auto simp: vm_covers_def)
  qed
qed simp

lemma vm_region_copy_id: "vm_region_copy rs = rs"
  by (simp add: vm_region_copy_def map_idI)

subsection \<open>The lock protocol\<close>

definition lock_inv :: "lock_sys \<Rightarrow> bool" where
  "lock_inv s \<longleftrightarrow> (\<forall>i j. users s i = Holding \<longrightarrow> users s j = Holding \<longrightarrow> i = j) \<and>
     ((\<exists>i. users s i = Holding) \<longrightarrow> lock (the_lock s) \<noteq> 0)"

lemma lock_step_inv: "lock_step s t \<Longrightarrow> lock_inv s \<Longrightarrow> lock_inv t"
proof (induction rule: lock_step.induct)
  case (acquire_spin s i l' old)
  then show ?case by (auto simp: lock_inv_def sync_lock_test_and_set_def split: if_splits)
next
  case (try_acquire s i l' ok)
  then show ?case
    by (auto simp: lock_inv_def spinlock_try_acquire_def sync_lock_test_and_set_def split: if_splits)
qed (auto simp: lock_inv_def split: if_splits)

lemma lock_reachable_inv: "lock_reachable s \<Longrightarrow> lock_inv s"
proof (induction rule: lock_reachable.induct)
  case start
  show ?case by (simp add: lock_inv_def lock_start_def)
next
  case (step s t)
  then show ?case by (blast intro: lock_step_inv)
qed

subsection \<open>Properties\<close>

text \<open>A frame that \<^verbatim>\<open>memory_alloc_page\<close> hands out is page-aligned, was free before and is
  taken afterwards, is filled with zeros, and nothing else changes in memory.\<close>

theorem memory_alloc_page_correct:
  assumes "frames_ok k" "memory_alloc_page k = (k', p)" "p \<noteq> 0"
  shows "frames_ok k' \<and> 4096 dvd unat p \<and> free_frame k p \<and>
    (\<forall>a. phys k' a = (if unat (a - p) < 4096 then 0 else phys k a)) \<and>
    (\<forall>a. free_frame k' a \<longleftrightarrow> free_frame k a \<and> \<not> unat (a - p) < 4096)"
  using memory_alloc_page_frames_ok [OF assms(1)] memory_alloc_pageD [OF assms] assms(2) by simp

theorem memory_alloc_page_correct_witness:
  "\<exists>k k'. frames_ok k \<and> memory_alloc_page k = (k', 0x600000) \<and> frames_ok k' \<and> \<not> free_frame k' 0x600FFF"
proof -
  let ?k = "memory_init \<lparr>phys = (\<lambda>_. 7), heap_blocks = [], page_alloc_cur = 0, page_alloc_end = 0,
    page_refcounts = []\<rparr> 0x200000 0x200000"
  have ok: "frames_ok ?k" by (rule memory_init_frames_ok)
  obtain k' where al: "memory_alloc_page ?k = (k', 0x600000)"
    by (simp add: memory_alloc_page_def memory_init_def page_ref_init_def memory_page_init_def Let_def)
  from memory_alloc_page_correct [OF ok al] ok al show ?thesis by (intro exI [of _ ?k] exI [of _ k']) simp
qed

text \<open>The frame allocator serves exactly 512 requests, each with the next frame of the
  area, and then refuses every request: it never hands out a frame twice.\<close>

theorem memory_alloc_page_sequence:
  "snd (memory_alloc_page (((fst \<circ> memory_alloc_page) ^^ n) (memory_init k p sz))) =
     (if n < 512 then 0x600000 + 4096 * of_nat n else 0)"
proof -
  let ?k = "\<lambda>n. ((fst \<circ> memory_alloc_page) ^^ n) (memory_init k p sz)"
  have "page_alloc_end (?k n) = 0x800000 \<and> page_alloc_cur (?k n) = 0x600000 + 4096 * of_nat (min n 512)"
  proof (induction n)
    case 0
    show ?case by (simp add: memory_init_def page_ref_init_def memory_page_init_def)
  next
    case (Suc n)
    show ?case
    proof (cases "n < 512")
      case True
      have "unat (4096 * of_nat n :: u64) = 4096 * n"
        using True by (simp add: unat_word_ariths unat_of_nat_small)
      then have "0x600000 + 4096 * of_nat n < (0x800000 :: u64)"
        using True by (simp add: word_less_nat_alt unat_word_ariths)
      then show ?thesis using Suc True by (simp add: page_simps not_le min_def algebra_simps)
    qed (use Suc in \<open>simp add: page_simps min_def\<close>)
  qed
  moreover have "0x600000 + 4096 * of_nat n < (0x800000 :: u64)" if "n < 512"
  proof -
    have "unat (4096 * of_nat n :: u64) = 4096 * n"
      using that by (simp add: unat_word_ariths unat_of_nat_small)
    then show ?thesis using that by (simp add: word_less_nat_alt unat_word_ariths)
  qed
  ultimately show ?thesis by (cases "n < 512") (simp_all add: page_simps not_le min_def)
qed

text \<open>Counting a reference to a frame changes the count of this frame only, by one; frames
  outside the allocator's area are not counted and always read as unreferenced.\<close>

theorem page_ref_counts:
  assumes "frames_ok k"
  shows "page_ref_get (page_ref_inc k p) q = (if same_frame p q then page_ref_get k q + 1 else page_ref_get k q) \<and>
    page_ref_get (page_ref_dec k p) q =
      (if same_frame p q \<and> page_ref_get k q > 0 then page_ref_get k q - 1 else page_ref_get k q) \<and>
    (\<not> (0x600000 \<le> q \<and> q < 0x800000) \<longrightarrow> page_ref_get (page_ref_inc k p) q = 0)"
  using page_ref_inc_get [OF assms] page_ref_dec_get [OF assms]
  by (auto simp: page_ref_get_outside same_frame_def)

theorem page_ref_counts_witness:
  "page_ref_get (page_ref_inc (memory_init \<lparr>phys = (\<lambda>_. 0), heap_blocks = [], page_alloc_cur = 0,
     page_alloc_end = 0, page_refcounts = []\<rparr> 0x200000 0x200000) 0x601000) 0x601FFF = 1"
proof -
  let ?k = "memory_init \<lparr>phys = (\<lambda>_. 0), heap_blocks = [], page_alloc_cur = 0,
     page_alloc_end = 0, page_refcounts = []\<rparr> 0x200000 0x200000"
  have "page_ref_get ?k 0x601FFF = 0"
    by (simp add: page_simps memory_init_def page_ref_init_def memory_page_init_def)
  then show ?thesis
    using page_ref_counts [OF memory_init_frames_ok, THEN conjunct1, of _ _ _ "0x601000" "0x601FFF"]
    by (simp add: same_frame_def)
qed

text \<open>Adding a demand-paging region fails only when all slots are taken; otherwise an address
  is covered afterwards exactly when it was before or lies in the new region.\<close>

theorem vm_region_add_contains:
  "case vm_region_add rs s e fl of
     None \<Rightarrow> list_all (Not \<circ> vm_unused) rs
   | Some rs' \<Rightarrow> length rs' = length rs \<and>
       (\<forall>addr. vm_region_contains rs' addr \<noteq> None \<longleftrightarrow>
          vm_region_contains rs addr \<noteq> None \<or> s \<le> addr \<and> addr < e)"
proof (cases "vm_region_add rs s e fl")
  case (Some rs')
  then show ?thesis using vm_region_add_covers [OF Some] by (simp only: vm_region_contains_iff option.case) blast
next
  case None
  then have "list_all (Not \<circ> vm_unused) rs" by (simp add: vm_region_add_None list_all_iff)
  with None show ?thesis by simp
qed

theorem vm_region_add_contains_witness:
  "\<exists>rs'. vm_region_add vm_region_init 0x800000 0x900000 6 = Some rs' \<and>
     vm_region_contains rs' 0x8FFFFF \<noteq> None \<and> vm_region_contains rs' 0x900000 = None"
proof -
  have none: "vm_region_contains vm_region_init a = None" for a
    by (simp add: vm_region_init_def MAX_VM_REGIONS_def vm_unused_def numeral_eq_Suc)
  obtain rs' where add: "vm_region_add vm_region_init 0x800000 0x900000 6 = Some rs'"
    by (simp add: vm_region_init_def MAX_VM_REGIONS_def vm_unused_def numeral_eq_Suc)
  from vm_region_add_contains [of vm_region_init "0x800000" "0x900000" 6] add
  have "vm_region_contains rs' a \<noteq> None \<longleftrightarrow> 0x800000 \<le> a \<and> a < 0x900000" for a by (simp add: none)
  from this [of "0x8FFFFF"] this [of "0x900000"] add show ?thesis by simp
qed

text \<open>In every interleaving of users of a spinlock at most one of them holds it.\<close>

theorem spinlock_mutual_exclusion:
  assumes "lock_reachable s" "users s i = Holding" "users s j = Holding"
  shows "i = j"
  using lock_reachable_inv [OF assms(1)] assms(2,3) by (auto simp: lock_inv_def)

theorem spinlock_mutual_exclusion_witness:
  "\<exists>s. lock_reachable s \<and> users s 3 = Holding \<and> (\<forall>j. users s j = Holding \<longrightarrow> 3 = j)"
proof -
  let ?s = "lock_start\<lparr>the_lock := \<lparr>lock = 1\<rparr>, users := (users lock_start)(3 := Holding)\<rparr>"
  have "lock_step lock_start ?s"
    using lock_step.try_acquire [of lock_start 3 "\<lparr>lock = 1\<rparr>" True]
    by (simp add: lock_start_def spinlock_try_acquire_def sync_lock_test_and_set_def spinlock_init_def)
  then have r: "lock_reachable ?s" by (rule lock_reachable.step [OF lock_reachable.start])
  have h: "users ?s 3 = Holding" by simp
  show ?thesis
  proof (intro exI conjI allI impI)
    show "lock_reachable ?s" by (rule r)
    show "users ?s 3 = Holding" by (rule h)
    fix j assume "users ?s j = Holding"
    with r h show "3 = j" by (rule spinlock_mutual_exclusion)
  qed
qed

end
