(* ===== verification/PageTables.thy ===== *)
theory PageTables
  imports Pages
begin

text \<open>
  The page tables of \<^verbatim>\<open>kernel/memory.c\<close> as they lie in physical memory (512 little-endian
  64-bit entries each) and the translation the processor makes from them. \<open>mmu\<close> is the
  specification of the paging operations; \<open>pt_tree\<close> is the shape they keep; the lemmas say
  how adding a table (\<open>pt_extends\<close>) and writing an entry (\<open>entry_write\<close>) act on the
  translation of every address.
\<close>

abbreviation (input) PAGE_PRESENT :: u64 where "PAGE_PRESENT \<equiv> 0x001"
abbreviation (input) PAGE_RW :: u64 where "PAGE_RW \<equiv> 0x002"
abbreviation (input) PAGE_USER :: u64 where "PAGE_USER \<equiv> 0x004"
abbreviation (input) PAGE_HUGE :: u64 where "PAGE_HUGE \<equiv> 0x080"
abbreviation (input) PAGE_COW :: u64 where "PAGE_COW \<equiv> 0x200"
abbreviation (input) PML4_ADDR :: u64 where "PML4_ADDR \<equiv> 0x1000"

definition rd64 :: "memory \<Rightarrow> u64 \<Rightarrow> u64" where
  "rd64 m a = le_word (map (\<lambda>i. m (a + of_nat i)) [0..<8])"

definition wr64 :: "memory \<Rightarrow> u64 \<Rightarrow> u64 \<Rightarrow> memory" where
  "wr64 m a v = (\<lambda>x. if unat (x - a) < 8 then le_bytes 8 v ! unat (x - a) else m x)"

definition pt_index :: "nat \<Rightarrow> u64 \<Rightarrow> nat" where
  "pt_index shift virt = unat (drop_bit shift virt AND 0x1FF)"

definition entry :: "u64 \<Rightarrow> nat \<Rightarrow> u64" where
  "entry t i = t + 8 * of_nat i"

abbreviation tab :: "memory \<Rightarrow> u64 \<Rightarrow> nat \<Rightarrow> u64" where
  "tab m t i \<equiv> rd64 m (entry t i)"

definition set_tab :: "kmem \<Rightarrow> u64 \<Rightarrow> nat \<Rightarrow> u64 \<Rightarrow> kmem" where
  "set_tab k t i v = k\<lparr>phys := wr64 (phys k) (entry t i) v\<rparr>"

definition frame_of :: "u64 \<Rightarrow> u64" where
  "frame_of e = e AND NOT 0xFFF"

definition present :: "u64 \<Rightarrow> bool" where
  "present e \<longleftrightarrow> e AND PAGE_PRESENT \<noteq> 0"

definition huge :: "u64 \<Rightarrow> bool" where
  "huge e \<longleftrightarrow> e AND PAGE_HUGE \<noteq> 0"

subsection \<open>Entries and tables in memory\<close>

definition aligned :: "u64 \<Rightarrow> bool" where
  "aligned t \<longleftrightarrow> take_bit 12 t = 0"

lemma unat_take_bit_12: "unat (take_bit 12 (t :: u64)) = unat t mod 4096"
  by (simp add: take_bit_eq_mod unat_mod)

lemma aligned_dvd: "aligned t \<longleftrightarrow> 4096 dvd unat t"
  by (simp add: aligned_def unat_eq_iff unat_take_bit_12 dvd_eq_mod_eq_0 del: unsigned_take_bit_eq)

lemma mask_12: "(0xFFF :: u64) = mask 12"
  by (simp add: mask_eq_exp_minus_1)

lemma bit_frame_of: "bit (frame_of e) i \<longleftrightarrow> bit e i \<and> 12 \<le> i"
  by (auto simp: frame_of_def mask_12 bit_simps dest: bit_imp_le_length)

lemma bit_low12: "bit (e AND 0xFFF :: u64) i \<longleftrightarrow> bit e i \<and> i < 12"
  by (auto simp: mask_12 bit_simps)

lemma aligned_bit: "aligned t \<Longrightarrow> i < 12 \<Longrightarrow> \<not> bit t i"
  by (metis aligned_def bit_0_eq bit_take_bit_iff bot_apply bot_bool_def)

lemma frame_of_aligned [simp]: "aligned (frame_of e)"
  unfolding aligned_def by (rule bit_word_eqI) (simp add: bit_simps bit_frame_of)

lemma present_bit: "present e \<longleftrightarrow> bit e 0"
  using and_exp_eq_0_iff_not_bit [of e 0] by (simp add: present_def)

lemma huge_bit: "huge e \<longleftrightarrow> bit e 7"
  using and_exp_eq_0_iff_not_bit [of e 7] by (simp add: huge_def)

lemma low12_bit:
  assumes "f < (0x1000 :: u64)" "bit f i"
  shows "i < 12"
proof -
  have "take_bit 12 f = f"
    using assms(1) by (simp add: unat_eq_iff unat_take_bit_12 word_less_nat_alt del: unsigned_take_bit_eq)
  then show ?thesis using assms(2) by (metis bit_take_bit_iff)
qed

lemma frame_of_or:
  assumes "aligned n" "f < 4096"
  shows "frame_of (n OR f) = n"
proof (rule bit_word_eqI)
  fix i
  have "bit f i \<Longrightarrow> i < 12" using low12_bit [OF assms(2)] .
  then show "bit (frame_of (n OR f)) i = bit n i"
    using aligned_bit [OF assms(1), of i] by (cases "i < 12") (auto simp: bit_frame_of bit_simps)
qed

lemma rd64_cong: "(\<And>i. i < 8 \<Longrightarrow> m (a + of_nat i) = m' (a + of_nat i)) \<Longrightarrow> rd64 m a = rd64 m' a"
  unfolding rd64_def by (rule arg_cong [of _ _ le_word], rule map_cong) auto

lemma rd64_wr64_same [simp]: "rd64 (wr64 m a v) a = v"
proof -
  have "map (\<lambda>i. wr64 m a v (a + of_nat i)) [0..<8] = le_bytes 8 v"
    by (rule nth_equalityI) (simp_all add: wr64_def unat_of_nat_small)
  then show ?thesis by (simp add: rd64_def)
qed

lemma unat_aligned_add:
  assumes "2 ^ k dvd unat a" "k \<le> 64" "i < 2 ^ k"
  shows "unat ((a :: u64) + of_nat i) = unat a + i"
proof -
  obtain q where q: "unat a = 2 ^ k * q" using assms(1) by (elim dvdE)
  have "2 ^ k * q < 2 ^ k * 2 ^ (64 - k)"
    using unsigned_less [of a, where ?'a = nat] q assms(2) by (simp flip: power_add)
  then have "Suc q \<le> 2 ^ (64 - k)" by simp
  then have "2 ^ k * Suc q \<le> 2 ^ k * 2 ^ (64 - k)" by (rule mult_le_mono2)
  then have lt: "unat a + i < 2 ^ 64" using q assms(2,3) by (simp flip: power_add)
  then have "unat (of_nat i :: u64) = i" by (intro unat_of_nat_small) simp
  then show ?thesis using lt unat_add_nowrap [of a "of_nat i"] by simp
qed

lemma rd64_wr64_other:
  assumes "8 dvd unat a" "8 dvd unat b" "a \<noteq> b"
  shows "rd64 (wr64 m a v) b = rd64 m b"
proof (rule rd64_cong)
  fix i :: nat assume i: "i < 8"
  have "\<not> unat (b + of_nat i - a) < 8"
  proof
    define j where "j = unat (b + of_nat i - a)"
    assume "unat (b + of_nat i - a) < 8"
    then have j: "j < 8" by (simp add: j_def)
    then have "b + of_nat i = a + of_nat j" by (simp add: word_offset_iff j_def)
    then have "unat b + i = unat a + j"
      using unat_aligned_add [of 3 a j] unat_aligned_add [of 3 b i] assms i j by simp
    then have "unat a = unat b" using assms(1,2) i j by presburger
    then show False using assms(3) by (simp add: unat_eq_iff)
  qed
  then show "wr64 m a v (b + of_nat i) = m (b + of_nat i)" by (simp add: wr64_def)
qed

lemma unat_entry:
  assumes "aligned t" "i < 512"
  shows "unat (entry t i) = unat t + 8 * i"
  using unat_aligned_add [of 12 t "8 * i"] assms by (simp add: entry_def aligned_dvd)

lemma page_offset_eq:
  assumes "4096 dvd (p :: nat)" "4096 dvd q" "a < 4096" "b < 4096"
  shows "p + a = q + b \<longleftrightarrow> p = q \<and> a = b"
proof
  assume eq: "p + a = q + b"
  have "(p + a) div 4096 * 4096 = p" "(q + b) div 4096 * 4096 = q" using assms by auto
  then show "p = q \<and> a = b" using eq by simp
qed simp

lemma entry_eq_iff:
  assumes "aligned t" "aligned t'" "i < 512" "j < 512"
  shows "entry t i = entry t' j \<longleftrightarrow> t = t' \<and> i = j"
  using assms page_offset_eq [of "unat t" "unat t'" "8 * i" "8 * j"]
  by (simp add: unat_eq_iff [of "entry _ _"] unat_entry unat_eq_iff [of t] aligned_dvd)

lemma entry_align8: "aligned t \<Longrightarrow> i < 512 \<Longrightarrow> 8 dvd unat (entry t i)"
  using dvd_trans [of 8 4096 "unat t"] by (simp add: unat_entry aligned_dvd)

lemma tab_set_tab:
  assumes "aligned t" "aligned t'" "i < 512" "j < 512"
  shows "tab (phys (set_tab k t i v)) t' j = (if t = t' \<and> i = j then v else tab (phys k) t' j)"
  using assms rd64_wr64_other [of "entry t i" "entry t' j"]
  by (auto simp: set_tab_def entry_align8 entry_eq_iff)

lemma pt_index_less [simp]: "pt_index sh v < 512"
proof -
  have "drop_bit sh v AND 0x1FF \<le> 0x1FF" by (rule word_and_le1)
  then show ?thesis by (simp add: pt_index_def word_le_nat_alt)
qed

lemma tab_alloc_page:
  assumes "frames_ok k" "memory_alloc_page k = (k', p)" "p \<noteq> 0" "aligned t" "i < 512"
  shows "tab (phys k') t i = (if t = p then 0 else tab (phys k) t i)"
proof -
  note D = memory_alloc_pageD [OF assms(1-3)]
  have "unat (entry t i + of_nat j - p) < 4096 \<longleftrightarrow> t = p" if "j < 8" for j
  proof -
    have eq: "unat (entry t i + of_nat j) = unat t + (8 * i + j)"
      using unat_aligned_add [of 3 "entry t i" j] entry_align8 [OF assms(4,5)] that unat_entry [OF assms(4,5)]
      by simp
    have "unat p \<le> unat t + (8 * i + j) \<and> unat t + (8 * i + j) < unat p + 4096 \<longleftrightarrow> unat t = unat p"
    proof
      assume le: "unat p \<le> unat t + (8 * i + j) \<and> unat t + (8 * i + j) < unat p + 4096"
      then have "unat t + (8 * i + j) - unat p < 4096" by linarith
      then show "unat t = unat p"
        using page_offset_eq [of "unat t" "unat p" "8 * i + j" "unat t + (8 * i + j) - unat p"] le that assms(4,5) D(4)
        by (simp add: aligned_dvd)
    qed (use that assms(5) in simp)
    then show ?thesis using eq D(5) in_page_iff [of p "entry t i + of_nat j"] by (simp add: unat_eq_iff [of t])
  qed
  note in_p = this
  show ?thesis
  proof (cases "t = p")
    case True
    then have "map (\<lambda>j. phys k' (entry t i + of_nat j)) [0..<8] = replicate 8 0"
      using in_p by (intro nth_equalityI) (simp_all add: D(6))
    moreover have "le_word (replicate 8 0) = (0 :: u64)" by (simp add: numeral_eq_Suc)
    ultimately show ?thesis using True by (simp add: rd64_def)
  next
    case False
    then show ?thesis using in_p by (auto intro!: rd64_cong simp: D(6))
  qed
qed

subsection \<open>The processor's translation\<close>

definition ix :: "nat \<Rightarrow> u64 \<Rightarrow> nat" where
  "ix l v = pt_index (12 + 9 * l) v"

text \<open>
  \<open>mmu_walk m l t acc v\<close> translates \<open>v\<close> from the table \<open>t\<close> of level \<open>l\<close>: the physical
  address and the access rights (writable, user), which are the rights all the entries on
  the way grant.
\<close>

primrec mmu_walk :: "memory \<Rightarrow> nat \<Rightarrow> u64 \<Rightarrow> u64 \<Rightarrow> u64 \<Rightarrow> (u64 \<times> u64) option" where
  "mmu_walk m 0 t acc v = Some (t + (v AND 0xFFF), acc)"
| "mmu_walk m (Suc l) t acc v =
     (let e = tab m t (ix l v); acc' = acc AND e AND (PAGE_RW OR PAGE_USER) in
      if \<not> present e then None
      else if huge e \<and> l = 1 then Some ((e AND NOT 0x1FFFFF) + (v AND 0x1FFFFF), acc')
      else if huge e \<and> l = 2 then Some ((e AND NOT 0x3FFFFFFF) + (v AND 0x3FFFFFFF), acc')
      else mmu_walk m l (frame_of e) acc' v)"

definition mmu :: "kmem \<Rightarrow> u64 \<Rightarrow> u64 \<Rightarrow> (u64 \<times> u64) option" where
  "mmu k pml4_phys v = mmu_walk (phys k) 4 pml4_phys (PAGE_RW OR PAGE_USER) v"

text \<open>
  An entry of a table of level \<open>Suc l\<close> is a link when it points to a table of level \<open>l\<close>.
  A tree of page tables assigns every table its level (0 for memory that is no table):
  tables are whole frames that the frame allocator does not hand out, a link leads to a
  table of the next level, and no two links lead to the same table.
\<close>

definition link :: "nat \<Rightarrow> u64 \<Rightarrow> bool" where
  "link l e \<longleftrightarrow> present e \<and> l \<noteq> 0 \<and> \<not> (huge e \<and> l = 1)"

definition pt_tree :: "kmem \<Rightarrow> (u64 \<Rightarrow> nat) \<Rightarrow> bool" where
  "pt_tree k T \<longleftrightarrow>
     (\<forall>t l. T t = Suc l \<longrightarrow> aligned t \<and> \<not> free_frame k t \<and>
        (\<forall>i < 512. link l (tab (phys k) t i) \<longrightarrow>
           T (frame_of (tab (phys k) t i)) = l \<and> (l = 2 \<longrightarrow> \<not> huge (tab (phys k) t i)))) \<and>
     (\<forall>t t' i i' l. T t = Suc l \<longrightarrow> T t' = Suc l \<longrightarrow> i < 512 \<longrightarrow> i' < 512 \<longrightarrow>
        link l (tab (phys k) t i) \<longrightarrow> link l (tab (phys k) t' i') \<longrightarrow>
        frame_of (tab (phys k) t i) = frame_of (tab (phys k) t' i') \<longrightarrow> t = t' \<and> i = i')"

text \<open>
  \<open>pt_extends k T k' T'\<close>: tables were added to the tree, the links that were there are
  untouched, and every translation is what it was. A byte that is neither free nor in a table
  (\<open>data_at\<close>) keeps its value.
\<close>

definition data_at :: "kmem \<Rightarrow> (u64 \<Rightarrow> nat) \<Rightarrow> u64 \<Rightarrow> bool" where
  "data_at k T a \<longleftrightarrow> \<not> free_frame k a \<and> (\<forall>t. T t \<noteq> 0 \<longrightarrow> \<not> unat (a - t) < 4096)"

definition pt_extends :: "kmem \<Rightarrow> (u64 \<Rightarrow> nat) \<Rightarrow> kmem \<Rightarrow> (u64 \<Rightarrow> nat) \<Rightarrow> bool" where
  "pt_extends k T k' T' \<longleftrightarrow> frames_ok k' \<and> pt_tree k' T' \<and> (\<forall>s. T s \<noteq> 0 \<longrightarrow> T' s = T s) \<and>
     (\<forall>a. free_frame k' a \<longrightarrow> free_frame k a) \<and>
     (\<forall>s l j. T s = Suc l \<longrightarrow> j < 512 \<longrightarrow> link l (tab (phys k) s j) \<longrightarrow>
        tab (phys k') s j = tab (phys k) s j) \<and>
     (\<forall>s l acc v. T s = Suc l \<longrightarrow> mmu_walk (phys k') (Suc l) s acc v = mmu_walk (phys k) (Suc l) s acc v) \<and>
     (\<forall>a. data_at k T a \<longrightarrow> data_at k' T' a \<and> phys k' a = phys k a)"

lemma pt_extends_refl: "frames_ok k \<Longrightarrow> pt_tree k T \<Longrightarrow> pt_extends k T k T"
  by (simp add: pt_extends_def)

lemma pt_extends_trans: "pt_extends k T k' T' \<Longrightarrow> pt_extends k' T' k'' T'' \<Longrightarrow> pt_extends k T k'' T''"
  unfolding pt_extends_def by (smt (verit) nat.distinct(1))

lemma pt_extends_data:
  "pt_extends k T k' T' \<Longrightarrow> data_at k T a \<Longrightarrow> data_at k' T' a"
  "pt_extends k T k' T' \<Longrightarrow> data_at k T a \<Longrightarrow> phys k' a = phys k a"
  by (simp_all add: pt_extends_def)

lemma ix_less [simp]: "ix l v < 512"
  by (simp add: ix_def)

lemma pt_treeD:
  assumes "pt_tree k T" "T t = Suc l"
  shows "aligned t" "\<not> free_frame k t"
    and "i < 512 \<Longrightarrow> link l (tab (phys k) t i) \<Longrightarrow> T (frame_of (tab (phys k) t i)) = l"
    and "i < 512 \<Longrightarrow> link l (tab (phys k) t i) \<Longrightarrow> l = 2 \<Longrightarrow> \<not> huge (tab (phys k) t i)"
  using assms unfolding pt_tree_def by blast+

lemma pt_tree_inj:
  assumes "pt_tree k T" "T t = Suc l" "T t' = Suc l" "i < 512" "i' < 512"
    "link l (tab (phys k) t i)" "link l (tab (phys k) t' i')"
    "frame_of (tab (phys k) t i) = frame_of (tab (phys k) t' i')"
  shows "t = t' \<and> i = i'"
  using assms unfolding pt_tree_def by blast

lemma mmu_walk_nolink:
  assumes "\<not> link (Suc l) (tab m t (ix (Suc l) v))" "tab m' t (ix (Suc l) v) = tab m t (ix (Suc l) v)"
  shows "mmu_walk m' (Suc (Suc l)) t acc v = mmu_walk m (Suc (Suc l)) t acc v"
  using assms by (auto simp: link_def mmu_walk.simps(2) [of _ "Suc l"] Let_def simp del: mmu_walk.simps)

text \<open>Replacing an entry that is no link by a link to a new table keeps every translation, if
  the new table translates what the entry did.\<close>

lemma mmu_walk_graft:
  assumes tree: "pt_tree k T"
    and new: "\<And>s j. T s \<noteq> 0 \<Longrightarrow> j < 512 \<Longrightarrow>
      tab m' s j = (if s = t0 \<and> j = i0 then e' else tab (phys k) s j)"
    and same: "\<And>v acc. ix l0 v = i0 \<Longrightarrow> mmu_walk m' (Suc l0) t0 acc v = mmu_walk (phys k) (Suc l0) t0 acc v"
    and T0: "T t0 = Suc l0"
  shows "T s = Suc l \<Longrightarrow> mmu_walk m' (Suc l) s acc v = mmu_walk (phys k) (Suc l) s acc v"
proof (induction l arbitrary: s acc)
  case (0 s acc)
  show ?case
  proof (cases "s = t0 \<and> ix 0 v = i0")
    case True
    then show ?thesis using same [of v acc] 0 T0 by auto
  next
    case False
    then have "tab m' s (ix 0 v) = tab (phys k) s (ix 0 v)" using new [of s "ix 0 v"] 0 by auto
    then show ?thesis by (simp add: Let_def)
  qed
next
  case (Suc l s acc)
  let ?e = "tab (phys k) s (ix (Suc l) v)"
  show ?case
  proof (cases "s = t0 \<and> ix (Suc l) v = i0")
    case True
    then show ?thesis using same [of v acc] Suc.prems T0 by auto
  next
    case False
    then have eq: "tab m' s (ix (Suc l) v) = ?e" using new [of s "ix (Suc l) v"] Suc.prems by auto
    show ?thesis
    proof (cases "link (Suc l) ?e")
      case True
      then have "T (frame_of ?e) = Suc l" using pt_treeD(3) [OF tree Suc.prems] by simp
      then have "mmu_walk m' (Suc l) (frame_of ?e) a v = mmu_walk (phys k) (Suc l) (frame_of ?e) a v" for a
        by (rule Suc.IH)
      then show ?thesis by (simp only: mmu_walk.simps(2) [of _ "Suc l"] eq Let_def)
    next
      case False
      then show ?thesis by (rule mmu_walk_nolink [OF _ eq])
    qed
  qed
qed

lemma pt_tree_graft:
  assumes tree: "pt_tree k T"
    and new: "\<And>s j. T s \<noteq> 0 \<Longrightarrow> j < 512 \<Longrightarrow>
      tab (phys k') s j = (if s = t0 \<and> j = i0 then e' else tab (phys k) s j)"
    and T0: "T t0 = Suc l0" "0 < l0" "i0 < 512" "\<not> link l0 (tab (phys k) t0 i0)"
    and n: "T n = 0" "aligned n" "\<not> free_frame k' n" "frame_of e' = n" "\<not> huge e'"
    and leaves: "\<And>j. j < 512 \<Longrightarrow> \<not> link (l0 - 1) (tab (phys k') n j)"
    and free: "\<And>s. free_frame k' s \<Longrightarrow> free_frame k s"
  shows "pt_tree k' (T(n := l0))"
proof -
  let ?T = "T(n := l0)"
  have t0n: "t0 \<noteq> n" using T0(1) n(1) by auto
  have old: "link l (tab (phys k') s j) \<longleftrightarrow> s = t0 \<and> j = i0 \<and> link l0 e' \<or>
      \<not> (s = t0 \<and> j = i0) \<and> link l (tab (phys k) s j)" if "T s = Suc l" "j < 512" for s j l
    using new [of s j] that T0 by auto
  have lnk: "(s = t0 \<and> j = i0 \<and> l = l0 \<and> frame_of (tab (phys k') s j) = n) \<or>
      (T s = Suc l \<and> \<not> (s = t0 \<and> j = i0) \<and> tab (phys k') s j = tab (phys k) s j \<and>
        T (frame_of (tab (phys k) s j)) = l \<and> l \<noteq> 0 \<and> link l (tab (phys k) s j))"
    if "?T s = Suc l" "j < 512" "link l (tab (phys k') s j)" for s j l
  proof (cases "s = n")
    case True
    then show ?thesis using that leaves [of j] by auto
  next
    case False
    then have s: "T s = Suc l" using that by simp
    show ?thesis
    proof (cases "s = t0 \<and> j = i0")
      case True
      then show ?thesis using new [of s j] s T0 n that by auto
    next
      case no: False
      then have "tab (phys k') s j = tab (phys k) s j" using new [of s j] s that(2) by auto
      then show ?thesis using no s that pt_treeD(3) [OF tree s that(2)] by (auto simp: link_def)
    qed
  qed
  have "aligned s \<and> \<not> free_frame k' s" if "?T s = Suc l" for s l
    using that n free pt_treeD(1,2) [OF tree, of s] by (cases "s = n") auto
  moreover have "?T (frame_of (tab (phys k') s j)) = l \<and> (l = 2 \<longrightarrow> \<not> huge (tab (phys k') s j))"
    if "?T s = Suc l" "j < 512" "link l (tab (phys k') s j)" for s j l
    using lnk [OF that]
  proof (elim disjE)
    assume "s = t0 \<and> j = i0 \<and> l = l0 \<and> frame_of (tab (phys k') s j) = n"
    then show ?thesis using new [of s j] T0 n that(2) by auto
  next
    assume a: "T s = Suc l \<and> \<not> (s = t0 \<and> j = i0) \<and> tab (phys k') s j = tab (phys k) s j \<and>
        T (frame_of (tab (phys k) s j)) = l \<and> l \<noteq> 0 \<and> link l (tab (phys k) s j)"
    then have "frame_of (tab (phys k) s j) \<noteq> n" using n(1) by auto
    then show ?thesis using a pt_treeD(4) [OF tree, of s l j] that by auto
  qed
  moreover have "s = s' \<and> j = j'"
    if l: "?T s = Suc l" "?T s' = Suc l" "j < 512" "j' < 512"
      "link l (tab (phys k') s j)" "link l (tab (phys k') s' j')"
      and eq: "frame_of (tab (phys k') s j) = frame_of (tab (phys k') s' j')" for s s' j j' l
    using lnk [OF l(1,3,5)] lnk [OF l(2,4,6)] eq n(1) pt_tree_inj [OF tree, of s l s' j j'] l(3,4)
    by (elim disjE) auto
  ultimately show ?thesis unfolding pt_tree_def by blast
qed

lemma bit_pte_flags: "bit (1 :: u64) i = (i = 0)" "bit (2 :: u64) i = (i = 1)" "bit (4 :: u64) i = (i = 2)"
  "bit (0x80 :: u64) i = (i = 7)" "bit (0x200 :: u64) i = (i = 9)" "bit (6 :: u64) i = (i = 1 \<or> i = 2)"
proof -
  have *: "bit (2 ^ n :: u64) i = (i = n)" if "n < 64" for n using that by (auto simp: bit_simps)
  show "bit (1 :: u64) i = (i = 0)" "bit (2 :: u64) i = (i = 1)" "bit (4 :: u64) i = (i = 2)"
  "bit (0x80 :: u64) i = (i = 7)" "bit (0x200 :: u64) i = (i = 9)"
    using *[of 0] *[of 1] *[of 2] *[of 7] *[of 9] by simp_all
  have "(6 :: u64) = 2 OR 4" by simp
  then show "bit (6 :: u64) i = (i = 1 \<or> i = 2)"
    using *[of 1] *[of 2] by (simp only: bit_or_iff power_one_right) simp
qed

lemma set_tab_data:
  assumes "aligned t" "i < 512" "\<not> unat (a - t) < 4096"
  shows "phys (set_tab k t i v) a = phys k a"
proof -
  have "\<not> unat (a - entry t i) < 8"
  proof
    assume lt: "unat (a - entry t i) < 8"
    define x where "x = of_nat (8 * i) + (a - entry t i)"
    have "unat (of_nat (8 * i) :: u64) = 8 * i" using assms(2) by (intro unat_of_nat_small) simp
    then have "unat x = 8 * i + unat (a - entry t i)"
      unfolding x_def using lt assms(2) by (simp only: unat_word_ariths) simp
    moreover have "x = a - t" by (simp add: x_def entry_def)
    ultimately show False using lt assms(2,3) by simp
  qed
  then show ?thesis by (simp add: set_tab_def wr64_def)
qed

lemma set_tab_simps [simp]:
  "page_alloc_cur (set_tab k t i v) = page_alloc_cur k" "page_alloc_end (set_tab k t i v) = page_alloc_end k"
  "page_refcounts (set_tab k t i v) = page_refcounts k"
  "frames_ok (set_tab k t i v) = frames_ok k" "free_frame (set_tab k t i v) = free_frame k"
  by (simp_all add: set_tab_def frames_ok_def free_frame_def fun_eq_iff)

lemma zero_entry [simp]: "\<not> present 0" "\<not> link l 0"
  by (simp_all add: present_def link_def)

lemma alloc_page_tree:
  assumes "frames_ok k" "pt_tree k T" "memory_alloc_page k = (k', n)" "n \<noteq> 0"
  shows "T n = 0" "aligned n" "\<not> free_frame k' n" "frames_ok k'"
    and "\<And>s. free_frame k' s \<Longrightarrow> free_frame k s"
    and "\<And>s j. T s \<noteq> 0 \<Longrightarrow> j < 512 \<Longrightarrow> tab (phys k') s j = tab (phys k) s j"
    and "\<And>j. j < 512 \<Longrightarrow> tab (phys k') n j = 0"
proof -
  note D = memory_alloc_pageD [OF assms(1,3,4)]
  show Tn: "T n = 0" using pt_treeD(2) [OF assms(2), of n] D by (cases "T n") auto
  show al: "aligned n" using D by (simp add: aligned_dvd)
  show "\<not> free_frame k' n" using D by simp
  show "frames_ok k'" using memory_alloc_page_frames_ok [OF assms(1)] assms(3) by simp
  show "\<And>s. free_frame k' s \<Longrightarrow> free_frame k s" using D by simp
  show "tab (phys k') s j = tab (phys k) s j" if "T s \<noteq> 0" "j < 512" for s j
  proof -
    obtain l where "T s = Suc l" using \<open>T s \<noteq> 0\<close> by (cases "T s") auto
    then show ?thesis
      using tab_alloc_page [OF assms(1,3,4) _ that(2)] pt_treeD(1) [OF assms(2)] Tn by auto
  qed
  show "\<And>j. j < 512 \<Longrightarrow> tab (phys k') n j = 0" using tab_alloc_page [OF assms(1,3,4) al] by simp
qed

lemma memory_alloc_page_zero:
  "frames_ok k \<Longrightarrow> memory_alloc_page k = (k', 0) \<Longrightarrow> k' = k \<and> page_alloc_end k \<le> page_alloc_cur k"
  by (cases "page_alloc_end k \<le> page_alloc_cur k") (auto simp: page_simps frames_ok_def word_le_nat_alt)

lemma alloc_page_data:
  assumes "frames_ok k" "memory_alloc_page k = (k', n)" "n \<noteq> 0" "\<not> free_frame k a"
  shows "phys k' a = phys k a" "\<not> unat (a - n) < 4096"
proof -
  note D = memory_alloc_pageD [OF assms(1-3)]
  show "\<not> unat (a - n) < 4096"
    using assms(1,4) D(1,2,5) in_page_iff [of n a]
    by (auto simp: free_frame_def frames_ok_def word_le_nat_alt word_less_nat_alt)
  then show "phys k' a = phys k a" using D(6) by simp
qed

lemma pt_extends_alloc:
  assumes "frames_ok k" "pt_tree k T" "memory_alloc_page k = (k', n)"
  shows "pt_extends k T k' T"
proof (cases "n = 0")
  case True
  then have "k' = k" using memory_alloc_page_zero [OF assms(1), of k'] assms(3) by simp
  then show ?thesis using assms by (simp add: pt_extends_refl)
next
  case False
  note A = alloc_page_tree [OF assms False]
  have tabs: "tab (phys k') s j = tab (phys k) s j" if "T s = Suc l" "j < 512" for s l j
    using A(6) [of s j] that by simp
  have walk: "mmu_walk (phys k') (Suc l) s acc v = mmu_walk (phys k) (Suc l) s acc v" if "T s = Suc l" for s l acc v
    using mmu_walk_graft [OF assms(2), of "phys k'" s 512 0 l] that tabs A(6)
    by (metis ix_less less_irrefl)
  have "pt_tree k' T"
    using assms(2) A(5) tabs unfolding pt_tree_def by (smt (verit))
  moreover have "data_at k' T a \<and> phys k' a = phys k a" if "data_at k T a" for a
    using that alloc_page_data [OF assms(1,3) False, of a] A(5) by (auto simp: data_at_def)
  ultimately show ?thesis unfolding pt_extends_def using A(4,5) walk tabs by blast
qed

text \<open>A fresh table under an entry that was not present.\<close>

lemma pt_extends_fresh:
  assumes ok: "frames_ok k" and tree: "pt_tree k T" and T0: "T t = Suc l" "0 < l" "i < 512"
    and np: "\<not> present (tab (phys k) t i)"
    and al: "memory_alloc_page k = (k1, n)" "n \<noteq> 0"
    and fl: "f < 4096" "present f" "\<not> huge f"
  shows "pt_extends k T (set_tab k1 t i (n OR f)) (T(n := l))"
    and "tab (phys (set_tab k1 t i (n OR f))) t i = n OR f"
    and "frame_of (n OR f) = n" and "link l (n OR f)"
proof -
  note A = alloc_page_tree [OF ok tree al]
  let ?k = "set_tab k1 t i (n OR f)"
  have at: "aligned t" using pt_treeD(1) [OF tree T0(1)] .
  have tn: "t \<noteq> n" using T0(1) A(1) by auto
  show fr: "frame_of (n OR f) = n" using frame_of_or [OF A(2) fl(1)] .
  have pr: "present (n OR f)" "\<not> huge (n OR f)"
    using fl aligned_bit [OF A(2), of 7] by (simp_all add: present_bit huge_bit bit_simps)
  then show "link l (n OR f)" using T0 by (simp add: link_def)
  have tabs: "tab (phys ?k) s j = (if s = t \<and> j = i then n OR f else tab (phys k) s j)"
    if "T s \<noteq> 0" "j < 512" for s j
  proof -
    have "aligned s" using that(1) pt_treeD(1) [OF tree, of s] by (cases "T s") auto
    then show ?thesis using tab_set_tab [OF at _ T0(3) that(2)] A(6) [OF that] by auto
  qed
  then show "tab (phys ?k) t i = n OR f" using T0 by simp
  have zero: "tab (phys ?k) n j = 0" if "j < 512" for j
    using tab_set_tab [OF at A(2) T0(3) that, of k1] tn A(7) [OF that] by auto
  have same: "mmu_walk (phys ?k) (Suc l) t acc v = mmu_walk (phys k) (Suc l) t acc v"
    if "ix l v = i" for acc v
  proof -
    obtain l' where l: "l = Suc l'" using T0(2) by (cases l) auto
    have "mmu_walk (phys ?k) (Suc l') n a v = None" for a
      using zero [OF ix_less] by (simp add: Let_def)
    then have "mmu_walk (phys ?k) (Suc l) t acc v = None"
      using tabs [of t i] T0 that pr fr by (simp add: l del: mmu_walk.simps(2)) 
       (simp add: mmu_walk.simps(2) [of _ "Suc _"] Let_def that del: mmu_walk.simps)
    moreover have "mmu_walk (phys k) (Suc l) t acc v = None" using np that by (simp add: Let_def)
    ultimately show ?thesis by simp
  qed
  have walk: "mmu_walk (phys ?k) (Suc l') s acc v = mmu_walk (phys k) (Suc l') s acc v" if "T s = Suc l'" for s l' acc v
    by (rule mmu_walk_graft [OF tree tabs same T0(1) that])
  have "pt_tree ?k (T(n := l))"
    by (rule pt_tree_graft [OF tree tabs T0 _ A(1,2) _ fr pr(2)]) (use np A zero in \<open>auto simp: link_def\<close>)
  moreover have "data_at ?k (T(n := l)) a \<and> phys ?k a = phys k a" if "data_at k T a" for a
    using that alloc_page_data [OF ok al, of a] A(5) set_tab_data [OF at T0(3), of a k1] T0(1) by (auto simp: data_at_def)
  ultimately show "pt_extends k T ?k (T(n := l))"
    unfolding pt_extends_def using A(1,4,5) walk tabs np by (auto simp: link_def)
qed

subsection \<open>Following the links\<close>

lemma pt_extends_link:
  "pt_extends k T k' T' \<Longrightarrow> T s = Suc l \<Longrightarrow> j < 512 \<Longrightarrow> link l (tab (phys k) s j) \<Longrightarrow>
     tab (phys k') s j = tab (phys k) s j"
  unfolding pt_extends_def by blast

text \<open>\<open>table_at m b l t v\<close> follows the links for \<open>v\<close> from the table \<open>t\<close> of level
  \<open>Suc (b + l)\<close> down to a table of level \<open>Suc b\<close>.\<close>

primrec table_at :: "memory \<Rightarrow> nat \<Rightarrow> nat \<Rightarrow> u64 \<Rightarrow> u64 \<Rightarrow> u64 option" where
  "table_at m b 0 t v = Some t"
| "table_at m b (Suc l) t v =
     (let e = tab m t (ix (Suc (b + l)) v) in
      if link (Suc (b + l)) e then table_at m b l (frame_of e) v else None)"

lemma table_at_level:
  assumes "pt_tree k T"
  shows "T s = Suc (b + l) \<Longrightarrow> table_at (phys k) b l s v = Some t \<Longrightarrow> T t = Suc b"
proof (induction l arbitrary: s)
  case (Suc l)
  let ?e = "tab (phys k) s (ix (Suc (b + l)) v)"
  have "link (Suc (b + l)) ?e" and t: "table_at (phys k) b l (frame_of ?e) v = Some t"
    using Suc.prems(2) by (auto simp: Let_def split: if_splits)
  then have "T (frame_of ?e) = Suc (b + l)" using pt_treeD(3) [OF assms, of s "Suc (b + l)"] Suc.prems(1) by simp
  then show ?case using t by (rule Suc.IH)
qed simp

lemma table_at_inj:
  assumes "pt_tree k T"
  shows "T s = Suc (b + l) \<Longrightarrow> T s' = Suc (b + l) \<Longrightarrow> table_at (phys k) b l s v = Some t \<Longrightarrow>
    table_at (phys k) b l s' v' = Some t \<Longrightarrow> s = s' \<and> (\<forall>j. b < j \<and> j \<le> b + l \<longrightarrow> ix j v = ix j v')"
proof (induction l arbitrary: s s')
  case (Suc l)
  let ?e = "tab (phys k) s (ix (Suc (b + l)) v)" and ?e' = "tab (phys k) s' (ix (Suc (b + l)) v')"
  have L: "link (Suc (b + l)) ?e" "link (Suc (b + l)) ?e'"
    "table_at (phys k) b l (frame_of ?e) v = Some t" "table_at (phys k) b l (frame_of ?e') v' = Some t"
    using Suc.prems(3,4) by (auto simp: Let_def split: if_splits)
  have T: "T s = Suc (Suc (b + l))" "T s' = Suc (Suc (b + l))" using Suc.prems(1,2) by simp_all
  then have "T (frame_of ?e) = Suc (b + l)" "T (frame_of ?e') = Suc (b + l)"
    using L pt_treeD(3) [OF assms T(1)] pt_treeD(3) [OF assms T(2)] by auto
  from Suc.IH [OF this L(3,4)]
  have *: "frame_of ?e = frame_of ?e'" "\<forall>j. b < j \<and> j \<le> b + l \<longrightarrow> ix j v = ix j v'" by auto
  then show ?case using pt_tree_inj [OF assms T ix_less ix_less L(1,2)] by (auto simp: le_Suc_eq)
qed simp

subsection \<open>Writing an entry\<close>

primrec path_rights :: "memory \<Rightarrow> nat \<Rightarrow> nat \<Rightarrow> u64 \<Rightarrow> u64 \<Rightarrow> u64 \<Rightarrow> u64" where
  "path_rights m b 0 t acc v = acc"
| "path_rights m b (Suc l) t acc v =
     (let e = tab m t (ix (Suc (b + l)) v) in
      path_rights m b l (frame_of e) (acc AND e AND (PAGE_RW OR PAGE_USER)) v)"

lemma mmu_walk_link:
  assumes "pt_tree k T" "T s = Suc l" "link l (tab (phys k) s (ix l v))"
  shows "mmu_walk (phys k) (Suc l) s acc v =
    mmu_walk (phys k) l (frame_of (tab (phys k) s (ix l v)))
      (acc AND tab (phys k) s (ix l v) AND (PAGE_RW OR PAGE_USER)) v"
  using assms(3) pt_treeD(4) [OF assms(1,2) ix_less assms(3)]
  by (auto simp add: link_def Let_def mmu_walk.simps(2) [of _ l] simp del: mmu_walk.simps)

lemma mmu_walk_at:
  assumes "pt_tree k T"
  shows "T s = Suc (b + l) \<Longrightarrow> table_at (phys k) b l s v = Some t \<Longrightarrow>
    mmu_walk (phys k) (Suc (b + l)) s acc v = mmu_walk (phys k) (Suc b) t (path_rights (phys k) b l s acc v) v"
proof (induction l arbitrary: s acc)
  case (Suc l)
  let ?e = "tab (phys k) s (ix (Suc (b + l)) v)"
  have L: "link (Suc (b + l)) ?e" "table_at (phys k) b l (frame_of ?e) v = Some t"
    using Suc.prems(2) by (auto simp: Let_def split: if_splits)
  have T: "T s = Suc (Suc (b + l))" using Suc.prems(1) by simp
  then have "T (frame_of ?e) = Suc (b + l)" using L pt_treeD(3) [OF assms T] by auto
  from Suc.IH [OF this L(2)] mmu_walk_link [OF assms T, of v acc] L(1)
  show ?case by (simp add: Let_def del: mmu_walk.simps)
qed simp

text \<open>Writing an entry \<open>e\<close>, which is no link, to place \<open>i\<close> of the table \<open>t\<close> of level \<open>Suc b\<close>.\<close>

definition entry_write :: "kmem \<Rightarrow> (u64 \<Rightarrow> nat) \<Rightarrow> nat \<Rightarrow> u64 \<Rightarrow> nat \<Rightarrow> u64 \<Rightarrow> kmem \<Rightarrow> bool" where
  "entry_write k T b t i e k' \<longleftrightarrow>
     pt_tree k T \<and> T t = Suc b \<and> i < 512 \<and> \<not> link b e \<and> k' = set_tab k t i e"

lemma entry_writeD:
  assumes "entry_write k T b t i e k'"
  shows "pt_tree k T" "T t = Suc b" "i < 512" "\<not> link b e" "k' = set_tab k t i e"
  using assms by (simp_all add: entry_write_def)

lemma tabs:
  assumes W: "entry_write k T b t i e k'" and "T s \<noteq> 0" "j < 512"
  shows "tab (phys k') s j = (if s = t \<and> j = i then e else tab (phys k) s j)"
proof -
  note tree = entry_writeD(1) [OF W] and level = entry_writeD(2) [OF W]
  have "aligned s" using assms(2) pt_treeD(1) [OF tree, of s] by (cases "T s") auto
  then show ?thesis
    using tab_set_tab [OF pt_treeD(1) [OF tree level] _ entry_writeD(3) [OF W] assms(3)] entry_writeD(5) [OF W] by auto
qed

lemma tree':
  assumes W: "entry_write k T b t i e k'"
  shows "pt_tree k' T"
proof -
  note tree = entry_writeD(1) [OF W] and level = entry_writeD(2) [OF W] and nolink = entry_writeD(4) [OF W]
    and k' = entry_writeD(5) [OF W]
  have *: "link l (tab (phys k') s j) \<Longrightarrow> \<not> (s = t \<and> j = i) \<and> tab (phys k') s j = tab (phys k) s j"
    if "T s = Suc l" "j < 512" for s l j
    using tabs [OF W, of s j] that nolink level by auto
  show ?thesis
    unfolding pt_tree_def using pt_treeD [OF tree] pt_tree_inj [OF tree] * k' by (smt (verit) set_tab_simps(5))
qed

lemma walk_below:
  assumes tree: "pt_tree k T"
    and "\<And>s j. T s \<noteq> 0 \<Longrightarrow> T s \<le> Suc l \<Longrightarrow> j < 512 \<Longrightarrow> tab m' s j = tab (phys k) s j"
  shows "T s = Suc l \<Longrightarrow> mmu_walk m' (Suc l) s acc v = mmu_walk (phys k) (Suc l) s acc v"
  using assms(2)
proof (induction l arbitrary: s acc)
  case 0
  then show ?case by (simp add: Let_def)
next
  case (Suc l)
  let ?e = "tab (phys k) s (ix (Suc l) v)"
  have eq: "tab m' s (ix (Suc l) v) = ?e" using Suc.prems by simp
  show ?case
  proof (cases "link (Suc l) ?e")
    case True
    then have "T (frame_of ?e) = Suc l" using pt_treeD(3) [OF tree Suc.prems(1)] by simp
    then have "mmu_walk m' (Suc l) (frame_of ?e) a v = mmu_walk (phys k) (Suc l) (frame_of ?e) a v" for a
      using Suc.IH Suc.prems(2) by simp
    then show ?thesis by (simp only: mmu_walk.simps(2) [of _ "Suc l"] eq Let_def)
  next
    case False
    then show ?thesis by (rule mmu_walk_nolink [OF _ eq])
  qed
qed

lemma walk_other:
  assumes W: "entry_write k T b t i e k'"
  shows "T s = Suc (b + l) \<Longrightarrow> \<not> (table_at (phys k) b l s v = Some t \<and> ix b v = i) \<Longrightarrow>
     mmu_walk (phys k') (Suc (b + l)) s acc v = mmu_walk (phys k) (Suc (b + l)) s acc v"
proof (induction l arbitrary: s acc)
  note tree = entry_writeD(1) [OF W] and level = entry_writeD(2) [OF W]
  case 0
  then have eq: "tab (phys k') s (ix b v) = tab (phys k) s (ix b v)" using tabs [OF W, of s "ix b v"] by auto
  show ?case
  proof (cases b)
    case 0
    then show ?thesis using eq by (simp add: Let_def)
  next
    case (Suc b')
    have below: "tab (phys k') s j = tab (phys k) s j" if "T s \<noteq> 0" "T s \<le> b" "j < 512" for s j
      using tabs [OF W, of s j] that level by auto
    have T: "T s = Suc (Suc b')" using 0 Suc by simp
    show ?thesis
    proof (cases "link b (tab (phys k) s (ix b v))")
      case True
      then have "T (frame_of (tab (phys k) s (ix b v))) = Suc b'" using pt_treeD(3) [OF tree T] Suc by simp
      then have "mmu_walk (phys k') (Suc b') (frame_of (tab (phys k) s (ix b v))) a v =
          mmu_walk (phys k) (Suc b') (frame_of (tab (phys k) s (ix b v))) a v" for a
        using walk_below [OF tree, of b' "phys k'"] below Suc by blast
      then show ?thesis using eq Suc by (simp only: mmu_walk.simps(2) [of _ "Suc b'"] Let_def add_0_right)
    next
      case False
      then show ?thesis using mmu_walk_nolink [of b' "phys k" s v "phys k'"] eq Suc by simp
    qed
  qed
next
  note tree = entry_writeD(1) [OF W] and level = entry_writeD(2) [OF W]
  case (Suc l)
  let ?e = "tab (phys k) s (ix (Suc (b + l)) v)"
  have "s \<noteq> t" using Suc.prems(1) level by auto
  then have eq: "tab (phys k') s (ix (Suc (b + l)) v) = ?e" using Suc.prems tabs [OF W, of s] by simp
  have T: "T s = Suc (Suc (b + l))" using Suc.prems by simp
  show ?case
  proof (cases "link (Suc (b + l)) ?e")
    case True
    then have "T (frame_of ?e) = Suc (b + l)" using pt_treeD(3) [OF tree T] by simp
    moreover have "\<not> (table_at (phys k) b l (frame_of ?e) v = Some t \<and> ix b v = i)"
      using Suc.prems(2) True by (simp add: Let_def)
    ultimately have "mmu_walk (phys k') (Suc (b + l)) (frame_of ?e) a v = mmu_walk (phys k) (Suc (b + l)) (frame_of ?e) a v" for a
      by (rule Suc.IH)
    then show ?thesis using eq by (simp only: mmu_walk.simps(2) [of _ "Suc (b + l)"] Let_def add_Suc_right)
  next
    case False
    then show ?thesis using mmu_walk_nolink [OF False eq] by simp
  qed
qed

lemma table_at_same:
  assumes W: "entry_write k T b t i e k'"
  shows "T s = Suc (b + l) \<Longrightarrow> table_at (phys k') b l s v = table_at (phys k) b l s v \<and>
    (table_at (phys k) b l s v = Some t \<longrightarrow> path_rights (phys k') b l s acc v = path_rights (phys k) b l s acc v)"
proof (induction l arbitrary: s acc)
  case (Suc l)
  let ?e = "tab (phys k) s (ix (Suc (b + l)) v)"
  have T: "T s = Suc (Suc (b + l))" using Suc.prems by simp
  then have "s \<noteq> t" using entry_writeD(2) [OF W] by auto
  then have eq: "tab (phys k') s (ix (Suc (b + l)) v) = ?e" using T tabs [OF W, of s] by simp
  show ?case
    using Suc.IH [of "frame_of ?e"] eq pt_treeD(3) [OF entry_writeD(1) [OF W] T ix_less [of _ v]] by (auto simp: Let_def)
qed simp

lemma walk_here:
  assumes W: "entry_write k T b t i e k'"
    and "T s = Suc (b + l)" "table_at (phys k) b l s v = Some t" "ix b v = i"
  shows "mmu_walk (phys k') (Suc (b + l)) s acc v = mmu_walk (phys k') (Suc b) t (path_rights (phys k) b l s acc v) v"
    and "tab (phys k') t (ix b v) = e"
  using mmu_walk_at [OF tree' [OF W] assms(2)] table_at_same [OF W assms(2)] assms(3,4)
    tabs [OF W, of t i] entry_writeD(2,3) [OF W] by auto

definition same_page :: "u64 \<Rightarrow> u64 \<Rightarrow> bool" where
  "same_page v w \<longleftrightarrow> take_bit 36 (drop_bit 12 v) = take_bit 36 (drop_bit 12 w)"

definition same_2mb :: "u64 \<Rightarrow> u64 \<Rightarrow> bool" where
  "same_2mb v w \<longleftrightarrow> take_bit 27 (drop_bit 21 v) = take_bit 27 (drop_bit 21 w)"

lemma ix_take_bit: "ix l v = unat (take_bit 9 (drop_bit (12 + 9 * l) v))"
proof -
  have "(0x1FF :: u64) = mask 9" by (simp add: mask_eq_exp_minus_1)
  then show ?thesis by (simp only: ix_def pt_index_def take_bit_eq_mask)
qed

lemma take_drop_eq_iff:
  assumes "a + c \<le> 64"
  shows "take_bit c (drop_bit a v) = take_bit c (drop_bit a (w :: u64)) \<longleftrightarrow>
    (\<forall>n < c. bit v (a + n) = bit w (a + n))" (is "?l = ?r \<longleftrightarrow> _")
proof
  assume eq: "?l = ?r"
  show "\<forall>n < c. bit v (a + n) = bit w (a + n)"
  proof (intro allI impI)
    fix n assume "n < c"
    moreover have "bit ?l n = bit ?r n" using eq by simp
    ultimately show "bit v (a + n) = bit w (a + n)" by (simp add: bit_take_bit_iff bit_drop_bit_eq)
  qed
next
  assume "\<forall>n < c. bit v (a + n) = bit w (a + n)"
  then show "?l = ?r" by (intro bit_word_eqI) (auto simp: bit_take_bit_iff bit_drop_bit_eq)
qed

lemma ix_eq_iff:
  "l < 5 \<Longrightarrow> ix l v = ix l w \<longleftrightarrow> (\<forall>n<9. bit v (12 + 9 * l + n) = bit w (12 + 9 * l + n))"
  unfolding ix_take_bit word_unat_eq_iff [symmetric] by (rule take_drop_eq_iff) simp

lemma same_bits_iff:
  assumes "a + c \<le> 5"
  shows "take_bit (9 * c) (drop_bit (12 + 9 * a) v) = take_bit (9 * c) (drop_bit (12 + 9 * a) (w :: u64)) \<longleftrightarrow>
    (\<forall>l. a \<le> l \<and> l < a + c \<longrightarrow> ix l v = ix l w)"
proof -
  have "take_bit (9 * c) (drop_bit (12 + 9 * a) v) = take_bit (9 * c) (drop_bit (12 + 9 * a) w) \<longleftrightarrow>
      (\<forall>n < 9 * c. bit v (12 + 9 * a + n) = bit w (12 + 9 * a + n))"
    by (rule take_drop_eq_iff) (use assms in simp)
  also have "\<dots> \<longleftrightarrow> (\<forall>l. a \<le> l \<and> l < a + c \<longrightarrow> ix l v = ix l w)" (is "?L = ?R")
  proof
    assume L: ?L
    show ?R
    proof (intro allI impI)
      fix l assume l: "a \<le> l \<and> l < a + c"
      have "bit v (12 + 9 * l + n) = bit w (12 + 9 * l + n)" if "n < 9" for n
      proof -
        have "9 * (l - a) + n < 9 * c" using l that by auto
        moreover have "12 + 9 * a + (9 * (l - a) + n) = 12 + 9 * l + n" using l by auto
        ultimately show ?thesis using L [rule_format, of "9 * (l - a) + n"] by metis
      qed
      then show "ix l v = ix l w" using l assms by (simp add: ix_eq_iff)
    qed
  next
    assume R: ?R
    show ?L
    proof (intro allI impI)
      fix n assume n: "n < 9 * c"
      then have d: "n div 9 < c" by (simp add: div_less_iff_less_mult mult.commute)
      then have "ix (a + n div 9) v = ix (a + n div 9) w" using R by simp
      then have "bit v (12 + 9 * (a + n div 9) + n mod 9) = bit w (12 + 9 * (a + n div 9) + n mod 9)"
        by (rule ix_eq_iff [THEN iffD1, rule_format, rotated]) (use assms d in simp_all)
      moreover have "12 + 9 * (a + n div 9) + n mod 9 = 12 + 9 * a + n" by simp
      ultimately show "bit v (12 + 9 * a + n) = bit w (12 + 9 * a + n)" by metis
    qed
  qed
  finally show ?thesis .
qed

lemma same_page_refl [simp]: "same_page v v"
  by (simp add: same_page_def)

lemma same_page_iff: "same_page v w \<longleftrightarrow> (\<forall>l < 4. ix l v = ix l w)"
  using same_bits_iff [of 0 4 v w] by (simp add: same_page_def)

lemma same_2mb_iff: "same_2mb v w \<longleftrightarrow> (\<forall>l. 0 < l \<and> l < 4 \<longrightarrow> ix l v = ix l w)"
  using same_bits_iff [of 1 3 v w] by (simp add: same_2mb_def Suc_le_eq)

text \<open>Writing the entry that maps a page, in a page table or a page directory.\<close>

lemma entry_write_page:
  assumes W: "entry_write k T 0 t (ix 0 v) e k'" and c: "T c = 4" "table_at (phys k) 0 3 c v = Some t"
  shows "mmu k' c v = (if present e then Some (frame_of e + (v AND 0xFFF),
      path_rights (phys k) 0 3 c (PAGE_RW OR PAGE_USER) v AND e AND (PAGE_RW OR PAGE_USER)) else None)"
    and "\<not> same_page v w \<Longrightarrow> mmu k' c w = mmu k c w"
proof -
  have c4: "T c = Suc (0 + 3)" using c by simp
  show "mmu k' c v = (if present e then Some (frame_of e + (v AND 0xFFF),
      path_rights (phys k) 0 3 c (PAGE_RW OR PAGE_USER) v AND e AND (PAGE_RW OR PAGE_USER)) else None)"
    using walk_here [OF W c4 c(2) refl]
    by (simp add: mmu_def Let_def mmu_walk.simps(2) [of _ 0] del: mmu_walk.simps(2))
  assume "\<not> same_page v w"
  then have "\<not> (table_at (phys k) 0 3 c w = Some t \<and> ix 0 w = ix 0 v)"
    using table_at_inj [OF entry_writeD(1) [OF W] c4 c4 c(2)] by (auto simp: same_page_iff less_Suc_eq numeral_eq_Suc)
  then show "mmu k' c w = mmu k c w"
    using walk_other [OF W c4] by (simp add: mmu_def del: mmu_walk.simps(2))
qed

lemma mmu_extends: "pt_extends k T k' T' \<Longrightarrow> T c = 4 \<Longrightarrow> mmu k' c v = mmu k c v"
  unfolding mmu_def pt_extends_def by (metis Suc_numeral semiring_norm(2) semiring_norm(8))

lemma table_at_cong:
  "(\<And>j. b < j \<Longrightarrow> j \<le> b + l \<Longrightarrow> ix j v = ix j w) \<Longrightarrow> table_at m b l s v = table_at m b l s w"
  by (induction l arbitrary: s) (simp_all add: Let_def)

lemma mmu_walk_nowhere:
  assumes "pt_tree k T" "0 < b"
  shows "T s = Suc (b + l) \<Longrightarrow> table_at (phys k) b l s v = None \<Longrightarrow> mmu_walk (phys k) (Suc (b + l)) s acc v = None"
proof (induction l arbitrary: s acc)
  case (Suc l)
  let ?e = "tab (phys k) s (ix (Suc (b + l)) v)"
  have T: "T s = Suc (Suc (b + l))" using Suc.prems by simp
  show ?case
  proof (cases "link (Suc (b + l)) ?e")
    case True
    then have "table_at (phys k) b l (frame_of ?e) v = None" using Suc.prems by (simp add: Let_def)
    moreover have "T (frame_of ?e) = Suc (b + l)" using True pt_treeD(3) [OF assms(1) T] by simp
    ultimately show ?thesis using Suc.IH mmu_walk_link [OF assms(1) T True] by (simp del: mmu_walk.simps)
  next
    case False
    then have "\<not> present ?e" using assms(2) by (simp add: link_def)
    then show ?thesis by (simp add: Let_def mmu_walk.simps(2) [of _ "Suc (b + l)"] del: mmu_walk.simps)
  qed
qed simp

lemma mmu_4: "mmu k c v = mmu_walk (phys k) (Suc (1 + 2)) c (PAGE_RW OR PAGE_USER) v"
  by (simp add: mmu_def numeral_eq_Suc)

lemma entry_write_2mb:
  assumes W: "entry_write k T 1 t (ix 1 v) e k'" and c: "T c = 4" "table_at (phys k) 1 2 c v = Some t"
    and e: "present e \<Longrightarrow> huge e"
  shows "same_2mb v w \<Longrightarrow> map_option fst (mmu k' c w) =
      (if present e then Some ((e AND NOT 0x1FFFFF) + (w AND 0x1FFFFF)) else None)"
    and "\<not> same_2mb v w \<Longrightarrow> mmu k' c w = mmu k c w"
proof -
  have c4: "T c = Suc (1 + 2)" using c by simp
  show "map_option fst (mmu k' c w) = (if present e then Some ((e AND NOT 0x1FFFFF) + (w AND 0x1FFFFF)) else None)"
    if "same_2mb v w"
  proof -
    have ix: "ix l v = ix l w" if "0 < l" "l < 4" for l using \<open>same_2mb v w\<close> that by (simp add: same_2mb_iff)
    then have "table_at (phys k) 1 2 c w = Some t"
      using c(2) table_at_cong [of 1 2 v w] ix by simp
    note H = walk_here [OF W c4 this]
    have "tab (phys k') t (ix 1 w) = e" using H(2) ix [of 1] by simp
    then have "map_option fst (mmu_walk (phys k') (Suc 1) t a w) =
        (if present e then Some ((e AND NOT 0x1FFFFF) + (w AND 0x1FFFFF)) else None)" for a
      using e by (simp add: Let_def mmu_walk.simps(2) [of _ "Suc 0"] del: mmu_walk.simps(2))
    then show ?thesis using H(1) ix [of 1] by (simp only: mmu_4 [of _ _ w])
  qed
  assume "\<not> same_2mb v w"
  then have "\<not> (table_at (phys k) 1 2 c w = Some t \<and> ix 1 w = ix 1 v)"
    using table_at_inj [OF entry_writeD(1) [OF W] c4 c4 c(2)]
    by (auto simp: same_2mb_iff) (metis One_nat_def Suc_1 Suc_lessI less_Suc_eq_le numeral_3_eq_3 numeral_nat(2) Suc_numeral semiring_norm(2) semiring_norm(8))
  then show "mmu k' c w = mmu k c w"
    unfolding mmu_4 by (rule walk_other [OF W c4])
qed

end
