(* ===== verification/Paging.thy ===== *)
theory Paging
  imports PageTables
begin

text \<open>
  The paging operations of \<^verbatim>\<open>kernel/memory.c\<close>: the walk that finds or builds the path to
  a page table entry, mapping and unmapping. Their effect is stated on the translation
  \<open>mmu\<close>. \<^verbatim>\<open>invlpg\<close> and the load of \<^verbatim>\<open>cr3\<close> act on the translation cache only
  and have no counterpart here.
\<close>

text \<open>
  One step down the upper levels, as \<^verbatim>\<open>paging_walk_4kb\<close> and \<^verbatim>\<open>paging_map_2mb\<close> do
  it twice each: take the table the entry points to, or make one if there is none and
  the caller asks for it.
\<close>

definition pt_next :: "kmem \<Rightarrow> u64 \<Rightarrow> nat \<Rightarrow> bool \<Rightarrow> u64 \<Rightarrow> kmem \<times> u64 option" where
  "pt_next k t i alloc extra =
     (if \<not> present (tab (phys k) t i) then
        if \<not> alloc then (k, None)
        else (let (k1, n) = memory_alloc_page k in
          if n = 0 then (k1, None)
          else (let k2 = set_tab k1 t i (n OR PAGE_PRESENT OR PAGE_RW OR extra)
                in (k2, Some (frame_of (tab (phys k2) t i)))))
      else (k, Some (frame_of (tab (phys k) t i))))"

primrec split_huge :: "kmem \<Rightarrow> u64 \<Rightarrow> u64 \<Rightarrow> u64 \<Rightarrow> nat \<Rightarrow> kmem" where
  "split_huge k pt huge_phys huge_flags 0 = k"
| "split_huge k pt huge_phys huge_flags (Suc i) =
     set_tab (split_huge k pt huge_phys huge_flags i) pt i
       ((huge_phys + of_nat i * 4096) OR (huge_flags AND NOT PAGE_HUGE) OR PAGE_PRESENT OR PAGE_RW)"

text \<open>
  The step from the page directory to the page table, the last part of
  \<^verbatim>\<open>paging_walk_4kb\<close>: a 2 MB page in the way is split into a table of 4 KB pages.
\<close>

definition pd_next :: "kmem \<Rightarrow> u64 \<Rightarrow> nat \<Rightarrow> bool \<Rightarrow> kmem \<times> u64 option" where
  "pd_next k pd pd_i alloc =
     (let pd_entry = tab (phys k) pd pd_i in
      if \<not> present pd_entry then
        if \<not> alloc then (k, None)
        else (let (k1, new_pt) = memory_alloc_page k in
          if new_pt = 0 then (k1, None)
          else (set_tab k1 pd pd_i (new_pt OR PAGE_PRESENT OR PAGE_RW), Some new_pt))
      else if huge pd_entry then
        if \<not> alloc then (k, None)
        else (let huge_phys = pd_entry AND NOT 0x1FFFFF; huge_flags = pd_entry AND 0xFFF;
                  (k1, new_pt) = memory_alloc_page k in
          if new_pt = 0 then (k1, None)
          else (let k2 = split_huge k1 new_pt huge_phys huge_flags 512 in
            (set_tab k2 pd pd_i (new_pt OR (pd_entry AND (PAGE_USER OR PAGE_RW)) OR PAGE_PRESENT),
             Some new_pt)))
      else (k, Some (frame_of pd_entry)))"

definition paging_walk_4kb :: "kmem \<Rightarrow> u64 \<Rightarrow> u64 \<Rightarrow> bool \<Rightarrow> kmem \<times> u64 option" where
  "paging_walk_4kb k pml4_phys virt alloc =
     (let pml4_i = pt_index 39 virt; pdpt_i = pt_index 30 virt;
          pd_i = pt_index 21 virt; pt_i = pt_index 12 virt
      in case pt_next k pml4_phys pml4_i alloc 0 of
           (k1, None) \<Rightarrow> (k1, None)
         | (k1, Some pdpt) \<Rightarrow>
      (case pt_next k1 pdpt pdpt_i alloc 0 of
           (k2, None) \<Rightarrow> (k2, None)
         | (k2, Some pd) \<Rightarrow>
      (case pd_next k2 pd pd_i alloc of
           (k3, None) \<Rightarrow> (k3, None)
         | (k3, Some pt) \<Rightarrow> (k3, Some (entry pt pt_i)))))"

definition paging_map_4kb :: "kmem \<Rightarrow> u64 \<Rightarrow> u64 \<Rightarrow> u64 \<Rightarrow> u64 \<Rightarrow> kmem \<times> int" where
  "paging_map_4kb k pml4_phys virt ph flags =
     (case paging_walk_4kb k pml4_phys virt True of
        (k', None) \<Rightarrow> (k', -1)
      | (k', Some pte) \<Rightarrow>
          (k'\<lparr>phys := wr64 (phys k') pte (ph OR flags OR PAGE_PRESENT OR PAGE_RW)\<rparr>, 0))"

definition paging_unmap_4kb :: "kmem \<Rightarrow> u64 \<Rightarrow> u64 \<Rightarrow> kmem" where
  "paging_unmap_4kb k pml4_phys virt =
     (case paging_walk_4kb k pml4_phys virt False of
        (k', None) \<Rightarrow> k'
      | (k', Some pte) \<Rightarrow> k'\<lparr>phys := wr64 (phys k') pte 0\<rparr>)"

definition paging_unmap_2mb :: "kmem \<Rightarrow> u64 \<Rightarrow> u64 \<Rightarrow> kmem" where
  "paging_unmap_2mb k pml4_phys virt =
     (let e4 = tab (phys k) pml4_phys (pt_index 39 virt) in
      if \<not> present e4 then k
      else (let e3 = tab (phys k) (frame_of e4) (pt_index 30 virt) in
        if \<not> present e3 then k
        else set_tab k (frame_of e3) (pt_index 21 virt) 0))"

definition paging_get_flags :: "kmem \<Rightarrow> u64 \<Rightarrow> u64 \<Rightarrow> u64" where
  "paging_get_flags k pml4_phys virt =
     (let e4 = tab (phys k) pml4_phys (pt_index 39 virt) in
      if \<not> present e4 then 0
      else (let e3 = tab (phys k) (frame_of e4) (pt_index 30 virt) in
        if \<not> present e3 then 0
        else (let pd_entry = tab (phys k) (frame_of e3) (pt_index 21 virt) in
          if \<not> present pd_entry then 0
          else if huge pd_entry then pd_entry AND 0xFFF
          else tab (phys k) (frame_of pd_entry) (pt_index 12 virt) AND 0xFFF)))"

definition paging_map_2mb :: "kmem \<Rightarrow> u64 \<Rightarrow> u64 \<Rightarrow> u64 \<Rightarrow> u64 \<Rightarrow> kmem \<times> int" where
  "paging_map_2mb k pml4_phys virt ph flags =
     (case pt_next k pml4_phys (pt_index 39 virt) True (flags AND PAGE_USER) of
        (k1, None) \<Rightarrow> (k1, -1)
      | (k1, Some pdpt) \<Rightarrow>
     (case pt_next k1 pdpt (pt_index 30 virt) True (flags AND PAGE_USER) of
        (k2, None) \<Rightarrow> (k2, -1)
      | (k2, Some pd) \<Rightarrow>
          (set_tab k2 pd (pt_index 21 virt)
             (ph OR PAGE_PRESENT OR PAGE_RW OR PAGE_HUGE OR (flags AND PAGE_USER)), 0)))"

definition memory_map_2mb :: "kmem \<Rightarrow> u64 \<Rightarrow> u64 \<Rightarrow> u64 \<Rightarrow> kmem \<times> int" where
  "memory_map_2mb k virt ph flags = paging_map_2mb k PML4_ADDR virt ph flags"

definition memory_unmap_2mb :: "kmem \<Rightarrow> u64 \<Rightarrow> kmem \<times> int" where
  "memory_unmap_2mb k virt = (paging_unmap_2mb k PML4_ADDR virt, 0)"

definition memory_get_flags :: "kmem \<Rightarrow> u64 \<Rightarrow> u64" where
  "memory_get_flags k virt = paging_get_flags k PML4_ADDR virt"

subsection \<open>Splitting a 2 MB page\<close>

lemma mask_21: "(0x1FFFFF :: u64) = mask 21"
  by (simp add: mask_eq_exp_minus_1)

lemma offset_2mb: "of_nat (ix 0 v) * 4096 + (v AND 0xFFF) = v AND 0x1FFFFF"
proof -
  have "unat (v AND mask 21) = unat v mod 2 ^ 21" "unat (v AND mask 12) = unat v mod 2 ^ 12"
    by (simp_all add: take_bit_eq_mod unat_mod flip: take_bit_eq_mask)
  moreover have ix: "ix 0 v = unat v div 2 ^ 12 mod 2 ^ 9"
  proof -
    have "(0x1FF :: u64) = mask 9" by (simp add: mask_eq_exp_minus_1)
    then have "pt_index 12 v = unat (take_bit 9 (drop_bit 12 v))" by (simp only: pt_index_def take_bit_eq_mask)
    then show ?thesis unfolding ix_def by (simp add: take_bit_eq_mod drop_bit_eq_div unat_mod unat_div)
  qed
  moreover have "unat v mod 2 ^ 21 = 2 ^ 12 * (unat v div 2 ^ 12 mod 2 ^ 9) + unat v mod 2 ^ 12"
    using mod_mult2_eq [of "unat v" "2 ^ 12" "2 ^ 9"] by simp
  moreover have "unat (of_nat (ix 0 v) * 4096 :: u64) = 4096 * ix 0 v"
    using less_trans [OF ix_less [of 0 v], of "4503599627370496"]
      unat_of_nat_small [of "4096 * ix 0 v", where ?'a = 64] by (simp add: mult.commute)
  moreover have "4096 * ix 0 v + unat v mod 4096 < 18446744073709551616"
    using ix_less [of 0 v] mod_less_divisor [of 4096 "unat v"] by linarith
  ultimately show ?thesis
    by (simp add: unat_eq_iff [of "_ + _"] unat_add_nowrap mask_12 mask_21)
qed

lemma bit_0xFFF: "bit (0xFFF :: u64) i \<longleftrightarrow> i < 12"
  unfolding mask_12 by (auto simp: bit_simps)

lemmas pte_bits = bit_or_iff bit_and_iff bit_not_iff bit_0xFFF bit_pte_flags

definition split_entry :: "u64 \<Rightarrow> u64 \<Rightarrow> nat \<Rightarrow> u64" where
  "split_entry hp hf i = (hp + of_nat i * 4096) OR (hf AND NOT PAGE_HUGE) OR PAGE_PRESENT OR PAGE_RW"

lemma tab_split_huge:
  assumes "aligned n" "aligned t" "j < 512" "c \<le> 512"
  shows "tab (phys (split_huge k n hp hf c)) t j =
    (if t = n \<and> j < c then split_entry hp hf j else tab (phys k) t j)"
  using assms(4)
proof (induction c)
  case (Suc c)
  then show ?case
    using tab_set_tab [OF assms(1,2) _ assms(3), of c] by (auto simp: split_entry_def less_Suc_eq)
qed simp

lemma split_huge_data:
  assumes "aligned n" "\<not> unat (a - n) < 4096" "c \<le> 512"
  shows "phys (split_huge k n hp hf c) a = phys k a"
  using assms(3) by (induction c) (use assms(1,2) in \<open>simp_all add: set_tab_data\<close>)

lemma split_huge_simps [simp]:
  "page_alloc_cur (split_huge k n hp hf c) = page_alloc_cur k"
  "page_alloc_end (split_huge k n hp hf c) = page_alloc_end k"
  "page_refcounts (split_huge k n hp hf c) = page_refcounts k"
  "frames_ok (split_huge k n hp hf c) = frames_ok k" "free_frame (split_huge k n hp hf c) = free_frame k"
  by (induction c) auto

lemma frame_of_orI:
  assumes "aligned n" "\<And>i. bit f i \<Longrightarrow> i < 12"
  shows "frame_of (n OR f) = n"
proof (rule bit_word_eqI)
  fix i
  show "bit (frame_of (n OR f)) i = bit n i"
    using assms(2) [of i] aligned_bit [OF assms(1), of i] by (cases "i < 12") (auto simp: bit_frame_of bit_simps)
qed

lemma aligned_2mb_part: 
  assumes "i < 512"
  shows "aligned ((e AND NOT 0x1FFFFF) + of_nat i * 4096)"
proof -
  let ?h = "e AND NOT (0x1FFFFF :: u64)"
  have "take_bit 21 ?h = 0"
    unfolding mask_21 by (rule bit_word_eqI) (auto simp: bit_simps)
  then have "2 ^ 21 dvd unat ?h"
    by (simp add: take_bit_eq_mod unat_eq_iff unat_mod dvd_eq_mod_eq_0)
  moreover have "of_nat (4096 * i) = (of_nat i * 4096 :: u64)" by simp
  ultimately have "unat (?h + of_nat i * 4096) = unat ?h + 4096 * i"
    using unat_aligned_add [of 21 ?h "4096 * i"] assms by (simp add: mult.commute)
  moreover have "4096 dvd unat ?h" using \<open>2 ^ 21 dvd unat ?h\<close> by (rule dvd_trans [rotated]) simp
  ultimately show ?thesis by (simp add: aligned_dvd)
qed

lemma split_entry:
  assumes "i < 512"
  shows "frame_of (split_entry (e AND NOT 0x1FFFFF) (e AND 0xFFF) i) = (e AND NOT 0x1FFFFF) + of_nat i * 4096"
    and "present (split_entry (e AND NOT 0x1FFFFF) (e AND 0xFFF) i)"
    and "split_entry (e AND NOT 0x1FFFFF) (e AND 0xFFF) i AND (PAGE_RW OR PAGE_USER) =
      PAGE_RW OR (e AND (PAGE_RW OR PAGE_USER))"
proof -
  note al = aligned_2mb_part [OF assms, of e]
  let ?f = "((e AND 0xFFF) AND NOT PAGE_HUGE) OR PAGE_PRESENT OR PAGE_RW"
  have s: "split_entry (e AND NOT 0x1FFFFF) (e AND 0xFFF) i = ((e AND NOT 0x1FFFFF) + of_nat i * 4096) OR ?f"
    by (simp only: split_entry_def or.assoc)
  show "frame_of (split_entry (e AND NOT 0x1FFFFF) (e AND 0xFFF) i) = (e AND NOT 0x1FFFFF) + of_nat i * 4096"
    unfolding s by (rule frame_of_orI [OF al]) (simp only: pte_bits, auto)
  show "present (split_entry (e AND NOT 0x1FFFFF) (e AND 0xFFF) i)"
    unfolding s by (simp only: present_bit pte_bits) simp
  show "split_entry (e AND NOT 0x1FFFFF) (e AND 0xFFF) i AND (PAGE_RW OR PAGE_USER) =
      PAGE_RW OR (e AND (PAGE_RW OR PAGE_USER))"
  proof (rule bit_word_eqI)
    fix j
    show "bit (split_entry (e AND NOT 0x1FFFFF) (e AND 0xFFF) i AND (PAGE_RW OR PAGE_USER)) j =
        bit (PAGE_RW OR (e AND (PAGE_RW OR PAGE_USER))) j"
      unfolding s using aligned_bit [OF al, of j]
      by (simp only: pte_bits) auto
  qed
qed

text \<open>Splitting a 2 MB page into a table of 4 KB pages.\<close>

lemma pt_extends_split:
  assumes ok: "frames_ok k" and tree: "pt_tree k T" and T0: "T t = 2" "i < 512"
    and e: "e = tab (phys k) t i" "present e" "huge e"
    and al: "memory_alloc_page k = (k1, n)" "n \<noteq> 0"
    and e': "e' = n OR (e AND (PAGE_USER OR PAGE_RW)) OR PAGE_PRESENT"
    and k': "k' = set_tab (split_huge k1 n (e AND NOT 0x1FFFFF) (e AND 0xFFF) 512) t i e'"
  shows "pt_extends k T k' (T(n := 1))" and "tab (phys k') t i = e'"
    and "frame_of e' = n" and "link 1 e'"
proof -
  note A = alloc_page_tree [OF ok tree al]
  have T1: "T t = Suc 1" using T0 by simp
  have at: "aligned t" using pt_treeD(1) [OF tree T1] .
  have tn: "t \<noteq> n" using T0 A(1) by auto
  have e'2: "e' = n OR ((e AND (PAGE_USER OR PAGE_RW)) OR PAGE_PRESENT)" by (simp add: e' or.assoc)
  show fr: "frame_of e' = n"
    unfolding e'2 by (rule frame_of_orI [OF A(2)]) (simp only: pte_bits, auto)
  have pr: "present e'" "\<not> huge e'"
    using aligned_bit [OF A(2), of 7]
    by (simp_all only: e' present_bit huge_bit pte_bits) auto
  then show "link 1 e'" by (simp add: link_def)
  have tabs: "tab (phys k') s j = (if s = t \<and> j = i then e' else tab (phys k) s j)"
    if "T s \<noteq> 0" "j < 512" for s j
  proof -
    have as: "aligned s" using that(1) pt_treeD(1) [OF tree, of s] by (cases "T s") auto
    have "s \<noteq> n" using that A(1) by auto
    then have "tab (phys (split_huge k1 n (e AND NOT 0x1FFFFF) (e AND 0xFFF) 512)) s j = tab (phys k1) s j"
      using tab_split_huge [OF A(2) as that(2) order_refl] by simp
    then show ?thesis using tab_set_tab [OF at as T0(2) that(2)] A(6) [OF that] by (auto simp: k')
  qed
  then show "tab (phys k') t i = e'" using T0 by simp
  have ents: "tab (phys k') n j = split_entry (e AND NOT 0x1FFFFF) (e AND 0xFFF) j" if "j < 512" for j
    using tab_set_tab [OF at A(2) T0(2) that] tab_split_huge [OF A(2) A(2) that order_refl] tn that by (simp add: k')
  have same: "mmu_walk (phys k') (Suc 1) t acc v = mmu_walk (phys k) (Suc 1) t acc v"
    if "ix 1 v = i" for acc v
  proof -
    let ?s = "split_entry (e AND NOT 0x1FFFFF) (e AND 0xFFF) (ix 0 v)"
    have acc: "((acc AND e' AND (PAGE_RW OR PAGE_USER)) AND (?s AND (PAGE_RW OR PAGE_USER))) = acc AND e AND (PAGE_RW OR PAGE_USER)"
      unfolding split_entry(3) [OF ix_less] 
      by (rule bit_word_eqI) (use aligned_bit [OF A(2), of 1] aligned_bit [OF A(2), of 2] in
          \<open>simp only: e' pte_bits, auto\<close>)
    have "mmu_walk (phys k') (Suc 0) n a v =
        Some (((e AND NOT 0x1FFFFF) + of_nat (ix 0 v) * 4096) + (v AND 0xFFF), a AND (?s AND (PAGE_RW OR PAGE_USER)))" for a
      using ents [OF ix_less] split_entry(1,2) [of "ix 0 v" e] by (simp add: Let_def and.assoc)
    then have "mmu_walk (phys k') (Suc 1) t acc v =
        Some (((e AND NOT 0x1FFFFF) + of_nat (ix 0 v) * 4096) + (v AND 0xFFF), acc AND e AND (PAGE_RW OR PAGE_USER))"
      using tabs [of t i] T0 that pr fr acc mmu_walk.simps(2) [of "phys k'" "Suc 0" t acc v]
      by (simp add: Let_def del: mmu_walk.simps)
    also have "\<dots> = Some ((e AND NOT 0x1FFFFF) + (v AND 0x1FFFFF), acc AND e AND (PAGE_RW OR PAGE_USER))"
      using offset_2mb [of v] by (simp add: add.assoc)
    also have "\<dots> = mmu_walk (phys k) (Suc 1) t acc v"
      using e that mmu_walk.simps(2) [of "phys k" "Suc 0" t acc v] by (simp add: Let_def del: mmu_walk.simps)
    finally show ?thesis .
  qed
  have walk: "mmu_walk (phys k') (Suc l') s acc v = mmu_walk (phys k) (Suc l') s acc v" if "T s = Suc l'" for s l' acc v
    by (rule mmu_walk_graft [OF tree tabs same T1 that])
  have "pt_tree k' (T(n := 1))"
    by (rule pt_tree_graft [OF tree tabs T1 _ T0(2) _ A(1,2) _ fr pr(2)]) (use e A in \<open>auto simp: link_def k'\<close>)
  moreover have "data_at k' (T(n := 1)) a \<and> phys k' a = phys k a" if "data_at k T a" for a
    using that alloc_page_data [OF ok al, of a] A(5) T0(1) set_tab_data [OF at T0(2), of a] split_huge_data [OF A(2), of a 512]
    by (auto simp: data_at_def k')
  ultimately show "pt_extends k T k' (T(n := 1))"
    unfolding pt_extends_def using A(1,4,5) walk tabs e by (auto simp: link_def k' T0)
qed

subsection \<open>The walk\<close>

lemma pt_next_extends:
  assumes "frames_ok k" "pt_tree k T" "T t = Suc l" "0 < l" "l \<noteq> 1" "i < 512"
    and "pt_next k t i alloc extra = (k', r)" "extra = 0 \<or> extra = PAGE_USER"
  shows "\<exists>T'. pt_extends k T k' T' \<and> (\<not> alloc \<longrightarrow> k' = k) \<and>
    (r = None \<longrightarrow> alloc \<longrightarrow> page_alloc_end k' \<le> page_alloc_cur k') \<and>
    (\<forall>n. r = Some n \<longrightarrow> T' n = l \<and> link l (tab (phys k') t i) \<and> frame_of (tab (phys k') t i) = n)"
proof (cases "present (tab (phys k) t i)")
  case True
  then have L: "link l (tab (phys k) t i)" using assms(4,5) by (simp add: link_def)
  have "k' = k" "r = Some (frame_of (tab (phys k) t i))" using assms(7) True by (auto simp: pt_next_def)
  then show ?thesis
    using L pt_extends_refl [OF assms(1,2)] pt_treeD(3) [OF assms(2,3,6) L] by (intro exI [of _ T]) simp
next
  case False
  show ?thesis
  proof (cases alloc)
    case no: False
    then have "k' = k" "r = None" using assms(7) False by (simp_all add: pt_next_def)
    then show ?thesis using no pt_extends_refl [OF assms(1,2)] by (intro exI [of _ T]) simp
  next
    case True
    obtain k1 n where al: "memory_alloc_page k = (k1, n)" by force
    show ?thesis
    proof (cases "n = 0")
      case zero: True
      then have "k' = k1" "r = None" "k1 = k" "page_alloc_end k \<le> page_alloc_cur k"
        using assms(7) False True al memory_alloc_page_zero [OF assms(1), of k1] by (simp_all add: pt_next_def)
      then show ?thesis using pt_extends_refl [OF assms(1,2)] by (intro exI [of _ T]) simp
    next
      case n: False
      let ?f = "PAGE_PRESENT OR PAGE_RW OR extra"
      have f: "?f < 4096" "present ?f" "\<not> huge ?f" using assms(8) by (auto simp: present_def huge_def)
      have k': "k' = set_tab k1 t i (n OR ?f)" "r = Some (frame_of (tab (phys k') t i))"
        using assms(7) False True al n by (auto simp: pt_next_def or.assoc Let_def)
      note F = pt_extends_fresh [OF assms(1,2,3,4,6) False al n f]
      show ?thesis unfolding k' using F True by (intro exI [of _ "T(n := l)"]) (simp add: k'(2))
    qed
  qed
qed

lemma pd_next_extends:
  assumes "frames_ok k" "pt_tree k T" "T t = 2" "i < 512" and pd: "pd_next k t i alloc = (k', r)"
  shows "\<exists>T'. pt_extends k T k' T' \<and> (\<not> alloc \<longrightarrow> k' = k) \<and>
    (r = None \<longrightarrow> alloc \<longrightarrow> page_alloc_end k' \<le> page_alloc_cur k') \<and>
    (\<forall>n. r = Some n \<longrightarrow> T' n = 1 \<and> link 1 (tab (phys k') t i) \<and> frame_of (tab (phys k') t i) = n)"
proof -
  let ?e = "tab (phys k) t i"
  have t: "T t = Suc 1" using assms(3) by simp
  consider (tab) "present ?e" "\<not> huge ?e" | (no) "\<not> alloc" "\<not> (present ?e \<and> \<not> huge ?e)"
    | (fresh) "alloc" "\<not> present ?e" | (split) "alloc" "present ?e" "huge ?e" by blast
  then show ?thesis
  proof cases
    case tab
    then have L: "link 1 ?e" by (simp add: link_def)
    have "k' = k" "r = Some (frame_of ?e)" using pd tab by (auto simp: pd_next_def Let_def)
    then show ?thesis
      using L pt_extends_refl [OF assms(1,2)] pt_treeD(3) [OF assms(2) t assms(4) L] by (intro exI [of _ T]) simp
  next
    case no
    then have "k' = k" "r = None" using pd by (auto simp: pd_next_def Let_def split: if_splits)
    then show ?thesis using no pt_extends_refl [OF assms(1,2)] by (intro exI [of _ T]) simp
  next
    case fresh
    obtain k1 n where al: "memory_alloc_page k = (k1, n)" by force
    show ?thesis
    proof (cases "n = 0")
      case zero: True
      then have "k' = k1" "r = None" "k1 = k" "page_alloc_end k \<le> page_alloc_cur k"
        using pd fresh al memory_alloc_page_zero [OF assms(1), of k1] by (auto simp: pd_next_def Let_def)
      then show ?thesis using pt_extends_refl [OF assms(1,2)] fresh by (intro exI [of _ T]) simp
    next
      case n: False
      let ?f = "PAGE_PRESENT OR PAGE_RW"
      have f: "?f < 4096" "present ?f" "\<not> huge ?f" by (auto simp: present_def huge_def)
      have k': "k' = set_tab k1 t i (n OR ?f)" "r = Some n"
        using pd fresh al n by (auto simp: pd_next_def or.assoc Let_def)
      note F = pt_extends_fresh [OF assms(1,2) t _ assms(4) fresh(2) al n f]
      show ?thesis unfolding k' using F fresh by (intro exI [of _ "T(n := 1)"]) simp
    qed
  next
    case split
    obtain k1 n where al: "memory_alloc_page k = (k1, n)" by force
    show ?thesis
    proof (cases "n = 0")
      case zero: True
      then have "k' = k1" "r = None" "k1 = k" "page_alloc_end k \<le> page_alloc_cur k"
        using pd split al memory_alloc_page_zero [OF assms(1), of k1] by (auto simp: pd_next_def Let_def)
      then show ?thesis using pt_extends_refl [OF assms(1,2)] split by (intro exI [of _ T]) simp
    next
      case n: False
      have k': "k' = set_tab (split_huge k1 n (?e AND NOT 0x1FFFFF) (?e AND 0xFFF) 512) t i
          (n OR (?e AND (PAGE_USER OR PAGE_RW)) OR PAGE_PRESENT)" "r = Some n"
        using pd split al n by (auto simp: pd_next_def Let_def)
      note F = pt_extends_split [OF assms(1-4) refl split(2,3) al n refl k'(1)]
      show ?thesis using F split k'(2) by (intro exI [of _ "T(n := 1)"]) simp
    qed
  qed
qed

text \<open>
  The walk only adds to the tree: whatever it does, every translation stays as it was; the
  entry it finds is the one that maps the page, and without permission to allocate it
  changes nothing.
\<close>

lemma paging_walk_extends:
  assumes ok: "frames_ok k" and tree: "pt_tree k T" and c: "T c = 4"
    and walk: "paging_walk_4kb k c virt alloc = (k', r)"
  shows "\<exists>T'. pt_extends k T k' T' \<and> (\<not> alloc \<longrightarrow> k' = k) \<and>
    (r = None \<longrightarrow> alloc \<longrightarrow> page_alloc_end k' \<le> page_alloc_cur k') \<and>
    (\<forall>pte. r = Some pte \<longrightarrow> (\<exists>t. table_at (phys k') 0 3 c virt = Some t \<and> T' t = 1 \<and> pte = entry t (ix 0 virt)))"
proof -
  let ?none = "\<lambda>k1 T1. pt_extends k T k1 T1 \<and> (\<not> alloc \<longrightarrow> k1 = k) \<and> (alloc \<longrightarrow> page_alloc_end k1 \<le> page_alloc_cur k1)"
  obtain k1 r1 where n1: "pt_next k c (ix 3 virt) alloc 0 = (k1, r1)" by force
  from pt_next_extends [OF ok tree, of c 3, OF _ _ _ _ n1] c obtain T1 where
    T1: "pt_extends k T k1 T1" "\<not> alloc \<Longrightarrow> k1 = k" "r1 = None \<Longrightarrow> ?none k1 T1"
      "\<And>n. r1 = Some n \<Longrightarrow> T1 n = 3 \<and> link 3 (tab (phys k1) c (ix 3 virt)) \<and> frame_of (tab (phys k1) c (ix 3 virt)) = n"
    by auto
  have E1: "frames_ok k1" "pt_tree k1 T1" "T1 c = 4" using T1(1) c by (auto simp: pt_extends_def)
  show ?thesis
  proof (cases r1)
    case None
    then have "k' = k1" "r = None" using walk n1 by (simp_all add: paging_walk_4kb_def ix_def)
    then show ?thesis using T1(3) [OF None] by blast
  next
    case (Some pdpt)
    note L3 = T1(4) [OF Some]
    obtain k2 r2 where n2: "pt_next k1 pdpt (ix 2 virt) alloc 0 = (k2, r2)" by force
    from pt_next_extends [OF E1(1,2), of pdpt 2, OF _ _ _ _ n2] L3 obtain T2 where
      T2: "pt_extends k1 T1 k2 T2" "\<not> alloc \<Longrightarrow> k2 = k1"
        "r2 = None \<Longrightarrow> alloc \<Longrightarrow> page_alloc_end k2 \<le> page_alloc_cur k2"
        "\<And>n. r2 = Some n \<Longrightarrow> T2 n = 2 \<and> link 2 (tab (phys k2) pdpt (ix 2 virt)) \<and> frame_of (tab (phys k2) pdpt (ix 2 virt)) = n"
      by auto
    note ext2 = pt_extends_trans [OF T1(1) T2(1)]
    have E2: "frames_ok k2" "pt_tree k2 T2" "T2 c = 4" "T2 pdpt = 3" using T2(1) E1 L3 by (auto simp: pt_extends_def)
    show ?thesis
    proof (cases r2)
      case None
      then have "k' = k2" "r = None" using walk n1 n2 Some by (simp_all add: paging_walk_4kb_def ix_def)
      then show ?thesis using ext2 T2(2,3) [OF] T1(2) None by blast
    next
      case pd: (Some pd)
      note L2 = T2(4) [OF pd]
      obtain k3 r3 where n3: "pd_next k2 pd (ix 1 virt) alloc = (k3, r3)" by force
      from pd_next_extends [OF E2(1,2) _ _ n3] L2 obtain T3 where
        T3: "pt_extends k2 T2 k3 T3" "\<not> alloc \<Longrightarrow> k3 = k2"
          "r3 = None \<Longrightarrow> alloc \<Longrightarrow> page_alloc_end k3 \<le> page_alloc_cur k3"
          "\<And>n. r3 = Some n \<Longrightarrow> T3 n = 1 \<and> link 1 (tab (phys k3) pd (ix 1 virt)) \<and> frame_of (tab (phys k3) pd (ix 1 virt)) = n"
        by auto
      have k': "k' = k3" "r = map_option (\<lambda>t. entry t (ix 0 virt)) r3"
        using walk n1 n2 n3 Some pd by (auto simp: paging_walk_4kb_def ix_def split: option.splits)
      have "table_at (phys k3) 0 3 c virt = Some t" if "r3 = Some t" for t
      proof -
        have "tab (phys k3) c (ix 3 virt) = tab (phys k1) c (ix 3 virt)"
          using pt_extends_link [OF pt_extends_trans [OF T2(1) T3(1)], of c 3] L3 E1 by simp
        moreover have "tab (phys k3) pdpt (ix 2 virt) = tab (phys k2) pdpt (ix 2 virt)"
          using pt_extends_link [OF T3(1), of pdpt 2] L2 E2 by simp
        ultimately show ?thesis using L3 L2 T3(4) [OF that] by (simp add: numeral_3_eq_3 Let_def numeral_2_eq_2)
      qed
      then have "\<exists>t. table_at (phys k') 0 3 c virt = Some t \<and> T3 t = 1 \<and> pte = entry t (ix 0 virt)" if "r = Some pte" for pte
        using k' that T3(4) by (cases r3) auto
      moreover have "pt_extends k T k' T3" using pt_extends_trans [OF ext2 T3(1)] k' by simp
      ultimately show ?thesis using k' T1(2) T2(2) T3(2,3) by (intro exI [of _ T3]) auto
    qed
  qed
qed

subsection \<open>The tables the boot loader leaves\<close>

text \<open>
  \<^verbatim>\<open>boot/stage2.asm\<close> clears the frames from 0x1000 on and maps the first 8 MB with four
  2 MB pages, the third of them for user code; this is where the kernel starts.
\<close>

definition boot_kmem :: kmem where
  "boot_kmem =
     set_tab (set_tab (set_tab (set_tab (set_tab (set_tab
       (memory_init \<lparr>phys = (\<lambda>_. 0), heap_blocks = [], page_alloc_cur = 0, page_alloc_end = 0,
          page_refcounts = []\<rparr> 0x200000 0x200000)
       0x1000 0 0x2007) 0x2000 0 0x3007) 0x3000 0 0x83) 0x3000 1 0x200083) 0x3000 2 0x400087) 0x3000 3 0x600083"

definition boot_levels :: "u64 \<Rightarrow> nat" where
  "boot_levels t = (if t = 0x1000 then 4 else if t = 0x2000 then 3 else if t = 0x3000 then 2 else 0)"

lemma boot_aligned: "aligned 0x1000" "aligned 0x2000" "aligned 0x3000"
  by (simp_all add: aligned_dvd)

lemma boot_tab:
  assumes "aligned t" "i < 512"
  shows "tab (phys boot_kmem) t i =
    (if t = 0x1000 \<and> i = 0 then 0x2007 else if t = 0x2000 \<and> i = 0 then 0x3007
     else if t = 0x3000 \<and> i = 0 then 0x83 else if t = 0x3000 \<and> i = 1 then 0x200083
     else if t = 0x3000 \<and> i = 2 then 0x400087 else if t = 0x3000 \<and> i = 3 then 0x600083 else 0)"
proof -
  have "rd64 (\<lambda>_. 0) a = 0" for a by (simp add: rd64_def numeral_eq_Suc)
  then have "tab (phys (memory_init \<lparr>phys = (\<lambda>_. 0), heap_blocks = h, page_alloc_cur = 0, page_alloc_end = 0,
      page_refcounts = []\<rparr> p s)) t i = 0" for h p s
    by (simp add: memory_init_def page_ref_init_def memory_page_init_def)
  then show ?thesis
    using assms by (simp add: boot_kmem_def tab_set_tab boot_aligned del: One_nat_def)
qed

lemma boot_frames_ok [simp]: "frames_ok boot_kmem"
  by (simp add: boot_kmem_def memory_init_frames_ok)

lemma boot_alloc: "page_alloc_cur boot_kmem = 0x600000" "page_alloc_end boot_kmem = 0x800000"
  by (simp_all add: boot_kmem_def memory_init_def page_ref_init_def memory_page_init_def)

lemma boot_tree [simp]: "pt_tree boot_kmem boot_levels"
proof -
  have lev: "boot_levels t = Suc l \<longleftrightarrow> t = 0x1000 \<and> l = 3 \<or> t = 0x2000 \<and> l = 2 \<or> t = 0x3000 \<and> l = 1" for t l
    by (auto simp: boot_levels_def)
  have "\<not> free_frame boot_kmem t" if "boot_levels t = Suc l" for t l
    using that boot_alloc by (auto simp: lev free_frame_def)
  moreover have "link l (tab (phys boot_kmem) t i) \<longleftrightarrow> i = 0 \<and> l \<noteq> 1" if "boot_levels t = Suc l" "i < 512" for t l i
    using that by (auto simp: lev boot_tab boot_aligned link_def present_def huge_def split: if_splits)
  ultimately show ?thesis
    unfolding pt_tree_def
    by (auto simp: boot_tab boot_aligned lev frame_of_def huge_def boot_levels_def)
qed

lemma boot_root: "boot_levels 0x1000 = 4"
  by (simp add: boot_levels_def)

lemma boot_map: "snd (paging_map_4kb boot_kmem 0x1000 0x400000 0x700000 PAGE_USER) = 0"
proof -
  have "pt_index 39 0x400000 = 0" "pt_index 30 0x400000 = 0" "pt_index 21 0x400000 = 2"
    by (simp_all add: pt_index_def drop_bit_eq_div)
  moreover have "present 0x2007" "present 0x3007" "present 0x400087" "huge 0x400087"
    "frame_of 0x2007 = 0x2000" "frame_of 0x3007 = 0x3000" by (simp_all add: present_def huge_def frame_of_def)
  ultimately show ?thesis
    by (auto simp: paging_map_4kb_def paging_walk_4kb_def pt_next_def pd_next_def boot_tab boot_aligned
        boot_alloc memory_alloc_page_def Let_def)
qed

subsection \<open>Mapping and unmapping\<close>

lemma paging_map_4kb_cases:
  assumes "frames_ok k" "pt_tree k T" "T c = 4" and m: "paging_map_4kb k c v ph fl = (k', r)"
  obtains (mapped) k1 T1 t where "r = 0" "pt_extends k T k1 T1" "table_at (phys k1) 0 3 c v = Some t" "T1 c = 4"
      "entry_write k1 T1 0 t (ix 0 v) (ph OR fl OR PAGE_PRESENT OR PAGE_RW) k'"
    | (failed) T1 where "r = -1" "pt_extends k T k' T1" "T1 c = 4" "page_alloc_end k' \<le> page_alloc_cur k'"
proof -
  obtain k1 pte where w: "paging_walk_4kb k c v True = (k1, pte)" by force
  from paging_walk_extends [OF assms(1-3) w] obtain T1 where
    T1: "pt_extends k T k1 T1" "pte = None \<Longrightarrow> page_alloc_end k1 \<le> page_alloc_cur k1"
      "\<And>p. pte = Some p \<Longrightarrow> \<exists>t. table_at (phys k1) 0 3 c v = Some t \<and> T1 t = 1 \<and> p = entry t (ix 0 v)"
    by auto
  have c: "T1 c = 4" "pt_tree k1 T1" using T1(1) assms(3) by (simp_all add: pt_extends_def)
  show thesis
  proof (cases pte)
    case None
    then show thesis using m w T1 c failed [of T1] by (simp add: paging_map_4kb_def)
  next
    case (Some p)
    then obtain t where t: "table_at (phys k1) 0 3 c v = Some t" "T1 t = 1" "p = entry t (ix 0 v)" using T1(3) by blast
    then show thesis
      using m w T1(1) c Some mapped [of k1 T1 t] by (simp add: paging_map_4kb_def entry_write_def set_tab_def link_def)
  qed
qed

lemma paging_get_flags_at:
  "table_at (phys k) 0 3 c v = Some t \<Longrightarrow> paging_get_flags k c v = tab (phys k) t (ix 0 v) AND 0xFFF"
  by (auto simp: paging_get_flags_def numeral_3_eq_3 Let_def link_def ix_def split: if_splits)

lemma paging_map_4kb_maps:
  assumes "frames_ok k" "pt_tree k T" "T c = 4" "paging_map_4kb k c v ph fl = (k', r)" "aligned ph" "fl < 0x1000"
  shows "\<exists>T'. frames_ok k' \<and> pt_tree k' T' \<and> T' c = 4 \<and>
    (\<forall>a. data_at k T a \<longrightarrow> data_at k' T' a \<and> phys k' a = phys k a) \<and>
    (if r = 0 then (\<forall>w. same_page v w \<longrightarrow> map_option fst (mmu k' c w) = Some (ph + (w AND 0xFFF))) \<and>
       paging_get_flags k' c v = fl OR PAGE_PRESENT OR PAGE_RW \<and>
       (\<forall>w. \<not> same_page v w \<longrightarrow> mmu k' c w = mmu k c w)
     else r = -1 \<and> page_alloc_end k' \<le> page_alloc_cur k' \<and> (\<forall>w. mmu k' c w = mmu k c w))"
  using assms(1-4)
proof (cases rule: paging_map_4kb_cases)
  case (mapped k1 T1 t)
  let ?f = "fl OR PAGE_PRESENT OR PAGE_RW"
  have f: "bit ?f i \<Longrightarrow> i < 12" for i
  proof -
    have "bit fl i \<Longrightarrow> i < 12" using low12_bit [OF assms(6)] .
    moreover assume "bit ?f i"
    ultimately show "i < 12" by (simp only: pte_bits) auto
  qed
  have fr: "frame_of (ph OR ?f) = ph" by (rule frame_of_orI [OF assms(5) f])
  have pr: "present (ph OR ?f)" by (simp only: present_bit pte_bits) simp
  have low: "(ph OR ?f) AND 0xFFF = ?f"
  proof (rule bit_word_eqI)
    fix i
    show "bit ((ph OR ?f) AND 0xFFF) i = bit ?f i"
      using f [of i] aligned_bit [OF assms(5), of i] by (simp only: bit_and_iff bit_or_iff bit_0xFFF) blast
  qed
  note W = mapped(5)
  have at: "table_at (phys k') 0 3 c v = Some t" using table_at_same [OF W, of c 3 v] mapped(3,4) by simp
  have "tab (phys k') t (ix 0 v) = ph OR ?f" using tabs [OF W, of t "ix 0 v"] entry_writeD(2) [OF W] by simp
  then have flags: "paging_get_flags k' c v = ?f" using paging_get_flags_at [OF at] low by simp
  have "map_option fst (mmu k' c w) = Some (ph + (w AND 0xFFF))" if "same_page v w" for w
  proof -
    have ix: "ix l v = ix l w" if "l < 4" for l using \<open>same_page v w\<close> that by (simp add: same_page_iff)
    have "table_at (phys k1) 0 3 c w = Some t"
      using table_at_cong [of 0 3 v w "phys k1" c] ix mapped(3) by simp
    then show ?thesis
      using entry_write_page(1) [of k1 T1 t w, OF _ mapped(4)] W ix [of 0] pr fr by simp
  qed
  moreover have "data_at k' T1 a \<and> phys k' a = phys k a" if "data_at k T a" for a
  proof -
    note d = pt_extends_data [OF mapped(2) that]
    have "phys k' a = phys k1 a"
      using d(1) entry_writeD(2) [OF W] pt_treeD(1) [OF entry_writeD(1,2) [OF W]]
      by (simp add: entry_writeD(5) [OF W] set_tab_data data_at_def)
    then show ?thesis using d entry_writeD(5) [OF W] by (simp add: data_at_def)
  qed
  moreover have "mmu k' c w = mmu k c w" if "\<not> same_page v w" for w
    using entry_write_page(2) [OF W mapped(4,3) that] mmu_extends [OF mapped(2) assms(3)] by simp
  moreover have "frames_ok k'" using mapped(2) entry_writeD(5) [OF W] by (simp add: pt_extends_def)
  ultimately show ?thesis using flags tree' [OF W] mapped(1,4) by (intro exI [of _ T1]) simp
next
  case (failed T1)
  then show ?thesis
    using mmu_extends [OF failed(2) assms(3)] pt_extends_data [OF failed(2)]
    by (intro exI [of _ T1]) (simp add: pt_extends_def)
qed

text \<open>C11: mapping a 4 KB page either translates the page to the given frame, with the given flags,
  and leaves the translation of every other page alone, or runs out of frames and leaves every
  translation alone.\<close>

theorem paging_map_4kb_correct:
  assumes "frames_ok k" "pt_tree k T" "T c = 4" "paging_map_4kb k c v ph fl = (k', r)" "aligned ph" "fl < 0x1000"
  shows "frames_ok k' \<and> (\<exists>T'. pt_tree k' T' \<and> T' c = 4) \<and>
    (if r = 0 then (\<forall>w. same_page v w \<longrightarrow> map_option fst (mmu k' c w) = Some (ph + (w AND 0xFFF))) \<and>
       paging_get_flags k' c v = fl OR PAGE_PRESENT OR PAGE_RW \<and>
       (\<forall>w. \<not> same_page v w \<longrightarrow> mmu k' c w = mmu k c w)
     else r = -1 \<and> page_alloc_end k' \<le> page_alloc_cur k' \<and> (\<forall>w. mmu k' c w = mmu k c w))"
  using paging_map_4kb_maps [OF assms] by blast

theorem paging_map_4kb_correct_witness:
  "\<exists>k'. paging_map_4kb boot_kmem 0x1000 0x400000 0x700000 PAGE_USER = (k', 0) \<and>
     map_option fst (mmu k' 0x1000 0x400000) = Some 0x700000 \<and>
     mmu k' 0x1000 0x401234 = mmu boot_kmem 0x1000 0x401234"
proof -
  obtain k' r where m: "paging_map_4kb boot_kmem 0x1000 0x400000 0x700000 PAGE_USER = (k', r)" by force
  then have r: "r = 0" using boot_map by simp
  have "\<not> same_page 0x400000 0x401234" by (simp add: same_page_def drop_bit_eq_div take_bit_eq_mod)
  moreover have "aligned 0x700000" by (simp add: aligned_dvd)
  ultimately have "\<forall>w. same_page 0x400000 w \<longrightarrow> map_option fst (mmu k' 0x1000 w) = Some (0x700000 + (w AND 0xFFF))"
      "mmu k' 0x1000 0x401234 = mmu boot_kmem 0x1000 0x401234"
    using paging_map_4kb_correct [OF boot_frames_ok boot_tree boot_root m] r by auto
  then show ?thesis using m r by (auto dest: spec [where x = "0x400000"])
qed

lemma paging_walk_find:
  "paging_walk_4kb k c v False = (k, map_option (\<lambda>t. entry t (ix 0 v)) (table_at (phys k) 0 3 c v))"
  by (simp add: paging_walk_4kb_def pt_next_def pd_next_def numeral_3_eq_3 Let_def link_def ix_def)

text \<open>Unmapping a 4 KB page that a page table maps makes it untranslated and nothing else; a
  page inside a 2 MB page is left as it is.\<close>

theorem paging_unmap_4kb_correct:
  assumes "frames_ok k" "pt_tree k T" "T c = 4"
  shows "frames_ok (paging_unmap_4kb k c v) \<and> pt_tree (paging_unmap_4kb k c v) T \<and>
    (\<forall>w. \<not> same_page v w \<longrightarrow> mmu (paging_unmap_4kb k c v) c w = mmu k c w) \<and>
    (if table_at (phys k) 0 3 c v = None then paging_unmap_4kb k c v = k
     else mmu (paging_unmap_4kb k c v) c v = None)"
proof (cases "table_at (phys k) 0 3 c v")
  case None
  then show ?thesis using assms by (simp add: paging_unmap_4kb_def paging_walk_find)
next
  case (Some t)
  have "T t = Suc 0" using table_at_level [OF assms(2), of c 0 3 v t] assms(3) Some by simp
  then have W: "entry_write k T 0 t (ix 0 v) 0 (paging_unmap_4kb k c v)"
    using assms(2) Some by (simp add: entry_write_def paging_unmap_4kb_def paging_walk_find set_tab_def)
  have "frames_ok (paging_unmap_4kb k c v)" using entry_writeD(5) [OF W] assms(1) by simp
  then show ?thesis using entry_write_page [OF W assms(3) Some] tree' [OF W] Some by simp
qed

theorem paging_unmap_4kb_correct_witness:
  "\<exists>k. mmu (paging_unmap_4kb k 0x1000 0x400000) 0x1000 0x400000 = None \<and>
     map_option fst (mmu k 0x1000 0x400000) = Some 0x700000"
proof -
  obtain k r where m: "paging_map_4kb boot_kmem 0x1000 0x400000 0x700000 PAGE_USER = (k, r)" by force
  then have r: "r = 0" using boot_map by simp
  have al: "aligned 0x700000" by (simp add: aligned_dvd)
  obtain k1 T1 t where k: "table_at (phys k1) 0 3 0x1000 0x400000 = Some t" "T1 0x1000 = 4" "pt_extends boot_kmem boot_levels k1 T1"
    "entry_write k1 T1 0 t (ix 0 0x400000) (0x700000 OR PAGE_USER OR PAGE_PRESENT OR PAGE_RW) k"
    by (rule paging_map_4kb_cases [OF boot_frames_ok boot_tree boot_root m]) (use r in auto)
  then have "table_at (phys k) 0 3 0x1000 0x400000 = Some t" "frames_ok k"
    using table_at_same [OF k(4), of "0x1000" 3 "0x400000"] entry_writeD(5) [OF k(4)] by (simp_all add: pt_extends_def)
  moreover have "\<forall>w. same_page 0x400000 w \<longrightarrow> map_option fst (mmu k 0x1000 w) = Some (0x700000 + (w AND 0xFFF))"
    using paging_map_4kb_maps [OF boot_frames_ok boot_tree boot_root m al] r by auto
  from this [rule_format, OF same_page_refl] have "map_option fst (mmu k 0x1000 0x400000) = Some 0x700000" by simp
  ultimately show ?thesis
    using paging_unmap_4kb_correct [OF _ tree' [OF k(4)] k(2), of "0x400000"] by (intro exI [of _ k]) auto
qed

text \<open>Mapping a 2 MB page translates all of it and leaves every other address alone, also when
  the place held a table of 4 KB pages; or it runs out of frames and leaves every translation
  alone.\<close>

theorem paging_map_2mb_correct:
  assumes "frames_ok k" "pt_tree k T" "T c = 4" "paging_map_2mb k c v ph fl = (k', r)" "take_bit 21 ph = 0"
  shows "frames_ok k' \<and> (\<exists>T'. pt_tree k' T' \<and> T' c = 4) \<and>
    (if r = 0 then \<forall>w. if same_2mb v w then map_option fst (mmu k' c w) = Some (ph + (w AND 0x1FFFFF))
       else mmu k' c w = mmu k c w
     else r = -1 \<and> page_alloc_end k' \<le> page_alloc_cur k' \<and> (\<forall>w. mmu k' c w = mmu k c w))"
proof -
  let ?u = "fl AND PAGE_USER"
  have u: "?u = 0 \<or> ?u = PAGE_USER"
  proof (cases "bit fl 2")
    case True
    then have "?u = PAGE_USER" by (intro bit_word_eqI) (simp only: pte_bits, auto)
    then show ?thesis ..
  qed (use and_exp_eq_0_iff_not_bit [of fl 2] in simp)
  obtain k1 r1 where n1: "pt_next k c (ix 3 v) True ?u = (k1, r1)" by force
  from pt_next_extends [OF assms(1,2), of c 3, OF _ _ _ _ n1 u] assms(3) obtain T1 where
    T1: "pt_extends k T k1 T1" "r1 = None \<Longrightarrow> page_alloc_end k1 \<le> page_alloc_cur k1"
      "\<And>n. r1 = Some n \<Longrightarrow> T1 n = 3 \<and> link 3 (tab (phys k1) c (ix 3 v)) \<and> frame_of (tab (phys k1) c (ix 3 v)) = n"
    by auto
  have E1: "frames_ok k1" "pt_tree k1 T1" "T1 c = 4" using T1(1) assms(3) by (auto simp: pt_extends_def)
  show ?thesis
  proof (cases r1)
    case None
    then have "k' = k1" "r = -1" using assms(4) n1 by (simp_all add: paging_map_2mb_def ix_def)
    then show ?thesis using E1 T1(2) None mmu_extends [OF T1(1) assms(3)] by auto
  next
    case (Some pdpt)
    note L3 = T1(3) [OF Some]
    obtain k2 r2 where n2: "pt_next k1 pdpt (ix 2 v) True ?u = (k2, r2)" by force
    from pt_next_extends [OF E1(1,2), of pdpt 2, OF _ _ _ _ n2 u] L3 obtain T2 where
      T2: "pt_extends k1 T1 k2 T2" "r2 = None \<Longrightarrow> page_alloc_end k2 \<le> page_alloc_cur k2"
        "\<And>n. r2 = Some n \<Longrightarrow> T2 n = 2 \<and> link 2 (tab (phys k2) pdpt (ix 2 v)) \<and> frame_of (tab (phys k2) pdpt (ix 2 v)) = n"
      by auto
    have E2: "frames_ok k2" "pt_tree k2 T2" "T2 c = 4" using T2(1) E1 by (auto simp: pt_extends_def)
    have ext: "mmu k2 c w = mmu k c w" for w
      using mmu_extends [OF pt_extends_trans [OF T1(1) T2(1)] assms(3)] .
    show ?thesis
    proof (cases r2)
      case None
      then have "k' = k2" "r = -1" using assms(4) n1 n2 Some by (simp_all add: paging_map_2mb_def ix_def)
      then show ?thesis using E2 T2(2) None ext by auto
    next
      case pd: (Some pd)
      note L2 = T2(3) [OF pd]
      define e where "e = ph OR PAGE_PRESENT OR PAGE_RW OR PAGE_HUGE OR ?u"
      have e: "present e" "huge e" unfolding present_bit huge_bit e_def by (simp_all only: pte_bits) simp_all
      have k': "k' = set_tab k2 pd (ix 1 v) e" "r = 0"
        using assms(4) n1 n2 Some pd by (simp_all add: paging_map_2mb_def ix_def e_def)
      then have W: "entry_write k2 T2 1 pd (ix 1 v) e k'" using L2 E2 e by (simp add: entry_write_def link_def)
      have "tab (phys k2) c (ix 3 v) = tab (phys k1) c (ix 3 v)"
        using pt_extends_link [OF T2(1), of c 3] L3 E1 by simp
      then have at: "table_at (phys k2) 1 2 c v = Some pd"
        using L3 L2 by (simp add: numeral_2_eq_2 numeral_3_eq_3 Let_def)
      have "e AND NOT 0x1FFFFF = ph"
      proof (rule bit_word_eqI)
        fix i
        have "bit ph i \<Longrightarrow> \<not> i < 21" using assms(5) by (metis bit_0_eq bit_take_bit_iff bot_apply bot_bool_def)
        moreover have "bit (0x1FFFFF :: u64) i \<longleftrightarrow> i < 21" unfolding mask_21 by (auto simp: bit_simps)
        moreover assume "i < LENGTH(64)"
        ultimately show "bit (e AND NOT 0x1FFFFF) i = bit ph i" 
          unfolding e_def by (simp only: pte_bits) auto
      qed
      then show ?thesis
        using entry_write_2mb [OF W E2(3) at] e ext tree' [OF W] E2 k' by auto
    qed
  qed
qed

theorem paging_map_2mb_correct_witness:
  "\<exists>k'. paging_map_2mb boot_kmem 0x1000 0x40000000 0x400000 PAGE_USER = (k', 0) \<and>
     map_option fst (mmu k' 0x1000 0x40012345) = Some 0x412345 \<and>
     mmu k' 0x1000 0x401234 = mmu boot_kmem 0x1000 0x401234"
proof -
  obtain k' r where m: "paging_map_2mb boot_kmem 0x1000 0x40000000 0x400000 PAGE_USER = (k', r)" by force
  have "pt_index 39 0x40000000 = 0" "pt_index 30 0x40000000 = 1"
    by (simp_all add: pt_index_def drop_bit_eq_div)
  moreover have "present 0x2007" "frame_of 0x2007 = 0x2000" by (simp_all add: present_def frame_of_def)
  ultimately have r: "r = 0"
    using m by (auto simp: paging_map_2mb_def pt_next_def boot_tab boot_aligned boot_alloc memory_alloc_page_def Let_def)
  have s: "same_2mb 0x40000000 0x40012345" "\<not> same_2mb 0x40000000 0x401234" "take_bit 21 (0x400000 :: u64) = 0"
    by (simp_all add: same_2mb_def drop_bit_eq_div take_bit_eq_mod)
  have all: "\<forall>w. if same_2mb 0x40000000 w then map_option fst (mmu k' 0x1000 w) = Some (0x400000 + (w AND 0x1FFFFF))
       else mmu k' 0x1000 w = mmu boot_kmem 0x1000 w"
    using paging_map_2mb_correct [OF boot_frames_ok boot_tree boot_root m s(3)] r by simp
  show ?thesis
    using all [rule_format, of "0x40012345"] all [rule_format, of "0x401234"] s m r by simp
qed

lemma paging_unmap_2mb_correct:
  assumes "frames_ok k" "pt_tree k T" "T c = 4"
  shows "frames_ok (paging_unmap_2mb k c v) \<and> pt_tree (paging_unmap_2mb k c v) T \<and>
    (\<forall>w. mmu (paging_unmap_2mb k c v) c w = (if same_2mb v w then None else mmu k c w))"
proof (cases "table_at (phys k) 1 2 c v")
  case None
  then have "paging_unmap_2mb k c v = k"
    by (auto simp: paging_unmap_2mb_def numeral_2_eq_2 numeral_3_eq_3 Let_def link_def ix_def split: if_splits)
  moreover have "mmu k c w = None" if "same_2mb v w" for w
  proof -
    have "table_at (phys k) 1 2 c w = None" using None table_at_cong [of 1 2 v w] that by (simp add: same_2mb_iff)
    then show ?thesis using mmu_walk_nowhere [OF assms(2) zero_less_one, of c 2 w] assms(3) by (simp only: mmu_4)
  qed
  ultimately show ?thesis using assms by simp
next
  case (Some t)
  have "T t = Suc 1" using table_at_level [OF assms(2), of c 1 2 v t] assms(3) Some by simp
  moreover have k': "paging_unmap_2mb k c v = set_tab k t (ix 1 v) 0"
    using Some by (auto simp: paging_unmap_2mb_def numeral_2_eq_2 numeral_3_eq_3 Let_def link_def ix_def split: if_splits)
  ultimately have W: "entry_write k T 1 t (ix 1 v) 0 (paging_unmap_2mb k c v)"
    using assms(2) by (simp add: entry_write_def)
  have "frames_ok (paging_unmap_2mb k c v)" using k' assms(1) by simp
  then show ?thesis using entry_write_2mb [OF W assms(3) Some] tree' [OF W] by auto
qed

end
