(* ===== verification/Cow.thy ===== *)
theory Cow
  imports Paging
begin

text \<open>
  Address spaces of processes in \<^verbatim>\<open>kernel/memory.c\<close>: the copy of the kernel's address space
  for a new process, the two ways fork copies user memory (page by page, or sharing every
  page copy-on-write), and the handlers of copy-on-write and demand-paging faults. The
  nested loops return from the function in their middle when frames run out: \<open>for_ok\<close>.
\<close>

definition user :: "u64 \<Rightarrow> bool" where
  "user e \<longleftrightarrow> e AND PAGE_USER \<noteq> 0"

primrec create_pd :: "kmem \<Rightarrow> u64 \<Rightarrow> u64 \<Rightarrow> nat \<Rightarrow> kmem" where
  "create_pd k src_pd dst_pd 0 = k"
| "create_pd k src_pd dst_pd (Suc pd_i) =
     (let k' = create_pd k src_pd dst_pd pd_i; pd_entry = tab (phys k') src_pd pd_i in
      if \<not> present pd_entry then k' else set_tab k' dst_pd pd_i pd_entry)"

definition create_pdpt :: "kmem \<Rightarrow> u64 \<Rightarrow> u64 \<Rightarrow> kmem \<times> bool" where
  "create_pdpt k src_pdpt dst_pdpt =
     for_ok 512 (\<lambda>pdpt_i k.
       let pdpt_entry = tab (phys k) src_pdpt pdpt_i in
       if \<not> present pdpt_entry then (k, True)
       else (let (k1, new_pd) = memory_alloc_page k in
         if new_pd = 0 then (k1, False)
         else (let k2 = set_tab k1 dst_pdpt pdpt_i
                     (new_pd OR (pdpt_entry AND (PAGE_RW OR PAGE_USER OR PAGE_PRESENT)))
               in (create_pd k2 (frame_of pdpt_entry) new_pd 512, True)))) k"

definition paging_create :: "kmem \<Rightarrow> kmem \<times> u64" where
  "paging_create k =
     (let (k0, new_pml4) = memory_alloc_page k in
      if new_pml4 = 0 then (k0, 0)
      else (let (k', ok) = for_ok 512 (\<lambda>pml4_i k.
              let pml4_entry = tab (phys k) PML4_ADDR pml4_i in
              if \<not> present pml4_entry then (k, True)
              else if \<not> user pml4_entry then (set_tab k new_pml4 pml4_i pml4_entry, True)
              else (let (k1, new_pdpt) = memory_alloc_page k in
                if new_pdpt = 0 then (k1, False)
                else (let k2 = set_tab k1 new_pml4 pml4_i
                            (new_pdpt OR (pml4_entry AND (PAGE_RW OR PAGE_USER OR PAGE_PRESENT)))
                      in create_pdpt k2 (frame_of pml4_entry) new_pdpt))) k0
            in (k', if ok then new_pml4 else 0)))"

text \<open>
  The three outer loops that \<^verbatim>\<open>paging_clone_user\<close> and \<^verbatim>\<open>paging_cow_clone_user\<close> have in
  common: they reach every present user entry of a page directory of the source whose
  directory the destination has too, and run a body on it.
\<close>

definition for_user_pd ::
  "(kmem \<Rightarrow> u64 \<Rightarrow> u64 \<Rightarrow> nat \<Rightarrow> u64 \<Rightarrow> kmem \<times> bool) \<Rightarrow> kmem \<Rightarrow> u64 \<Rightarrow> u64 \<Rightarrow> kmem \<times> bool" where
  "for_user_pd body k dst_pml4 src_pml4 =
     for_ok 512 (\<lambda>pml4_i k.
       let src_entry = tab (phys k) src_pml4 pml4_i in
       if \<not> present src_entry then (k, True)
       else if \<not> user src_entry then (k, True)
       else (let dst_pml4_entry = tab (phys k) dst_pml4 pml4_i in
         if \<not> present dst_pml4_entry then (k, True)
         else (let src_pdpt = frame_of src_entry; dst_pdpt = frame_of dst_pml4_entry in
           for_ok 512 (\<lambda>pdpt_i k.
             let pdpt_entry = tab (phys k) src_pdpt pdpt_i in
             if \<not> present pdpt_entry then (k, True)
             else (let dst_pdpt_entry = tab (phys k) dst_pdpt pdpt_i in
               if \<not> present dst_pdpt_entry then (k, True)
               else (let src_pd = frame_of pdpt_entry; dst_pd = frame_of dst_pdpt_entry in
                 for_ok 512 (\<lambda>pd_i k.
                   let src_pd_entry = tab (phys k) src_pd pd_i in
                   if \<not> present src_pd_entry then (k, True)
                   else if \<not> user src_pd_entry then (k, True)
                   else body k src_pd dst_pd pd_i src_pd_entry) k))) k))) k"

definition clone_huge :: "kmem \<Rightarrow> u64 \<Rightarrow> u64 \<Rightarrow> u64 \<Rightarrow> kmem \<times> bool" where
  "clone_huge k pt huge_phys huge_flags =
     for_ok 512 (\<lambda>pt_i k.
       let page_phys = huge_phys + of_nat pt_i * 4096; (k1, new_page) = memory_alloc_page k in
       if new_page = 0 then (k1, False)
       else (let k2 = k1\<lparr>phys := memory_copy (phys k1) new_page page_phys 4096\<rparr> in
         (set_tab k2 pt pt_i (new_page OR PAGE_PRESENT OR PAGE_RW OR (huge_flags AND PAGE_USER)), True))) k"

definition clone_pt :: "kmem \<Rightarrow> u64 \<Rightarrow> u64 \<Rightarrow> kmem \<times> bool" where
  "clone_pt k src_pt dst_pt =
     for_ok 512 (\<lambda>pt_i k.
       let src_entry = tab (phys k) src_pt pt_i in
       if \<not> present src_entry then (k, True)
       else (let src_phys = frame_of src_entry; (k1, new_page) = memory_alloc_page k in
         if new_page = 0 then (k1, False)
         else (let k2 = k1\<lparr>phys := memory_copy (phys k1) new_page src_phys 4096\<rparr> in
           (set_tab k2 dst_pt pt_i (new_page OR (src_entry AND (PAGE_PRESENT OR PAGE_RW OR PAGE_USER))), True)))) k"

definition paging_clone_user :: "kmem \<Rightarrow> u64 \<Rightarrow> u64 \<Rightarrow> kmem \<times> int" where
  "paging_clone_user k dst_pml4 src_pml4 =
     (let (k', ok) = for_user_pd (\<lambda>k src_pd dst_pd pd_i src_pd_entry.
        if huge src_pd_entry then
          (let huge_phys = src_pd_entry AND NOT 0x1FFFFF; huge_flags = src_pd_entry AND 0xFFF;
               (k1, pt_phys) = memory_alloc_page k in
           if pt_phys = 0 then (k1, False)
           else clone_huge (set_tab k1 dst_pd pd_i (pt_phys OR PAGE_PRESENT OR PAGE_RW OR (huge_flags AND PAGE_USER)))
                  pt_phys huge_phys huge_flags)
        else
          (let src_pt = frame_of src_pd_entry; (k1, pt_phys) = memory_alloc_page k in
           if pt_phys = 0 then (k1, False)
           else clone_pt (set_tab k1 dst_pd pd_i (pt_phys OR PAGE_PRESENT OR PAGE_RW OR (src_pd_entry AND PAGE_USER)))
                  src_pt pt_phys)) k dst_pml4 src_pml4
      in (k', if ok then 0 else -1))"

definition paging_destroy :: "kmem \<Rightarrow> u64 \<Rightarrow> kmem" where
  "paging_destroy k pml4_phys = k"

definition pte_set_cow :: "kmem \<Rightarrow> u64 \<Rightarrow> kmem" where
  "pte_set_cow k pte =
     (let ph = rd64 (phys k) pte AND NOT 0xFFF;
          flags = rd64 (phys k) pte AND 0xFFF;
          flags = (flags AND NOT PAGE_RW) OR PAGE_COW;
          k' = k\<lparr>phys := wr64 (phys k) pte (ph OR flags)\<rparr>
      in page_ref_inc k' ph)"

primrec cow_share_huge :: "kmem \<Rightarrow> u64 \<Rightarrow> u64 \<Rightarrow> u64 \<Rightarrow> u64 \<Rightarrow> nat \<Rightarrow> kmem" where
  "cow_share_huge k src_pt dst_pt huge_phys huge_flags 0 = k"
| "cow_share_huge k src_pt dst_pt huge_phys huge_flags (Suc pt_i) =
     (let k1 = cow_share_huge k src_pt dst_pt huge_phys huge_flags pt_i;
          page_phys = huge_phys + of_nat pt_i * 4096;
          cow_flags = (huge_flags AND NOT PAGE_HUGE) OR PAGE_PRESENT OR PAGE_COW;
          cow_flags = cow_flags AND NOT PAGE_RW;
          k2 = set_tab k1 src_pt pt_i (page_phys OR cow_flags);
          k3 = set_tab k2 dst_pt pt_i (page_phys OR cow_flags)
      in page_ref_inc (page_ref_inc k3 page_phys) page_phys)"

primrec cow_share_pt :: "kmem \<Rightarrow> u64 \<Rightarrow> u64 \<Rightarrow> nat \<Rightarrow> kmem" where
  "cow_share_pt k src_pt dst_pt 0 = k"
| "cow_share_pt k src_pt dst_pt (Suc pt_i) =
     (let k1 = cow_share_pt k src_pt dst_pt pt_i; src_pte = tab (phys k1) src_pt pt_i in
      if \<not> present src_pte then set_tab k1 dst_pt pt_i 0
      else (let ph = src_pte AND NOT 0xFFF;
                k2 = pte_set_cow k1 (entry src_pt pt_i);
                cow_flags = tab (phys k2) src_pt pt_i AND 0xFFF;
                k3 = set_tab k2 dst_pt pt_i (ph OR cow_flags)
            in page_ref_inc k3 ph))"

definition paging_cow_clone_user :: "kmem \<Rightarrow> u64 \<Rightarrow> u64 \<Rightarrow> kmem \<times> int" where
  "paging_cow_clone_user k dst_pml4 src_pml4 =
     (let (k', ok) = for_user_pd (\<lambda>k src_pd dst_pd pd_i src_pd_entry.
        if huge src_pd_entry then
          (let huge_phys = src_pd_entry AND NOT 0x1FFFFF; huge_flags = src_pd_entry AND 0xFFF;
               (k1, pt_phys) = memory_alloc_page k in
           if pt_phys = 0 then (k1, False)
           else (let k2 = set_tab k1 dst_pd pd_i (pt_phys OR PAGE_PRESENT OR PAGE_RW OR (huge_flags AND PAGE_USER));
                     (k3, src_pt_phys) = memory_alloc_page k2 in
             if src_pt_phys = 0 then (k3, False)
             else (let k4 = set_tab k3 src_pd pd_i (src_pt_phys OR PAGE_PRESENT OR PAGE_RW OR (huge_flags AND PAGE_USER))
                   in (cow_share_huge k4 src_pt_phys pt_phys huge_phys huge_flags 512, True))))
        else
          (let src_pt = frame_of src_pd_entry; (k1, dst_pt_phys) = memory_alloc_page k in
           if dst_pt_phys = 0 then (k1, False)
           else (let k2 = set_tab k1 dst_pd pd_i (dst_pt_phys OR PAGE_PRESENT OR PAGE_RW OR (src_pd_entry AND PAGE_USER))
                 in (cow_share_pt k2 src_pt dst_pt_phys 512, True)))) k dst_pml4 src_pml4
      in (k', if ok then 0 else -1))"

definition paging_handle_cow_fault :: "kmem \<Rightarrow> u64 \<Rightarrow> u64 \<Rightarrow> u64 \<Rightarrow> kmem \<times> int" where
  "paging_handle_cow_fault k pml4 fault_addr err_code =
     (case paging_walk_4kb k pml4 fault_addr False of
        (k1, None) \<Rightarrow> (k1, -1)
      | (k1, Some pte) \<Rightarrow>
          if \<not> present (rd64 (phys k1) pte) then (k1, -1)
          else if rd64 (phys k1) pte AND PAGE_COW = 0 then (k1, -1)
          else (let ph = frame_of (rd64 (phys k1) pte);
                    flags = rd64 (phys k1) pte AND 0xFFF;
                    flags = (flags AND NOT PAGE_COW) OR PAGE_RW in
            if page_ref_get k1 ph > 1 then
              (let (k2, new_phys) = memory_alloc_page k1 in
               if new_phys = 0 then (k2, -1)
               else (let k3 = k2\<lparr>phys := memory_copy (phys k2) new_phys ph 4096\<rparr>;
                         k4 = page_ref_dec k3 ph
                     in (k4\<lparr>phys := wr64 (phys k4) pte (new_phys OR flags OR PAGE_PRESENT)\<rparr>, 0)))
            else
              (page_ref_dec (k1\<lparr>phys := wr64 (phys k1) pte (ph OR flags OR PAGE_PRESENT)\<rparr>) ph, 0)))"

definition paging_handle_demand_fault ::
  "kmem \<Rightarrow> u64 \<Rightarrow> u64 \<Rightarrow> u64 \<Rightarrow> vm_regions option \<Rightarrow> kmem \<times> int" where
  "paging_handle_demand_fault k pml4 fault_addr err_code regions =
     (case regions of None \<Rightarrow> (k, -1)
      | Some rs \<Rightarrow>
     (let page_addr = frame_of fault_addr in
      case vm_region_contains rs fault_addr of None \<Rightarrow> (k, -1)
      | Some flags \<Rightarrow>
     (case paging_walk_4kb k pml4 page_addr True of
        (k1, None) \<Rightarrow> (k1, -1)
      | (k1, Some pte) \<Rightarrow>
          if present (rd64 (phys k1) pte) then (k1, 0)
          else (let (k2, new_phys) = memory_alloc_page k1 in
            if new_phys = 0 then (k2, -1)
            else (k2\<lparr>phys := wr64 (phys k2) pte (new_phys OR flags OR PAGE_PRESENT)\<rparr>, 0)))))"

subsection \<open>Sharing a table copy-on-write\<close>

definition cow_entry :: "u64 \<Rightarrow> u64" where
  "cow_entry e = (e AND NOT PAGE_RW) OR PAGE_COW"

lemma cow_entry_bits:
  "present (cow_entry e) = present e" "frame_of (cow_entry e) = frame_of e" "\<not> bit (cow_entry e) 1" "bit (cow_entry e) 9"
  "bit (cow_entry e) 2 = bit e 2"
proof -
  show "present (cow_entry e) = present e" "\<not> bit (cow_entry e) 1" "bit (cow_entry e) 9" "bit (cow_entry e) 2 = bit e 2"
    unfolding cow_entry_def present_bit by (simp_all only: pte_bits) auto
  show "frame_of (cow_entry e) = frame_of e"
    by (rule bit_word_eqI) (simp only: bit_frame_of cow_entry_def pte_bits, auto)
qed

lemma cow_entry_parts:
  "(e AND NOT 0xFFF) OR (((e AND 0xFFF) AND NOT PAGE_RW) OR PAGE_COW) = cow_entry e"
  "(e AND NOT 0xFFF) OR (cow_entry e AND 0xFFF) = cow_entry e"
  by (rule bit_word_eqI; simp only: cow_entry_def pte_bits, auto)+

lemma tab_page_ref_inc [simp]: "phys (page_ref_inc k p) = phys k" "phys (page_ref_dec k p) = phys k"
  by (simp_all add: page_ref_inc_def page_ref_dec_def Let_def)

lemma set_tab_ref [simp]: "page_ref_get (set_tab k t i v) q = page_ref_get k q"
  by (simp add: set_tab_def page_ref_get_def Let_def)

lemma pte_set_cow_entry:
  "pte_set_cow k (entry t i) = page_ref_inc (set_tab k t i (cow_entry (tab (phys k) t i))) (frame_of (tab (phys k) t i))"
  by (simp only: pte_set_cow_def Let_def cow_entry_parts set_tab_def frame_of_def)

lemma cow_share_pt_step:
  assumes "aligned s" "aligned d" "s \<noteq> d" "i < 512"
  shows "cow_share_pt k s d (Suc i) =
    (let k1 = cow_share_pt k s d i; e = tab (phys k1) s i; p = frame_of e in
     if present e then
       page_ref_inc (set_tab (page_ref_inc (set_tab k1 s i (cow_entry e)) p) d i (cow_entry e)) p
     else set_tab k1 d i 0)"
  using tab_set_tab [OF assms(1,1,4,4)] cow_entry_parts(2)
  by (simp add: Let_def pte_set_cow_entry frame_of_def)

lemma cow_share_pt_tabs:
  assumes "aligned s" "aligned d" "s \<noteq> d" "n \<le> 512" "aligned t" "j < 512"
  shows "tab (phys (cow_share_pt k s d n)) t j =
    (if t = d \<and> j < n then if present (tab (phys k) s j) then cow_entry (tab (phys k) s j) else 0
     else if t = s \<and> j < n \<and> present (tab (phys k) s j) then cow_entry (tab (phys k) s j)
     else tab (phys k) t j)"
  using assms(4-6)
proof (induction n arbitrary: t j)
  case (Suc n)
  have n: "n < 512" using Suc.prems by simp
  let ?k = "cow_share_pt k s d n"
  have e: "tab (phys ?k) s n = tab (phys k) s n" using Suc.IH [OF _ assms(1) n] n assms(3) by simp
  show ?case
    unfolding cow_share_pt_step [OF assms(1-3) n] Let_def e
    using Suc.IH [OF _ Suc.prems(2,3)] n assms(3) assms(1,2) Suc.prems(2,3)
    by (cases "t = d"; cases "t = s") (auto simp: tab_set_tab less_Suc_eq)
qed simp

lemma cow_share_pt_frames [simp]:
  "frames_ok k \<Longrightarrow> frames_ok (cow_share_pt k s d n)"
  by (induction n) (auto simp: Let_def pte_set_cow_entry)

lemma cow_share_pt_refs:
  assumes "frames_ok k" "aligned s" "aligned d" "s \<noteq> d" "n \<le> 512"
  shows "page_ref_get (cow_share_pt k s d n) q = page_ref_get k q +
    2 * of_nat (length (filter (\<lambda>i. present (tab (phys k) s i) \<and> same_frame (frame_of (tab (phys k) s i)) q) [0..<n]))"
  using assms(5)
proof (induction n)
  case (Suc n)
  then have n: "n < 512" by simp
  let ?k = "cow_share_pt k s d n"
  have e: "tab (phys ?k) s n = tab (phys k) s n"
    using cow_share_pt_tabs [OF assms(2-4) _ assms(2) n, of n k] n assms(4) by simp
  show ?case
    unfolding cow_share_pt_step [OF assms(2-4) n] Let_def e
    using Suc.IH n assms(1) by (simp add: page_ref_inc_get algebra_simps)
qed simp

text \<open>Sharing a page table copy-on-write gives the child a table with the parent's frames; in
  both tables every present entry is now read-only and marked copy-on-write, the other
  entries of the child are empty, all other tables are untouched, and the count of a frame
  grows by two for each entry that maps it.\<close>

theorem cow_share_pt_correct:
  assumes "frames_ok k" "aligned src" "aligned dst" "src \<noteq> dst" and k': "k' = cow_share_pt k src dst 512"
  shows "(\<forall>i < 512. let e = tab (phys k) src i in
      tab (phys k') dst i = (if present e then tab (phys k') src i else 0) \<and>
      (if present e then frame_of (tab (phys k') src i) = frame_of e \<and> present (tab (phys k') src i) \<and>
         tab (phys k') src i AND PAGE_RW = 0 \<and> tab (phys k') src i AND PAGE_COW \<noteq> 0 \<and>
         user (tab (phys k') src i) = user e
       else tab (phys k') src i = e)) \<and>
    (\<forall>t i. aligned t \<and> i < 512 \<and> t \<noteq> src \<and> t \<noteq> dst \<longrightarrow> tab (phys k') t i = tab (phys k) t i) \<and>
    (\<forall>q. page_ref_get k' q = page_ref_get k q + 2 * of_nat (length (filter
       (\<lambda>i. present (tab (phys k) src i) \<and> same_frame (frame_of (tab (phys k) src i)) q) [0..<512])))"
proof -
  note T = cow_share_pt_tabs [OF assms(2-4) order_refl]
  have f: "cow_entry e AND PAGE_RW = 0" "cow_entry e AND PAGE_COW \<noteq> 0" "user (cow_entry e) = user e" for e
    using cow_entry_bits [of e] and_exp_eq_0_iff_not_bit [of "cow_entry e" 1] and_exp_eq_0_iff_not_bit [of "cow_entry e" 9]
      and_exp_eq_0_iff_not_bit [of "cow_entry e" 2] and_exp_eq_0_iff_not_bit [of e 2]
    by (simp_all add: user_def)
  show ?thesis
    unfolding k' using cow_share_pt_refs [OF assms(1-4) order_refl] assms(2-4)
    by (simp add: T Let_def f cow_entry_bits)
qed

theorem cow_share_pt_correct_witness:
  "tab (phys (cow_share_pt boot_kmem 0x3000 0x610000 512)) 0x610000 2 AND PAGE_RW = 0 \<and>
   frame_of (tab (phys (cow_share_pt boot_kmem 0x3000 0x610000 512)) 0x610000 2) = 0x400000 \<and>
   tab (phys (cow_share_pt boot_kmem 0x3000 0x610000 512)) 0x610000 7 = 0"
proof -
  have al: "aligned 0x610000" by (simp add: aligned_dvd)
  have e: "present 0x400087" "frame_of 0x400087 = 0x400000" by (simp_all add: present_def frame_of_def)
  note C = cow_share_pt_correct [OF boot_frames_ok boot_aligned(3) al _ refl, THEN conjunct1, rule_format]
  show ?thesis
    using C [of 2] C [of 7] e by (simp add: boot_tab boot_aligned Let_def)
qed

subsection \<open>Page faults\<close>

lemma aligned_page_overlap:
  assumes "aligned t" "aligned n" "unat (t + of_nat i - n) < 4096" "i < 4096"
  shows "t = n"
proof -
  define j where "j = unat (t + of_nat i - n)"
  have "t + of_nat i = n + of_nat j" unfolding j_def by (subst word_offset_iff) (use assms(3) in simp_all)
  then have "unat t + i = unat n + j"
    using unat_aligned_add [of 12 t i] unat_aligned_add [of 12 n j] assms by (simp add: aligned_dvd j_def)
  then show ?thesis
    using page_offset_eq [of "unat t" "unat n" i j] assms by (simp add: aligned_dvd j_def unat_eq_iff [of t])
qed

lemma tab_outside:
  assumes "aligned t" "aligned n" "t \<noteq> n" "i < 512" "\<And>a. \<not> unat (a - n) < 4096 \<Longrightarrow> m' a = m a"
  shows "tab m' t i = tab m t i"
proof (rule rd64_cong)
  fix j :: nat assume j: "j < 8"
  have e: "entry t i + of_nat j = t + of_nat (8 * i + j)" by (simp add: entry_def)
  show "m' (entry t i + of_nat j) = m (entry t i + of_nat j)"
    unfolding e using aligned_page_overlap [OF assms(1,2), of "8 * i + j"] assms(3,4) j by (intro assms(5)) auto
qed

lemma pt_extends_tabs:
  assumes tree: "pt_tree k T" and "frames_ok k'" and free: "\<And>s. free_frame k' s \<Longrightarrow> free_frame k s"
    and tabs: "\<And>s j. T s \<noteq> 0 \<Longrightarrow> j < 512 \<Longrightarrow> tab (phys k') s j = tab (phys k) s j"
    and data: "\<And>a. data_at k T a \<Longrightarrow> phys k' a = phys k a"
  shows "pt_extends k T k' T"
proof -
  have tabs': "tab (phys k') s j = tab (phys k) s j" if "T s = Suc l" "j < 512" for s l j
    using tabs [of s j] that by simp
  have "mmu_walk (phys k') (Suc l) s acc v = mmu_walk (phys k) (Suc l) s acc v" if "T s = Suc l" for s l acc v
    using walk_below [OF tree, of l "phys k'" s acc v] that tabs by blast
  moreover have "pt_tree k' T"
    using tree free tabs' unfolding pt_tree_def by (smt (verit))
  moreover have "data_at k' T a" if "data_at k T a" for a using that free by (auto simp: data_at_def)
  ultimately show ?thesis unfolding pt_extends_def using assms(2) free tabs' data by blast
qed

text \<open>A fresh frame with the contents of a frame in use.\<close>

lemma copy_page:
  assumes ok: "frames_ok k" and tree: "pt_tree k T" and al: "memory_alloc_page k = (k2, n)" "n \<noteq> 0"
    and p: "aligned p" "\<not> free_frame k p"
    and k3: "k3 = k2\<lparr>phys := memory_copy (phys k2) n p 4096\<rparr>"
  shows "pt_extends k T k3 T" and "i < 4096 \<Longrightarrow> phys k3 (n + of_nat i) = phys k (p + of_nat i)"
    and "page_ref_get k3 q = page_ref_get k q"
    and "\<not> unat (a - n) < 4096 \<Longrightarrow> phys k3 a = phys k a"
proof -
  note A = alloc_page_tree [OF ok tree al] and D = memory_alloc_pageD [OF ok al]
  have pn: "p \<noteq> n" using p(2) D(3) by auto
  have src: "\<not> unat (p + of_nat i - n) < 4096" if "i < 4096" for i
    using aligned_page_overlap [OF p(1) A(2) _ that] pn by blast
  have src2: "phys k2 (p + of_nat i) = phys k (p + of_nat i)" if "i < 4096" for i
    using src [OF that] D(6) by simp
  have copy: "memory_copy (phys k2) n p 4096 a =
      (if unat (a - n) < 4096 then phys k2 (p + of_nat (unat (a - n))) else phys k2 a)" for a
  proof -
    have "\<not> unat (x - n) < 4096" if "unat (x - p) < 4096" for x using src [OF that] by simp
    then show ?thesis using memory_copy_eq [of 4096 p n "phys k2"] by simp
  qed
  then show out: "\<not> unat (a - n) < 4096 \<Longrightarrow> phys k3 a = phys k a" for a using D(6) by (simp add: k3)
  show "phys k3 (n + of_nat i) = phys k (p + of_nat i)" if "i < 4096"
    using that copy [of "n + of_nat i"] src2 [OF that] by (simp add: k3 unat_of_nat_small)
  show "page_ref_get k3 q = page_ref_get k q" using D(8) by (simp add: k3 page_ref_get_def Let_def)
  show "pt_extends k T k3 T"
  proof (rule pt_extends_tabs [OF tree])
    show "frames_ok k3" using A(4) by (simp add: k3 frames_ok_def)
    show "free_frame k s" if "free_frame k3 s" for s using that A(5) by (simp add: k3 free_frame_def)
    show "tab (phys k3) s j = tab (phys k) s j" if "T s \<noteq> 0" "j < 512" for s j
    proof (rule tab_outside [OF _ A(2) _ that(2) out])
      show "aligned s" using that(1) pt_treeD(1) [OF tree, of s] by (cases "T s") auto
      show "s \<noteq> n" using that(1) A(1) by auto
    qed
    show "phys k3 a = phys k a" if "data_at k T a" for a
      using that alloc_page_data(2) [OF ok al] by (intro out) (simp add: data_at_def)
  qed
qed

lemma table_at_extends:
  assumes "pt_tree k T" "pt_extends k T k' T'"
  shows "T s = Suc (b + l) \<Longrightarrow> table_at (phys k) b l s v = Some t \<Longrightarrow> table_at (phys k') b l s v = Some t"
proof (induction l arbitrary: s)
  case (Suc l)
  let ?e = "tab (phys k) s (ix (Suc (b + l)) v)"
  have T: "T s = Suc (Suc (b + l))" using Suc.prems by simp
  have L: "link (Suc (b + l)) ?e" "table_at (phys k) b l (frame_of ?e) v = Some t"
    using Suc.prems by (auto simp: Let_def split: if_splits)
  then show ?case
    using Suc.IH [of "frame_of ?e"] pt_treeD(3) [OF assms(1) T] pt_extends_link [OF assms(2) T ix_less L(1)]
    by (simp add: Let_def)
qed simp

definition cow_flags :: "u64 \<Rightarrow> u64" where
  "cow_flags e = ((e AND 0xFFF) AND NOT PAGE_COW) OR PAGE_RW"

lemma cow_flags_entry:
  assumes "aligned n" "present e"
  shows "frame_of (n OR cow_flags e OR PAGE_PRESENT) = n" "present (n OR cow_flags e OR PAGE_PRESENT)"
    and "(n OR cow_flags e OR PAGE_PRESENT) AND 0xFFF = cow_flags e"
proof -
  let ?f = "cow_flags e OR PAGE_PRESENT"
  show "frame_of (n OR ?f) = n"
    by (rule frame_of_orI [OF assms(1)]) (simp only: cow_flags_def pte_bits, auto)
  show "present (n OR ?f)" by (simp only: present_bit pte_bits) simp
  show "(n OR ?f) AND 0xFFF = cow_flags e"
    by (rule bit_word_eqI) (use aligned_bit [OF assms(1)] assms(2) in \<open>simp only: cow_flags_def present_bit pte_bits, auto\<close>)
qed

text \<open>What the handler does once the entry is found.\<close>

lemma cow_fault_eq:
  assumes "table_at (phys k) 0 3 c v = Some t" "e = tab (phys k) t (ix 0 v)" "present e" "e AND PAGE_COW \<noteq> 0"
  shows "paging_handle_cow_fault k c v err =
    (if page_ref_get k (frame_of e) > 1 then
       (let (k2, n) = memory_alloc_page k in
        if n = 0 then (k2, -1)
        else (set_tab (page_ref_dec (k2\<lparr>phys := memory_copy (phys k2) n (frame_of e) 4096\<rparr>) (frame_of e)) t (ix 0 v)
                (n OR cow_flags e OR PAGE_PRESENT), 0))
     else (page_ref_dec (set_tab k t (ix 0 v) (frame_of e OR cow_flags e OR PAGE_PRESENT)) (frame_of e), 0))"
  using assms unfolding paging_handle_cow_fault_def paging_walk_find
  by (simp add: Let_def cow_flags_def set_tab_def split: prod.splits)

lemma cow_fault_entry:
  assumes ok: "frames_ok k" and tree: "pt_tree k T" and c: "T c = 4" "table_at (phys k) 0 3 c v = Some t"
    and ext: "pt_extends k T k4 T" and k': "k' = set_tab k4 t (ix 0 v) (n OR cow_flags e OR PAGE_PRESENT)"
    and n: "aligned n" "present e"
  shows "frames_ok k' \<and> pt_tree k' T \<and> map_option fst (mmu k' c v) = Some (n + (v AND 0xFFF)) \<and>
    paging_get_flags k' c v = cow_flags e \<and> (\<forall>w. \<not> same_page v w \<longrightarrow> mmu k' c w = mmu k c w)"
proof -
  have t: "T t = Suc 0" using table_at_level [OF tree, of c 0 3 v t] c by simp
  have at: "table_at (phys k4) 0 3 c v = Some t" using table_at_extends [OF tree ext, of c 0 3] c by simp
  have E: "frames_ok k4" "pt_tree k4 T" using ext by (simp_all add: pt_extends_def)
  have W: "entry_write k4 T 0 t (ix 0 v) (n OR cow_flags e OR PAGE_PRESENT) k'"
    using E t k' by (simp add: entry_write_def link_def)
  have at': "table_at (phys k') 0 3 c v = Some t" using table_at_same [OF W, of c 3 v] at c by simp
  show ?thesis
    using entry_write_page [OF W c(1) at] cow_flags_entry [OF n] tree' [OF W] E(1) mmu_extends [OF ext c(1)]
      paging_get_flags_at [OF at'] tabs [OF W, of t "ix 0 v"] t by (simp add: k')
qed

lemma set_tab_ref_dec: "page_ref_dec (set_tab k t i x) p = set_tab (page_ref_dec k p) t i x"
  by (simp add: page_ref_dec_def set_tab_def Let_def)

lemma pt_extends_ref_dec: "frames_ok k \<Longrightarrow> pt_tree k T \<Longrightarrow> pt_extends k T (page_ref_dec k p) T"
  by (rule pt_extends_tabs) (simp_all add: free_frame_def)

lemma page_ref_dec_same:
  "frames_ok k \<Longrightarrow> page_ref_get (page_ref_dec k p) p = (if page_ref_get k p > 0 then page_ref_get k p - 1 else 0)"
  by (auto simp: page_ref_dec_get same_frame_def page_ref_get_outside word_gt_0)

lemma set_tab_outside:
  assumes "aligned t" "aligned n" "t \<noteq> n" "i < 512" "j < 4096"
  shows "phys (set_tab k t i x) (n + of_nat j) = phys k (n + of_nat j)"
proof -
  have "\<not> unat (n + of_nat j - entry t i) < 8"
  proof
    define d where "d = unat (n + of_nat j - entry t i)"
    assume "unat (n + of_nat j - entry t i) < 8"
    then have d: "d < 8" by (simp add: d_def)
    have "n + of_nat j - t = of_nat (8 * i + d)" by (simp add: d_def entry_def)
    moreover have "unat (of_nat (8 * i + d) :: u64) = 8 * i + d" using assms(4) d by (intro unat_of_nat_small) simp
    ultimately have "unat (n + of_nat j - t) = 8 * i + d" by simp
    then show False using aligned_page_overlap [OF assms(2,1) _ assms(5)] assms(3,4) d by simp
  qed
  then show ?thesis by (simp add: set_tab_def wr64_def)
qed

text \<open>A frame of the pool, counted twice and mapped copy-on-write into the boot tables.\<close>

definition shared_kmem :: kmem where
  "shared_kmem = page_ref_inc (page_ref_inc (fst (memory_alloc_page boot_kmem)) 0x600000) 0x600000"

lemma shared_kmem:
  "frames_ok shared_kmem" "pt_tree shared_kmem boot_levels" "\<not> free_frame shared_kmem 0x600000"
  "page_ref_get shared_kmem 0x600000 = 2" "page_alloc_cur shared_kmem = 0x601000" "page_alloc_end shared_kmem = 0x800000"
  "boot_levels t \<noteq> 0 \<Longrightarrow> i < 512 \<Longrightarrow> tab (phys shared_kmem) t i = tab (phys boot_kmem) t i"
proof -
  have al: "memory_alloc_page boot_kmem = (fst (memory_alloc_page boot_kmem), 0x600000)"
    by (simp add: memory_alloc_page_def boot_alloc Let_def)
  note A = alloc_page_tree [OF boot_frames_ok boot_tree al] and D = memory_alloc_pageD [OF boot_frames_ok al]
  have E: "pt_extends boot_kmem boot_levels (fst (memory_alloc_page boot_kmem)) boot_levels"
    by (rule pt_extends_alloc [OF boot_frames_ok boot_tree al])
  show "frames_ok shared_kmem" using A(4) by (simp add: shared_kmem_def)
  have "pt_tree (page_ref_inc k p) T = pt_tree k T" for k p T by (simp add: pt_tree_def free_frame_def)
  then show "pt_tree shared_kmem boot_levels" using E by (simp add: shared_kmem_def pt_extends_def)
  show "\<not> free_frame shared_kmem 0x600000" using A(3) by (simp add: shared_kmem_def free_frame_def)
  have "page_ref_get boot_kmem 0x600000 = 0"
    by (simp add: boot_kmem_def page_simps memory_init_def page_ref_init_def memory_page_init_def)
  moreover have "page_refcounts (fst (memory_alloc_page boot_kmem)) = page_refcounts boot_kmem"
    using D(8) by simp
  ultimately have "page_ref_get (fst (memory_alloc_page boot_kmem)) 0x600000 = 0"
    by (simp only: page_ref_get_def)
  then show "page_ref_get shared_kmem 0x600000 = 2"
    using A(4) by (simp add: shared_kmem_def page_ref_inc_get same_frame_def)
  show "page_alloc_cur shared_kmem = 0x601000" "page_alloc_end shared_kmem = 0x800000"
    by (simp_all add: shared_kmem_def memory_alloc_page_def boot_alloc Let_def)
  show "boot_levels t \<noteq> 0 \<Longrightarrow> i < 512 \<Longrightarrow> tab (phys shared_kmem) t i = tab (phys boot_kmem) t i"
    using A(6) by (simp add: shared_kmem_def)
qed

lemma shared_map:
  assumes "paging_map_4kb shared_kmem 0x1000 0x400000 0x600000 (PAGE_USER OR PAGE_COW) = (k, r)"
  shows "r = 0 \<and> page_alloc_cur k = 0x602000 \<and> page_alloc_end k = 0x800000 \<and> page_refcounts k = page_refcounts shared_kmem"
proof -
  have "pt_index 39 0x400000 = 0" "pt_index 30 0x400000 = 0" "pt_index 21 0x400000 = 2"
    by (simp_all add: pt_index_def drop_bit_eq_div)
  moreover have "present 0x2007" "present 0x3007" "present 0x400087" "huge 0x400087"
    "frame_of 0x2007 = 0x2000" "frame_of 0x3007 = 0x3000" by (simp_all add: present_def huge_def frame_of_def)
  moreover have "boot_levels 0x1000 \<noteq> 0" "boot_levels 0x2000 \<noteq> 0" "boot_levels 0x3000 \<noteq> 0"
    by (simp_all add: boot_levels_def)
  ultimately show ?thesis
    using assms by (auto simp: paging_map_4kb_def paging_walk_4kb_def pt_next_def pd_next_def shared_kmem boot_tab boot_aligned
        memory_alloc_page_def Let_def)
qed



lemma paging_walk_mmu:
  assumes "pt_tree k T" "T c = 4" "table_at (phys k) 0 3 c v = Some t"
  shows "mmu k c v = None \<longleftrightarrow> \<not> present (tab (phys k) t (ix 0 v))"
proof -
  have "mmu k c v = mmu_walk (phys k) (Suc 0) t (path_rights (phys k) 0 3 c (PAGE_RW OR PAGE_USER) v) v"
    using mmu_walk_at [OF assms(1), of c 0 3 v t] assms(2,3) by (simp add: mmu_def numeral_eq_Suc del: mmu_walk.simps)
  then show ?thesis by (simp add: Let_def)
qed

lemma same_page_frame: "same_page a (frame_of a)" "frame_of a AND 0xFFF = 0" "same_page a b = same_page (frame_of a) b"
proof -
  have "take_bit 36 (drop_bit 12 a) = take_bit 36 (drop_bit 12 (frame_of a))"
    by (rule bit_word_eqI) (simp add: bit_take_bit_iff bit_drop_bit_eq bit_frame_of)
  then show "same_page a (frame_of a)" "same_page a b = same_page (frame_of a) b" by (simp_all add: same_page_def)
  show "frame_of a AND 0xFFF = 0"
    by (rule bit_word_eqI) (simp add: bit_low12 bit_frame_of)
qed

text \<open>A fault on an address of a demand-paging region maps a fresh zeroed frame there with the
  flags of the region; if the page is mapped already nothing changes. No other page is
  affected. The handler fails only when there are no frames left.\<close>

theorem paging_handle_demand_fault_correct:
  assumes ok: "frames_ok k" and tree: "pt_tree k T" and c: "T c = 4"
    and fl: "vm_region_contains rs a = Some fl" "fl < 0x1000"
    and h: "paging_handle_demand_fault k c a err (Some rs) = (k', r)"
  shows "frames_ok k' \<and> (\<exists>T'. pt_tree k' T' \<and> T' c = 4) \<and>
    (\<forall>w. \<not> same_page a w \<longrightarrow> mmu k' c w = mmu k c w) \<and>
    (if r = 0 then
       if mmu k c (frame_of a) = None then
         \<exists>n. free_frame k n \<and> map_option fst (mmu k' c (frame_of a)) = Some n \<and>
           paging_get_flags k' c (frame_of a) = fl OR PAGE_PRESENT \<and> (\<forall>i < 4096. phys k' (n + of_nat i) = 0)
       else mmu k' c (frame_of a) = mmu k c (frame_of a)
     else r = -1 \<and> page_alloc_end k' \<le> page_alloc_cur k' \<and> mmu k' c (frame_of a) = mmu k c (frame_of a))"
proof -
  let ?v = "frame_of a"
  obtain k1 r1 where w: "paging_walk_4kb k c ?v True = (k1, r1)" by force
  from paging_walk_extends [OF ok tree c w] obtain T1 where
    T1: "pt_extends k T k1 T1" "r1 = None \<Longrightarrow> page_alloc_end k1 \<le> page_alloc_cur k1"
      "\<And>p. r1 = Some p \<Longrightarrow> \<exists>t. table_at (phys k1) 0 3 c ?v = Some t \<and> T1 t = 1 \<and> p = entry t (ix 0 ?v)"
    by auto
  have E: "frames_ok k1" "pt_tree k1 T1" "T1 c = 4" using T1(1) c by (simp_all add: pt_extends_def)
  note M = mmu_extends [OF T1(1) c]
  show ?thesis
  proof (cases r1)
    case None
    then have "k' = k1" "r = -1" using h fl w by (simp_all add: paging_handle_demand_fault_def)
    then show ?thesis using E T1(2) [OF None] M by auto
  next
    case (Some pte)
    then obtain t where t: "table_at (phys k1) 0 3 c ?v = Some t" "T1 t = 1" "pte = entry t (ix 0 ?v)" using T1(3) by blast
    note P = paging_walk_mmu [OF E(2,3) t(1)]
    show ?thesis
    proof (cases "present (tab (phys k1) t (ix 0 ?v))")
      case True
      then have "k' = k1" "r = 0" using h fl w Some t by (simp_all add: paging_handle_demand_fault_def)
      moreover have "mmu k c ?v \<noteq> None" using True P M [of ?v] by simp
      ultimately show ?thesis using E M by auto
    next
      case False
      then have none: "mmu k c ?v = None" using P M [of ?v] by simp
      obtain k2 n where al: "memory_alloc_page k1 = (k2, n)" by force
      show ?thesis
      proof (cases "n = 0")
        case True
        then have "k' = k1" "r = -1" "page_alloc_end k1 \<le> page_alloc_cur k1"
          using h fl w Some t False al memory_alloc_page_zero [OF E(1), of k2]
          by (auto simp: paging_handle_demand_fault_def)
        then show ?thesis using E M by auto
      next
        case n: False
        note A = alloc_page_tree [OF E(1,2) al n] and D = memory_alloc_pageD [OF E(1) al n]
        have X: "pt_extends k1 T1 k2 T1" by (rule pt_extends_alloc [OF E(1,2) al])
        let ?e = "n OR (fl OR PAGE_PRESENT)"
        have k': "k' = set_tab k2 t (ix 0 ?v) ?e" "r = 0"
          using h fl w Some t False al n by (simp_all add: paging_handle_demand_fault_def set_tab_def or.assoc)
        have W: "entry_write k2 T1 0 t (ix 0 ?v) ?e k'"
          using X t k' by (simp add: entry_write_def pt_extends_def link_def)
        have at: "table_at (phys k2) 0 3 c ?v = Some t" using table_at_extends [OF E(2) X, of c 0 3] E t by simp
        have f: "bit fl i \<Longrightarrow> i < 12" for i using low12_bit [OF fl(2)] .
        have fr: "frame_of ?e = n" by (rule frame_of_orI [OF A(2)]) (use f in \<open>simp only: pte_bits, auto\<close>)
        have pr: "present ?e" by (simp only: present_bit pte_bits) simp
        have low: "?e AND 0xFFF = fl OR PAGE_PRESENT"
          by (rule bit_word_eqI) (use f aligned_bit [OF A(2)] in \<open>simp only: pte_bits, auto\<close>)
        have at': "table_at (phys k') 0 3 c ?v = Some t" using table_at_same [OF W, of c 3 ?v] at E by simp
        have flags: "paging_get_flags k' c ?v = fl OR PAGE_PRESENT"
          using paging_get_flags_at [OF at'] tabs [OF W, of t "ix 0 ?v"] t low by simp
        have "t \<noteq> n" using t A(1) by auto
        then have zero: "phys k' (n + of_nat i) = 0" if "i < 4096" for i
          using set_tab_outside [OF pt_treeD(1) [OF E(2), of t 0] A(2) _ ix_less that] D(6) that t
          by (simp add: k' unat_of_nat_small)
        have "free_frame k n" using D(3) T1(1) by (simp add: pt_extends_def)
        then show ?thesis
          using entry_write_page [OF W E(3) at] tree' [OF W] A(4) k' none flags zero pr fr M mmu_extends [OF X E(3)] E(3)
            same_page_frame by (auto simp: pt_extends_def)
      qed
    qed
  qed
qed

theorem paging_handle_demand_fault_correct_witness:
  "\<exists>k' n. paging_handle_demand_fault boot_kmem 0x1000 0x801234 6
       (Some [\<lparr>vm_start = 0x800000, vm_end = 0x900000, vm_flags = PAGE_USER OR PAGE_RW\<rparr>]) = (k', 0) \<and>
     map_option fst (mmu k' 0x1000 0x801000) = Some n \<and> phys k' (n + 8) = 0 \<and>
     mmu k' 0x1000 0x200000 = mmu boot_kmem 0x1000 0x200000"
proof -
  let ?rs = "[\<lparr>vm_start = 0x800000, vm_end = 0x900000, vm_flags = PAGE_USER OR PAGE_RW\<rparr>]"
  obtain k' r where h: "paging_handle_demand_fault boot_kmem 0x1000 0x801234 6 (Some ?rs) = (k', r)" by force
  have rs: "vm_region_contains ?rs 0x801234 = Some 6" by (simp add: vm_unused_def)
  have v: "frame_of 0x801234 = 0x801000" "pt_index 39 0x801000 = 0" "pt_index 30 0x801000 = 0" "pt_index 21 0x801000 = 4"
    by (simp_all add: pt_index_def drop_bit_eq_div frame_of_def)
  have e: "present 0x2007" "present 0x3007" "\<not> huge 0x2007" "\<not> huge 0x3007"
    "frame_of 0x2007 = 0x2000" "frame_of 0x3007 = 0x3000" by (simp_all add: present_def huge_def frame_of_def)
  have "\<not> page_alloc_end k' \<le> page_alloc_cur k'"
    using h rs v e by (auto simp: paging_handle_demand_fault_def paging_walk_4kb_def pt_next_def pd_next_def boot_tab
        boot_aligned boot_alloc memory_alloc_page_def Let_def split: if_splits)
  moreover have "mmu boot_kmem 0x1000 0x801000 = None"
    using v e by (simp add: mmu_def numeral_eq_Suc ix_def boot_tab boot_aligned Let_def)
  moreover have "\<not> same_page 0x801234 0x200000" by (simp add: same_page_def drop_bit_eq_div take_bit_eq_mod)
  ultimately obtain n where "map_option fst (mmu k' 0x1000 0x801000) = Some n" "r = 0"
      "\<forall>i < 4096. phys k' (n + of_nat i) = 0" "mmu k' 0x1000 0x200000 = mmu boot_kmem 0x1000 0x200000"
    using paging_handle_demand_fault_correct [OF boot_frames_ok boot_tree boot_root rs _ h] v(1) by (auto split: if_splits)
  moreover from this(3) [rule_format, of 8] have "phys k' (n + 8) = 0" by simp
  ultimately show ?thesis using h by auto
qed

end
