(* ===== verification/Tasks.thy ===== *)
theory Tasks
  imports Cow
begin

text \<open>
  The kernel's state beyond memory, and the scheduler of \<^verbatim>\<open>kernel/scheduler.c\<close>: tasks lie
  in a fixed pool and are linked into a ring; the timer interrupt runs \<^verbatim>\<open>scheduler_tick\<close>.
  A pointer to a task is an index into the pool, and a pointer to a pipe one into the pipe
  pool; \<^verbatim>\<open>NULL\<close> is \<open>None\<close>. The loops over the ring may in principle not end; they are
  partial functions, and are proved to return on the rings the scheduler builds.
\<close>

datatype task_state_t = TASK_READY | TASK_RUNNING | TASK_BLOCKED | TASK_ZOMBIE

record task_t =
  pid :: u32
  task_name :: bytes
  state :: task_state_t
  rsp :: u64
  stack_base :: u64
  cr3 :: u64
  next_task :: "nat option"
  parent_pid :: u32
  exit_code :: int
  waited :: bool
  vm_regions :: vm_regions
  fd_type :: "u8 list"
  fd_data :: "nat option list"
  signal_handlers :: "u64 list"
  signal_pending :: u64
  signal_mask :: u64
  saved_rip :: u64
  saved_rsp :: u64
  saved_rflags :: u64
  trampoline_addr :: u64
  in_signal :: bool

record pipe_t =
  pipe_buf :: bytes
  pipe_head :: u32
  pipe_tail :: u32
  pipe_count :: u32
  read_open :: bool
  write_open :: bool
  read_refcnt :: int
  write_refcnt :: int
  blocked_reader :: "nat option"
  blocked_writer :: "nat option"
  pipe_used :: bool

record sys =
  mem :: kmem
  task_pool :: "task_t list"
  task_count :: nat
  current_task :: "nat option"
  task_list :: "nat option"
  next_pid :: u32
  pending_switch :: "nat option"
  pending_rsp :: u64
  pending_cr3 :: u64
  tss_rsp0 :: u64
  pipe_pool :: "pipe_t list"

definition TASK_NAME_MAX :: nat where "TASK_NAME_MAX = 16"
definition MAX_TASKS :: nat where "MAX_TASKS = 16"
definition STACK_SIZE :: u64 where "STACK_SIZE = 4096"
definition MAX_FDS :: nat where "MAX_FDS = 8"
definition NSIGS :: nat where "NSIGS = 32"
definition SIG_DFL :: u64 where "SIG_DFL = 0"
definition SIG_IGN :: u64 where "SIG_IGN = 1"

definition upd_task :: "sys \<Rightarrow> nat \<Rightarrow> (task_t \<Rightarrow> task_t) \<Rightarrow> sys" where
  "upd_task s i f = s\<lparr>task_pool := (task_pool s)[i := f (task_pool s ! i)]\<rparr>"

definition signal_init_task :: "task_t \<Rightarrow> task_t" where
  "signal_init_task t = t\<lparr>signal_handlers := replicate NSIGS SIG_DFL, signal_pending := 0, signal_mask := 0,
     saved_rip := 0, saved_rsp := 0, saved_rflags := 0, trampoline_addr := 0, in_signal := False\<rparr>"

definition get_current_task :: "sys \<Rightarrow> nat option" where
  "get_current_task s = current_task s"

partial_function (option) scan_ready :: "sys \<Rightarrow> nat option \<Rightarrow> nat option \<Rightarrow> nat option option" where
  "scan_ready s start t =
     (if t = start then Some start
      else case t of
        None \<Rightarrow> scan_ready s start (task_list s)
      | Some i \<Rightarrow> if state (task_pool s ! i) = TASK_READY then Some t
          else scan_ready s start (next_task (task_pool s ! i)))"

definition scheduler_next :: "sys \<Rightarrow> nat option option" where
  "scheduler_next s =
     (case current_task s of
        None \<Rightarrow> Some (task_list s)
      | Some c \<Rightarrow>
          if next_task (task_pool s ! c) = None then Some (task_list s)
          else scan_ready s (Some c) (next_task (task_pool s ! c)))"

definition copy_name :: "bytes \<Rightarrow> bytes \<Rightarrow> bytes" where
  "copy_name src dst = put_at 0 (take (TASK_NAME_MAX - 1) (cstr src) @ [0]) dst"

definition scheduler_init :: "sys \<Rightarrow> sys" where
  "scheduler_init s =
     (let s = s\<lparr>task_count := 1, task_list := None, next_pid := 1, pending_switch := None, pending_rsp := 0,
          pending_cr3 := 0\<rparr>;
          s = upd_task s 0 (\<lambda>t. t\<lparr>task_name := put_at 0 (str ''main'' @ [0]) (task_name t), pid := 0,
            state := TASK_RUNNING, rsp := 0, stack_base := 0, cr3 := 0x1000, parent_pid := 0, exit_code := 0,
            waited := False, vm_regions := vm_region_init, fd_type := replicate MAX_FDS 0,
            fd_data := replicate MAX_FDS None\<rparr>);
          s = upd_task s 0 signal_init_task;
          s = s\<lparr>current_task := Some 0, task_list := Some 0\<rparr>
      in upd_task s 0 (next_task_update (\<lambda>_. Some 0)))"

partial_function (option) find_last :: "sys \<Rightarrow> nat \<Rightarrow> nat option" where
  "find_last s t =
     (if next_task (task_pool s ! t) = task_list s then Some t
      else case next_task (task_pool s ! t) of None \<Rightarrow> None | Some i \<Rightarrow> find_last s i)"

definition push64 :: "u64 \<Rightarrow> memory \<times> u64 \<Rightarrow> memory \<times> u64" where
  "push64 v = (\<lambda>(m, sp). (wr64 m (sp - 8) v, sp - 8))"

definition initial_stack :: "memory \<Rightarrow> u64 \<Rightarrow> u64 \<Rightarrow> memory \<times> u64" where
  "initial_stack m base entry_point =
     fold push64 ([0x10, base + STACK_SIZE - 256, 0x202, 0x08, entry_point, 0, 0] @ replicate 15 0)
       (m, base + STACK_SIZE)"

text \<open>The end of \<^verbatim>\<open>task_create\<close> and of \<^verbatim>\<open>sys_fork\<close>: the new task is linked in as the last
  one of the ring.\<close>

definition link_task :: "sys \<Rightarrow> nat \<Rightarrow> sys option" where
  "link_task s i =
     (case task_list s of None \<Rightarrow> None
      | Some l \<Rightarrow> (case find_last s l of None \<Rightarrow> None
      | Some t \<Rightarrow>
          (let s = upd_task s t (next_task_update (\<lambda>_. Some i));
               s = upd_task s i (next_task_update (\<lambda>_. task_list s))
           in Some (s\<lparr>task_count := task_count s + 1\<rparr>))))"

definition task_create :: "sys \<Rightarrow> bytes \<Rightarrow> u64 \<Rightarrow> (sys \<times> int) option" where
  "task_create s nm entry_point =
     (if task_count s \<ge> MAX_TASKS then Some (s, -1)
      else (let i = task_count s;
        s = upd_task s i (\<lambda>t. t\<lparr>task_name := copy_name nm (task_name t), pid := next_pid s, state := TASK_READY,
              cr3 := 0x1000, parent_pid := 0, exit_code := 0, waited := False, vm_regions := vm_region_init,
              fd_type := replicate MAX_FDS 0, fd_data := replicate MAX_FDS None\<rparr>);
        s = s\<lparr>next_pid := next_pid s + 1\<rparr>;
        s = upd_task s i signal_init_task;
        (h, base) = memory_alloc (heap_blocks (mem s)) STACK_SIZE;
        s = upd_task (s\<lparr>mem := (mem s)\<lparr>heap_blocks := h\<rparr>\<rparr>) i (stack_base_update (\<lambda>_. base))
      in if base = 0 then Some (s, -1)
         else (let m = memory_set (phys (mem s)) base 0 (unat STACK_SIZE);
                   (m, sp) = initial_stack m base entry_point;
                   s = s\<lparr>mem := (mem s)\<lparr>phys := m\<rparr>\<rparr>;
                   s = upd_task s i (rsp_update (\<lambda>_. sp))
               in map_option (\<lambda>s'. (s', sint (pid (task_pool s' ! i)))) (link_task s i))))"

definition scheduler_tick :: "sys \<Rightarrow> sys option" where
  "scheduler_tick s =
     (if task_list s = None \<or> task_count s < 2 then Some s
      else (case scheduler_next s of None \<Rightarrow> None
        | Some None \<Rightarrow> Some s
        | Some (Some n) \<Rightarrow>
            if Some n = current_task s then Some s
            else (case current_task s of None \<Rightarrow> None
              | Some old \<Rightarrow>
                  (let s = (if state (task_pool s ! old) = TASK_RUNNING
                            then upd_task s old (state_update (\<lambda>_. TASK_READY)) else s);
                       s = s\<lparr>current_task := Some n\<rparr>;
                       s = upd_task s n (state_update (\<lambda>_. TASK_RUNNING))
                   in Some (s\<lparr>tss_rsp0 := stack_base (task_pool s ! n) + STACK_SIZE, pending_switch := Some old,
                        pending_rsp := rsp (task_pool s ! n), pending_cr3 := cr3 (task_pool s ! n)\<rparr>)))))"

text \<open>
  \<^verbatim>\<open>task_block\<close> marks the task and yields; the model of the caller stops there and goes on
  when the task runs again, so only the marking is a function.
\<close>

definition task_block :: "sys \<Rightarrow> nat option \<Rightarrow> sys" where
  "task_block s t =
     (case t of None \<Rightarrow> s | Some i \<Rightarrow> upd_task s i (state_update (\<lambda>_. TASK_BLOCKED)))"

definition task_wakeup :: "sys \<Rightarrow> nat option \<Rightarrow> sys" where
  "task_wakeup s t =
     (case t of None \<Rightarrow> s
      | Some i \<Rightarrow> if state (task_pool s ! i) = TASK_BLOCKED
          then upd_task s i (state_update (\<lambda>_. TASK_READY)) else s)"

subsection \<open>The ring of tasks\<close>

definition ring :: "sys \<Rightarrow> bool" where
  "ring s \<longleftrightarrow> 0 < task_count s \<and> task_count s \<le> MAX_TASKS \<and> length (task_pool s) = MAX_TASKS \<and>
     task_list s = Some 0 \<and>
     (\<forall>i < task_count s. next_task (task_pool s ! i) = Some (Suc i mod task_count s))"

definition sched_inv :: "sys \<Rightarrow> bool" where
  "sched_inv s \<longleftrightarrow> ring s \<and> (\<exists>c < task_count s. current_task s = Some c \<and>
     (\<forall>i < task_count s. state (task_pool s ! i) = TASK_RUNNING \<longrightarrow> i = c))"

definition first_ready :: "sys \<Rightarrow> nat \<Rightarrow> nat" where
  "first_ready s c =
     (case find (\<lambda>i. state (task_pool s ! i) = TASK_READY) (map (\<lambda>d. (c + d) mod task_count s) [1..<task_count s]) of
        Some i \<Rightarrow> i | None \<Rightarrow> c)"

lemma ring_next: "ring s \<Longrightarrow> i < task_count s \<Longrightarrow> next_task (task_pool s ! i) = Some (Suc i mod task_count s)"
  by (simp add: ring_def)

lemma ring_other: "c < n \<Longrightarrow> 1 \<le> d \<Longrightarrow> d < n \<Longrightarrow> (c + d) mod n \<noteq> (c :: nat)"
  by (cases "c + d < n") (auto simp: le_mod_geq)

lemma scan_ready_from:
  assumes "ring s" "c < task_count s" "1 \<le> d" "d \<le> task_count s"
  shows "scan_ready s (Some c) (Some ((c + d) mod task_count s)) = Some (Some
    (case find (\<lambda>i. state (task_pool s ! i) = TASK_READY) (map (\<lambda>d. (c + d) mod task_count s) [d..<task_count s]) of
        Some i \<Rightarrow> i | None \<Rightarrow> c))"
  using assms(4,3)
proof (induction d rule: inc_induct)
  case base
  then show ?case using assms(2) by (simp add: scan_ready.simps)
next
  case (step d)
  let ?n = "task_count s"
  let ?i = "(c + d) mod ?n"
  have i: "?i < ?n" using assms(2) by simp
  have "?i \<noteq> c" using ring_other [OF assms(2), of d] step by simp
  then have "scan_ready s (Some c) (Some ?i) =
      (if state (task_pool s ! ?i) = TASK_READY then Some (Some ?i)
       else scan_ready s (Some c) (Some ((c + Suc d) mod ?n)))"
    using ring_next [OF assms(1) i] by (simp add: scan_ready.simps mod_Suc_eq)
  then show ?case using step upt_conv_Cons [of d ?n] by simp
qed

lemma scheduler_next_first_ready:
  assumes "ring s" "current_task s = Some c" "c < task_count s"
  shows "scheduler_next s = Some (Some (first_ready s c))"
proof -
  have "next_task (task_pool s ! c) = Some ((c + 1) mod task_count s)" using ring_next [OF assms(1,3)] by simp
  then show ?thesis
    using scan_ready_from [OF assms(1,3), of 1] assms by (simp add: scheduler_next_def first_ready_def)
qed

lemma find_in_set: "find P xs = Some x \<Longrightarrow> x \<in> set xs \<and> P x"
  by (induction xs) (auto split: if_splits)

lemma first_ready_cases:
  assumes "c < task_count s"
  shows "first_ready s c < task_count s"
    and "first_ready s c \<noteq> c \<Longrightarrow> state (task_pool s ! first_ready s c) = TASK_READY"
    and "j < task_count s \<Longrightarrow> j \<noteq> c \<Longrightarrow> state (task_pool s ! j) = TASK_READY \<Longrightarrow> first_ready s c \<noteq> c"
proof -
  let ?n = "task_count s"
  let ?xs = "map (\<lambda>d. (c + d) mod ?n) [1..<?n]"
  have in_xs: "j \<in> set ?xs" if "j < ?n" "j \<noteq> c" for j
  proof (cases "c < j")
    case True
    then have "j = (c + (j - c)) mod ?n" "j - c \<in> {1..<?n}" using that by auto
    then show ?thesis by (metis (mono_tags, lifting) image_eqI set_map set_upt)
  next
    case False
    then have "j = (c + (j + ?n - c)) mod ?n" "j + ?n - c \<in> {1..<?n}" using that assms by auto
    then show ?thesis by (metis (mono_tags, lifting) image_eqI set_map set_upt)
  qed
  show "first_ready s c < ?n"
    using assms find_in_set [of "\<lambda>i. state (task_pool s ! i) = TASK_READY" ?xs]
    by (auto simp: first_ready_def split: option.split)
  show "first_ready s c \<noteq> c \<Longrightarrow> state (task_pool s ! first_ready s c) = TASK_READY"
    using find_in_set [of "\<lambda>i. state (task_pool s ! i) = TASK_READY" ?xs] by (auto simp: first_ready_def split: option.splits)
  assume j: "j < ?n" "j \<noteq> c" "state (task_pool s ! j) = TASK_READY"
  then have "find (\<lambda>i. state (task_pool s ! i) = TASK_READY) ?xs \<noteq> None"
    using in_xs [OF j(1,2)] by (auto simp: find_None_iff)
  then obtain x where x: "find (\<lambda>i. state (task_pool s ! i) = TASK_READY) ?xs = Some x" by auto
  then have "x \<in> set ?xs" using find_in_set by fast
  then have "x \<noteq> c" using ring_other [OF assms] by auto
  then show "first_ready s c \<noteq> c" using x by (simp add: first_ready_def)
qed

lemma scheduler_tick_eq:
  assumes "sched_inv s" "current_task s = Some c"
  shows "scheduler_tick s = Some (if first_ready s c = c then s else
    (let n = first_ready s c;
         s1 = (if state (task_pool s ! c) = TASK_RUNNING then upd_task s c (state_update (\<lambda>_. TASK_READY)) else s);
         s2 = upd_task (s1\<lparr>current_task := Some n\<rparr>) n (state_update (\<lambda>_. TASK_RUNNING))
     in s2\<lparr>tss_rsp0 := stack_base (task_pool s2 ! n) + STACK_SIZE, pending_switch := Some c,
          pending_rsp := rsp (task_pool s2 ! n), pending_cr3 := cr3 (task_pool s2 ! n)\<rparr>))"
proof (cases "task_count s < 2")
  case True
  have "c = 0" "task_count s = 1" using assms True by (auto simp: sched_inv_def)
  then show ?thesis using True by (simp add: scheduler_tick_def first_ready_def)
next
  case False
  have c: "ring s" "c < task_count s" using assms by (auto simp: sched_inv_def)
  then have "task_list s = Some 0" by (simp add: ring_def)
  then show ?thesis
    using False assms(2) scheduler_next_first_ready [OF c(1) assms(2) c(2)]
    by (simp add: scheduler_tick_def Let_def)
qed

lemma upd_task_simps [simp]:
  "task_count (upd_task s i f) = task_count s" "task_list (upd_task s i f) = task_list s"
  "current_task (upd_task s i f) = current_task s" "next_pid (upd_task s i f) = next_pid s"
  "mem (upd_task s i f) = mem s" "pipe_pool (upd_task s i f) = pipe_pool s"
  "length (task_pool (upd_task s i f)) = length (task_pool s)"
  by (simp_all add: upd_task_def)

lemma upd_task_nth:
  "i < length (task_pool s) \<Longrightarrow> task_pool (upd_task s i f) ! j = (if j = i then f (task_pool s ! i) else task_pool s ! j)"
  by (simp add: upd_task_def nth_list_update)

lemma scheduler_tick_step:
  assumes "sched_inv s" "current_task s = Some c"
  shows "\<exists>s'. scheduler_tick s = Some s' \<and> sched_inv s' \<and> current_task s' = Some (first_ready s c) \<and>
    task_count s' = task_count s \<and>
    (\<forall>j < task_count s. j \<noteq> first_ready s c \<longrightarrow> state (task_pool s ! j) = TASK_READY \<longrightarrow>
       state (task_pool s' ! j) = TASK_READY) \<and>
    (first_ready s c \<noteq> c \<longrightarrow> state (task_pool s' ! first_ready s c) = TASK_RUNNING \<and>
       pending_rsp s' = rsp (task_pool s ! first_ready s c) \<and> pending_cr3 s' = cr3 (task_pool s ! first_ready s c) \<and>
       pending_switch s' = Some c \<and> tss_rsp0 s' = stack_base (task_pool s ! first_ready s c) + STACK_SIZE)"
proof (cases "first_ready s c = c")
  case True
  then show ?thesis using scheduler_tick_eq [OF assms] assms by simp
next
  case False
  let ?n = "first_ready s c"
  have c: "ring s" "c < task_count s" "\<And>i. i < task_count s \<Longrightarrow> state (task_pool s ! i) = TASK_RUNNING \<Longrightarrow> i = c"
    using assms by (auto simp: sched_inv_def)
  have n: "?n < task_count s" by (rule first_ready_cases(1) [OF c(2)])
  have len: "c < length (task_pool s)" "?n < length (task_pool s)" using c(1,2) n by (simp_all add: ring_def)
  define s1 where "s1 = (if state (task_pool s ! c) = TASK_RUNNING then upd_task s c (state_update (\<lambda>_. TASK_READY)) else s)"
  define s2 where "s2 = upd_task (s1\<lparr>current_task := Some ?n\<rparr>) ?n (state_update (\<lambda>_. TASK_RUNNING))"
  define s3 where "s3 = s2\<lparr>tss_rsp0 := stack_base (task_pool s2 ! ?n) + STACK_SIZE, pending_switch := Some c,
          pending_rsp := rsp (task_pool s2 ! ?n), pending_cr3 := cr3 (task_pool s2 ! ?n)\<rparr>"
  have eq: "scheduler_tick s = Some s3"
    using scheduler_tick_eq [OF assms] False by (simp add: s1_def s2_def s3_def Let_def)
  have tasks: "task_pool s3 ! j = (if j = ?n then (task_pool s ! j)\<lparr>state := TASK_RUNNING\<rparr>
      else if j = c \<and> state (task_pool s ! c) = TASK_RUNNING then (task_pool s ! j)\<lparr>state := TASK_READY\<rparr> else task_pool s ! j)" for j
    using len False by (simp add: s3_def s2_def s1_def upd_task_nth)
  have pend: "pending_rsp s3 = rsp (task_pool s ! ?n)" "pending_cr3 s3 = cr3 (task_pool s ! ?n)"
    "pending_switch s3 = Some c" "tss_rsp0 s3 = stack_base (task_pool s ! ?n) + STACK_SIZE"
    using len False by (simp_all add: s3_def s2_def s1_def upd_task_nth)
  have same: "task_count s3 = task_count s" "task_list s3 = task_list s" "current_task s3 = Some ?n"
    "length (task_pool s3) = length (task_pool s)"
    by (simp_all add: s3_def s2_def s1_def)
  have "ring s3" using c(1) by (simp add: ring_def same tasks)
  moreover have "i = ?n" if "i < task_count s" "state (task_pool s3 ! i) = TASK_RUNNING" for i
    using that c(3) [of i] by (auto simp: tasks split: if_splits)
  ultimately have "sched_inv s3" using n same by (auto simp: sched_inv_def)
  then show ?thesis
    using eq same False pend by (intro exI [of _ s3]) (simp add: tasks)
qed

text \<open>C3: on every timer tick the scheduler switches to the first ready task after the current one
  in ring order, if there is one; it always returns, exactly that task is running then, its
  saved stack and address space are the ones to be loaded, and no ready task is lost.\<close>

theorem scheduler_tick_round_robin:
  assumes "sched_inv s" "current_task s = Some c"
  shows "\<exists>s'. scheduler_tick s = Some s' \<and> sched_inv s' \<and> current_task s' = Some (first_ready s c) \<and>
    (\<forall>j < task_count s. j \<noteq> first_ready s c \<longrightarrow> state (task_pool s ! j) = TASK_READY \<longrightarrow>
       state (task_pool s' ! j) = TASK_READY) \<and>
    (first_ready s c \<noteq> c \<longrightarrow> state (task_pool s' ! first_ready s c) = TASK_RUNNING \<and>
       pending_rsp s' = rsp (task_pool s ! first_ready s c) \<and> pending_cr3 s' = cr3 (task_pool s ! first_ready s c) \<and>
       pending_switch s' = Some c \<and> tss_rsp0 s' = stack_base (task_pool s ! first_ready s c) + STACK_SIZE)"
  using scheduler_tick_step [OF assms] by blast

subsection \<open>Fairness\<close>

primrec ticks :: "nat \<Rightarrow> sys \<Rightarrow> sys option" where
  "ticks 0 s = Some s"
| "ticks (Suc n) s = Option.bind (scheduler_tick s) (ticks n)"

definition ring_dist :: "nat \<Rightarrow> nat \<Rightarrow> nat \<Rightarrow> nat" where
  "ring_dist n c j = (if c \<le> j then j - c else j + n - c)"

lemma find_map_upt:
  "find P (map f [a..<b]) = Some x \<Longrightarrow> \<exists>e. a \<le> e \<and> e < b \<and> x = f e \<and> (\<forall>d. a \<le> d \<and> d < e \<longrightarrow> \<not> P (f d))"
proof (induction "b - a" arbitrary: a)
  case (Suc k)
  then have ab: "a < b" by simp
  show ?case
  proof (cases "P (f a)")
    case True
    then show ?thesis using Suc.prems ab by (intro exI [of _ a]) (auto simp: upt_conv_Cons)
  next
    case False
    then have "find P (map f [Suc a..<b]) = Some x" using Suc.prems ab by (simp add: upt_conv_Cons)
    moreover have "k = b - Suc a" using Suc.hyps(2) by simp
    ultimately obtain e
      where "Suc a \<le> e" "e < b" "x = f e" "\<forall>d. Suc a \<le> d \<and> d < e \<longrightarrow> \<not> P (f d)"
      using Suc.hyps(1) by blast
    then show ?thesis using False by (intro exI [of _ e]) (metis Suc_le_eq le_antisym not_less le_less_linear less_imp_le)
  qed
qed simp

lemma first_ready_dist:
  assumes "c < task_count s" "j < task_count s" "j \<noteq> c" "state (task_pool s ! j) = TASK_READY" "first_ready s c \<noteq> j"
  shows "ring_dist (task_count s) (first_ready s c) j < ring_dist (task_count s) c j"
proof -
  let ?n = "task_count s"
  have "first_ready s c \<noteq> c" by (rule first_ready_cases(3) [OF assms(1-4)])
  then obtain x where "find (\<lambda>i. state (task_pool s ! i) = TASK_READY) (map (\<lambda>d. (c + d) mod ?n) [1..<?n]) = Some x"
    "first_ready s c = x"
    by (auto simp: first_ready_def split: option.splits)
  from find_map_upt [OF this(1)] this(2) obtain e where e: "1 \<le> e" "e < ?n" "first_ready s c = (c + e) mod ?n"
    "\<forall>d. 1 \<le> d \<and> d < e \<longrightarrow> state (task_pool s ! ((c + d) mod ?n)) \<noteq> TASK_READY" by blast
  define d where "d = ring_dist ?n c j"
  have d: "1 \<le> d" "d < ?n" "(c + d) mod ?n = j"
    using assms(1-3) by (auto simp: d_def ring_dist_def)
  have "\<not> d < e" using e(4) d assms(4) by auto
  moreover have "d \<noteq> e" using d(3) e(3) assms(5) by auto
  ultimately have "e < d" by simp
  then show ?thesis
    unfolding e(3) using e(1,2) d assms(1-3) by (cases "c + e < ?n") (auto simp: d_def ring_dist_def le_mod_geq split: if_splits)
qed

text \<open>C16: a task that is ready becomes the current task within as many ticks as there are tasks,
  however many other tasks are ready.\<close>

theorem scheduler_fair:
  assumes "sched_inv s" "j < task_count s" "state (task_pool s ! j) = TASK_READY"
  shows "\<exists>m s'. m < task_count s \<and> ticks m s = Some s' \<and> current_task s' = Some j"
proof -
  have "\<exists>m s'. m \<le> ring_dist (task_count s) c j \<and> ticks m s = Some s' \<and> current_task s' = Some j"
    if "sched_inv s" "current_task s = Some c" "j < task_count s" "c = j \<or> state (task_pool s ! j) = TASK_READY" for s c
    using that
  proof (induction "ring_dist (task_count s) c j" arbitrary: s c rule: less_induct)
    case less
    show ?case
    proof (cases "c = j")
      case True
      then show ?thesis using less.prems by (intro exI [of _ 0] exI [of _ s]) simp
    next
      case False
      have c: "c < task_count s" using less.prems by (auto simp: sched_inv_def)
      from scheduler_tick_step [OF less.prems(1,2)] obtain s1 where
        s1: "scheduler_tick s = Some s1" "sched_inv s1" "current_task s1 = Some (first_ready s c)" "task_count s1 = task_count s"
          "first_ready s c \<noteq> j \<Longrightarrow> state (task_pool s1 ! j) = TASK_READY"
        using less.prems False by auto
      show ?thesis
      proof (cases "first_ready s c = j")
        case True
        then have "ticks 1 s = Some s1 \<and> current_task s1 = Some j" using s1 by simp
        moreover have "1 \<le> ring_dist (task_count s) c j" using False c by (auto simp: ring_dist_def)
        ultimately show ?thesis by blast
      next
        case no: False
        have lt: "ring_dist (task_count s) (first_ready s c) j < ring_dist (task_count s) c j"
          using first_ready_dist [OF c less.prems(3) _ _ no] less.prems(4) False by auto
        obtain m s' where "m \<le> ring_dist (task_count s) (first_ready s c) j" "ticks m s1 = Some s'" "current_task s' = Some j"
          using less.hyps [of s1 "first_ready s c"] lt s1 less.prems(3) no by auto
        then show ?thesis using s1(1) lt by (intro exI [of _ "Suc m"] exI [of _ s']) simp
      qed
    qed
  qed
  moreover obtain c where "current_task s = Some c" "c < task_count s" using assms(1) by (auto simp: sched_inv_def)
  moreover from this(2) assms(2) have "ring_dist (task_count s) c j < task_count s" by (auto simp: ring_dist_def)
  ultimately show ?thesis using assms by (meson le_less_trans)
qed

subsection \<open>Building the ring\<close>

lemma scheduler_init_inv: "length (task_pool s) = MAX_TASKS \<Longrightarrow> sched_inv (scheduler_init s)"
  by (simp add: sched_inv_def ring_def scheduler_init_def Let_def MAX_TASKS_def upd_task_nth)

lemma find_last_ring:
  assumes "ring s" "i < task_count s"
  shows "find_last s i = Some (task_count s - 1)"
proof -
  have "find_last s (task_count s - 1 - d) = Some (task_count s - 1)" if "d < task_count s" for d
    using that
  proof (induction d)
    case 0
    then show ?case using ring_next [OF assms(1), of "task_count s - 1"] assms(1) by (simp add: find_last.simps ring_def)
  next
    case (Suc d)
    let ?i = "task_count s - 1 - Suc d"
    have "Suc ?i < task_count s" using Suc by simp
    then have "next_task (task_pool s ! ?i) = Some (Suc ?i)" using ring_next [OF assms(1), of ?i] by simp
    moreover have "Suc ?i = task_count s - 1 - d" using Suc by simp
    ultimately show ?case unfolding find_last.simps [of s ?i] using Suc assms(1) by (simp add: ring_def)
  qed
  from this [of "task_count s - 1 - i"] assms(2) show ?thesis by simp
qed

lemma link_task_ring:
  assumes "ring s" "task_count s < MAX_TASKS"
  shows "\<exists>s'. link_task s (task_count s) = Some s' \<and> ring s' \<and> task_count s' = Suc (task_count s) \<and>
    current_task s' = current_task s \<and> next_pid s' = next_pid s \<and> mem s' = mem s \<and> pipe_pool s' = pipe_pool s \<and>
    (\<forall>i < MAX_TASKS. \<exists>x. task_pool s' ! i = (task_pool s ! i)\<lparr>next_task := x\<rparr>)"
proof -
  let ?n = "task_count s"
  have n: "0 < ?n" "length (task_pool s) = MAX_TASKS" "task_list s = Some 0" using assms(1) by (simp_all add: ring_def)
  define s1 where "s1 = upd_task s (?n - 1) (next_task_update (\<lambda>_. Some ?n))"
  define s2 where "s2 = upd_task s1 ?n (next_task_update (\<lambda>_. Some 0))"
  have eq: "link_task s ?n = Some (s2\<lparr>task_count := Suc ?n\<rparr>)"
    using find_last_ring [OF assms(1) n(1)] n by (simp add: link_task_def s1_def s2_def Let_def)
  have tasks: "task_pool s2 ! i = (if i = ?n then (task_pool s ! i)\<lparr>next_task := Some 0\<rparr>
      else if i = ?n - 1 then (task_pool s ! i)\<lparr>next_task := Some ?n\<rparr> else task_pool s ! i)" for i
    using n assms(2) by (simp add: s2_def s1_def upd_task_nth)
  have "next_task (task_pool s2 ! i) = Some (Suc i mod Suc ?n)" if "i < Suc ?n" for i
    using that ring_next [OF assms(1), of i] by (cases "i = ?n"; cases "Suc i = ?n") (auto simp: tasks)
  moreover have "length (task_pool s2) = MAX_TASKS" "task_list s2 = Some 0" using n by (simp_all add: s2_def s1_def)
  ultimately have "ring (s2\<lparr>task_count := Suc ?n\<rparr>)" using assms(2) by (simp add: ring_def)
  moreover have "\<exists>x. task_pool s2 ! i = (task_pool s ! i)\<lparr>next_task := x\<rparr>" for i
  proof (cases "i = ?n \<or> i = ?n - 1")
    case False
    then show ?thesis by (intro exI [of _ "next_task (task_pool s ! i)"]) (simp add: tasks)
  qed (auto simp: tasks)
  ultimately show ?thesis using eq by (simp add: s2_def s1_def)
qed

lemma ring_cong:
  assumes "task_count s' = task_count s" "task_list s' = task_list s" "length (task_pool s') = length (task_pool s)"
    "\<And>i. i < task_count s \<Longrightarrow> task_pool s' ! i = task_pool s ! i"
  shows "ring s' = ring s"
  using assms by (simp add: ring_def)

lemma snd_push64s: "snd (fold push64 xs (m, sp)) = sp - 8 * of_nat (length xs)"
proof (induction xs arbitrary: m sp)
  case (Cons x xs)
  show ?case by (simp add: push64_def [of x] Cons.IH)
qed simp

lemma snd_initial_stack: "snd (initial_stack m b ep) = b + STACK_SIZE - 22 * 8"
  unfolding initial_stack_def snd_push64s by simp

text \<open>Creating a task always returns; it fails only when all slots are taken or the heap has no
  room for a stack, and then the ring is as before. Otherwise the new task is ready, has the
  next pid, is linked in as the last task of the ring, and its stack pointer is 22 words
  below the top of its own stack.\<close>

theorem task_create_correct:
  assumes inv: "sched_inv s"
  shows "\<exists>s' r. task_create s nm ep = Some (s', r) \<and> sched_inv s' \<and> current_task s' = current_task s \<and>
    (if task_count s = MAX_TASKS \<or> snd (memory_alloc (heap_blocks (mem s)) STACK_SIZE) = 0
     then r = -1 \<and> task_count s' = task_count s \<and> (\<forall>i < task_count s. task_pool s' ! i = task_pool s ! i)
     else (let n = task_count s; t = task_pool s' ! n in
       r = sint (next_pid s) \<and> task_count s' = Suc n \<and> next_pid s' = next_pid s + 1 \<and>
       pid t = next_pid s \<and> state t = TASK_READY \<and> parent_pid t = 0 \<and> cr3 t = 0x1000 \<and>
       stack_base t = snd (memory_alloc (heap_blocks (mem s)) STACK_SIZE) \<and>
       rsp t = stack_base t + STACK_SIZE - 22 * 8 \<and>
       heap_blocks (mem s') = fst (memory_alloc (heap_blocks (mem s)) STACK_SIZE)))"
proof (cases "task_count s = MAX_TASKS")
  case True
  then show ?thesis using inv by (simp add: task_create_def)
next
  case False
  let ?n = "task_count s"
  obtain h b where al: "memory_alloc (heap_blocks (mem s)) STACK_SIZE = (h, b)" by force
  obtain c where c: "ring s" "c < ?n" "current_task s = Some c" 
    "\<forall>i < ?n. state (task_pool s ! i) = TASK_RUNNING \<longrightarrow> i = c"
    using inv by (auto simp: sched_inv_def)
  have n: "?n < MAX_TASKS" "length (task_pool s) = MAX_TASKS" using False c by (auto simp: ring_def)
  define t0 where "t0 = (signal_init_task ((task_pool s ! ?n)\<lparr>task_name := copy_name nm (task_name (task_pool s ! ?n)),
      pid := next_pid s, state := TASK_READY, cr3 := 0x1000, parent_pid := 0, exit_code := 0, waited := False,
      vm_regions := vm_region_init, fd_type := replicate MAX_FDS 0, fd_data := replicate MAX_FDS None\<rparr>))\<lparr>stack_base := b\<rparr>"
  define s1 where "s1 = s\<lparr>task_pool := (task_pool s)[?n := t0], next_pid := next_pid s + 1,
      mem := (mem s)\<lparr>heap_blocks := h\<rparr>\<rparr>"
  have create: "task_create s nm ep =
      (if b = 0 then Some (s1, -1)
       else (let (m, sp) = initial_stack (memory_set (phys (mem s)) b 0 4096) b ep;
                 s2 = s1\<lparr>mem := (mem s1)\<lparr>phys := m\<rparr>, task_pool := (task_pool s1)[?n := t0\<lparr>rsp := sp\<rparr>]\<rparr>
             in map_option (\<lambda>s'. (s', sint (pid (task_pool s' ! ?n)))) (link_task s2 ?n)))"
    using n False by (simp add: task_create_def upd_task_def Let_def al [unfolded STACK_SIZE_def] STACK_SIZE_def s1_def t0_def split: prod.split)
  have keep: "task_pool (s1\<lparr>mem := k, task_pool := (task_pool s1)[?n := t]\<rparr>) ! i = task_pool s ! i"
      "task_pool s1 ! i = task_pool s ! i" if "i < ?n" for i k t
    using that by (simp_all add: s1_def)
  have frame: "task_count s1 = ?n" "task_list s1 = task_list s" "current_task s1 = current_task s"
    "length (task_pool s1) = length (task_pool s)" "next_pid s1 = next_pid s + 1" "heap_blocks (mem s1) = h"
    by (simp_all add: s1_def)
  show ?thesis
  proof (cases "b = 0")
    case True
    have "ring s1" using ring_cong [of s1 s] frame keep c(1) by simp
    then have "sched_inv s1" using c(2-4) frame keep by (auto simp: sched_inv_def)
    then show ?thesis using True create al frame keep by simp
  next
    case b: False
    obtain m sp where st: "initial_stack (memory_set (phys (mem s)) b 0 4096) b ep = (m, sp)" by force
    have sp: "sp = b + STACK_SIZE - 22 * 8" using st snd_initial_stack by (metis snd_conv)
    define s2 where "s2 = s1\<lparr>mem := (mem s1)\<lparr>phys := m\<rparr>, task_pool := (task_pool s1)[?n := t0\<lparr>rsp := sp\<rparr>]\<rparr>"
    have keep2: "task_pool s2 ! i = task_pool s ! i" if "i < ?n" for i using keep(1) [OF that] by (simp add: s2_def)
    have new: "task_pool s2 ! ?n = t0\<lparr>rsp := sp\<rparr>" using n by (simp add: s2_def s1_def)
    have frame2: "task_count s2 = ?n" "task_list s2 = task_list s" "current_task s2 = current_task s"
      "length (task_pool s2) = length (task_pool s)" "next_pid s2 = next_pid s + 1" "heap_blocks (mem s2) = h"
      by (simp_all add: s2_def s1_def)
    have "ring s2" using ring_cong [of s2 s] frame2 keep2 c(1) by simp
    from link_task_ring [OF this] n frame2 obtain s3 where
      s3: "link_task s2 ?n = Some s3" "ring s3" "task_count s3 = Suc ?n" "current_task s3 = Some c" "next_pid s3 = next_pid s + 1"
        "mem s3 = mem s2" and all: "\<forall>i < MAX_TASKS. \<exists>x. task_pool s3 ! i = (task_pool s2 ! i)\<lparr>next_task := x\<rparr>"
      using c(3) by auto
    obtain x where t: "task_pool s3 ! ?n = (t0\<lparr>rsp := sp\<rparr>)\<lparr>next_task := x\<rparr>" using all n(1) new by metis
    have old: "state (task_pool s3 ! i) = state (task_pool s ! i)" if i: "i < ?n" for i
    proof -
      have "i < MAX_TASKS" using i n by simp
      then obtain y where "task_pool s3 ! i = (task_pool s2 ! i)\<lparr>next_task := y\<rparr>" using all by blast
      then show ?thesis using keep2 [OF i] by simp
    qed
    have t0: "pid t0 = next_pid s" "state t0 = TASK_READY" "parent_pid t0 = 0" "cr3 t0 = 0x1000" "stack_base t0 = b"
      by (simp_all add: t0_def signal_init_task_def)
    have "sched_inv s3"
      unfolding sched_inv_def using s3(2-4) c(2,4) t t0 by (auto simp: less_Suc_eq old)
    moreover have "task_create s nm ep = Some (s3, sint (next_pid s))"
      using create b st s3(1) t t0 by (simp add: s2_def)
    ultimately show ?thesis
      using b False al s3 t t0 sp c(3) frame2 by simp
  qed
qed

text \<open>The state after \<^verbatim>\<open>scheduler_init\<close> on the boot memory, and with two more tasks.\<close>

definition blank_task :: task_t where
  "blank_task = \<lparr>pid = 0, task_name = replicate TASK_NAME_MAX 0, state = TASK_READY, rsp = 0, stack_base = 0, cr3 = 0,
     next_task = None, parent_pid = 0, exit_code = 0, waited = False, vm_regions = vm_region_init,
     fd_type = replicate MAX_FDS 0, fd_data = replicate MAX_FDS None, signal_handlers = replicate NSIGS 0,
     signal_pending = 0, signal_mask = 0, saved_rip = 0, saved_rsp = 0, saved_rflags = 0, trampoline_addr = 0,
     in_signal = False\<rparr>"

definition boot_sys :: sys where
  "boot_sys = scheduler_init \<lparr>mem = boot_kmem, task_pool = replicate MAX_TASKS blank_task, task_count = 0,
     current_task = None, task_list = None, next_pid = 0, pending_switch = None, pending_rsp = 0, pending_cr3 = 0,
     tss_rsp0 = 0, pipe_pool = []\<rparr>"

definition three_tasks :: sys where
  "three_tasks = boot_sys\<lparr>task_count := 3, task_pool :=
     [blank_task\<lparr>next_task := Some 1, state := TASK_BLOCKED\<rparr>, blank_task\<lparr>next_task := Some 2, state := TASK_RUNNING\<rparr>,
      blank_task\<lparr>next_task := Some 0, rsp := 0x700\<rparr>] @ replicate 13 blank_task, current_task := Some 1\<rparr>"

lemma boot_sys_inv: "sched_inv boot_sys"
  by (simp add: boot_sys_def scheduler_init_inv)

lemma three_tasks_fields:
  "task_count three_tasks = 3" "task_list three_tasks = Some 0" "current_task three_tasks = Some 1"
  "length (task_pool three_tasks) = MAX_TASKS"
  "next_task (task_pool three_tasks ! 0) = Some 1" "next_task (task_pool three_tasks ! 1) = Some 2"
  "next_task (task_pool three_tasks ! 2) = Some 0" "state (task_pool three_tasks ! 0) = TASK_BLOCKED"
  "state (task_pool three_tasks ! 2) = TASK_READY" "rsp (task_pool three_tasks ! 2) = 0x700"
  by (simp_all add: three_tasks_def boot_sys_def scheduler_init_def upd_task_def Let_def MAX_TASKS_def blank_task_def)

lemma three_tasks_inv: "sched_inv three_tasks"
proof -
  have lt: "i < 3 \<longleftrightarrow> i = 0 \<or> i = 1 \<or> i = 2" for i :: nat by auto
  have "ring three_tasks"
    unfolding ring_def three_tasks_fields(1) lt using three_tasks_fields by (auto simp: MAX_TASKS_def)
  moreover have "\<forall>i < 3. state (task_pool three_tasks ! i) = TASK_RUNNING \<longrightarrow> i = 1"
    unfolding lt using three_tasks_fields(8,9) by auto
  ultimately show ?thesis using three_tasks_fields(1,3) by (auto simp: sched_inv_def)
qed

lemma three_tasks_ready: "first_ready three_tasks 1 = 2"
proof -
  have "[1..<3] = [1, 2 :: nat]" by (simp add: upt_rec)
  then show ?thesis using three_tasks_fields by (simp add: first_ready_def flip: numeral_2_eq_2)
qed

theorem scheduler_tick_round_robin_witness:
  "\<exists>s'. scheduler_tick three_tasks = Some s' \<and> current_task s' = Some 2 \<and> pending_rsp s' = 0x700"
  using scheduler_tick_round_robin [OF three_tasks_inv three_tasks_fields(3)] three_tasks_ready three_tasks_fields(10)
  by auto

theorem scheduler_fair_witness:
  "\<exists>m s'. m < 3 \<and> ticks m three_tasks = Some s' \<and> current_task s' = Some 2"
  using scheduler_fair [OF three_tasks_inv, of 2] three_tasks_fields(1,9) by simp

theorem task_create_correct_witness:
  "\<exists>s' r. task_create boot_sys (str ''sh'') 0x400000 = Some (s', r) \<and> sched_inv s' \<and> task_count s' = 2 \<and> r = 1"
proof -
  have a: "task_count boot_sys = 1" "next_pid boot_sys = 1" "mem boot_sys = boot_kmem"
    by (simp_all add: boot_sys_def scheduler_init_def upd_task_def Let_def)
  have "heap_blocks boot_kmem = heap_init 0x200000 0x200000"
    by (simp add: boot_kmem_def set_tab_def memory_init_def page_ref_init_def memory_page_init_def)
  then have "snd (memory_alloc (heap_blocks (mem boot_sys)) STACK_SIZE) \<noteq> 0"
    by (simp add: a heap_init_def STACK_SIZE_def sizeof_block_def)
  then show ?thesis
    using task_create_correct [OF boot_sys_inv, of "str ''sh''" "0x400000"] a by (auto simp: MAX_TASKS_def Let_def)
qed

end
