(* ===== verification/Ring.thy ===== *)
theory Ring
  imports Prelude
begin

text \<open>
  Bounded queues of bytes, the interface the pipe and the keyboard have in common: the locale
  \<open>fifo\<close> with the laws of putting and getting one byte, its clients (bytes come out in the order
  they went in), and the arithmetic of arrays used as rings.
\<close>

primrec gets :: "('r \<Rightarrow> 'r \<times> u8) \<Rightarrow> nat \<Rightarrow> 'r \<Rightarrow> 'r \<times> bytes" where
  "gets get 0 r = (r, [])"
| "gets get (Suc n) r = (let (r, c) = get r; (r, cs) = gets get n r in (r, c # cs))"

locale fifo =
  fixes put :: "'r \<Rightarrow> u8 \<Rightarrow> 'r" and get :: "'r \<Rightarrow> 'r \<times> u8" and items :: "'r \<Rightarrow> bytes" and ok :: "'r \<Rightarrow> bool" and room :: nat
  assumes put_items: "ok r \<Longrightarrow> length (items r) < room \<Longrightarrow> ok (put r c) \<and> items (put r c) = items r @ [c]"
    and get_items: "ok r \<Longrightarrow> items r \<noteq> [] \<Longrightarrow>
      ok (fst (get r)) \<and> items (fst (get r)) = tl (items r) \<and> snd (get r) = hd (items r)"
begin

lemma puts_items:
  "ok r \<Longrightarrow> length (items r) + length cs \<le> room \<Longrightarrow> ok (foldl put r cs) \<and> items (foldl put r cs) = items r @ cs"
proof (induction cs arbitrary: r)
  case (Cons c cs)
  then show ?case using put_items [of r c] by auto
qed simp

lemma gets_items:
  "ok r \<Longrightarrow> n \<le> length (items r) \<Longrightarrow>
   \<exists>r'. gets get n r = (r', take n (items r)) \<and> ok r' \<and> items r' = drop n (items r)"
proof (induction n arbitrary: r)
  case (Suc n)
  then have ne: "items r \<noteq> []" by auto
  obtain r1 c where g: "get r = (r1, c)" by force
  note G = get_items [OF Suc.prems(1) ne, unfolded g fst_conv snd_conv]
  obtain r' where "gets get n r1 = (r', take n (tl (items r)))" "ok r'" "items r' = drop n (tl (items r))"
  proof -
    have "n \<le> length (items r1)" using G Suc.prems(2) by simp
    with Suc.IH [of r1] G that show thesis by force
  qed
  then show ?case using g G ne by (cases "items r") auto
qed auto

text \<open>What is put into an empty queue comes out unchanged, in order.\<close>

lemma first_in_first_out:
  assumes "ok r" "items r = []" "length cs \<le> room"
  shows "snd (gets get (length cs) (foldl put r cs)) = cs"
  using puts_items [of r cs] gets_items [of "foldl put r cs" "length cs"] assms by auto

end

subsection \<open>Arrays as rings\<close>

definition ring_items :: "'a list \<Rightarrow> nat \<Rightarrow> nat \<Rightarrow> 'a list" where
  "ring_items buf t n = map (\<lambda>i. buf ! ((t + i) mod length buf)) [0..<n]"

lemma length_ring_items [simp]: "length (ring_items buf t n) = n"
  by (simp add: ring_items_def)

lemma ring_items_0 [simp]: "ring_items buf t 0 = []"
  by (simp add: ring_items_def)

lemma mod_add_less:
  assumes "i < n" "n < m"
  shows "(t + i) mod m \<noteq> (t + n) mod (m :: nat)"
proof
  assume "(t + i) mod m = (t + n) mod m"
  then have "(t + n - (t + i)) mod m = 0" using assms by (metis add_le_cancel_left less_imp_le mod_eq_dvd_iff_nat dvd_imp_mod_0)
  then show False using assms by simp
qed

lemma ring_put:
  assumes "n < length buf"
  shows "ring_items (buf[(t + n) mod length buf := c]) t (Suc n) = ring_items buf t n @ [c]"
proof -
  have "(t + n) mod length buf < length buf" using assms by (intro mod_less_divisor) linarith
  moreover have "map (\<lambda>i. buf[(t + n) mod length buf := c] ! ((t + i) mod length buf)) [0..<n] =
      map (\<lambda>i. buf ! ((t + i) mod length buf)) [0..<n]"
  proof (rule map_cong)
    fix i assume "i \<in> set [0..<n]"
    then have "(t + n) mod length buf \<noteq> (t + i) mod length buf"
      using mod_add_less [of i n "length buf" t] assms by (metis atLeastLessThan_iff set_upt)
    then show "buf[(t + n) mod length buf := c] ! ((t + i) mod length buf) = buf ! ((t + i) mod length buf)" by simp
  qed simp
  ultimately show ?thesis by (simp add: ring_items_def)
qed

lemma ring_get:
  assumes "0 < n" "t < length buf"
  shows "ring_items buf t n = buf ! t # ring_items buf (Suc t mod length buf) (n - 1)"
proof -
  have "[0..<n] = 0 # map Suc [0..<n - 1]" using assms(1) by (simp add: map_Suc_upt upt_conv_Cons del: upt_Suc)
  then show ?thesis using assms(2) by (simp add: ring_items_def mod_add_left_eq)
qed

end
