(* ===== verification/Pipe.thy ===== *)
theory Pipe
  imports Tasks Ring
begin

text \<open>
  Pipes, \<^verbatim>\<open>kernel/pipe.c\<close>: a pool of ring buffers with reference-counted ends. A read of an
  empty pipe and a write to a full one block the current task; the function then returns
  \<open>None\<close> (for a write: with the number of bytes written so far), and what the task does when
  it runs again is a function of its own (\<open>pipe_read_resume\<close>, \<open>pipe_write_resume\<close>).
  The bytes to write are the list \<open>buf\<close>, whose length is the argument \<^verbatim>\<open>len\<close>.
\<close>

definition PIPE_BUF_SIZE :: nat where "PIPE_BUF_SIZE = 4096"
definition MAX_PIPES :: nat where "MAX_PIPES = 32"
definition FD_PIPE_READ :: u8 where "FD_PIPE_READ = 1"
definition FD_PIPE_WRITE :: u8 where "FD_PIPE_WRITE = 2"

definition zero_pipe :: pipe_t where
  "zero_pipe = \<lparr>pipe_buf = replicate PIPE_BUF_SIZE 0, pipe_head = 0, pipe_tail = 0, pipe_count = 0, read_open = False,
     write_open = False, read_refcnt = 0, write_refcnt = 0, blocked_reader = None, blocked_writer = None,
     pipe_used = False\<rparr>"

definition pipe_init :: "sys \<Rightarrow> sys" where
  "pipe_init s = s\<lparr>pipe_pool := replicate MAX_PIPES zero_pipe\<rparr>"

abbreviation pipe_at :: "sys \<Rightarrow> nat \<Rightarrow> pipe_t" where
  "pipe_at s p \<equiv> pipe_pool s ! p"

definition upd_pipe :: "sys \<Rightarrow> nat \<Rightarrow> (pipe_t \<Rightarrow> pipe_t) \<Rightarrow> sys" where
  "upd_pipe s p f = s\<lparr>pipe_pool := (pipe_pool s)[p := f (pipe_pool s ! p)]\<rparr>"

definition pipe_create :: "sys \<Rightarrow> sys \<times> nat option" where
  "pipe_create s =
     (case find (\<lambda>i. \<not> pipe_used (pipe_at s i)) [0..<MAX_PIPES] of
        None \<Rightarrow> (s, None)
      | Some i \<Rightarrow>
          (upd_pipe s i (\<lambda>p. p\<lparr>pipe_used := True, pipe_head := 0, pipe_tail := 0, pipe_count := 0, read_open := True,
             write_open := True, read_refcnt := 0, write_refcnt := 0, blocked_reader := None, blocked_writer := None\<rparr>), Some i))"

definition get_char :: "pipe_t \<Rightarrow> pipe_t \<times> u8" where
  "get_char p = (p\<lparr>pipe_tail := (pipe_tail p + 1) mod of_nat PIPE_BUF_SIZE, pipe_count := pipe_count p - 1\<rparr>,
     pipe_buf p ! unat (pipe_tail p))"

primrec drain :: "nat \<Rightarrow> pipe_t \<Rightarrow> bytes \<Rightarrow> pipe_t \<times> bytes" where
  "drain 0 p out = (p, out)"
| "drain (Suc n) p out =
     (if pipe_count p > 0 then (let (p, c) = get_char p in drain n p (out @ [c])) else (p, out))"

definition wake_reader :: "sys \<Rightarrow> nat \<Rightarrow> sys" where
  "wake_reader s p =
     (if blocked_reader (pipe_at s p) \<noteq> None
      then upd_pipe (task_wakeup s (blocked_reader (pipe_at s p))) p (blocked_reader_update (\<lambda>_. None)) else s)"

definition wake_writer :: "sys \<Rightarrow> nat \<Rightarrow> sys" where
  "wake_writer s p =
     (if blocked_writer (pipe_at s p) \<noteq> None
      then upd_pipe (task_wakeup s (blocked_writer (pipe_at s p))) p (blocked_writer_update (\<lambda>_. None)) else s)"

definition read_loop_p :: "sys \<Rightarrow> nat \<Rightarrow> int \<Rightarrow> sys \<times> (int \<times> bytes) option" where
  "read_loop_p s p len =
     (if pipe_count (pipe_at s p) = 0 then
        if \<not> write_open (pipe_at s p) then (s, Some (0, []))
        else (task_block (upd_pipe s p (blocked_reader_update (\<lambda>_. current_task s))) (current_task s), None)
      else (let (q, out) = drain (nat len) (pipe_at s p) []
            in (wake_writer (upd_pipe s p (\<lambda>_. q)) p, Some (int (length out), out))))"

definition pipe_read :: "sys \<Rightarrow> nat option \<Rightarrow> int \<Rightarrow> sys \<times> (int \<times> bytes) option" where
  "pipe_read s pipe len =
     (case pipe of None \<Rightarrow> (s, Some (-1, []))
      | Some p \<Rightarrow> if len \<le> 0 then (s, Some (-1, [])) else read_loop_p s p len)"

definition pipe_read_resume :: "sys \<Rightarrow> nat \<Rightarrow> int \<Rightarrow> sys \<times> (int \<times> bytes) option" where
  "pipe_read_resume s p len = read_loop_p (upd_pipe s p (blocked_reader_update (\<lambda>_. None))) p len"

definition put_char :: "u8 \<Rightarrow> pipe_t \<Rightarrow> pipe_t" where
  "put_char c p = p\<lparr>pipe_buf := (pipe_buf p)[unat (pipe_head p) := c],
     pipe_head := (pipe_head p + 1) mod of_nat PIPE_BUF_SIZE\<rparr>"

definition put_chunk :: "pipe_t \<Rightarrow> bytes \<Rightarrow> pipe_t" where
  "put_chunk p cs = (let q = fold put_char cs p in q\<lparr>pipe_count := pipe_count q + of_nat (length cs)\<rparr>)"

text \<open>\<open>Inr n\<close> is the result \<open>n\<close>, \<open>Inl tot\<close> a task blocked after \<open>tot\<close> bytes.\<close>

function write_loop_p :: "sys \<Rightarrow> nat \<Rightarrow> bytes \<Rightarrow> nat \<Rightarrow> sys \<times> (nat + int)" where
  "write_loop_p s p buf tot =
     (if tot < length buf then
        if unat (pipe_count (pipe_at s p)) \<ge> PIPE_BUF_SIZE then
          if \<not> read_open (pipe_at s p) then (s, Inr (if tot > 0 then int tot else -1))
          else (task_block (upd_pipe s p (blocked_writer_update (\<lambda>_. current_task s))) (current_task s), Inl tot)
        else (let chunk = min (length buf - tot) (PIPE_BUF_SIZE - unat (pipe_count (pipe_at s p)));
                  s = upd_pipe s p (\<lambda>q. put_chunk q (get_at tot chunk buf))
              in write_loop_p (wake_reader s p) p buf (tot + chunk))
      else (s, Inr (int tot)))"
  by pat_completeness auto
termination
  by (relation "measure (\<lambda>(s, p, buf, tot). length buf - tot)") auto

definition pipe_write :: "sys \<Rightarrow> nat option \<Rightarrow> bytes \<Rightarrow> sys \<times> (nat + int)" where
  "pipe_write s pipe buf =
     (case pipe of None \<Rightarrow> (s, Inr (-1))
      | Some p \<Rightarrow>
          if buf = [] then (s, Inr (-1))
          else if \<not> read_open (pipe_at s p) then (s, Inr (-1))
          else write_loop_p s p buf 0)"

definition pipe_write_resume :: "sys \<Rightarrow> nat \<Rightarrow> bytes \<Rightarrow> nat \<Rightarrow> sys \<times> (nat + int)" where
  "pipe_write_resume s p buf tot =
     (let s = upd_pipe s p (blocked_writer_update (\<lambda>_. None)) in
      if \<not> read_open (pipe_at s p) then (s, Inr (if tot > 0 then int tot else -1))
      else write_loop_p s p buf tot)"

definition pipe_close_end :: "sys \<Rightarrow> nat option \<Rightarrow> int \<Rightarrow> sys" where
  "pipe_close_end s pipe e =
     (case pipe of None \<Rightarrow> s
      | Some p \<Rightarrow>
     (let s =
        (if e = 0 then
           (let s = (if read_refcnt (pipe_at s p) > 0 then upd_pipe s p (read_refcnt_update (\<lambda>n. n - 1)) else s) in
            if read_refcnt (pipe_at s p) = 0 then wake_reader (upd_pipe s p (read_open_update (\<lambda>_. False))) p else s)
         else
           (let s = (if write_refcnt (pipe_at s p) > 0 then upd_pipe s p (write_refcnt_update (\<lambda>n. n - 1)) else s) in
            if write_refcnt (pipe_at s p) = 0 then wake_writer (upd_pipe s p (write_open_update (\<lambda>_. False))) p else s))
      in if \<not> read_open (pipe_at s p) \<and> \<not> write_open (pipe_at s p)
         then upd_pipe s p (pipe_used_update (\<lambda>_. False)) else s))"

definition pipe_ref_inc :: "sys \<Rightarrow> nat option \<Rightarrow> int \<Rightarrow> sys" where
  "pipe_ref_inc s pipe e =
     (case pipe of None \<Rightarrow> s
      | Some p \<Rightarrow> if e = 0 then upd_pipe s p (read_refcnt_update (\<lambda>n. n + 1))
                 else upd_pipe s p (write_refcnt_update (\<lambda>n. n + 1)))"

definition pipe_ref_dec :: "sys \<Rightarrow> nat option \<Rightarrow> int \<Rightarrow> sys" where
  "pipe_ref_dec s pipe e = (case pipe of None \<Rightarrow> s | Some p \<Rightarrow> pipe_close_end s pipe e)"

definition close_fd :: "nat \<Rightarrow> nat \<Rightarrow> sys \<Rightarrow> sys" where
  "close_fd t i s =
     (let task = task_pool s ! t;
          clear = (\<lambda>t. t\<lparr>fd_type := (fd_type t)[i := 0], fd_data := (fd_data t)[i := None]\<rparr>) in
      if fd_type task ! i = FD_PIPE_READ then upd_task (pipe_close_end s (fd_data task ! i) 0) t clear
      else if fd_type task ! i = FD_PIPE_WRITE then upd_task (pipe_close_end s (fd_data task ! i) 1) t clear
      else s)"

definition task_close_fds :: "sys \<Rightarrow> nat option \<Rightarrow> sys" where
  "task_close_fds s task = (case task of None \<Rightarrow> s | Some t \<Rightarrow> fold (close_fd t) [0..<MAX_FDS] s)"

definition copy_fd :: "nat \<Rightarrow> nat \<Rightarrow> nat \<Rightarrow> sys \<Rightarrow> sys" where
  "copy_fd dst src i s =
     (let f = task_pool s ! src;
          s = upd_task s dst (\<lambda>t. t\<lparr>fd_type := (fd_type t)[i := fd_type f ! i], fd_data := (fd_data t)[i := fd_data f ! i]\<rparr>) in
      if fd_type f ! i = FD_PIPE_READ then pipe_ref_inc s (fd_data f ! i) 0
      else if fd_type f ! i = FD_PIPE_WRITE then pipe_ref_inc s (fd_data f ! i) 1
      else s)"

definition task_copy_fds :: "sys \<Rightarrow> nat option \<Rightarrow> nat option \<Rightarrow> sys" where
  "task_copy_fds s dst src =
     (case dst of None \<Rightarrow> s | Some d \<Rightarrow> (case src of None \<Rightarrow> s | Some r \<Rightarrow> fold (copy_fd d r) [0..<MAX_FDS] s))"

subsection \<open>The ring buffer\<close>

definition pipe_wf :: "pipe_t \<Rightarrow> bool" where
  "pipe_wf p \<longleftrightarrow> length (pipe_buf p) = 4096 \<and> unat (pipe_tail p) < 4096 \<and> unat (pipe_count p) \<le> 4096 \<and>
     unat (pipe_head p) = (unat (pipe_tail p) + unat (pipe_count p)) mod 4096"

definition contents :: "pipe_t \<Rightarrow> bytes" where
  "contents p = ring_items (pipe_buf p) (unat (pipe_tail p)) (unat (pipe_count p))"

text \<open>The fields of a pipe that reading and writing characters do not touch.\<close>

definition ends :: "pipe_t \<Rightarrow> bool \<times> bool \<times> int \<times> int \<times> nat option \<times> nat option \<times> bool" where
  "ends p = (read_open p, write_open p, read_refcnt p, write_refcnt p, blocked_reader p, blocked_writer p, pipe_used p)"

lemma length_contents [simp]: "length (contents p) = unat (pipe_count p)"
  by (simp add: contents_def)

lemma contents_Nil: "contents p = [] \<longleftrightarrow> pipe_count p = 0"
  by (metis length_contents length_0_conv unat_eq_0)

lemma unat_wrap:
  assumes "unat (x :: u32) < 4096"
  shows "unat ((x + 1) mod of_nat PIPE_BUF_SIZE) = Suc (unat x) mod 4096"
proof -
  have "unat (x + 1) = Suc (unat x)" using assms by (simp add: unat_add_nowrap)
  then show ?thesis by (simp add: PIPE_BUF_SIZE_def unat_mod)
qed

lemma put_one:
  assumes "pipe_wf p" "length (contents p) < 4096"
  shows "pipe_wf (put_chunk p [c])" "contents (put_chunk p [c]) = contents p @ [c]"
proof -
  let ?t = "unat (pipe_tail p)" and ?n = "unat (pipe_count p)"
  have w: "length (pipe_buf p) = 4096" "?t < 4096" "?n < 4096" "unat (pipe_head p) = (?t + ?n) mod 4096"
    using assms by (simp_all add: pipe_wf_def)
  have n: "unat (pipe_count p + 1) = Suc ?n" using w(3) by (simp add: unat_add_nowrap)
  have h: "unat (pipe_head p) < 4096" using w(4) by simp
  show "pipe_wf (put_chunk p [c])"
    using w n unat_wrap [OF h] by (simp add: pipe_wf_def put_chunk_def put_char_def mod_Suc_eq)
  show "contents (put_chunk p [c]) = contents p @ [c]"
    using ring_put [of ?n "pipe_buf p" ?t c] w n by (simp add: contents_def put_chunk_def put_char_def)
qed

lemma get_one:
  assumes "pipe_wf p" "contents p \<noteq> []"
  shows "pipe_wf (fst (get_char p))" "contents (fst (get_char p)) = tl (contents p)" "snd (get_char p) = hd (contents p)"
proof -
  let ?t = "unat (pipe_tail p)" and ?n = "unat (pipe_count p)"
  have w: "length (pipe_buf p) = 4096" "?t < 4096" "?n \<le> 4096" "unat (pipe_head p) = (?t + ?n) mod 4096"
    using assms(1) by (simp_all add: pipe_wf_def)
  have c: "pipe_count p \<noteq> 0" using assms(2) by (simp add: contents_Nil)
  then have n: "0 < ?n" "unat (pipe_count p - 1) = ?n - 1" by (simp_all add: unat_gt_0 unat_minus_one)
  have "(Suc ?t mod 4096 + (?n - 1)) mod 4096 = (?t + ?n) mod 4096"
    using n(1) by (subst mod_add_left_eq) simp
  then show "pipe_wf (fst (get_char p))"
    using w n unat_wrap [OF w(2)] by (simp add: pipe_wf_def get_char_def)
  show "contents (fst (get_char p)) = tl (contents p)" "snd (get_char p) = hd (contents p)"
    using ring_get [of ?n ?t "pipe_buf p"] w n unat_wrap [OF w(2)] by (simp_all add: contents_def get_char_def)
qed

interpretation pipe: fifo "\<lambda>p c. put_chunk p [c]" get_char contents pipe_wf 4096
  by unfold_locales (use put_one get_one in auto)

lemma fold_put_count: "fold put_char cs (p\<lparr>pipe_count := n\<rparr>) = (fold put_char cs p)\<lparr>pipe_count := n\<rparr>"
proof (induction cs arbitrary: p)
  case (Cons c cs)
  have "put_char c (p\<lparr>pipe_count := n\<rparr>) = (put_char c p)\<lparr>pipe_count := n\<rparr>" by (cases p) (simp add: put_char_def)
  then show ?case using Cons by simp
qed simp

lemma put_char_count [simp]: "pipe_count (put_char c p) = pipe_count p"
  by (simp add: put_char_def)

lemma fold_put_count_field [simp]: "pipe_count (fold put_char cs p) = pipe_count p"
  by (induction cs arbitrary: p) simp_all

lemma put_chunk_foldl: "put_chunk p cs = foldl (\<lambda>p c. put_chunk p [c]) p cs"
proof (induction cs arbitrary: p)
  case (Cons c cs)
  have "put_chunk p (c # cs) = put_chunk (put_chunk p [c]) cs"
    by (simp add: put_chunk_def fold_put_count Let_def ac_simps)
  then show ?case using Cons by simp
qed (simp add: put_chunk_def)

lemma put_chunk_contents:
  assumes "pipe_wf p" "length (contents p) + length cs \<le> 4096"
  shows "pipe_wf (put_chunk p cs)" "contents (put_chunk p cs) = contents p @ cs"
  using pipe.puts_items [OF assms, folded put_chunk_foldl] by simp_all

lemma ends_put_chunk [simp]: "ends (put_chunk p cs) = ends p"
proof -
  have "ends (fold put_char cs p) = ends p" by (induction cs arbitrary: p) (simp_all add: put_char_def ends_def)
  then show ?thesis by (simp add: put_chunk_def ends_def)
qed

lemma drain_contents:
  "pipe_wf p \<Longrightarrow> \<exists>q. drain n p out = (q, out @ take n (contents p)) \<and> pipe_wf q \<and> contents q = drop n (contents p) \<and> ends q = ends p"
proof (induction n arbitrary: p out)
  case (Suc n)
  show ?case
  proof (cases "pipe_count p = 0")
    case True
    then show ?thesis using Suc.prems contents_Nil [of p] by simp
  next
    case False
    then have ne: "contents p \<noteq> []" by (simp add: contents_Nil)
    obtain q c where g: "get_char p = (q, c)" by force
    have e: "ends q = ends p" using g by (auto simp: get_char_def ends_def)
    note G = get_one [OF Suc.prems ne, unfolded g fst_conv snd_conv]
    obtain x xs where "contents p = x # xs" using ne by (cases "contents p") auto
    then show ?thesis using Suc.IH [OF G(1), of "out @ [c]"] G False e g by (auto simp: word_gt_0)
  qed
qed auto

subsection \<open>Pipes in the kernel state\<close>

lemma upd_pipe_simps [simp]:
  "task_pool (upd_pipe s p f) = task_pool s" "current_task (upd_pipe s p f) = current_task s"
  "length (pipe_pool (upd_pipe s p f)) = length (pipe_pool s)"
  "p < length (pipe_pool s) \<Longrightarrow> pipe_at (upd_pipe s p f) p = f (pipe_at s p)"
  "q \<noteq> p \<Longrightarrow> pipe_at (upd_pipe s p f) q = pipe_at s q"
  by (simp_all add: upd_pipe_def)

lemma task_ops_pipes [simp]:
  "pipe_pool (task_block s t) = pipe_pool s" "pipe_pool (task_wakeup s t) = pipe_pool s"
  "length (task_pool (task_wakeup s t)) = length (task_pool s)"
  by (simp_all add: task_block_def task_wakeup_def upd_task_def split: option.splits)

lemma wake_other [simp]: "q \<noteq> p \<Longrightarrow> pipe_at (wake_reader s p) q = pipe_at s q" "q \<noteq> p \<Longrightarrow> pipe_at (wake_writer s p) q = pipe_at s q"
  by (simp_all add: wake_reader_def wake_writer_def)

lemma wake_pipe:
  assumes "p < length (pipe_pool s)"
  shows "pipe_at (wake_reader s p) p = (pipe_at s p)\<lparr>blocked_reader := None\<rparr>"
    "pipe_at (wake_writer s p) p = (pipe_at s p)\<lparr>blocked_writer := None\<rparr>"
    "length (pipe_pool (wake_reader s p)) = length (pipe_pool s)" "length (pipe_pool (wake_writer s p)) = length (pipe_pool s)"
  using assms by (auto simp: wake_reader_def wake_writer_def)

lemma wf_blocked [simp]:
  "pipe_wf (q\<lparr>blocked_reader := r\<rparr>) = pipe_wf q" "pipe_wf (q\<lparr>blocked_writer := r\<rparr>) = pipe_wf q"
  "contents (q\<lparr>blocked_reader := r\<rparr>) = contents q" "contents (q\<lparr>blocked_writer := r\<rparr>) = contents q"
  by (simp_all add: pipe_wf_def contents_def)

lemma wake_reader_tasks:
  assumes "blocked_reader (pipe_at s p) = Some w" "w < length (task_pool s)"
  shows "state (task_pool (wake_reader s p) ! w) \<noteq> TASK_BLOCKED"
  using assms by (simp add: wake_reader_def task_wakeup_def upd_task_def)

lemma wake_writer_tasks:
  assumes "blocked_writer (pipe_at s p) = Some w" "w < length (task_pool s)"
  shows "state (task_pool (wake_writer s p) ! w) \<noteq> TASK_BLOCKED"
  using assms by (simp add: wake_writer_def task_wakeup_def upd_task_def)

declare write_loop_p.simps [simp del]

lemma task_block_state:
  "c < length (task_pool s) \<Longrightarrow> state (task_pool (task_block s (Some c)) ! c) = TASK_BLOCKED"
  by (simp add: task_block_def upd_task_def)

lemma length_wake [simp]:
  "length (pipe_pool (wake_reader s p)) = length (pipe_pool s)" "length (pipe_pool (wake_writer s p)) = length (pipe_pool s)"
  "length (task_pool (wake_reader s p)) = length (task_pool s)" "current_task (wake_reader s p) = current_task s"
  by (simp_all add: wake_reader_def wake_writer_def task_wakeup_def upd_task_def split: option.splits)

text \<open>The loop of \<^verbatim>\<open>pipe_read\<close>, and that of \<^verbatim>\<open>pipe_write\<close> from any number of bytes already written.\<close>

lemma read_loop_contents:
  assumes "p < length (pipe_pool s)" "pipe_wf (pipe_at s p)" "contents (pipe_at s p) \<noteq> []"
  shows "\<exists>t. read_loop_p s p len = (t, Some (int (min (nat len) (length (contents (pipe_at s p)))), take (nat len) (contents (pipe_at s p)))) \<and>
    length (pipe_pool t) = length (pipe_pool s) \<and> pipe_wf (pipe_at t p) \<and>
    contents (pipe_at t p) = drop (nat len) (contents (pipe_at s p)) \<and>
    (\<forall>w. blocked_writer (pipe_at s p) = Some w \<and> w < length (task_pool s) \<longrightarrow> state (task_pool t ! w) \<noteq> TASK_BLOCKED)"
proof -
  obtain q where q: "drain (nat len) (pipe_at s p) [] = (q, take (nat len) (contents (pipe_at s p)))" "pipe_wf q"
    "contents q = drop (nat len) (contents (pipe_at s p))" "ends q = ends (pipe_at s p)"
    using drain_contents [OF assms(2), of "nat len" "[]"] by auto
  let ?s = "upd_pipe s p (\<lambda>_. q)"
  have "pipe_count (pipe_at s p) \<noteq> 0" using assms(3) by (simp add: contents_Nil)
  moreover have "blocked_writer (pipe_at ?s p) = blocked_writer (pipe_at s p)" using q(4) assms(1) by (simp add: ends_def)
  ultimately show ?thesis
    using q assms(1) wake_pipe(2) [of p ?s] wake_writer_tasks [of ?s p] by (auto simp: read_loop_p_def)
qed

definition fits :: "pipe_t \<Rightarrow> bytes \<Rightarrow> nat \<Rightarrow> nat" where
  "fits q buf tot = min (length buf - tot) (4096 - length (contents q))"

lemma write_loop_contents:
  assumes "p < length (pipe_pool s)" "pipe_wf (pipe_at s p)" "tot \<le> length buf"
  defines "k \<equiv> fits (pipe_at s p) buf tot"
  shows "\<exists>t r. write_loop_p s p buf tot = (t, r) \<and>
    r = (if tot + k = length buf then Inr (int (length buf)) else if read_open (pipe_at s p) then Inl (tot + k)
         else Inr (if 0 < tot + k then int (tot + k) else -1)) \<and>
    length (pipe_pool t) = length (pipe_pool s) \<and> pipe_wf (pipe_at t p) \<and>
    contents (pipe_at t p) = contents (pipe_at s p) @ take k (drop tot buf) \<and>
    (\<forall>w. 0 < k \<and> blocked_reader (pipe_at s p) = Some w \<and> w < length (task_pool s) \<and> current_task s \<noteq> Some w \<longrightarrow>
       state (task_pool t ! w) \<noteq> TASK_BLOCKED) \<and>
    (\<forall>c. tot + k < length buf \<and> read_open (pipe_at s p) \<and> current_task s = Some c \<and> c < length (task_pool s) \<longrightarrow>
       blocked_writer (pipe_at t p) = Some c \<and> state (task_pool t ! c) = TASK_BLOCKED)"
proof -
  let ?q = "pipe_at s p"
  have full: "write_loop_p u p buf m = (if read_open (pipe_at u p)
      then (task_block (upd_pipe u p (blocked_writer_update (\<lambda>_. current_task u))) (current_task u), Inl m)
      else (u, Inr (if m > 0 then int m else -1)))"
    if "m < length buf" "4096 \<le> length (contents (pipe_at u p))" for u m
    using that by (subst write_loop_p.simps) (simp add: PIPE_BUF_SIZE_def)
  have fin: "write_loop_p u p buf m = (u, Inr (int m))" if "length buf \<le> m" for u m
    using that by (subst write_loop_p.simps) simp
  consider "tot = length buf" | "tot < length buf" "4096 \<le> length (contents ?q)" | "tot < length buf" "length (contents ?q) < 4096"
    using assms(3) by linarith
  then show ?thesis
  proof cases
    case 1
    then show ?thesis using fin [of tot s] assms(2) by (simp add: k_def fits_def)
  next
    case 2
    then show ?thesis
      using full [OF 2] assms(1,2) by (auto simp: k_def fits_def task_block_state)
  next
    case 3
    let ?u = "wake_reader (upd_pipe s p (\<lambda>q. put_chunk q (get_at tot k buf))) p"
    have k: "k = min (length buf - tot) (PIPE_BUF_SIZE - unat (pipe_count ?q))" "0 < k" "length (get_at tot k buf) = k"
      using 3 by (auto simp: k_def fits_def PIPE_BUF_SIZE_def)
    have step: "write_loop_p s p buf tot = write_loop_p ?u p buf (tot + k)"
      using 3 k(1) by (subst write_loop_p.simps) (simp add: PIPE_BUF_SIZE_def Let_def)
    have c: "pipe_wf (put_chunk ?q (get_at tot k buf))" "contents (put_chunk ?q (get_at tot k buf)) = contents ?q @ take k (drop tot buf)"
      using put_chunk_contents [OF assms(2), of "get_at tot k buf"] k 3 by (auto simp: k_def fits_def get_at_def)
    have e: "read_open (put_chunk ?q xs) = read_open ?q" "blocked_reader (put_chunk ?q xs) = blocked_reader ?q" for xs
      using ends_put_chunk [of ?q xs] by (simp_all add: ends_def)
    have u: "pipe_at ?u p = (put_chunk ?q (get_at tot k buf))\<lparr>blocked_reader := None\<rparr>" using assms(1) by (simp add: wake_pipe)
    have woken: "state (task_pool ?u ! w) \<noteq> TASK_BLOCKED" if "blocked_reader ?q = Some w" "w < length (task_pool s)" for w
      using that assms(1) e(2) by (intro wake_reader_tasks) simp_all
    show ?thesis
    proof (cases "tot + k = length buf")
      case True
      then show ?thesis using step fin [of "tot + k" ?u] u c woken by auto
    next
      case False
      then have lt: "tot + k < length buf" "4096 \<le> length (contents (pipe_at ?u p))"
        using k 3 u c(2) by (auto simp: k_def fits_def)
      have other: "state (task_pool (task_block (upd_pipe ?u p f) (current_task s)) ! w) = state (task_pool ?u ! w)"
        if "current_task s \<noteq> Some w" for f w
        using that by (auto simp: task_block_def upd_task_def nth_list_update split: option.splits)
      show ?thesis
        using step full [OF lt] u c woken other False lt(1) assms(1) e(1) by (auto simp: task_block_state)
    qed
  qed
qed

text \<open>Reading a pipe that holds bytes returns the oldest ones, at most as many as asked for,
  takes exactly those out, and wakes a writer that waits for room. Reading an empty pipe
  returns 0 if no writer is left; otherwise the reader is recorded and blocks, and the
  contents are untouched.\<close>

theorem pipe_read_fifo:
  assumes "p < length (pipe_pool s)" "pipe_wf (pipe_at s p)" "0 < len"
  shows "\<exists>t r. pipe_read s (Some p) len = (t, r) \<and> pipe_wf (pipe_at t p) \<and>
    contents (pipe_at t p) = drop (nat len) (contents (pipe_at s p)) \<and>
    (if contents (pipe_at s p) \<noteq> [] then
       r = Some (int (min (nat len) (length (contents (pipe_at s p)))), take (nat len) (contents (pipe_at s p))) \<and>
       (\<forall>w. blocked_writer (pipe_at s p) = Some w \<and> w < length (task_pool s) \<longrightarrow> state (task_pool t ! w) \<noteq> TASK_BLOCKED)
     else if \<not> write_open (pipe_at s p) then t = s \<and> r = Some (0, [])
     else r = None \<and> blocked_reader (pipe_at t p) = current_task s \<and>
       (\<forall>c. current_task s = Some c \<and> c < length (task_pool s) \<longrightarrow> state (task_pool t ! c) = TASK_BLOCKED))"
proof (cases "contents (pipe_at s p) = []")
  case False
  then show ?thesis using read_loop_contents [OF assms(1,2) False, of len] assms(3) by (auto simp: pipe_read_def)
next
  case True
  then show ?thesis using assms
    by (auto simp: pipe_read_def read_loop_p_def contents_Nil task_block_state)
qed

text \<open>Writing to a pipe with an open read end appends as much as there is room for, and
  reports the number of bytes; if not all of it fits, the writer blocks with the rest
  still to write, and a reader that waits for data is woken.\<close>

theorem pipe_write_fifo:
  assumes "p < length (pipe_pool s)" "pipe_wf (pipe_at s p)" "buf \<noteq> []" "read_open (pipe_at s p)"
  defines "k \<equiv> min (length buf) (4096 - length (contents (pipe_at s p)))"
  shows "\<exists>t. pipe_write s (Some p) buf = (t, if k = length buf then Inr (int (length buf)) else Inl k) \<and>
    pipe_wf (pipe_at t p) \<and> contents (pipe_at t p) = contents (pipe_at s p) @ take k buf \<and>
    (\<forall>w. 0 < k \<and> blocked_reader (pipe_at s p) = Some w \<and> w < length (task_pool s) \<and> current_task s \<noteq> Some w \<longrightarrow>
       state (task_pool t ! w) \<noteq> TASK_BLOCKED) \<and>
    (\<forall>c. k < length buf \<and> current_task s = Some c \<and> c < length (task_pool s) \<longrightarrow>
       blocked_writer (pipe_at t p) = Some c \<and> state (task_pool t ! c) = TASK_BLOCKED)"
proof -
  have k: "fits (pipe_at s p) buf 0 = k" by (simp add: fits_def k_def)
  from write_loop_contents [OF assms(1,2), of 0 buf, unfolded k] assms(3,4)
  show ?thesis by (auto simp: pipe_write_def)
qed

subsection \<open>Descriptors and reference counts\<close>

definition pipe_refs :: "u8 \<Rightarrow> pipe_t \<Rightarrow> int" where
  "pipe_refs ty q = (if ty = FD_PIPE_READ then read_refcnt q else write_refcnt q)"

definition pipe_open :: "u8 \<Rightarrow> pipe_t \<Rightarrow> bool" where
  "pipe_open ty q = (if ty = FD_PIPE_READ then read_open q else write_open q)"

definition refers :: "task_t \<Rightarrow> u8 \<Rightarrow> nat \<Rightarrow> nat \<Rightarrow> bool" where
  "refers t ty p i \<longleftrightarrow> fd_type t ! i = ty \<and> fd_data t ! i = Some p"

definition fd_refs :: "task_t \<Rightarrow> u8 \<Rightarrow> nat \<Rightarrow> nat" where
  "fd_refs t ty p = length (filter (refers t ty p) [0..<MAX_FDS])"

abbreviation pipe_end :: "u8 \<Rightarrow> bool" where
  "pipe_end ty \<equiv> ty = FD_PIPE_READ \<or> ty = FD_PIPE_WRITE"

lemma fd_types [simp]: "FD_PIPE_READ \<noteq> FD_PIPE_WRITE" "FD_PIPE_WRITE \<noteq> FD_PIPE_READ" "FD_PIPE_READ \<noteq> 0" "FD_PIPE_WRITE \<noteq> 0"
  by (simp_all add: FD_PIPE_READ_def FD_PIPE_WRITE_def)

lemma pipe_ref_inc_tasks [simp]: "task_pool (pipe_ref_inc s q e) = task_pool s"
  by (simp add: pipe_ref_inc_def split: option.splits)

lemma upd_task_pipes [simp]: "pipe_pool (upd_task s t f) = pipe_pool s"
  by (simp add: upd_task_def)

lemma copy_fd_refs:
  assumes "p < length (pipe_pool s)" "pipe_end ty"
  shows "pipe_refs ty (pipe_at (copy_fd d r i s) p) =
      pipe_refs ty (pipe_at s p) + (if refers (task_pool s ! r) ty p i then 1 else 0)"
    "length (pipe_pool (copy_fd d r i s)) = length (pipe_pool s)"
proof -
  have len: "length (pipe_pool (pipe_ref_inc u q e)) = length (pipe_pool u)" for u q e
    by (simp add: pipe_ref_inc_def split: option.splits)
  show "length (pipe_pool (copy_fd d r i s)) = length (pipe_pool s)"
    by (simp add: copy_fd_def Let_def len)
  have inc: "pipe_at (pipe_ref_inc u q e) p = (if q = Some p then (if e = 0 then (pipe_at u p)\<lparr>read_refcnt := read_refcnt (pipe_at u p) + 1\<rparr>
      else (pipe_at u p)\<lparr>write_refcnt := write_refcnt (pipe_at u p) + 1\<rparr>) else pipe_at u p)" if "p < length (pipe_pool u)" for u q e
    using that by (auto simp: pipe_ref_inc_def upd_pipe_def nth_list_update split: option.splits)
  show "pipe_refs ty (pipe_at (copy_fd d r i s) p) =
      pipe_refs ty (pipe_at s p) + (if refers (task_pool s ! r) ty p i then 1 else 0)"
    using assms by (auto simp: copy_fd_def Let_def inc refers_def pipe_refs_def)
qed

lemma copy_fd_tasks:
  assumes "d \<noteq> r"
  shows "task_pool (copy_fd d r i s) ! r = task_pool s ! r"
    "length (task_pool (copy_fd d r i s)) = length (task_pool s)"
    "d < length (task_pool s) \<Longrightarrow> fd_type (task_pool (copy_fd d r i s) ! d) = (fd_type (task_pool s ! d))[i := fd_type (task_pool s ! r) ! i]"
    "d < length (task_pool s) \<Longrightarrow> fd_data (task_pool (copy_fd d r i s) ! d) = (fd_data (task_pool s ! d))[i := fd_data (task_pool s ! r) ! i]"
  using assms by (simp_all add: copy_fd_def Let_def upd_task_def)

lemma copy_fds_refs:
  assumes "d \<noteq> r" "p < length (pipe_pool s)" "pipe_end ty"
  shows "pipe_refs ty (pipe_at (fold (copy_fd d r) xs s) p) =
    pipe_refs ty (pipe_at s p) + int (length (filter (refers (task_pool s ! r) ty p) xs))"
  using assms
proof (induction xs arbitrary: s)
  case (Cons x xs)
  then show ?case
    using copy_fd_refs [OF Cons.prems(2,3), of d r x] copy_fd_tasks(1) [OF Cons.prems(1), of x s] by auto
qed simp

lemma take_drop_update:
  assumes "length a = length b" "n < length a"
  shows "(take n a @ drop n b)[n := a ! n] = take (Suc n) a @ drop (Suc n) b"
  using assms by (simp add: list_update_append take_Suc_conv_app_nth Cons_nth_drop_Suc [symmetric])

lemma copy_fds_tasks:
  assumes "d \<noteq> r" "d < length (task_pool s)" "length (fd_type (task_pool s ! d)) = 8" "length (fd_type (task_pool s ! r)) = 8"
    "length (fd_data (task_pool s ! d)) = 8" "length (fd_data (task_pool s ! r)) = 8" "n \<le> 8"
  shows "let t = fold (copy_fd d r) [0..<n] s in task_pool t ! r = task_pool s ! r \<and> length (task_pool t) = length (task_pool s) \<and>
    fd_type (task_pool t ! d) = take n (fd_type (task_pool s ! r)) @ drop n (fd_type (task_pool s ! d)) \<and>
    fd_data (task_pool t ! d) = take n (fd_data (task_pool s ! r)) @ drop n (fd_data (task_pool s ! d))"
  using assms(7)
proof (induction n)
  case (Suc n)
  let ?t = "fold (copy_fd d r) [0..<n] s"
  show ?case
    using Suc copy_fd_tasks [OF assms(1), where i = n and s = ?t] assms(2-6) by (simp add: Let_def take_drop_update)
qed simp

text \<open>A forked child gets the descriptors of its parent, and every pipe end counts one more
  reference for each descriptor of the parent that refers to it.\<close>

theorem task_copy_fds_correct:
  assumes "d \<noteq> r" "d < length (task_pool s)" "r < length (task_pool s)" "p < length (pipe_pool s)"
    "length (fd_type (task_pool s ! d)) = MAX_FDS" "length (fd_type (task_pool s ! r)) = MAX_FDS"
    "length (fd_data (task_pool s ! d)) = MAX_FDS" "length (fd_data (task_pool s ! r)) = MAX_FDS"
  defines "t \<equiv> task_copy_fds s (Some d) (Some r)"
  shows "fd_type (task_pool t ! d) = fd_type (task_pool s ! r) \<and> fd_data (task_pool t ! d) = fd_data (task_pool s ! r) \<and>
    task_pool t ! r = task_pool s ! r \<and>
    read_refcnt (pipe_at t p) = read_refcnt (pipe_at s p) + int (fd_refs (task_pool s ! r) FD_PIPE_READ p) \<and>
    write_refcnt (pipe_at t p) = write_refcnt (pipe_at s p) + int (fd_refs (task_pool s ! r) FD_PIPE_WRITE p)"
  using copy_fds_tasks [OF assms(1,2), of 8] assms(5-8)
    copy_fds_refs [OF assms(1,4), of FD_PIPE_READ "[0..<MAX_FDS]"] copy_fds_refs [OF assms(1,4), of FD_PIPE_WRITE "[0..<MAX_FDS]"]
  by (simp add: t_def task_copy_fds_def MAX_FDS_def fd_refs_def pipe_refs_def Let_def)


lemma wake_refs [simp]:
  "pipe_refs ty (pipe_at (wake_reader s q) p) = pipe_refs ty (pipe_at s p)" "pipe_refs ty (pipe_at (wake_writer s q) p) = pipe_refs ty (pipe_at s p)"
  "pipe_open ty (pipe_at (wake_reader s q) p) = pipe_open ty (pipe_at s p)" "pipe_open ty (pipe_at (wake_writer s q) p) = pipe_open ty (pipe_at s p)"
  by (auto simp: wake_reader_def wake_writer_def upd_pipe_def nth_upd pipe_refs_def pipe_open_def)

lemma wake_fds [simp]:
  "fd_type (task_pool (wake_reader s q) ! t) = fd_type (task_pool s ! t)" "fd_data (task_pool (wake_reader s q) ! t) = fd_data (task_pool s ! t)"
  "fd_type (task_pool (wake_writer s q) ! t) = fd_type (task_pool s ! t)" "fd_data (task_pool (wake_writer s q) ! t) = fd_data (task_pool s ! t)"
  "length (task_pool (wake_writer s q)) = length (task_pool s)"
  by (auto simp: wake_reader_def wake_writer_def task_wakeup_def upd_task_def nth_upd split: option.splits)

definition end_of :: "u8 \<Rightarrow> int" where
  "end_of ty = (if ty = FD_PIPE_READ then 0 else 1)"

text \<open>What closing an end does to the pipe itself.\<close>

definition close_read :: "pipe_t \<Rightarrow> pipe_t" where
  "close_read q = (let n = (if read_refcnt q > 0 then read_refcnt q - 1 else read_refcnt q); q = q\<lparr>read_refcnt := n\<rparr>;
     q = (if n = 0 then q\<lparr>read_open := False, blocked_reader := None\<rparr> else q) in
     if \<not> read_open q \<and> \<not> write_open q then q\<lparr>pipe_used := False\<rparr> else q)"

definition close_write :: "pipe_t \<Rightarrow> pipe_t" where
  "close_write q = (let n = (if write_refcnt q > 0 then write_refcnt q - 1 else write_refcnt q); q = q\<lparr>write_refcnt := n\<rparr>;
     q = (if n = 0 then q\<lparr>write_open := False, blocked_writer := None\<rparr> else q) in
     if \<not> read_open q \<and> \<not> write_open q then q\<lparr>pipe_used := False\<rparr> else q)"

lemma close_end_pipe:
  assumes "p < length (pipe_pool s)"
  shows "pipe_at (pipe_close_end s (Some p) e) p = (if e = 0 then close_read (pipe_at s p) else close_write (pipe_at s p))"
  using assms by (simp add: pipe_close_end_def close_read_def close_write_def Let_def wake_pipe)

lemma close_end_keeps:
  assumes "\<And>p u f. q = Some p \<Longrightarrow> P u \<Longrightarrow> P (upd_pipe u p f)" "\<And>p u. q = Some p \<Longrightarrow> P u \<Longrightarrow> P (wake_reader u p)"
    "\<And>p u. q = Some p \<Longrightarrow> P u \<Longrightarrow> P (wake_writer u p)" "P s"
  shows "P (pipe_close_end s q e)"
proof (cases q)
  case None
  then show ?thesis using assms(4) by (simp add: pipe_close_end_def)
next
  case (Some p)
  note K = assms(1-3) [OF Some]
  have split: "P (if c then a else b)" if "P a" "P b" for a b c using that by simp
  show ?thesis unfolding pipe_close_end_def Some option.case Let_def
    by (intro split K assms(4))
qed

lemma close_end_other:
  assumes "q \<noteq> Some p"
  shows "pipe_at (pipe_close_end s q e) p = pipe_at s p"
  by (rule close_end_keeps [where P = "\<lambda>u. pipe_at u p = pipe_at s p"]) (use assms in auto)

lemma close_end_frame [simp]:
  "length (pipe_pool (pipe_close_end s q e)) = length (pipe_pool s)"
  "length (task_pool (pipe_close_end s q e)) = length (task_pool s)"
  "fd_type (task_pool (pipe_close_end s q e) ! t) = fd_type (task_pool s ! t)"
  "fd_data (task_pool (pipe_close_end s q e) ! t) = fd_data (task_pool s ! t)"
proof -
  let ?P = "\<lambda>u. length (pipe_pool u) = length (pipe_pool s) \<and> length (task_pool u) = length (task_pool s) \<and>
    fd_type (task_pool u ! t) = fd_type (task_pool s ! t) \<and> fd_data (task_pool u ! t) = fd_data (task_pool s ! t)"
  have "?P (pipe_close_end s q e)" by (rule close_end_keeps [where P = ?P]) simp_all
  then show "length (pipe_pool (pipe_close_end s q e)) = length (pipe_pool s)"
    "length (task_pool (pipe_close_end s q e)) = length (task_pool s)"
    "fd_type (task_pool (pipe_close_end s q e) ! t) = fd_type (task_pool s ! t)"
    "fd_data (task_pool (pipe_close_end s q e) ! t) = fd_data (task_pool s ! t)" by blast+
qed

definition less_one :: "int \<Rightarrow> int" where
  "less_one n = (if n > 0 then n - 1 else n)"

lemma close_read_fields [simp]:
  "read_refcnt (close_read q) = less_one (read_refcnt q)" "write_refcnt (close_read q) = write_refcnt q"
  "read_open (close_read q) \<longleftrightarrow> read_open q \<and> less_one (read_refcnt q) \<noteq> 0" "write_open (close_read q) = write_open q"
  by (simp_all add: close_read_def Let_def less_one_def)

lemma close_write_fields [simp]:
  "write_refcnt (close_write q) = less_one (write_refcnt q)" "read_refcnt (close_write q) = read_refcnt q"
  "write_open (close_write q) \<longleftrightarrow> write_open q \<and> less_one (write_refcnt q) \<noteq> 0" "read_open (close_write q) = read_open q"
  by (simp_all add: close_write_def Let_def less_one_def)

lemma close_end_refs:
  assumes "p < length (pipe_pool s)" "pipe_end ty" "pipe_end ty'"
  shows "pipe_refs ty (pipe_at (pipe_close_end s q (end_of ty')) p) =
      (if ty' = ty \<and> q = Some p then less_one (pipe_refs ty (pipe_at s p)) else pipe_refs ty (pipe_at s p))"
    "pipe_open ty (pipe_at (pipe_close_end s q (end_of ty')) p) \<longleftrightarrow>
      pipe_open ty (pipe_at s p) \<and> (ty' = ty \<and> q = Some p \<longrightarrow> less_one (pipe_refs ty (pipe_at s p)) \<noteq> 0)"
proof -
  have "pipe_at (pipe_close_end s q (end_of ty')) p =
      (if q = Some p then (if ty' = FD_PIPE_READ then close_read (pipe_at s p) else close_write (pipe_at s p)) else pipe_at s p)"
    using close_end_pipe [OF assms(1), of "end_of ty'"] close_end_other [of q p s "end_of ty'"] by (simp add: end_of_def)
  then show "pipe_refs ty (pipe_at (pipe_close_end s q (end_of ty')) p) =
      (if ty' = ty \<and> q = Some p then less_one (pipe_refs ty (pipe_at s p)) else pipe_refs ty (pipe_at s p))"
    "pipe_open ty (pipe_at (pipe_close_end s q (end_of ty')) p) \<longleftrightarrow>
      pipe_open ty (pipe_at s p) \<and> (ty' = ty \<and> q = Some p \<longrightarrow> less_one (pipe_refs ty (pipe_at s p)) \<noteq> 0)"
    using assms(2,3) by (elim disjE; simp add: pipe_refs_def pipe_open_def)+
qed

lemma close_fd_eq:
  assumes "t < length (task_pool s)"
  shows "close_fd t i s = (if pipe_end (fd_type (task_pool s ! t) ! i)
    then upd_task (pipe_close_end s (fd_data (task_pool s ! t) ! i) (end_of (fd_type (task_pool s ! t) ! i))) t
      (\<lambda>t. t\<lparr>fd_type := (fd_type t)[i := 0], fd_data := (fd_data t)[i := None]\<rparr>) else s)"
  by (simp add: close_fd_def end_of_def Let_def)

lemma close_fd_task:
  assumes "t < length (task_pool s)"
  shows "length (task_pool (close_fd t i s)) = length (task_pool s)" "length (pipe_pool (close_fd t i s)) = length (pipe_pool s)"
    "i \<noteq> j \<Longrightarrow> refers (task_pool (close_fd t i s) ! t) ty p j = refers (task_pool s ! t) ty p j"
    "i < length (fd_type (task_pool s ! t)) \<Longrightarrow> pipe_end ty \<Longrightarrow> \<not> refers (task_pool (close_fd t i s) ! t) ty p i"
    "length (fd_type (task_pool (close_fd t i s) ! t)) = length (fd_type (task_pool s ! t))"
  using assms by (auto simp: close_fd_eq upd_task_def refers_def)

lemma close_fds_refs:
  assumes "t < length (task_pool s)" "p < length (pipe_pool s)" "pipe_end ty" "distinct xs"
    "int (length (filter (refers (task_pool s ! t) ty p) xs)) \<le> pipe_refs ty (pipe_at s p)"
  shows "let u = fold (close_fd t) xs s; n = length (filter (refers (task_pool s ! t) ty p) xs) in
    pipe_refs ty (pipe_at u p) = pipe_refs ty (pipe_at s p) - int n \<and>
    pipe_open ty (pipe_at u p) = (pipe_open ty (pipe_at s p) \<and> (0 < n \<longrightarrow> int n < pipe_refs ty (pipe_at s p)))"
  using assms
proof (induction xs arbitrary: s)
  case (Cons x xs)
  let ?s = "close_fd t x s" and ?n = "length (filter (refers (task_pool s ! t) ty p) xs)"
  note T = close_fd_task [OF Cons.prems(1), of x]
  have filt: "filter (refers (task_pool ?s ! t) ty p) xs = filter (refers (task_pool s ! t) ty p) xs"
  proof (rule filter_cong)
    fix j assume "j \<in> set xs"
    then have "x \<noteq> j" using Cons.prems(4) by auto
    then show "refers (task_pool ?s ! t) ty p j = refers (task_pool s ! t) ty p j" by (rule T(3))
  qed simp
  show ?case
  proof (cases "refers (task_pool s ! t) ty p x")
    case True
    then have pos: "0 < pipe_refs ty (pipe_at s p)" using Cons.prems(5) by simp
    have "fd_type (task_pool s ! t) ! x = ty" "fd_data (task_pool s ! t) ! x = Some p" using True by (simp_all add: refers_def)
    then have s': "pipe_refs ty (pipe_at ?s p) = pipe_refs ty (pipe_at s p) - 1"
      "pipe_open ty (pipe_at ?s p) = (pipe_open ty (pipe_at s p) \<and> 1 < pipe_refs ty (pipe_at s p))"
      using close_end_refs [OF Cons.prems(2,3,3), of "Some p"] Cons.prems(1,3) pos by (auto simp: close_fd_eq less_one_def)
    have "let u = fold (close_fd t) xs ?s in pipe_refs ty (pipe_at u p) = pipe_refs ty (pipe_at ?s p) - int ?n \<and>
      pipe_open ty (pipe_at u p) = (pipe_open ty (pipe_at ?s p) \<and> (0 < ?n \<longrightarrow> int ?n < pipe_refs ty (pipe_at ?s p)))"
      using Cons.IH [of ?s] T(1,2) Cons.prems filt s' True by (auto simp: Let_def)
    then show ?thesis using s' True by (auto simp: Let_def)
  next
    case False
    have s': "pipe_refs ty (pipe_at ?s p) = pipe_refs ty (pipe_at s p)" "pipe_open ty (pipe_at ?s p) = pipe_open ty (pipe_at s p)"
      using close_end_refs [OF Cons.prems(2,3), of "fd_type (task_pool s ! t) ! x" "fd_data (task_pool s ! t) ! x"] Cons.prems(1) False
      by (auto simp: close_fd_eq refers_def)
    then show ?thesis using Cons.IH [of ?s] T(1,2) Cons.prems filt False by (auto simp: Let_def)
  qed
qed simp

lemma close_fds_cleared:
  assumes "t < length (task_pool s)" "\<And>x. x \<in> set xs \<Longrightarrow> x < length (fd_type (task_pool s ! t))" "pipe_end ty"
  shows "length (task_pool (fold (close_fd t) xs s)) = length (task_pool s) \<and>
    (\<forall>j. refers (task_pool (fold (close_fd t) xs s) ! t) ty p j \<longrightarrow> refers (task_pool s ! t) ty p j \<and> j \<notin> set xs)"
  using assms
proof (induction xs arbitrary: s)
  case (Cons x xs)
  note T = close_fd_task [OF Cons.prems(1), of x]
  have "refers (task_pool (close_fd t x s) ! t) ty p j \<Longrightarrow> refers (task_pool s ! t) ty p j \<and> j \<noteq> x" for j
    using T(3) [of j ty p] T(4) [of ty p] Cons.prems(2,3) by (cases "j = x") auto
  then show ?case using Cons.IH [of "close_fd t x s"] T(1,5) Cons.prems by auto
qed simp

text \<open>Closing the descriptors of a task leaves it none that refers to a pipe, and takes back
  exactly the references its descriptors held, provided they were counted. An end of
  a pipe is closed when its last reference goes and stays open otherwise.\<close>

theorem task_close_fds_correct:
  assumes "t < length (task_pool s)" "p < length (pipe_pool s)" "length (fd_type (task_pool s ! t)) = MAX_FDS"
    and "int (fd_refs (task_pool s ! t) FD_PIPE_READ p) \<le> read_refcnt (pipe_at s p)"
    and "int (fd_refs (task_pool s ! t) FD_PIPE_WRITE p) \<le> write_refcnt (pipe_at s p)"
  defines "u \<equiv> task_close_fds s (Some t)"
  shows "fd_refs (task_pool u ! t) FD_PIPE_READ p = 0 \<and> fd_refs (task_pool u ! t) FD_PIPE_WRITE p = 0 \<and>
    read_refcnt (pipe_at u p) = read_refcnt (pipe_at s p) - int (fd_refs (task_pool s ! t) FD_PIPE_READ p) \<and>
    write_refcnt (pipe_at u p) = write_refcnt (pipe_at s p) - int (fd_refs (task_pool s ! t) FD_PIPE_WRITE p) \<and>
    (0 < read_refcnt (pipe_at u p) \<longrightarrow> read_open (pipe_at u p) = read_open (pipe_at s p)) \<and>
    (0 < fd_refs (task_pool s ! t) FD_PIPE_READ p \<and> read_refcnt (pipe_at u p) = 0 \<longrightarrow> \<not> read_open (pipe_at u p)) \<and>
    (0 < fd_refs (task_pool s ! t) FD_PIPE_WRITE p \<and> write_refcnt (pipe_at u p) = 0 \<longrightarrow> \<not> write_open (pipe_at u p))"
proof -
  have none: "fd_refs (task_pool u ! t) ty p = 0" if "pipe_end ty" for ty
    using close_fds_cleared [OF assms(1), of "[0..<MAX_FDS]" ty p] that assms(3)
    by (auto simp: fd_refs_def u_def task_close_fds_def filter_empty_conv)
  have refs: "pipe_refs ty (pipe_at u p) = pipe_refs ty (pipe_at s p) - int (fd_refs (task_pool s ! t) ty p) \<and>
    pipe_open ty (pipe_at u p) = (pipe_open ty (pipe_at s p) \<and> (0 < fd_refs (task_pool s ! t) ty p \<longrightarrow>
      int (fd_refs (task_pool s ! t) ty p) < pipe_refs ty (pipe_at s p)))" if "pipe_end ty" for ty
    using close_fds_refs [OF assms(1,2) that, of "[0..<MAX_FDS]"] assms(4,5) that
    by (auto simp: fd_refs_def u_def task_close_fds_def pipe_refs_def Let_def)
  from none refs [of FD_PIPE_READ] refs [of FD_PIPE_WRITE] show ?thesis by (auto simp: pipe_refs_def pipe_open_def)
qed

subsection \<open>A pipe is a stream\<close>

text \<open>
  Everything that can happen to a pipe between its creation and its reuse: calls of \<^verbatim>\<open>pipe_read\<close> and
  \<^verbatim>\<open>pipe_write\<close>, blocked calls that go on, the closing of an end and the counting of a new descriptor, of this pipe
  or of another one, and steps of other parts of the kernel, which do not touch the pipe.
  The bytes written so far are \<open>w\<close>, the bytes read are \<open>r\<close>.
\<close>

inductive pipe_run :: "nat \<Rightarrow> sys \<Rightarrow> bytes \<Rightarrow> bytes \<Rightarrow> sys \<Rightarrow> bool" for p s where
  start: "pipe_run p s [] [] s"
| elsewhere: "pipe_run p s w r t \<Longrightarrow> pipe_at u p = pipe_at t p \<Longrightarrow> length (pipe_pool u) = length (pipe_pool t) \<Longrightarrow> pipe_run p s w r u"
| closes: "pipe_run p s w r t \<Longrightarrow> pipe_run p s w r (pipe_close_end t q e)"
| counts: "pipe_run p s w r t \<Longrightarrow> pipe_run p s w r (pipe_ref_inc t q e)"
| read: "pipe_run p s w r t \<Longrightarrow> pipe_read t (Some p) len = (u, Some (n, out)) \<Longrightarrow> pipe_run p s w (r @ out) u"
| read_blocks: "pipe_run p s w r t \<Longrightarrow> pipe_read t (Some p) len = (u, None) \<Longrightarrow> pipe_run p s w r u"
| read_again: "pipe_run p s w r t \<Longrightarrow> 0 < len \<Longrightarrow> pipe_read_resume t p len = (u, Some (n, out)) \<Longrightarrow> pipe_run p s w (r @ out) u"
| read_again_blocks: "pipe_run p s w r t \<Longrightarrow> 0 < len \<Longrightarrow> pipe_read_resume t p len = (u, None) \<Longrightarrow> pipe_run p s w r u"
| writes: "pipe_run p s w r t \<Longrightarrow> pipe_write t (Some p) buf = (u, Inr n) \<Longrightarrow> pipe_run p s (w @ take (nat n) buf) r u"
| write_blocks: "pipe_run p s w r t \<Longrightarrow> pipe_write t (Some p) buf = (u, Inl k) \<Longrightarrow> pipe_run p s (w @ take k buf) r u"
| write_again: "pipe_run p s w r t \<Longrightarrow> tot \<le> length buf \<Longrightarrow> pipe_write_resume t p buf tot = (u, Inr n) \<Longrightarrow>
    pipe_run p s (w @ take (nat n - tot) (drop tot buf)) r u"
| write_again_blocks: "pipe_run p s w r t \<Longrightarrow> tot \<le> length buf \<Longrightarrow> pipe_write_resume t p buf tot = (u, Inl k) \<Longrightarrow>
    pipe_run p s (w @ take (k - tot) (drop tot buf)) r u"

definition pipe_stream :: "nat \<Rightarrow> sys \<Rightarrow> bytes \<Rightarrow> bytes \<Rightarrow> sys \<Rightarrow> bool" where
  "pipe_stream p s w r t \<longleftrightarrow> p < length (pipe_pool t) \<and> pipe_wf (pipe_at t p) \<and>
     contents (pipe_at s p) @ w = r @ contents (pipe_at t p)"

lemma read_loop_stream:
  assumes "pipe_stream p s w r t" "read_loop_p t p len = (u, x)"
  shows "pipe_stream p s w (case x of None \<Rightarrow> r | Some (n, out) \<Rightarrow> r @ out) u"
proof (cases "contents (pipe_at t p) = []")
  case False
  then show ?thesis using read_loop_contents [of p t len] assms by (auto simp: pipe_stream_def)
next
  case True
  then show ?thesis using assms by (auto simp: pipe_stream_def read_loop_p_def contents_Nil split: if_splits)
qed

lemma write_loop_stream:
  assumes "pipe_stream p s w r t" "tot \<le> length buf" "write_loop_p t p buf tot = (u, x)"
  shows "pipe_stream p s (w @ take ((case x of Inl k \<Rightarrow> k | Inr n \<Rightarrow> nat n) - tot) (drop tot buf)) r u"
proof -
  let ?k = "fits (pipe_at t p) buf tot"
  have "p < length (pipe_pool t)" "pipe_wf (pipe_at t p)" using assms(1) by (simp_all add: pipe_stream_def)
  from write_loop_contents [OF this assms(2)] assms(3)
  have u: "length (pipe_pool u) = length (pipe_pool t)" "pipe_wf (pipe_at u p)"
    "contents (pipe_at u p) = contents (pipe_at t p) @ take ?k (drop tot buf)"
    "x = (if tot + ?k = length buf then Inr (int (length buf)) else if read_open (pipe_at t p) then Inl (tot + ?k)
         else Inr (if 0 < tot + ?k then int (tot + ?k) else -1))" by auto
  then have "(case x of Inl k \<Rightarrow> k | Inr n \<Rightarrow> nat n) - tot = ?k" by auto
  then show ?thesis using assms(1) u(1-3) by (simp add: pipe_stream_def flip: append_assoc)
qed

lemma stream_blocked:
  "pipe_stream p s w r t \<Longrightarrow> pipe_stream p s w r (upd_pipe t p (blocked_reader_update f))"
  "pipe_stream p s w r t \<Longrightarrow> pipe_stream p s w r (upd_pipe t p (blocked_writer_update f))"
  by (simp_all add: pipe_stream_def pipe_wf_def contents_def)

lemma close_end_contents:
  assumes "p < length (pipe_pool s)"
  shows "contents (pipe_at (pipe_close_end s q e) p) = contents (pipe_at s p)" "pipe_wf (pipe_at (pipe_close_end s q e) p) = pipe_wf (pipe_at s p)"
proof -
  have "contents (close_read x) = contents x" "contents (close_write x) = contents x"
    "pipe_wf (close_read x) = pipe_wf x" "pipe_wf (close_write x) = pipe_wf x" for x
    by (simp_all add: close_read_def close_write_def Let_def contents_def pipe_wf_def)
  then show "contents (pipe_at (pipe_close_end s q e) p) = contents (pipe_at s p)"
    "pipe_wf (pipe_at (pipe_close_end s q e) p) = pipe_wf (pipe_at s p)"
    using close_end_pipe [OF assms, of e] close_end_other [of q p s e] by (cases "q = Some p"; simp)+
qed

lemma ref_inc_pipes [simp]: "length (pipe_pool (pipe_ref_inc s q e)) = length (pipe_pool s)"
  by (simp add: pipe_ref_inc_def split: option.split)

lemma ref_inc_contents:
  assumes "p < length (pipe_pool s)"
  shows "contents (pipe_at (pipe_ref_inc s q e) p) = contents (pipe_at s p)" "pipe_wf (pipe_at (pipe_ref_inc s q e) p) = pipe_wf (pipe_at s p)"
  using assms by (auto simp: pipe_ref_inc_def upd_pipe_def nth_upd contents_def pipe_wf_def split: option.split)

lemma pipe_run_stream:
  assumes "pipe_run p s w r t" "p < length (pipe_pool s)" "pipe_wf (pipe_at s p)"
  shows "pipe_stream p s w r t"
  using assms(1)
proof induction
  case start
  then show ?case using assms(2,3) by (simp add: pipe_stream_def)
next
  case (elsewhere w r t u)
  then show ?case by (simp add: pipe_stream_def)
next
  case (closes w r t q e)
  then show ?case by (simp add: pipe_stream_def close_end_contents)
next
  case (counts w r t q e)
  then show ?case by (simp add: pipe_stream_def ref_inc_contents)
next
  case (read w r t len u n out)
  then show ?case using read_loop_stream [of p s w r t len u "Some (n, out)"] by (auto simp: pipe_read_def split: if_splits)
next
  case (read_blocks w r t len u)
  then show ?case using read_loop_stream [of p s w r t len u None] by (auto simp: pipe_read_def split: if_splits)
next
  case (read_again w r t len u n out)
  then show ?case using read_loop_stream [OF stream_blocked(1)] by (fastforce simp: pipe_read_resume_def)
next
  case (read_again_blocks w r t len u)
  then show ?case using read_loop_stream [OF stream_blocked(1)] by (fastforce simp: pipe_read_resume_def)
next
  case (writes w r t buf u n)
  then show ?case using write_loop_stream [of p s w r t 0 buf u "Inr n"] by (auto simp: pipe_write_def split: if_splits)
next
  case (write_blocks w r t buf u k)
  then show ?case using write_loop_stream [of p s w r t 0 buf u "Inl k"] by (auto simp: pipe_write_def split: if_splits)
next
  case (write_again w r t tot buf u n)
  show ?case
  proof (cases "read_open (pipe_at (upd_pipe t p (blocked_writer_update (\<lambda>_. None))) p)")
    case True
    then show ?thesis using write_again write_loop_stream [OF stream_blocked(2) [OF write_again.IH] write_again.hyps(2), of "\<lambda>_. None" u "Inr n"]
      by (simp add: pipe_write_resume_def)
  next
    case False
    then show ?thesis using write_again stream_blocked(2) [OF write_again.IH] by (auto simp: pipe_write_resume_def split: if_splits)
  qed
next
  case (write_again_blocks w r t tot buf u k)
  then show ?case using write_loop_stream [OF stream_blocked(2) [OF write_again_blocks.IH] write_again_blocks.hyps(2), of "\<lambda>_. None" u "Inl k"]
    by (auto simp: pipe_write_resume_def Let_def split: if_splits)
qed


text \<open>C24: a reader that waits on an empty pipe is not woken when the last write end is closed:
  the code looks at the waiting writer there, so the reader stays blocked and recorded
  although its next read would return 0.\<close>

theorem pipe_close_leaves_reader_blocked:
  assumes "p < length (pipe_pool s)" "write_refcnt (pipe_at s p) = 1" "blocked_reader (pipe_at s p) = Some w"
    "blocked_writer (pipe_at s p) = None" "w < length (task_pool s)" "state (task_pool s ! w) = TASK_BLOCKED"
  defines "t \<equiv> pipe_close_end s (Some p) 1"
  shows "\<not> write_open (pipe_at t p) \<and> blocked_reader (pipe_at t p) = Some w \<and> state (task_pool t ! w) = TASK_BLOCKED"
  using assms by (simp add: t_def pipe_close_end_def Let_def wake_writer_def)

subsection \<open>A pipe in use\<close>

text \<open>Three tasks, and an open pipe that task 1, which runs, can read through descriptor 0 and
  write through descriptor 1.\<close>

definition pipe_sys :: sys where
  "pipe_sys = upd_task (upd_pipe (fst (pipe_create (pipe_init three_tasks))) 0
       (\<lambda>q. q\<lparr>read_refcnt := 1, write_refcnt := 1\<rparr>)) 1
     (\<lambda>t. t\<lparr>fd_type := [FD_PIPE_READ, FD_PIPE_WRITE, 0, 0, 0, 0, 0, 0], fd_data := [Some 0, Some 0, None, None, None, None, None, None]\<rparr>)"

definition new_pipe :: pipe_t where
  "new_pipe = zero_pipe\<lparr>pipe_used := True, read_open := True, write_open := True, read_refcnt := 1, write_refcnt := 1\<rparr>"

lemma new_pipe_ok: "pipe_wf new_pipe" "contents new_pipe = []" "read_open new_pipe" "write_open new_pipe"
  by (simp_all add: new_pipe_def zero_pipe_def pipe_wf_def contents_def PIPE_BUF_SIZE_def)

lemma pipe_sys_pipe: "pipe_at pipe_sys 0 = new_pipe" "length (pipe_pool pipe_sys) = 32"
proof -
  have "[0..<MAX_PIPES] = 0 # [1..<32]" by (simp add: MAX_PIPES_def upt_conv_Cons)
  then have "pipe_create (pipe_init three_tasks) = (upd_pipe (pipe_init three_tasks) 0
      (\<lambda>p. p\<lparr>pipe_used := True, pipe_head := 0, pipe_tail := 0, pipe_count := 0, read_open := True,
         write_open := True, read_refcnt := 0, write_refcnt := 0, blocked_reader := None, blocked_writer := None\<rparr>), Some 0)"
    by (simp add: pipe_create_def pipe_init_def MAX_PIPES_def zero_pipe_def)
  then show "pipe_at pipe_sys 0 = new_pipe" "length (pipe_pool pipe_sys) = 32"
    by (simp_all add: pipe_sys_def pipe_init_def MAX_PIPES_def new_pipe_def zero_pipe_def)
qed

lemma pipe_sys_tasks:
  "length (task_pool pipe_sys) = 16" "current_task pipe_sys = Some 1"
  "fd_type (task_pool pipe_sys ! 1) = [FD_PIPE_READ, FD_PIPE_WRITE, 0, 0, 0, 0, 0, 0]"
  "fd_data (task_pool pipe_sys ! 1) = [Some 0, Some 0, None, None, None, None, None, None]"
  "length (fd_type (task_pool pipe_sys ! 2)) = 8" "length (fd_data (task_pool pipe_sys ! 2)) = 8"
proof -
  have "task_pool pipe_sys = (task_pool three_tasks)[1 := (task_pool three_tasks ! 1)\<lparr>
      fd_type := [FD_PIPE_READ, FD_PIPE_WRITE, 0, 0, 0, 0, 0, 0], fd_data := [Some 0, Some 0, None, None, None, None, None, None]\<rparr>]"
    "current_task pipe_sys = current_task three_tasks"
    by (simp_all add: pipe_sys_def pipe_create_def pipe_init_def upd_task_def split: option.splits)
  then show "length (task_pool pipe_sys) = 16" "current_task pipe_sys = Some 1"
    "fd_type (task_pool pipe_sys ! 1) = [FD_PIPE_READ, FD_PIPE_WRITE, 0, 0, 0, 0, 0, 0]"
    "fd_data (task_pool pipe_sys ! 1) = [Some 0, Some 0, None, None, None, None, None, None]"
    "length (fd_type (task_pool pipe_sys ! 2)) = 8" "length (fd_data (task_pool pipe_sys ! 2)) = 8"
    by (simp_all add: three_tasks_def boot_sys_def scheduler_init_def upd_task_def Let_def blank_task_def MAX_FDS_def)
qed

theorem pipe_write_fifo_witness:
  "\<exists>t. pipe_write pipe_sys (Some 0) (str ''ls'') = (t, Inr 2) \<and> contents (pipe_at t 0) = str ''ls''"
  using pipe_write_fifo [of 0 pipe_sys "str ''ls''"] by (auto simp: pipe_sys_pipe new_pipe_ok str_def)

definition full_sys :: sys where
  "full_sys = upd_pipe pipe_sys 0 (\<lambda>q. put_chunk q (str ''hello''))"

lemma full_sys_pipe: "pipe_wf (pipe_at full_sys 0)" "contents (pipe_at full_sys 0) = str ''hello''" "0 < length (pipe_pool full_sys)"
  using put_chunk_contents [OF new_pipe_ok(1), of "str ''hello''"]
  by (simp_all add: full_sys_def pipe_sys_pipe new_pipe_ok str_def)

theorem pipe_read_fifo_witness:
  "\<exists>t. pipe_read full_sys (Some 0) 3 = (t, Some (3, str ''hel'')) \<and> contents (pipe_at t 0) = str ''lo''"
  using pipe_read_fifo [OF full_sys_pipe(3,1), of 3] by (auto simp: full_sys_pipe str_def)


lemma pipe_sys_refs: "fd_refs (task_pool pipe_sys ! 1) FD_PIPE_READ 0 = 1" "fd_refs (task_pool pipe_sys ! 1) FD_PIPE_WRITE 0 = 1"
proof -
  have "[0..<8] = [0, 1, 2, 3, 4, 5, 6, 7 :: nat]" by (simp add: upt_rec)
  then show "fd_refs (task_pool pipe_sys ! 1) FD_PIPE_READ 0 = 1" "fd_refs (task_pool pipe_sys ! 1) FD_PIPE_WRITE 0 = 1"
    using pipe_sys_tasks(3,4) by (simp_all add: fd_refs_def MAX_FDS_def refers_def FD_PIPE_READ_def FD_PIPE_WRITE_def)
qed

theorem task_copy_fds_correct_witness:
  "read_refcnt (pipe_at (task_copy_fds pipe_sys (Some 2) (Some 1)) 0) = 2 \<and>
    fd_type (task_pool (task_copy_fds pipe_sys (Some 2) (Some 1)) ! 2) = [FD_PIPE_READ, FD_PIPE_WRITE, 0, 0, 0, 0, 0, 0]"
proof -
  have "read_refcnt new_pipe = 1" by (simp add: new_pipe_def)
  then show ?thesis
    using task_copy_fds_correct [of 2 1 pipe_sys 0] pipe_sys_tasks pipe_sys_refs by (simp add: pipe_sys_pipe MAX_FDS_def)
qed

theorem task_close_fds_correct_witness:
  "read_refcnt (pipe_at (task_close_fds pipe_sys (Some 1)) 0) = 0 \<and> \<not> read_open (pipe_at (task_close_fds pipe_sys (Some 1)) 0)"
proof -
  have "read_refcnt new_pipe = 1" "write_refcnt new_pipe = 1" by (simp_all add: new_pipe_def)
  then show ?thesis
    using task_close_fds_correct [of 1 pipe_sys 0] pipe_sys_tasks pipe_sys_refs by (simp add: pipe_sys_pipe MAX_FDS_def)
qed

definition waiting_sys :: sys where
  "waiting_sys = upd_task (upd_pipe pipe_sys 0 (\<lambda>q. q\<lparr>blocked_reader := Some 2\<rparr>)) 2 (\<lambda>t. t\<lparr>state := TASK_BLOCKED\<rparr>)"

theorem pipe_close_leaves_reader_blocked_witness:
  "state (task_pool (pipe_close_end waiting_sys (Some 0) 1) ! 2) = TASK_BLOCKED"
proof -
  have "pipe_at waiting_sys 0 = new_pipe\<lparr>blocked_reader := Some 2\<rparr>" "length (pipe_pool waiting_sys) = 32"
    "length (task_pool waiting_sys) = 16" "state (task_pool waiting_sys ! 2) = TASK_BLOCKED"
    by (simp_all add: waiting_sys_def upd_task_def pipe_sys_pipe pipe_sys_tasks)
  then show ?thesis
    using pipe_close_leaves_reader_blocked [of 0 waiting_sys 2] by (simp add: new_pipe_def zero_pipe_def)
qed

end
