(* ===== verification/Process.thy ===== *)
theory Process
  imports Pipe
begin

text \<open>
  The life of a process in \<^verbatim>\<open>kernel/scheduler.c\<close>: fork, exit, the wait for a child and signals.
  A call that yields in a loop until another task acts ends in a waiting result; the rest of the
  call is the corresponding resume function, which runs when the task is scheduled again. A
  dereference of \<^verbatim>\<open>NULL\<close>, a fault in the kernel or a loop that does not end is \<open>None\<close>.
\<close>

record registers_t =
  r_rax :: u64
  r_rcx :: u64
  r_rdx :: u64
  r_rbx :: u64
  r_rbp :: u64
  r_rdi :: u64
  r_rsi :: u64
  r_r8 :: u64
  r_r9 :: u64
  r_r10 :: u64
  r_r11 :: u64
  r_r12 :: u64
  r_r13 :: u64
  r_r14 :: u64
  r_r15 :: u64
  r_int_no :: u64
  r_err_code :: u64
  r_rip :: u64
  r_cs :: u64
  r_rflags :: u64
  r_rsp :: u64
  r_ss :: u64

definition SIGINT :: nat where "SIGINT = 2"
definition SIGQUIT :: nat where "SIGQUIT = 3"
definition SIGKILL :: nat where "SIGKILL = 9"
definition SIGUSR1 :: nat where "SIGUSR1 = 10"
definition SIGUSR2 :: nat where "SIGUSR2 = 12"
definition SIGPIPE :: nat where "SIGPIPE = 13"
definition SIGALRM :: nat where "SIGALRM = 14"
definition SIGTERM :: nat where "SIGTERM = 15"
definition SIGCHLD :: nat where "SIGCHLD = 17"
definition SIGCONT :: nat where "SIGCONT = 18"
definition SIGSTOP :: nat where "SIGSTOP = 19"

subsection \<open>Fork\<close>

text \<open>The part of \<^verbatim>\<open>sys_fork\<close> up to the allocation of the stack: the fields of the child.\<close>

definition fork_task :: "sys \<Rightarrow> nat \<Rightarrow> nat \<Rightarrow> sys" where
  "fork_task s i p =
     (let parent = task_pool s ! p;
          s = upd_task s i (\<lambda>t. t\<lparr>task_name := copy_name (task_name parent) (task_name t), pid := next_pid s,
                state := TASK_READY, parent_pid := pid parent, exit_code := 0, waited := False,
                vm_regions := vm_region_copy (vm_regions parent)\<rparr>);
          s = s\<lparr>next_pid := next_pid s + 1\<rparr>;
          s = task_copy_fds s (Some i) (Some p)
      in upd_task s i (\<lambda>t. t\<lparr>signal_handlers := signal_handlers parent, signal_pending := 0,
           signal_mask := signal_mask parent, trampoline_addr := trampoline_addr parent, in_signal := False\<rparr>))"

definition fork_undo :: "sys \<Rightarrow> nat \<Rightarrow> u64 \<Rightarrow> sys" where
  "fork_undo s i base =
     upd_task (s\<lparr>mem := (mem s)\<lparr>heap_blocks := memory_free (heap_blocks (mem s)) base\<rparr>\<rparr>) i
       (state_update (\<lambda>_. TASK_ZOMBIE))"

definition sys_fork :: "sys \<Rightarrow> u64 \<Rightarrow> u64 \<Rightarrow> u64 \<Rightarrow> (sys \<times> int) option" where
  "sys_fork s parent_rsp parent_cr3 r =
     (if task_count s \<ge> MAX_TASKS then Some (s, -1)
      else (case current_task s of None \<Rightarrow> None
      | Some p \<Rightarrow>
     (let i = task_count s;
          pbase = stack_base (task_pool s ! p);
          s = fork_task s i p;
          (h, base) = memory_alloc (heap_blocks (mem s)) STACK_SIZE;
          s = upd_task (s\<lparr>mem := (mem s)\<lparr>heap_blocks := h\<rparr>\<rparr>) i (stack_base_update (\<lambda>_. base))
      in if base = 0 then Some (s, -1)
         else (let m = memory_copy (phys (mem s)) base pbase (unat STACK_SIZE);
                   s = upd_task s i (rsp_update (\<lambda>_. base + (parent_rsp - pbase)));
                   m = wr64 m (base + (r - pbase)) 0;
                   (k, new_cr3) = paging_create ((mem s)\<lparr>phys := m\<rparr>);
                   s = upd_task (s\<lparr>mem := k\<rparr>) i (cr3_update (\<lambda>_. new_cr3))
               in if new_cr3 = 0 then Some (fork_undo s i base, -1)
                  else (let (k, res) = paging_cow_clone_user (mem s) new_cr3 parent_cr3;
                            s = s\<lparr>mem := k\<rparr>
                        in if res < 0
                           then Some (fork_undo (s\<lparr>mem := paging_destroy (mem s) new_cr3\<rparr>) i base, -1)
                           else map_option (\<lambda>s'. (s', sint (pid (task_pool s' ! i)))) (link_task s i))))))"

subsection \<open>Exit and wait\<close>

text \<open>
  \<^verbatim>\<open>sys_exit\<close> ends in the interrupt of the timer, which runs \<^verbatim>\<open>scheduler_tick\<close>; the task
  does not run again.
\<close>

definition sys_exit :: "sys \<Rightarrow> int \<Rightarrow> sys option" where
  "sys_exit s code =
     (let s = task_close_fds s (current_task s) in
      case current_task s of None \<Rightarrow> None
      | Some c \<Rightarrow> scheduler_tick (upd_task s c (\<lambda>t. t\<lparr>state := TASK_ZOMBIE, exit_code := code\<rparr>)))"

definition reap :: "sys \<Rightarrow> nat \<Rightarrow> sys" where
  "reap s i =
     (let t = task_pool s ! i;
          s = (if stack_base t \<noteq> 0
               then upd_task (s\<lparr>mem := (mem s)\<lparr>heap_blocks := memory_free (heap_blocks (mem s)) (stack_base t)\<rparr>\<rparr>) i
                      (stack_base_update (\<lambda>_. 0)) else s);
          s = (if cr3 t \<noteq> 0 \<and> cr3 t \<noteq> 0x1000
               then upd_task (s\<lparr>mem := paging_destroy (mem s) (cr3 t)\<rparr>) i (cr3_update (\<lambda>_. 0)) else s);
          s = upd_task s i (\<lambda>t. t\<lparr>pid := 0, state := TASK_ZOMBIE\<rparr>)
      in task_close_fds s (Some i))"

definition scheduler_remove_zombie :: "sys \<Rightarrow> u32 \<Rightarrow> sys" where
  "scheduler_remove_zombie s p =
     (case find (\<lambda>i. pid (task_pool s ! i) = p \<and> state (task_pool s ! i) = TASK_ZOMBIE \<and> waited (task_pool s ! i))
             [0..<task_count s] of
        None \<Rightarrow> s | Some i \<Rightarrow> reap s i)"

text \<open>\<open>find_child s p me t\<close>: the task that the scan of \<^verbatim>\<open>sys_waitpid\<close> stops at, from \<open>t\<close> on.\<close>

partial_function (option) find_child :: "sys \<Rightarrow> u32 \<Rightarrow> u32 \<Rightarrow> nat \<Rightarrow> nat option \<Rightarrow> nat option option" where
  "find_child s p me l t =
     (if t = Some l then Some None
      else case t of
        None \<Rightarrow> find_child s p me l (next_task (task_pool s ! l))
      | Some i \<Rightarrow> if pid (task_pool s ! i) = p \<and> parent_pid (task_pool s ! i) = me then Some (Some i)
          else find_child s p me l (next_task (task_pool s ! i)))"

definition collect :: "sys \<Rightarrow> u32 \<Rightarrow> nat \<Rightarrow> sys \<times> int" where
  "collect s p i =
     (if waited (task_pool s ! i) then (s, -1)
      else (let s = upd_task s i (waited_update (\<lambda>_. True)); code = exit_code (task_pool s ! i)
            in (scheduler_remove_zombie s p, code)))"

text \<open>\<open>Inl i\<close>: the caller yields until task \<open>i\<close> is a zombie.\<close>

definition sys_waitpid_resume :: "sys \<Rightarrow> u32 \<Rightarrow> nat \<Rightarrow> sys \<times> (nat + int)" where
  "sys_waitpid_resume s p i =
     (if state (task_pool s ! i) \<noteq> TASK_ZOMBIE then (s, Inl i)
      else (let (s, code) = collect s p i in (s, Inr code)))"

definition sys_waitpid :: "sys \<Rightarrow> u32 \<Rightarrow> (sys \<times> (nat + int)) option" where
  "sys_waitpid s p =
     (case task_list s of None \<Rightarrow> None
      | Some l \<Rightarrow> (case current_task s of None \<Rightarrow> None
      | Some c \<Rightarrow>
     (case find_child s p (pid (task_pool s ! c)) l (next_task (task_pool s ! l)) of
        None \<Rightarrow> None
      | Some None \<Rightarrow> Some (s, Inr (-1))
      | Some (Some i) \<Rightarrow> Some (sys_waitpid_resume s p i))))"

subsection \<open>Signals\<close>

definition sig_bit :: "nat \<Rightarrow> u64" where
  "sig_bit sig = push_bit sig 1"

definition post_signal :: "nat \<Rightarrow> task_t \<Rightarrow> task_t" where
  "post_signal sig t = t\<lparr>signal_pending := signal_pending t OR sig_bit sig,
     state := (if state t = TASK_BLOCKED then TASK_READY else state t)\<rparr>"

partial_function (option) kill_loop :: "sys \<Rightarrow> u32 \<Rightarrow> nat \<Rightarrow> nat option \<Rightarrow> (sys \<times> int) option" where
  "kill_loop s p sig t =
     (if t = None then Some (s, -1)
      else (let i = the t in
        if pid (task_pool s ! i) = p \<and> state (task_pool s ! i) \<noteq> TASK_ZOMBIE
        then Some (upd_task s i (post_signal sig), 0)
        else if next_task (task_pool s ! i) = task_list s then Some (s, -1)
        else kill_loop s p sig (next_task (task_pool s ! i))))"

definition sys_kill :: "sys \<Rightarrow> u32 \<Rightarrow> int \<Rightarrow> (sys \<times> int) option" where
  "sys_kill s p sig =
     (if sig < 1 \<or> sig \<ge> int NSIGS then Some (s, -1) else kill_loop s p (nat sig) (task_list s))"

definition default_action :: "nat \<Rightarrow> bool" where
  "default_action sig =
     (if sig = SIGKILL then True else if sig = SIGSTOP then True else if sig = SIGINT then True
      else if sig = SIGQUIT then True else if sig = SIGTERM then True else if sig = SIGUSR1 then True
      else if sig = SIGUSR2 then True else if sig = SIGPIPE then True
      else if sig = SIGCHLD then False else if sig = SIGALRM then False else if sig = SIGCONT then False
      else True)"

text \<open>A store of the kernel through the address space that the processor has loaded.\<close>

primrec store_bytes :: "u64 \<Rightarrow> u64 \<Rightarrow> bytes \<Rightarrow> kmem \<Rightarrow> kmem option" where
  "store_bytes pml4 v [] k = Some k"
| "store_bytes pml4 v (b # bs) k =
     (case mmu k pml4 v of None \<Rightarrow> None
      | Some (p, acc) \<Rightarrow> store_bytes pml4 (v + 1) bs (k\<lparr>phys := (phys k)(p := b)\<rparr>))"

definition store64 :: "u64 \<Rightarrow> u64 \<Rightarrow> u64 \<Rightarrow> kmem \<Rightarrow> kmem option" where
  "store64 pml4 v x k = store_bytes pml4 v (le_bytes 8 x) k"

definition signal_page :: "kmem \<Rightarrow> u64 \<Rightarrow> u64 \<Rightarrow> kmem" where
  "signal_page k pml4 page =
     (if paging_get_flags k pml4 page AND PAGE_PRESENT = 0 then
        (let (k, ph) = memory_alloc_page k in
         if ph \<noteq> 0 then
           fst (paging_map_4kb (k\<lparr>phys := memory_set (phys k) ph 0 4096\<rparr>) pml4 page ph
                  (PAGE_PRESENT OR PAGE_RW OR PAGE_USER))
         else k)
      else k)"

text \<open>The last branch of the loop of \<^verbatim>\<open>signal_deliver\<close>: enter the handler of task \<open>c\<close>.\<close>

definition enter_handler :: "u64 \<Rightarrow> sys \<Rightarrow> nat \<Rightarrow> registers_t \<Rightarrow> nat \<Rightarrow> u64 \<Rightarrow> (sys \<times> registers_t) option" where
  "enter_handler cpu_cr3 s c r sig h =
     (let s = upd_task s c (\<lambda>t. t\<lparr>saved_rip := r_rip r, saved_rsp := r_rsp r, saved_rflags := r_rflags r,
                in_signal := True\<rparr>);
          sp = r_rsp r - 8;
          k = signal_page (mem s) (cr3 (task_pool s ! c)) (sp AND NOT 0xFFF)
      in case store64 cpu_cr3 sp (trampoline_addr (task_pool s ! c)) k of None \<Rightarrow> None
         | Some k \<Rightarrow> Some (s\<lparr>mem := k\<rparr>,
             r\<lparr>r_rip := h, r_rsp := sp, r_rdi := of_nat sig, r_rflags := r_rflags r AND NOT 0x100\<rparr>))"

fun deliver_loop :: "u64 \<Rightarrow> sys \<Rightarrow> nat \<Rightarrow> registers_t \<Rightarrow> u64 \<Rightarrow> nat list \<Rightarrow> (sys \<times> registers_t) option" where
  "deliver_loop cpu_cr3 s c r pending [] = Some (s, r)"
| "deliver_loop cpu_cr3 s c r pending (sig # sigs) =
     (if pending AND sig_bit sig = 0 then deliver_loop cpu_cr3 s c r pending sigs
      else (let s = upd_task s c (signal_pending_update (\<lambda>m. m AND NOT (sig_bit sig)));
                h = signal_handlers (task_pool s ! c) ! sig
            in if h = SIG_DFL then
                 if default_action sig then map_option (\<lambda>s. (s, r)) (sys_exit s (int sig))
                 else deliver_loop cpu_cr3 s c r pending sigs
               else if h = SIG_IGN then deliver_loop cpu_cr3 s c r pending sigs
               else enter_handler cpu_cr3 s c r sig h))"

definition signal_deliver :: "u64 \<Rightarrow> sys \<Rightarrow> registers_t \<Rightarrow> (sys \<times> registers_t) option" where
  "signal_deliver cpu_cr3 s r =
     (case current_task s of None \<Rightarrow> Some (s, r)
      | Some c \<Rightarrow>
          (let task = task_pool s ! c in
           if pid task = 0 then Some (s, r)
           else if signal_pending task AND sig_bit SIGKILL \<noteq> 0 then
             map_option (\<lambda>s. (s, r)) (sys_exit (upd_task s c (signal_pending_update (\<lambda>_. 0))) (int SIGKILL))
           else if in_signal task then Some (s, r)
           else (let pending = signal_pending task AND NOT (signal_mask task) in
             if pending = 0 then Some (s, r)
             else deliver_loop cpu_cr3 s c r pending [1..<NSIGS])))"

subsection \<open>Sending a signal\<close>

definition live_pid :: "sys \<Rightarrow> u32 \<Rightarrow> nat \<Rightarrow> bool" where
  "live_pid s p i \<longleftrightarrow> pid (task_pool s ! i) = p \<and> state (task_pool s ! i) \<noteq> TASK_ZOMBIE"

lemma ring_scan:
  assumes "ring s" "i < task_count s"
  shows "next_task (task_pool s ! i) = task_list s \<longleftrightarrow> Suc i = task_count s"
    and "Suc i < task_count s \<Longrightarrow> next_task (task_pool s ! i) = Some (Suc i)"
  using ring_next [OF assms] assms by (auto simp: ring_def mod_eq_0_iff_dvd dest: dvd_imp_le)

lemma kill_loop_step:
  "kill_loop s p sig (Some i) =
     (if live_pid s p i then Some (upd_task s i (post_signal sig), 0)
      else if next_task (task_pool s ! i) = task_list s then Some (s, -1)
      else kill_loop s p sig (next_task (task_pool s ! i)))"
  by (simp add: kill_loop.simps [of s p sig "Some i"] live_pid_def Let_def)

lemma kill_loop_ring:
  assumes "ring s" "i < task_count s"
  shows "kill_loop s p sig (Some i) = Some (case find (live_pid s p) [i..<task_count s] of
      None \<Rightarrow> (s, -1) | Some j \<Rightarrow> (upd_task s j (post_signal sig), 0))"
  using assms(2)
proof (induction "task_count s - i" arbitrary: i)
  case (Suc k)
  have i: "[i..<task_count s] = i # [Suc i..<task_count s]" using Suc.prems by (rule upt_conv_Cons)
  show ?case
  proof (cases "live_pid s p i")
    case False
    show ?thesis
    proof (cases "Suc i = task_count s")
      case True
      then show ?thesis using False ring_scan(1) [OF assms(1) Suc.prems] i
        by (simp add: kill_loop_step)
    next
      case neq: False
      then have "Suc i < task_count s" "k = task_count s - Suc i" using Suc by simp_all
      then show ?thesis
        using False Suc.hyps(1) [of "Suc i"] ring_scan [OF assms(1) Suc.prems] neq i
        by (simp add: kill_loop_step)
    qed
  qed (simp add: i kill_loop_step)
qed simp

lemma post_signal_inv:
  assumes "sched_inv s" "i < task_count s"
  shows "sched_inv (upd_task s i (post_signal sig))"
proof -
  have len: "i < length (task_pool s)" using assms by (auto simp: sched_inv_def ring_def)
  have st: "state (post_signal sig t) = TASK_RUNNING \<longleftrightarrow> state t = TASK_RUNNING" "next_task (post_signal sig t) = next_task t" for t
    by (simp_all add: post_signal_def)
  have "ring (upd_task s i (post_signal sig))" using assms len
    by (auto simp: sched_inv_def ring_def upd_task_nth st)
  then show ?thesis using assms len by (auto simp: sched_inv_def upd_task_nth st)
qed

text \<open>C8: sending a signal returns on every ring of tasks. It reaches exactly the first live task with
  that pid, whose pending set grows by that signal and which is made ready if it was blocked; for
  a number that is no signal or a pid no live task has, it fails and changes nothing.\<close>

theorem sys_kill_correct:
  assumes "sched_inv s"
  shows "sys_kill s p sig = Some (
      if sig < 1 \<or> 31 < sig then (s, -1)
      else (case find (live_pid s p) [0..<task_count s] of None \<Rightarrow> (s, -1)
            | Some i \<Rightarrow> (upd_task s i (post_signal (nat sig)), 0))) \<and>
    (\<forall>t. sys_kill s p sig = Some (t, 0) \<longrightarrow> sched_inv t \<and> (\<exists>i < task_count s. live_pid s p i \<and>
      (\<forall>n < 64. bit (signal_pending (task_pool t ! i)) n \<longleftrightarrow> bit (signal_pending (task_pool s ! i)) n \<or> n = nat sig) \<and>
      state (task_pool t ! i) \<noteq> TASK_BLOCKED \<and> (\<forall>j. j \<noteq> i \<longrightarrow> task_pool t ! j = task_pool s ! j)))"
proof -
  have r: "ring s" "0 < task_count s" "task_list s = Some 0" using assms by (auto simp: sched_inv_def ring_def)
  have eq: "sys_kill s p sig = Some (
      if sig < 1 \<or> 31 < sig then (s, -1)
      else (case find (live_pid s p) [0..<task_count s] of None \<Rightarrow> (s, -1)
            | Some i \<Rightarrow> (upd_task s i (post_signal (nat sig)), 0)))"
    using kill_loop_ring [OF r(1,2)] r(3) by (auto simp: sys_kill_def NSIGS_def split: option.split)
  have "sched_inv t \<and> (\<exists>i < task_count s. live_pid s p i \<and>
      (\<forall>n < 64. bit (signal_pending (task_pool t ! i)) n \<longleftrightarrow> bit (signal_pending (task_pool s ! i)) n \<or> n = nat sig) \<and>
      state (task_pool t ! i) \<noteq> TASK_BLOCKED \<and> (\<forall>j. j \<noteq> i \<longrightarrow> task_pool t ! j = task_pool s ! j))"
    if sent: "sys_kill s p sig = Some (t, 0)" for t
  proof -
    obtain i where i: "find (live_pid s p) [0..<task_count s] = Some i" "t = upd_task s i (post_signal (nat sig))"
      using sent unfolding eq by (auto split: if_splits option.splits)
    then have "i < task_count s" "live_pid s p i" using find_in_set [OF i(1)] by auto
    moreover have "i < length (task_pool s)" using calculation(1) r(1) by (simp add: ring_def)
    ultimately show ?thesis
      using post_signal_inv [OF assms] i(2)
      by (auto simp: upd_task_nth post_signal_def sig_bit_def bit_simps intro!: exI [of _ i])
  qed
  with eq show ?thesis by blast
qed

subsection \<open>Waiting for a child\<close>

definition child_pid :: "sys \<Rightarrow> u32 \<Rightarrow> u32 \<Rightarrow> nat \<Rightarrow> bool" where
  "child_pid s p me i \<longleftrightarrow> pid (task_pool s ! i) = p \<and> parent_pid (task_pool s ! i) = me"

lemma find_child_ring:
  assumes "ring s" "0 < i" "i \<le> task_count s"
  shows "find_child s p me 0 (Some (i mod task_count s)) = Some (find (child_pid s p me) [i..<task_count s])"
  using assms(2,3)
proof (induction "task_count s - i" arbitrary: i)
  case 0
  then show ?case by (simp add: find_child.simps)
next
  case (Suc k)
  then have i: "i < task_count s" by simp
  have "find_child s p me 0 (Some (Suc i mod task_count s)) = Some (find (child_pid s p me) [Suc i..<task_count s])"
    using Suc.hyps(1) [of "Suc i"] Suc.hyps(2) i by simp
  then show ?case
    using i Suc.prems(1) ring_next [OF assms(1) i]
    by (simp add: find_child.simps [of s p me 0 "Some i"] child_pid_def upt_conv_Cons)
qed

subsection \<open>What closing and copying descriptors leaves alone\<close>

text \<open>
  Operations on descriptors change nothing of a task but its descriptors, and its state only
  by waking it up. \<open>task_core\<close> is the rest of a task, and \<open>woken s u\<close> says that \<open>u\<close> differs
  from \<open>s\<close> in descriptors, pipes and wake-ups only.
\<close>

definition task_core :: "task_t \<Rightarrow> task_t" where
  "task_core t = t\<lparr>state := TASK_READY, fd_type := [], fd_data := []\<rparr>"

lemma task_core_eqD:
  assumes "task_core a = task_core b"
  shows "pid a = pid b" "parent_pid a = parent_pid b" "next_task a = next_task b" "exit_code a = exit_code b"
    "waited a = waited b" "stack_base a = stack_base b" "cr3 a = cr3 b" "rsp a = rsp b"
    "signal_pending a = signal_pending b" "signal_mask a = signal_mask b" "signal_handlers a = signal_handlers b"
    "trampoline_addr a = trampoline_addr b" "in_signal a = in_signal b" "vm_regions a = vm_regions b"
  using arg_cong [OF assms, of pid] arg_cong [OF assms, of parent_pid] arg_cong [OF assms, of next_task]
    arg_cong [OF assms, of exit_code] arg_cong [OF assms, of waited] arg_cong [OF assms, of stack_base]
    arg_cong [OF assms, of cr3] arg_cong [OF assms, of rsp] arg_cong [OF assms, of signal_pending]
    arg_cong [OF assms, of signal_mask] arg_cong [OF assms, of signal_handlers] arg_cong [OF assms, of trampoline_addr]
    arg_cong [OF assms, of in_signal] arg_cong [OF assms, of vm_regions]
  by (simp_all add: task_core_def)

definition woken :: "sys \<Rightarrow> sys \<Rightarrow> bool" where
  "woken s u \<longleftrightarrow> length (task_pool u) = length (task_pool s) \<and> task_count u = task_count s \<and> task_list u = task_list s \<and>
     current_task u = current_task s \<and> next_pid u = next_pid s \<and> mem u = mem s \<and> length (pipe_pool u) = length (pipe_pool s) \<and>
     (\<forall>j. task_core (task_pool u ! j) = task_core (task_pool s ! j) \<and>
        (state (task_pool u ! j) = state (task_pool s ! j) \<or>
         state (task_pool s ! j) = TASK_BLOCKED \<and> state (task_pool u ! j) = TASK_READY))"

lemma woken_refl [simp]: "woken s s"
  by (simp add: woken_def)

lemma woken_trans [trans]: "woken s t \<Longrightarrow> woken t u \<Longrightarrow> woken s u"
  unfolding woken_def by (metis task_state_t.distinct(8))

lemma wokenD:
  assumes "woken s u"
  shows "length (task_pool u) = length (task_pool s)" "task_count u = task_count s" "task_list u = task_list s"
    "current_task u = current_task s" "next_pid u = next_pid s" "mem u = mem s" "length (pipe_pool u) = length (pipe_pool s)"
    "task_core (task_pool u ! j) = task_core (task_pool s ! j)"
    "state (task_pool u ! j) = TASK_RUNNING \<longleftrightarrow> state (task_pool s ! j) = TASK_RUNNING"
    "state (task_pool u ! j) = TASK_ZOMBIE \<longleftrightarrow> state (task_pool s ! j) = TASK_ZOMBIE"
    "state (task_pool s ! j) = TASK_READY \<Longrightarrow> state (task_pool u ! j) = TASK_READY"
  using assms unfolding woken_def by (metis task_state_t.distinct)+

lemma woken_upd_pipe: "woken s u \<Longrightarrow> woken s (upd_pipe u p f)"
  by (simp add: woken_def upd_pipe_def)

lemma woken_upd_fds:
  assumes "woken s u" "\<And>t. task_core (f t) = task_core t \<and> state (f t) = state t"
  shows "woken s (upd_task u i f)"
  using assms by (auto simp: woken_def upd_task_def nth_upd)

lemma woken_wakeup: "woken s u \<Longrightarrow> woken s (task_wakeup u t)"
  by (rule woken_trans, assumption) (auto simp: woken_def task_wakeup_def upd_task_def nth_upd task_core_def split: option.split)

lemma woken_wake: "woken s u \<Longrightarrow> woken s (wake_reader u p)" "woken s u \<Longrightarrow> woken s (wake_writer u p)"
  by (simp_all add: wake_reader_def wake_writer_def woken_wakeup woken_upd_pipe)

lemma woken_close_end: "woken s u \<Longrightarrow> woken s (pipe_close_end u q e)"
  by (rule close_end_keeps [where P = "woken s"]) (simp_all add: woken_upd_pipe woken_wake)

lemma woken_close_fd: "woken s u \<Longrightarrow> woken s (close_fd t i u)"
  by (auto simp: close_fd_def Let_def task_core_def intro!: woken_upd_fds woken_close_end)

lemma woken_ref_inc: "woken s u \<Longrightarrow> woken s (pipe_ref_inc u q e)"
  by (auto simp: pipe_ref_inc_def woken_upd_pipe split: option.split)

lemma woken_copy_fd: "woken s u \<Longrightarrow> woken s (copy_fd d r i u)"
  by (auto simp: copy_fd_def Let_def task_core_def intro!: woken_upd_fds woken_ref_inc)

lemma woken_fold: "(\<And>x u. woken s u \<Longrightarrow> woken s (f x u)) \<Longrightarrow> woken s u \<Longrightarrow> woken s (fold f xs u)"
  by (induction xs arbitrary: u) auto

lemma woken_close_fds: "woken s (task_close_fds s t)"
  by (auto simp: task_close_fds_def woken_close_fd intro: woken_fold split: option.split)

lemma woken_copy_fds: "woken s (task_copy_fds s d r)"
  by (auto simp: task_copy_fds_def woken_copy_fd intro: woken_fold split: option.split)

lemma woken_inv:
  assumes "woken s u" "sched_inv s"
  shows "sched_inv u"
proof -
  note W = wokenD [OF assms(1)]
  have "ring u" using assms(2) W(1-3) task_core_eqD(3) [OF W(8)] by (simp add: sched_inv_def ring_def)
  then show ?thesis using assms(2) W(2,4,9) by (auto simp: sched_inv_def)
qed

subsection \<open>Exit\<close>

text \<open>Updates of a task that is not made to run and keeps its place in the ring.\<close>

lemma upd_task_inv:
  assumes "sched_inv s" "\<And>t. next_task (f t) = next_task t" "state (f (task_pool s ! i)) \<noteq> TASK_RUNNING \<or> current_task s = Some i"
  shows "sched_inv (upd_task s i f)"
proof -
  have "ring (upd_task s i f)" using assms(1,2) by (auto simp: sched_inv_def ring_def upd_task_def nth_upd)
  then show ?thesis using assms(1,3) by (auto simp: sched_inv_def upd_task_def nth_upd)
qed

lemma tick_zombie:
  assumes "sched_inv s" "state (task_pool s ! z) = TASK_ZOMBIE" "z < task_count s"
  shows "\<exists>t. scheduler_tick s = Some t \<and> sched_inv t \<and> task_count t = task_count s \<and> task_pool t ! z = task_pool s ! z \<and>
    (current_task t = Some z \<longrightarrow> current_task s = Some z)"
proof -
  obtain c where c: "current_task s = Some c" "c < task_count s" using assms(1) by (auto simp: sched_inv_def)
  obtain t where t: "scheduler_tick s = Some t" "sched_inv t" "task_count t = task_count s" "current_task t = Some (first_ready s c)"
    using scheduler_tick_step [OF assms(1) c(1)] by blast
  have z: "first_ready s c \<noteq> z \<or> c = z" using first_ready_cases(2) [OF c(2)] assms(2) by force
  have len: "c < length (task_pool s)" "first_ready s c < length (task_pool s)"
    using assms(1) c(2) first_ready_cases(1) [OF c(2)] by (auto simp: sched_inv_def ring_def)
  have "task_pool t ! z = task_pool s ! z"
  proof (cases "first_ready s c = c")
    case False
    then have "first_ready s c \<noteq> z" using z by auto
    then show ?thesis using scheduler_tick_eq [OF assms(1) c(1)] t(1) False len assms(2)
      by (auto simp: Let_def upd_task_nth)
  qed (use scheduler_tick_eq [OF assms(1) c(1)] t(1) in simp)
  then show ?thesis using t z c(1) by auto
qed

lemma ticks_zombie:
  assumes "sched_inv s" "state (task_pool s ! z) = TASK_ZOMBIE" "z < task_count s" "current_task s \<noteq> Some z"
  shows "\<exists>t. ticks n s = Some t \<and> current_task t \<noteq> Some z \<and> task_pool t ! z = task_pool s ! z"
  using assms
proof (induction n arbitrary: s)
  case (Suc n)
  obtain t where t: "scheduler_tick s = Some t" "sched_inv t" "task_count t = task_count s" "task_pool t ! z = task_pool s ! z"
    "current_task t \<noteq> Some z"
    using tick_zombie [OF Suc.prems(1-3)] Suc.prems(4) by blast
  then show ?case using Suc.IH [of t] Suc.prems by simp
qed simp

lemma sys_exit_lemma:
  assumes "sched_inv s" "current_task s = Some c"
  shows "\<exists>t. sys_exit s code = Some t \<and> sched_inv t \<and> task_count t = task_count s \<and>
    state (task_pool t ! c) = TASK_ZOMBIE \<and> exit_code (task_pool t ! c) = code \<and>
    ((\<exists>j < task_count s. j \<noteq> c \<and> state (task_pool s ! j) = TASK_READY) \<longrightarrow> current_task t \<noteq> Some c \<and>
      (\<forall>n. \<exists>u. ticks n t = Some u \<and> current_task u \<noteq> Some c \<and>
         state (task_pool u ! c) = TASK_ZOMBIE \<and> exit_code (task_pool u ! c) = code))"
proof -
  define u where "u = upd_task (task_close_fds s (Some c)) c (\<lambda>t. t\<lparr>state := TASK_ZOMBIE, exit_code := code\<rparr>)"
  note W = wokenD [OF woken_close_fds [of s "Some c"]]
  have inv: "sched_inv u" unfolding u_def by (rule upd_task_inv [OF woken_inv [OF woken_close_fds assms(1)]]) simp_all
  have c: "c < task_count s" "c < length (task_pool s)" using assms by (auto simp: sched_inv_def ring_def)
  have z: "state (task_pool u ! c) = TASK_ZOMBIE" "exit_code (task_pool u ! c) = code" "current_task u = Some c"
    "task_count u = task_count s"
    using c assms(2) W(1,2,4) by (simp_all add: u_def upd_task_nth)
  obtain t where t: "scheduler_tick u = Some t" "sched_inv t" "task_count t = task_count s" "task_pool t ! c = task_pool u ! c"
    using tick_zombie [OF inv z(1)] z(4) c(1) by auto
  have "current_task t \<noteq> Some c" if j: "j < task_count s" "j \<noteq> c" "state (task_pool s ! j) = TASK_READY" for j
  proof -
    have "state (task_pool u ! j) = TASK_READY" using W(11) [OF j(3)] W(1) c(2) j(2) by (simp add: u_def upd_task_nth)
    then have "first_ready u c \<noteq> c" using first_ready_cases(3) [of c u j] c(1) j(1,2) z(4) by simp
    then show ?thesis using scheduler_tick_step [OF inv z(3)] t(1) by auto
  qed
  moreover have "current_task t \<noteq> Some c \<Longrightarrow> \<exists>v. ticks n t = Some v \<and> current_task v \<noteq> Some c \<and>
      state (task_pool v ! c) = TASK_ZOMBIE \<and> exit_code (task_pool v ! c) = code" for n
    using ticks_zombie [OF t(2), of c n] t(3,4) z c(1) by auto
  moreover have "sys_exit s code = Some t"
    using t(1) assms(2) W(4) by (simp add: sys_exit_def u_def)
  ultimately show ?thesis using t z by auto
qed

text \<open>C14: a process that exits becomes a zombie with its exit code, in a state of the scheduler that is
  as good as before; if some other task is ready, the processor is given to another task at
  once, and no number of timer ticks makes the zombie run again or loses its exit code.\<close>

theorem sys_exit_correct:
  assumes "sched_inv s" "current_task s = Some c"
  shows "\<exists>t. sys_exit s code = Some t \<and> sched_inv t \<and> task_count t = task_count s \<and>
    state (task_pool t ! c) = TASK_ZOMBIE \<and> exit_code (task_pool t ! c) = code \<and>
    ((\<exists>j < task_count s. j \<noteq> c \<and> state (task_pool s ! j) = TASK_READY) \<longrightarrow> current_task t \<noteq> Some c \<and>
      (\<forall>n. \<exists>u. ticks n t = Some u \<and> current_task u \<noteq> Some c \<and>
         state (task_pool u ! c) = TASK_ZOMBIE \<and> exit_code (task_pool u ! c) = code))"
  by (rule sys_exit_lemma [OF assms])

subsection \<open>Reaping\<close>

definition pids_unique :: "sys \<Rightarrow> bool" where
  "pids_unique s \<longleftrightarrow> (\<forall>i < task_count s. \<forall>j < task_count s. pid (task_pool s ! i) = pid (task_pool s ! j) \<and>
     pid (task_pool s ! i) \<noteq> 0 \<longrightarrow> i = j)"

lemma find_unique:
  assumes "i \<in> set xs" "P i" "\<And>j. j \<in> set xs \<Longrightarrow> P j \<Longrightarrow> j = i"
  shows "find P xs = Some i"
proof (cases "find P xs")
  case None
  then show ?thesis using assms(1,2) by (auto simp: find_None_iff)
next
  case (Some j)
  then show ?thesis using find_in_set [OF Some] assms(3) [of j] by simp
qed

lemma reap_effect:
  assumes "sched_inv s" "i < task_count s" "state (task_pool s ! i) = TASK_ZOMBIE"
  shows "sched_inv (reap s i)" "pid (task_pool (reap s i) ! i) = 0" "stack_base (task_pool (reap s i) ! i) = 0"
    "j \<noteq> i \<Longrightarrow> pid (task_pool (reap s i) ! j) = pid (task_pool s ! j) \<and> stack_base (task_pool (reap s i) ! j) = stack_base (task_pool s ! j)"
    "current_task (reap s i) = current_task s" "task_count (reap s i) = task_count s"
    "heap_blocks (mem (reap s i)) = memory_free (heap_blocks (mem s)) (stack_base (task_pool s ! i))"
    "state (task_pool (reap s i) ! i) = TASK_ZOMBIE"
proof -
  let ?t = "task_pool s ! i"
  define s1 where "s1 = (if stack_base ?t \<noteq> 0
               then upd_task (s\<lparr>mem := (mem s)\<lparr>heap_blocks := memory_free (heap_blocks (mem s)) (stack_base ?t)\<rparr>\<rparr>) i
                      (stack_base_update (\<lambda>_. 0)) else s)"
  define s2 where "s2 = (if cr3 ?t \<noteq> 0 \<and> cr3 ?t \<noteq> 0x1000
               then upd_task (s1\<lparr>mem := paging_destroy (mem s1) (cr3 ?t)\<rparr>) i (cr3_update (\<lambda>_. 0)) else s1)"
  define s3 where "s3 = upd_task s2 i (\<lambda>t. t\<lparr>pid := 0, state := TASK_ZOMBIE\<rparr>)"
  have r: "reap s i = task_close_fds s3 (Some i)" by (simp add: reap_def s1_def s2_def s3_def Let_def)
  note W = wokenD [OF woken_close_fds [of s3 "Some i"], folded r]
  have len: "i < length (task_pool s)" using assms by (auto simp: sched_inv_def ring_def)
  have mem_inv: "sched_inv (u\<lparr>mem := k\<rparr>) = sched_inv u" for u k by (simp add: sched_inv_def ring_def)
  have "sched_inv s1" using assms by (auto simp: s1_def mem_inv intro!: upd_task_inv)
  moreover have "state (task_pool s1 ! i) = TASK_ZOMBIE" using assms len by (simp add: s1_def upd_task_nth)
  ultimately have "sched_inv s2" by (auto simp: s2_def mem_inv intro!: upd_task_inv)
  then have "sched_inv s3" by (auto simp: s3_def intro!: upd_task_inv)
  then show "sched_inv (reap s i)" unfolding r by (rule woken_inv [OF woken_close_fds])
  have t3: "pid (task_pool s3 ! i) = 0" "stack_base (task_pool s3 ! i) = 0" "state (task_pool s3 ! i) = TASK_ZOMBIE"
    "current_task s3 = current_task s" "task_count s3 = task_count s"
    "heap_blocks (mem s3) = memory_free (heap_blocks (mem s)) (stack_base ?t)"
    "j \<noteq> i \<Longrightarrow> task_pool s3 ! j = task_pool s ! j"
    using len by (simp_all add: s3_def s2_def s1_def upd_task_nth paging_destroy_def memory_free_def)
  note core = task_core_eqD [OF W(8)]
  show "pid (task_pool (reap s i) ! i) = 0" "stack_base (task_pool (reap s i) ! i) = 0"
    "current_task (reap s i) = current_task s" "task_count (reap s i) = task_count s"
    "heap_blocks (mem (reap s i)) = memory_free (heap_blocks (mem s)) (stack_base ?t)"
    "state (task_pool (reap s i) ! i) = TASK_ZOMBIE"
    using t3 core(1,6) [of i] W(2,4,6,10) by simp_all
  show "j \<noteq> i \<Longrightarrow> pid (task_pool (reap s i) ! j) = pid (task_pool s ! j) \<and> stack_base (task_pool (reap s i) ! j) = stack_base (task_pool s ! j)"
    using t3(7) core(1,6) [of j] by simp
qed

lemma sys_waitpid_find:
  assumes "sched_inv s" "current_task s = Some c"
  shows "sys_waitpid s p = Some (case find (child_pid s p (pid (task_pool s ! c))) [1..<task_count s] of
      None \<Rightarrow> (s, Inr (-1)) | Some i \<Rightarrow> sys_waitpid_resume s p i)"
proof -
  have r: "ring s" "task_list s = Some 0" "0 < task_count s" using assms(1) by (auto simp: sched_inv_def ring_def)
  show ?thesis using find_child_ring [OF r(1), of 1] ring_next [OF r(1,3)] r assms(2)
    by (simp add: sys_waitpid_def split: option.split)
qed

text \<open>C13: waiting for a child returns, unless the child still lives, when the caller waits; for a pid
  that no child of the caller has it fails. The exit code of a dead child is reported once, its
  stack goes back to the heap and its pid is free; the next wait for that pid fails.\<close>

theorem sys_waitpid_correct:
  assumes "sched_inv s" "current_task s = Some c" "pids_unique s" "p \<noteq> 0"
  shows "\<exists>t r. sys_waitpid s p = Some (t, r) \<and> sched_inv t \<and>
    (case find (child_pid s p (pid (task_pool s ! c))) [1..<task_count s] of
       None \<Rightarrow> t = s \<and> r = Inr (-1)
     | Some i \<Rightarrow>
         if state (task_pool s ! i) \<noteq> TASK_ZOMBIE then t = s \<and> r = Inl i
         else if waited (task_pool s ! i) then t = s \<and> r = Inr (-1)
         else r = Inr (exit_code (task_pool s ! i)) \<and> pid (task_pool t ! i) = 0 \<and>
           heap_blocks (mem t) = memory_free (heap_blocks (mem s)) (stack_base (task_pool s ! i)) \<and>
           sys_waitpid t p = Some (t, Inr (-1)))"
proof (cases "find (child_pid s p (pid (task_pool s ! c))) [1..<task_count s]")
  case None
  then show ?thesis using sys_waitpid_find [OF assms(1,2), of p] assms(1) by simp
next
  case (Some i)
  then have i: "i < task_count s" "pid (task_pool s ! i) = p" using find_in_set [OF Some] by (auto simp: child_pid_def)
  have eq: "sys_waitpid s p = Some (sys_waitpid_resume s p i)" using sys_waitpid_find [OF assms(1,2), of p] Some by simp
  show ?thesis
  proof (cases "state (task_pool s ! i) \<noteq> TASK_ZOMBIE \<or> waited (task_pool s ! i)")
    case True
    then show ?thesis using eq Some assms(1) by (auto simp: sys_waitpid_resume_def collect_def)
  next
    case False
    define u where "u = upd_task s i (waited_update (\<lambda>_. True))"
    have len: "i < length (task_pool s)" using assms(1) i by (auto simp: sched_inv_def ring_def)
    have u: "sched_inv u" "task_count u = task_count s" "state (task_pool u ! i) = TASK_ZOMBIE" "current_task u = Some c"
      using False len assms(2) by (auto simp: u_def upd_task_nth intro!: upd_task_inv [OF assms(1)])
    have "find (\<lambda>j. pid (task_pool u ! j) = p \<and> state (task_pool u ! j) = TASK_ZOMBIE \<and> waited (task_pool u ! j)) [0..<task_count u] = Some i"
      by (rule find_unique) (use u i len assms(3,4) in \<open>auto simp: u_def upd_task_nth pids_unique_def split: if_splits\<close>)
    then have res: "sys_waitpid_resume s p i = (reap u i, Inr (exit_code (task_pool s ! i)))"
      using False len by (simp add: sys_waitpid_resume_def collect_def scheduler_remove_zombie_def u_def upd_task_nth Let_def)
    note R = reap_effect [OF u(1) i(1) [folded u(2)] u(3)]
    have "\<not> child_pid (reap u i) p me j" if "j < task_count s" for j me
      using R(2) R(4) [of j] that i assms(3,4) len
      by (cases "j = i") (auto simp: child_pid_def pids_unique_def u_def upd_task_nth)
    then have "find (child_pid (reap u i) p me) [1..<task_count s] = None" for me by (simp add: find_None_iff)
    moreover have "current_task (reap u i) = Some c" "task_count (reap u i) = task_count s" using R(5,6) u by simp_all
    ultimately have again: "sys_waitpid (reap u i) p = Some (reap u i, Inr (-1))"
      using sys_waitpid_find [OF R(1), of c p] by simp
    have "heap_blocks (mem (reap u i)) = memory_free (heap_blocks (mem s)) (stack_base (task_pool s ! i))"
      using R(7) len by (simp add: u_def upd_task_nth)
    then show ?thesis
      by (intro exI [of _ "reap u i"] exI [of _ "Inr (exit_code (task_pool s ! i))"]) (use R(1,2) eq res Some False again in auto)
  qed
qed

subsection \<open>Delivering signals\<close>

definition ignored :: "task_t \<Rightarrow> nat \<Rightarrow> bool" where
  "ignored t sig \<longleftrightarrow> signal_handlers t ! sig = SIG_IGN \<or> signal_handlers t ! sig = SIG_DFL \<and> \<not> default_action sig"

definition unmasked :: "task_t \<Rightarrow> u64" where
  "unmasked t = signal_pending t AND NOT (signal_mask t)"

definition next_signal :: "task_t \<Rightarrow> nat option" where
  "next_signal t = find (\<lambda>sig. bit (unmasked t) sig \<and> \<not> ignored t sig) [1..<NSIGS]"

text \<open>The signals of a list that are in \<open>pend\<close>, taken out of a pending set.\<close>

definition clear_sigs :: "u64 \<Rightarrow> nat list \<Rightarrow> u64 \<Rightarrow> u64" where
  "clear_sigs pend sigs m = fold (\<lambda>sig m. if bit pend sig then m AND NOT (sig_bit sig) else m) sigs m"

lemma sig_bit_zero: "pend AND sig_bit sig = 0 \<longleftrightarrow> \<not> bit pend sig"
proof
  assume z: "pend AND sig_bit sig = 0"
  show "\<not> bit pend sig"
  proof
    assume "bit pend sig"
    then have "bit (pend AND sig_bit sig) sig" using bit_imp_le_length [of pend sig] by (simp add: sig_bit_def bit_simps)
    then show False using z by simp
  qed
next
  assume "\<not> bit pend sig"
  then show "pend AND sig_bit sig = 0" by (intro bit_word_eqI) (auto simp: sig_bit_def bit_simps)
qed

lemma bit_clear_sigs: "n < 64 \<Longrightarrow> bit (clear_sigs pend sigs m) n \<longleftrightarrow> bit m n \<and> \<not> (n \<in> set sigs \<and> bit pend n)"
proof (induction sigs arbitrary: m)
  case (Cons x xs)
  show ?case using Cons.IH [of "if bit pend x then m AND NOT (sig_bit x) else m"] Cons.prems
    by (auto simp: clear_sigs_def sig_bit_def bit_simps)
qed (simp add: clear_sigs_def)

lemma clear_sigs_simps [simp]:
  "clear_sigs pend [] m = m"
  "clear_sigs pend (x # xs) m = clear_sigs pend xs (if bit pend x then m AND NOT (sig_bit x) else m)"
  by (simp_all add: clear_sigs_def)

text \<open>What happens to a signal that is acted upon.\<close>

definition act :: "u64 \<Rightarrow> sys \<Rightarrow> nat \<Rightarrow> registers_t \<Rightarrow> nat \<Rightarrow> (sys \<times> registers_t) option" where
  "act cpu s c r sig = (let h = signal_handlers (task_pool s ! c) ! sig in
     if h = SIG_DFL then map_option (\<lambda>s. (s, r)) (sys_exit s (int sig)) else enter_handler cpu s c r sig h)"

lemma upd_task_upd_task: "upd_task (upd_task s i f) i g = upd_task s i (\<lambda>t. g (f t))"
  by (cases "i < length (task_pool s)") (auto simp: upd_task_def list_update_beyond)

lemma deliver_loop_find:
  assumes "c < length (task_pool s)"
  shows "deliver_loop cpu s c r pend sigs =
    (case find (\<lambda>sig. bit pend sig \<and> \<not> ignored (task_pool s ! c) sig) sigs of
       None \<Rightarrow> Some (upd_task s c (signal_pending_update (clear_sigs pend sigs)), r)
     | Some sig \<Rightarrow> act cpu (upd_task s c (signal_pending_update (clear_sigs pend (takeWhile (\<lambda>x. x \<noteq> sig) sigs @ [sig])))) c r sig)"
  using assms
proof (induction sigs arbitrary: s)
  case Nil
  have "signal_pending_update (clear_sigs pend []) t = t" for t :: task_t by (cases t) simp
  then have "upd_task s c (signal_pending_update (clear_sigs pend [])) = s" unfolding upd_task_def by (simp only: list_update_id) simp
  then show ?case by simp
next
  case (Cons x xs)
  let ?s = "if bit pend x then upd_task s c (signal_pending_update (\<lambda>m. m AND NOT (sig_bit x))) else s"
  have len: "c < length (task_pool ?s)" using Cons.prems by simp
  have h: "signal_handlers (task_pool ?s ! c) = signal_handlers (task_pool s ! c)" using Cons.prems by (simp add: upd_task_nth)
  have ig: "ignored (task_pool ?s ! c) = ignored (task_pool s ! c)" by (simp add: ignored_def h fun_eq_iff)
  have upd: "upd_task ?s c (signal_pending_update (clear_sigs pend ys)) = upd_task s c (signal_pending_update (clear_sigs pend (x # ys)))" for ys
  proof -
    have "clear_sigs pend (x # ys) = (\<lambda>m. clear_sigs pend ys (if bit pend x then m AND NOT (sig_bit x) else m))" by (rule ext) simp
    then show ?thesis by (simp add: upd_task_upd_task o_def)
  qed
  note IH = Cons.IH [OF len, unfolded ig upd]
  show ?case
  proof (cases "bit pend x \<and> \<not> ignored (task_pool s ! c) x")
    case True
    then have "deliver_loop cpu s c r pend (x # xs) = act cpu ?s c r x"
      using h by (auto simp: sig_bit_zero ignored_def act_def Let_def SIG_DFL_def SIG_IGN_def)
    moreover have "clear_sigs pend [x] = (\<lambda>m. m AND NOT (sig_bit x))" using True by (intro ext) simp
    ultimately show ?thesis using True by (simp del: deliver_loop.simps)
  next
    case False
    then have step: "deliver_loop cpu s c r pend (x # xs) = deliver_loop cpu ?s c r pend xs"
      using h by (auto simp: sig_bit_zero ignored_def Let_def SIG_DFL_def SIG_IGN_def)
    have tw: "takeWhile (\<lambda>y. y \<noteq> z) (x # xs) = x # takeWhile (\<lambda>y. y \<noteq> z) xs"
      if "find (\<lambda>sig. bit pend sig \<and> \<not> ignored (task_pool s ! c) sig) xs = Some z" for z
      using find_in_set [OF that] False by auto
    show ?thesis unfolding step IH using False tw by (auto split: option.split)
  qed
qed

lemma takeWhile_upt:
  assumes "a \<le> k" "k < b"
  shows "takeWhile (\<lambda>x. x \<noteq> k) [a..<b] = [a..<k]"
proof -
  have "[a..<b] = [a..<k] @ k # [Suc k..<b]" using assms upt_add_eq_append [of a k "b - k"] by (simp add: upt_conv_Cons)
  then show ?thesis using takeWhile_append2 [of "[a..<k]" "\<lambda>x. x \<noteq> k"] by simp
qed

lemma upd_pending_const:
  assumes "c < length (task_pool s)"
  shows "upd_task s c (signal_pending_update f) = upd_task s c (signal_pending_update (\<lambda>_. f (signal_pending (task_pool s ! c))))"
proof -
  have "signal_pending_update f t = t\<lparr>signal_pending := f (signal_pending t)\<rparr>" for t :: task_t by (cases t) simp
  then show ?thesis unfolding upd_task_def by (simp only:)
qed

lemma enter_handler_pending:
  assumes "c < length (task_pool s)"
  shows "enter_handler cpu (upd_task s c (signal_pending_update (\<lambda>_. m))) c r sig h =
    map_option (\<lambda>k. (upd_task (s\<lparr>mem := k\<rparr>) c (\<lambda>t. t\<lparr>signal_pending := m, saved_rip := r_rip r, saved_rsp := r_rsp r,
          saved_rflags := r_rflags r, in_signal := True\<rparr>),
        r\<lparr>r_rip := h, r_rsp := r_rsp r - 8, r_rdi := of_nat sig, r_rflags := r_rflags r AND NOT 0x100\<rparr>))
      (store64 cpu (r_rsp r - 8) (trampoline_addr (task_pool s ! c))
        (signal_page (mem s) (cr3 (task_pool s ! c)) ((r_rsp r - 8) AND NOT 0xFFF)))"
proof -
  have "(upd_task s c f)\<lparr>mem := k\<rparr> = upd_task (s\<lparr>mem := k\<rparr>) c f" for f k by (simp add: upd_task_def)
  then show ?thesis using assms
    by (simp add: enter_handler_def Let_def upd_task_upd_task upd_task_nth option.case_eq_if map_option_case)
qed

lemma zombie_exit:
  assumes "sched_inv s" "current_task s = Some c"
  shows "\<exists>u. map_option (\<lambda>s. (s, r)) (sys_exit (upd_task s c (signal_pending_update f)) code) = Some (u, r) \<and>
    sched_inv u \<and> state (task_pool u ! c) = TASK_ZOMBIE \<and> exit_code (task_pool u ! c) = code"
proof -
  have "sched_inv (upd_task s c (signal_pending_update f))" by (rule upd_task_inv) (use assms in auto)
  then show ?thesis using sys_exit_lemma [of "upd_task s c (signal_pending_update f)" c code] assms(2) by auto
qed

lemma signal_deliver_loop:
  assumes "c < length (task_pool s)" "current_task s = Some c" "pid (task_pool s ! c) \<noteq> 0"
    "\<not> bit (signal_pending (task_pool s ! c)) SIGKILL" "\<not> in_signal (task_pool s ! c)"
  shows "signal_deliver cpu s r = deliver_loop cpu s c r (unmasked (task_pool s ! c)) [1..<NSIGS]"
proof (cases "unmasked (task_pool s ! c) = 0")
  case True
  then have "find (\<lambda>sig. bit (unmasked (task_pool s ! c)) sig \<and> \<not> ignored (task_pool s ! c) sig) [1..<NSIGS] = None" by (simp add: find_None_iff)
  moreover have "clear_sigs (unmasked (task_pool s ! c)) [1..<NSIGS] m = m" for m
    by (rule bit_word_eqI) (simp add: bit_clear_sigs True)
  ultimately have "deliver_loop cpu s c r (unmasked (task_pool s ! c)) [1..<NSIGS] = Some (s, r)"
    unfolding deliver_loop_find [OF assms(1)] upd_pending_const [OF assms(1), of "clear_sigs _ _"] by (simp add: upd_task_def)
  then show ?thesis using True assms by (simp add: signal_deliver_def sig_bit_zero unmasked_def Let_def)
qed (use assms in \<open>simp add: signal_deliver_def sig_bit_zero unmasked_def Let_def\<close>)

lemma bit_unmasked: "n < 64 \<Longrightarrow> bit (unmasked t) n \<longleftrightarrow> bit (signal_pending t) n \<and> \<not> bit (signal_mask t) n"
  by (auto simp: unmasked_def bit_simps)

text \<open>The pending set after the signals up to \<open>sig\<close> that are not masked have been taken out.\<close>

definition pending_above :: "task_t \<Rightarrow> nat \<Rightarrow> u64" where
  "pending_above t sig = clear_sigs (unmasked t) [1..<Suc sig] (signal_pending t)"

lemma bit_pending_above:
  "n < 64 \<Longrightarrow> bit (pending_above t sig) n \<longleftrightarrow> bit (signal_pending t) n \<and> (n \<in> {1..sig} \<longrightarrow> bit (signal_mask t) n)"
  by (auto simp: pending_above_def bit_clear_sigs bit_unmasked)

lemma signal_deliver_none:
  assumes "c < length (task_pool s)" "current_task s = Some c" "pid (task_pool s ! c) \<noteq> 0"
    "\<not> bit (signal_pending (task_pool s ! c)) SIGKILL" "\<not> in_signal (task_pool s ! c)" "next_signal (task_pool s ! c) = None"
  shows "signal_deliver cpu s r = Some (upd_task s c (signal_pending_update (\<lambda>_. pending_above (task_pool s ! c) 31)), r)"
  using signal_deliver_loop [OF assms(1-5)] assms(6) deliver_loop_find [OF assms(1)] upd_pending_const [OF assms(1), of "clear_sigs _ _"]
  by (simp add: next_signal_def pending_above_def NSIGS_def)

lemma signal_deliver_act:
  assumes "c < length (task_pool s)" "current_task s = Some c" "pid (task_pool s ! c) \<noteq> 0"
    "\<not> bit (signal_pending (task_pool s ! c)) SIGKILL" "\<not> in_signal (task_pool s ! c)" "next_signal (task_pool s ! c) = Some sig"
  shows "signal_deliver cpu s r =
    act cpu (upd_task s c (signal_pending_update (\<lambda>_. pending_above (task_pool s ! c) sig))) c r sig"
proof -
  have sig: "1 \<le> sig" "sig < NSIGS" using assms(6) find_in_set [of _ "[1..<NSIGS]" sig] by (auto simp: next_signal_def)
  show ?thesis
    using signal_deliver_loop [OF assms(1-5)] assms(6) deliver_loop_find [OF assms(1)] takeWhile_upt [OF sig] sig(1)
      upd_pending_const [OF assms(1), of "clear_sigs (unmasked (task_pool s ! c)) [1..<Suc sig]"]
    by (simp only: next_signal_def pending_above_def option.case upt_Suc if_True)
qed

lemma signal_deliver_handler:
  assumes "c < length (task_pool s)" "current_task s = Some c" "pid (task_pool s ! c) \<noteq> 0"
    "\<not> bit (signal_pending (task_pool s ! c)) SIGKILL" "\<not> in_signal (task_pool s ! c)" "next_signal (task_pool s ! c) = Some sig"
    "signal_handlers (task_pool s ! c) ! sig \<noteq> SIG_DFL"
  shows "signal_deliver cpu s r =
    map_option (\<lambda>k. (upd_task (s\<lparr>mem := k\<rparr>) c (\<lambda>t. t\<lparr>signal_pending := pending_above (task_pool s ! c) sig, saved_rip := r_rip r,
          saved_rsp := r_rsp r, saved_rflags := r_rflags r, in_signal := True\<rparr>),
        r\<lparr>r_rip := signal_handlers (task_pool s ! c) ! sig, r_rsp := r_rsp r - 8, r_rdi := of_nat sig,
          r_rflags := r_rflags r AND NOT 0x100\<rparr>))
      (store64 cpu (r_rsp r - 8) (trampoline_addr (task_pool s ! c))
        (signal_page (mem s) (cr3 (task_pool s ! c)) ((r_rsp r - 8) AND NOT 0xFFF)))"
  unfolding signal_deliver_act [OF assms(1-6)] enter_handler_pending [OF assms(1), symmetric]
  using assms(1,7) by (simp add: act_def upd_task_nth Let_def)

text \<open>C15: what delivering signals to the current task does. A pending kill ends it. In a handler nothing
  is delivered. Otherwise the lowest pending signal that is not masked and not ignored is acted
  upon: ignored signals below it are dropped, masked ones and those above it stay pending. By
  default the task ends with the number of the signal as its exit code; with a handler the
  interrupted context is saved, the address of the trampoline is pushed on the user stack, and
  the task resumes in the handler with the number of the signal as argument.\<close>

theorem signal_deliver_correct:
  assumes "sched_inv s" "current_task s = Some c" "pid (task_pool s ! c) \<noteq> 0"
  defines "t \<equiv> task_pool s ! c"
  shows "if bit (signal_pending t) SIGKILL
      then \<exists>u. signal_deliver cpu s r = Some (u, r) \<and> sched_inv u \<and> state (task_pool u ! c) = TASK_ZOMBIE \<and> exit_code (task_pool u ! c) = 9
    else if in_signal t then signal_deliver cpu s r = Some (s, r)
    else (case next_signal t of
        None \<Rightarrow> \<exists>m. signal_deliver cpu s r = Some (upd_task s c (signal_pending_update (\<lambda>_. m)), r) \<and>
          (\<forall>n < 64. bit m n \<longleftrightarrow> bit (signal_pending t) n \<and> (n \<in> {1..31} \<longrightarrow> bit (signal_mask t) n))
      | Some sig \<Rightarrow> let h = signal_handlers t ! sig in
          if h = SIG_DFL
          then \<exists>u. signal_deliver cpu s r = Some (u, r) \<and> sched_inv u \<and> state (task_pool u ! c) = TASK_ZOMBIE \<and>
            exit_code (task_pool u ! c) = int sig
          else \<exists>m. (\<forall>n < 64. bit m n \<longleftrightarrow> bit (signal_pending t) n \<and> (n \<in> {1..sig} \<longrightarrow> bit (signal_mask t) n)) \<and>
            signal_deliver cpu s r =
              map_option (\<lambda>k. (upd_task (s\<lparr>mem := k\<rparr>) c (\<lambda>t. t\<lparr>signal_pending := m, saved_rip := r_rip r, saved_rsp := r_rsp r,
                    saved_rflags := r_rflags r, in_signal := True\<rparr>),
                  r\<lparr>r_rip := h, r_rsp := r_rsp r - 8, r_rdi := of_nat sig, r_rflags := r_rflags r AND NOT 0x100\<rparr>))
                (store64 cpu (r_rsp r - 8) (trampoline_addr t) (signal_page (mem s) (cr3 t) ((r_rsp r - 8) AND NOT 0xFFF))))"
proof -
  have len: "c < length (task_pool s)" using assms(1,2) by (auto simp: sched_inv_def ring_def)
  note K = len assms(2,3) and D = t_def [symmetric]
  show ?thesis
  proof (cases "bit (signal_pending t) SIGKILL")
    case True
    then have "signal_deliver cpu s r = map_option (\<lambda>s. (s, r)) (sys_exit (upd_task s c (signal_pending_update (\<lambda>_. 0))) 9)"
      using assms(2,3) by (simp add: signal_deliver_def sig_bit_zero t_def SIGKILL_def)
    then show ?thesis using True zombie_exit [OF assms(1,2), of r "\<lambda>_. 0" 9] by simp
  next
    case nokill: False
    show ?thesis
    proof (cases "in_signal t")
      case True
      then show ?thesis using nokill assms(2,3) by (simp add: signal_deliver_def sig_bit_zero t_def)
    next
      case False
      note L = nokill [unfolded t_def] False [unfolded t_def]
      show ?thesis
      proof (cases "next_signal t")
        case None
        then show ?thesis using signal_deliver_none [OF K L] nokill False bit_pending_above [where t = t and sig = 31] unfolding D by auto
      next
        case (Some sig)
        note S = Some [unfolded t_def]
        let ?s = "upd_task s c (signal_pending_update (\<lambda>_. pending_above t sig))"
        show ?thesis
        proof (cases "signal_handlers t ! sig = SIG_DFL")
          case True
          then have "signal_deliver cpu s r = map_option (\<lambda>s. (s, r)) (sys_exit ?s (int sig))"
            using signal_deliver_act [OF K L S] len by (simp add: act_def upd_task_nth Let_def t_def)
          then show ?thesis using True nokill False Some zombie_exit [OF assms(1,2), of r "\<lambda>_. pending_above t sig" "int sig"] by simp
        next
          case h: False
          show ?thesis
            using signal_deliver_handler [OF K L S h [unfolded t_def]] nokill False Some h bit_pending_above [where t = t and sig = sig] unfolding D
            by (auto simp: Let_def intro!: exI [of _ "pending_above t sig"])
        qed
      qed
    qed
  qed
qed

subsection \<open>Fork\<close>

text \<open>Page-table operations leave the heap alone.\<close>

lemma for_ok_keeps:
  assumes "\<And>i k. g (fst (f i k)) = g k"
  shows "g (fst (for_ok n f k)) = g k"
  by (induction n) (auto simp: case_prod_beta assms)

lemma heap_frames [simp]:
  "heap_blocks (fst (memory_alloc_page k)) = heap_blocks k" "heap_blocks (set_tab k t i v) = heap_blocks k"
  "heap_blocks (page_ref_inc k p) = heap_blocks k" "heap_blocks (pte_set_cow k a) = heap_blocks k"
  by (simp_all add: memory_alloc_page_def set_tab_def page_ref_inc_def pte_set_cow_def Let_def)

lemma heap_create_pd [simp]: "heap_blocks (create_pd k a b n) = heap_blocks k"
  by (induction n) (simp_all add: Let_def)

lemma heap_cow_share [simp]:
  "heap_blocks (cow_share_huge k a b c d n) = heap_blocks k" "heap_blocks (cow_share_pt k a b n) = heap_blocks k"
  by (induction n) (simp_all add: Let_def)

lemma heap_create_pdpt [simp]: "heap_blocks (fst (create_pdpt k a b)) = heap_blocks k"
  unfolding create_pdpt_def by (rule for_ok_keeps) (simp add: Let_def case_prod_beta)

lemma heap_paging_create [simp]: "heap_blocks (fst (paging_create k)) = heap_blocks k"
proof -
  have "heap_blocks (fst (for_ok 512 (\<lambda>pml4_i k.
      let pml4_entry = tab (phys k) PML4_ADDR pml4_i in
      if \<not> present pml4_entry then (k, True)
      else if \<not> user pml4_entry then (set_tab k n pml4_i pml4_entry, True)
      else (let (k1, new_pdpt) = memory_alloc_page k in
        if new_pdpt = 0 then (k1, False)
        else (let k2 = set_tab k1 n pml4_i (new_pdpt OR (pml4_entry AND (PAGE_RW OR PAGE_USER OR PAGE_PRESENT)))
              in create_pdpt k2 (frame_of pml4_entry) new_pdpt))) k)) = heap_blocks k" for n k
    by (rule for_ok_keeps) (simp add: Let_def case_prod_beta)
  then show ?thesis by (simp add: paging_create_def Let_def case_prod_beta)
qed

lemma heap_for_user_pd:
  assumes "\<And>k a b i e. heap_blocks (fst (f k a b i e)) = heap_blocks k"
  shows "heap_blocks (fst (for_user_pd f k d s)) = heap_blocks k"
  unfolding for_user_pd_def by (rule for_ok_keeps) (auto simp: Let_def assms intro!: for_ok_keeps [where g = heap_blocks])

lemma heap_cow_clone [simp]: "heap_blocks (fst (paging_cow_clone_user k d s)) = heap_blocks k"
  unfolding paging_cow_clone_user_def
  by (simp add: Let_def case_prod_beta) (rule heap_for_user_pd, simp add: Let_def case_prod_beta)

lemma copy_fds_other:
  assumes "j \<noteq> d"
  shows "task_pool (fold (copy_fd d r) xs s) ! j = task_pool s ! j"
  using assms by (induction xs arbitrary: s) (simp_all add: copy_fd_def Let_def upd_task_def nth_upd)

text \<open>The fields a child gets from its parent.\<close>

definition child_of :: "task_t \<Rightarrow> u32 \<Rightarrow> task_t \<Rightarrow> bool" where
  "child_of par n ch \<longleftrightarrow> pid ch = n \<and> parent_pid ch = pid par \<and> state ch = TASK_READY \<and> exit_code ch = 0 \<and> \<not> waited ch \<and>
     fd_type ch = fd_type par \<and> fd_data ch = fd_data par \<and> vm_regions ch = vm_regions par \<and>
     signal_handlers ch = signal_handlers par \<and> signal_pending ch = 0 \<and> signal_mask ch = signal_mask par \<and>
     trampoline_addr ch = trampoline_addr par \<and> \<not> in_signal ch"

definition fds_ok :: "task_t \<Rightarrow> bool" where
  "fds_ok t \<longleftrightarrow> length (fd_type t) = MAX_FDS \<and> length (fd_data t) = MAX_FDS"

lemma fork_task_effect:
  assumes "p \<noteq> n" "n < length (task_pool s)" "fds_ok (task_pool s ! n)" "fds_ok (task_pool s ! p)"
  defines "u \<equiv> fork_task s n p"
  shows "task_count u = task_count s" "task_list u = task_list s" "current_task u = current_task s" "mem u = mem s"
    "length (task_pool u) = length (task_pool s)" "next_pid u = next_pid s + 1"
    "j \<noteq> n \<Longrightarrow> task_pool u ! j = task_pool s ! j" "child_of (task_pool s ! p) (next_pid s) (task_pool u ! n)"
proof -
  let ?par = "task_pool s ! p"
  define f where "f = (\<lambda>t :: task_t. t\<lparr>task_name := copy_name (task_name ?par) (task_name t), pid := next_pid s,
                state := TASK_READY, parent_pid := pid ?par, exit_code := 0, waited := False,
                vm_regions := vm_region_copy (vm_regions ?par)\<rparr>)"
  define s1 where "s1 = (upd_task s n f)\<lparr>next_pid := next_pid s + 1\<rparr>"
  define s2 where "s2 = task_copy_fds s1 (Some n) (Some p)"
  have u: "u = upd_task s2 n (\<lambda>t. t\<lparr>signal_handlers := signal_handlers ?par, signal_pending := 0,
           signal_mask := signal_mask ?par, trampoline_addr := trampoline_addr ?par, in_signal := False\<rparr>)"
    by (simp add: u_def fork_task_def s2_def s1_def f_def Let_def)
  note W = wokenD [OF woken_copy_fds [of s1 "Some n" "Some p"], folded s2_def]
  have s1: "task_count s1 = task_count s" "task_list s1 = task_list s" "current_task s1 = current_task s" "mem s1 = mem s"
    "length (task_pool s1) = length (task_pool s)" "task_pool s1 ! n = f (task_pool s ! n)" "\<And>j. j \<noteq> n \<Longrightarrow> task_pool s1 ! j = task_pool s ! j"
    using assms(2) by (simp_all add: s1_def upd_task_nth)
  show "task_count u = task_count s" "task_list u = task_list s" "current_task u = current_task s" "mem u = mem s"
    "length (task_pool u) = length (task_pool s)" "next_pid u = next_pid s + 1"
    using W(1-6) s1 by (simp_all add: u s1_def)
  have len: "n < length (task_pool s2)" using W(1) s1(5) assms(2) by simp
  show "j \<noteq> n \<Longrightarrow> task_pool u ! j = task_pool s ! j"
    using len s1(7) copy_fds_other [of j n p "[0..<MAX_FDS]" s1] by (simp add: u upd_task_nth s2_def task_copy_fds_def)
  have "fds_ok (f (task_pool s ! n))" using assms(3) by (simp add: fds_ok_def f_def)
  then have "fd_type (task_pool s2 ! n) = fd_type ?par" "fd_data (task_pool s2 ! n) = fd_data ?par"
    using copy_fds_tasks [of n p s1 8] assms s1(5-7)
    by (simp_all add: s2_def task_copy_fds_def fds_ok_def MAX_FDS_def Let_def)
  moreover have "state (task_pool s2 ! n) = TASK_READY" by (rule W(11)) (simp add: s1 f_def)
  ultimately show "child_of ?par (next_pid s) (task_pool u ! n)"
    using task_core_eqD [OF W(8), of n] len unfolding s1 f_def by (simp add: child_of_def u upd_task_nth vm_region_copy_id)
qed

text \<open>The memory a fork hands to the creation of the address space: a copy of the parent's stack in
  which the saved \<^verbatim>\<open>rax\<close> is zero.\<close>

definition fork_mem :: "kmem \<Rightarrow> u64 \<Rightarrow> u64 \<Rightarrow> kmem" where
  "fork_mem k pbase r =
     (let (h, base) = memory_alloc (heap_blocks k) STACK_SIZE in
      k\<lparr>heap_blocks := h, phys := wr64 (memory_copy (phys k) base pbase (unat STACK_SIZE)) (base + (r - pbase)) 0\<rparr>)"

definition fork_space :: "kmem \<Rightarrow> u64 \<Rightarrow> u64 \<Rightarrow> u64 \<Rightarrow> kmem \<times> u64 \<times> int" where
  "fork_space k pbase r parent_cr3 =
     (let (k1, c) = paging_create (fork_mem k pbase r); (k2, res) = paging_cow_clone_user k1 c parent_cr3
      in (k2, c, res))"

definition fork_fails :: "sys \<Rightarrow> u64 \<Rightarrow> u64 \<Rightarrow> u64 \<Rightarrow> bool" where
  "fork_fails s pbase r parent_cr3 \<longleftrightarrow> task_count s = MAX_TASKS \<or> snd (memory_alloc (heap_blocks (mem s)) STACK_SIZE) = 0 \<or>
     (case fork_space (mem s) pbase r parent_cr3 of (k, c, res) \<Rightarrow> c = 0 \<or> res < 0)"

lemma fork_mem_stack:
  assumes "memory_alloc (heap_blocks k) STACK_SIZE = (h, base)"
  shows "rd64 (phys (fork_mem k pbase r)) (base + (r - pbase)) = 0"
    and "(\<And>a. unat (a - pbase) < 4096 \<Longrightarrow> \<not> unat (a - base) < 4096) \<Longrightarrow>
      unat (a - base) < 4096 \<Longrightarrow> \<not> unat (a - (base + (r - pbase))) < 8 \<Longrightarrow>
      phys (fork_mem k pbase r) a = phys k (pbase + (a - base))"
proof -
  show "rd64 (phys (fork_mem k pbase r)) (base + (r - pbase)) = 0" using assms by (simp add: fork_mem_def)
  show "(\<And>a. unat (a - pbase) < 4096 \<Longrightarrow> \<not> unat (a - base) < 4096) \<Longrightarrow>
      unat (a - base) < 4096 \<Longrightarrow> \<not> unat (a - (base + (r - pbase))) < 8 \<Longrightarrow>
      phys (fork_mem k pbase r) a = phys k (pbase + (a - base))"
    using assms memory_copy_eq [of 4096 pbase base "phys k" a] by (simp add: fork_mem_def STACK_SIZE_def wr64_def)
qed

lemma sched_inv_more [simp]:
  "sched_inv (s\<lparr>mem := k\<rparr>) = sched_inv s" "sched_inv (s\<lparr>next_pid := n\<rparr>) = sched_inv s"
  by (simp_all add: sched_inv_def ring_def)

lemma upd_beyond_inv:
  assumes "sched_inv s" "task_count s \<le> i"
  shows "sched_inv (upd_task s i f)"
  using assms by (auto simp: sched_inv_def ring_def upd_task_def nth_upd)

lemma link_task_inv:
  assumes "sched_inv s" "task_count s < MAX_TASKS" "state (task_pool s ! task_count s) \<noteq> TASK_RUNNING"
  shows "\<exists>t. link_task s (task_count s) = Some t \<and> sched_inv t \<and> task_count t = Suc (task_count s) \<and>
    current_task t = current_task s \<and> mem t = mem s \<and> next_pid t = next_pid s \<and> pipe_pool t = pipe_pool s \<and>
    (\<forall>i < MAX_TASKS. \<exists>x. task_pool t ! i = (task_pool s ! i)\<lparr>next_task := x\<rparr>)"
proof -
  have r: "ring s" using assms(1) by (simp add: sched_inv_def)
  obtain t where t: "link_task s (task_count s) = Some t" "ring t" "task_count t = Suc (task_count s)"
    "current_task t = current_task s" "mem t = mem s" "next_pid t = next_pid s" "pipe_pool t = pipe_pool s"
    "\<forall>i < MAX_TASKS. \<exists>x. task_pool t ! i = (task_pool s ! i)\<lparr>next_task := x\<rparr>"
    using link_task_ring [OF r assms(2)] by blast
  have "state (task_pool t ! i) = state (task_pool s ! i)" if "i < Suc (task_count s)" for i
    using t(8) that assms(2) by (metis Suc_leI less_le_trans task_t.select_convs(3) task_t.surjective task_t.update_convs(7))
  then have "sched_inv t" using assms(1,3) t by (auto simp: sched_inv_def less_Suc_eq)
  then show ?thesis using t by blast
qed

lemma sys_fork_eq:
  fixes r :: u64
  assumes "current_task s = Some p" "task_count s < MAX_TASKS"
  defines "n \<equiv> task_count s" and "pbase \<equiv> stack_base (task_pool s ! p)"
  defines "base \<equiv> snd (memory_alloc (heap_blocks (mem s)) STACK_SIZE)"
  assumes "mem (fork_task s n p) = mem s"
  shows "sys_fork s prsp pcr3 r =
    (let u = upd_task (fork_task s n p) n (stack_base_update (\<lambda>_. base));
         (k1, c) = paging_create (fork_mem (mem s) pbase r); (k2, res) = paging_cow_clone_user k1 c pcr3;
         v = upd_task u n (\<lambda>t. t\<lparr>rsp := base + (prsp - pbase), cr3 := c\<rparr>)
     in if base = 0 then Some (u\<lparr>mem := (mem s)\<lparr>heap_blocks := fst (memory_alloc (heap_blocks (mem s)) STACK_SIZE)\<rparr>\<rparr>, -1)
        else if c = 0 then Some (fork_undo (v\<lparr>mem := k1\<rparr>) n base, -1)
        else if res < 0 then Some (fork_undo (v\<lparr>mem := k2\<rparr>) n base, -1)
        else map_option (\<lambda>t. (t, sint (pid (task_pool t ! n)))) (link_task (v\<lparr>mem := k2\<rparr>) n))"
proof -
  have push: "upd_task (s\<lparr>mem := k\<rparr>) i f = (upd_task s i f)\<lparr>mem := k\<rparr>" for s i f k by (simp add: upd_task_def)
  show ?thesis using assms
    by (simp add: sys_fork_def fork_mem_def case_prod_beta Let_def push upd_task_upd_task paging_destroy_def o_def cong: if_cong)
qed


subsection \<open>A family of processes\<close>

text \<open>Task 1, with pid 1, runs and has the child 2; the child is ready.\<close>

definition family :: sys where
  "family = upd_task (upd_task three_tasks 1 (\<lambda>t. t\<lparr>pid := 1, signal_pending := 0x8000\<rparr>)) 2 (\<lambda>t. t\<lparr>pid := 2, parent_pid := 1\<rparr>)"

definition bereaved :: sys where
  "bereaved = upd_task family 2 (\<lambda>t. t\<lparr>state := TASK_ZOMBIE, exit_code := 7\<rparr>)"

lemma three_tasks_fds: "i < MAX_TASKS \<Longrightarrow> fds_ok (task_pool three_tasks ! i)"
  by (auto simp: three_tasks_def fds_ok_def blank_task_def nth_append nth_Cons MAX_TASKS_def MAX_FDS_def split: nat.split)

lemma family_fields:
  "task_count family = 3" "current_task family = Some 1" "length (task_pool family) = MAX_TASKS"
  "pid (task_pool family ! 0) = 0" "pid (task_pool family ! 1) = 1" "pid (task_pool family ! 2) = 2" "parent_pid (task_pool family ! 2) = 1"
  "signal_pending (task_pool family ! 1) = 0x8000" "signal_mask (task_pool family ! 1) = 0" "\<not> in_signal (task_pool family ! 1)"
  "signal_handlers (task_pool family ! 1) = replicate 32 0" "waited (task_pool family ! 2) = False" "state (task_pool family ! 2) = TASK_READY"
  "state (task_pool family ! 0) = TASK_BLOCKED" "mem family = boot_kmem"
  by (simp_all add: family_def upd_task_def three_tasks_def blank_task_def boot_sys_def scheduler_init_def MAX_TASKS_def NSIGS_def Let_def SIG_DFL_def)

lemma family_inv: "sched_inv family"
  unfolding family_def
  by (intro upd_task_inv three_tasks_inv) (simp_all add: three_tasks_fields upd_task_nth MAX_TASKS_def)

theorem sys_kill_correct_witness:
  "\<exists>t. sys_kill family 2 9 = Some (t, 0) \<and> bit (signal_pending (task_pool t ! 2)) 9"
proof -
  have f: "find (live_pid family 2) [0..<3] = Some 2"
    using family_fields by (simp add: upt_rec live_pid_def flip: numeral_2_eq_2)
  show ?thesis using sys_kill_correct [OF family_inv, of 2 9] f
    by (auto simp: family_fields upd_task_nth MAX_TASKS_def post_signal_def sig_bit_def bit_simps)
qed

theorem sys_exit_correct_witness:
  "\<exists>t. sys_exit family 3 = Some t \<and> current_task t \<noteq> Some 1 \<and> exit_code (task_pool t ! 1) = 3"
  using sys_exit_correct [OF family_inv family_fields(2), of 3] family_fields(1,13) by (auto intro: exI [of _ 2])

theorem sys_waitpid_correct_witness:
  "\<exists>t. sys_waitpid bereaved 2 = Some (t, Inr 7) \<and> sys_waitpid t 2 = Some (t, Inr (-1))"
proof -
  have b: "sched_inv bereaved" unfolding bereaved_def by (rule upd_task_inv [OF family_inv]) simp_all
  have lt: "i < 3 \<longleftrightarrow> i = 0 \<or> i = 1 \<or> i = 2" for i :: nat by auto
  have f: "current_task bereaved = Some 1" "task_count bereaved = 3" "pid (task_pool bereaved ! 0) = 0"
    "pid (task_pool bereaved ! 1) = 1" "pid (task_pool bereaved ! 2) = 2" "parent_pid (task_pool bereaved ! 2) = 1"
    "waited (task_pool bereaved ! 2) = False" "state (task_pool bereaved ! 2) = TASK_ZOMBIE" "exit_code (task_pool bereaved ! 2) = 7"
    using family_fields by (simp_all add: bereaved_def upd_task_nth MAX_TASKS_def)
  have "pids_unique bereaved" unfolding pids_unique_def f(2) lt using f by auto
  moreover have "find (child_pid bereaved 2 1) [Suc 0..<3] = Some 2"
    using f by (simp add: upt_rec child_pid_def flip: numeral_2_eq_2)
  ultimately show ?thesis using sys_waitpid_correct [OF b f(1), of 2] f by auto
qed

definition zero_regs :: registers_t where
  "zero_regs = \<lparr>r_rax = 0, r_rcx = 0, r_rdx = 0, r_rbx = 0, r_rbp = 0, r_rdi = 0, r_rsi = 0, r_r8 = 0, r_r9 = 0, r_r10 = 0,
     r_r11 = 0, r_r12 = 0, r_r13 = 0, r_r14 = 0, r_r15 = 0, r_int_no = 0, r_err_code = 0, r_rip = 0, r_cs = 0x1B, r_rflags = 0,
     r_rsp = 0, r_ss = 0x23\<rparr>"

theorem signal_deliver_correct_witness:
  "\<exists>u. signal_deliver 0x1000 family zero_regs = Some (u, zero_regs) \<and> state (task_pool u ! 1) = TASK_ZOMBIE \<and>
    exit_code (task_pool u ! 1) = 15"
proof -
  have "\<not> bit (0x8000 :: u64) SIGKILL" by (simp add: SIGKILL_def)
  moreover have "next_signal (task_pool family ! 1) = Some 15"
  proof -
    have b: "bit (0x8000 :: int) n \<longleftrightarrow> n = 15" for n
      using bit_exp_iff [of 15 n, where 'a = int] by simp
    have "unmasked (task_pool family ! 1) = 0x8000" "signal_handlers (task_pool family ! 1) ! 15 = SIG_DFL" "default_action 15"
      using family_fields by (simp_all add: unmasked_def default_action_def SIG_DFL_def SIGCHLD_def SIGALRM_def SIGCONT_def)
    then show ?thesis unfolding next_signal_def
      by (intro find_unique) (auto simp: b ignored_def NSIGS_def SIG_IGN_def SIG_DFL_def)
  qed
  ultimately show ?thesis
    using signal_deliver_correct [OF family_inv family_fields(2), of "0x1000" zero_regs] family_fields(5,8,10,11)
    by (simp add: SIG_DFL_def SIGKILL_def) blast
qed


end
