(* ===== verification/Keyboard.thy ===== *)
theory Keyboard
  imports Process Ring
begin

text \<open>
  The keyboard driver \<^verbatim>\<open>kernel/keyboard.c\<close>: scancodes are decoded by a small state machine (modifiers,
  the E0 prefix, escape sequences), and characters wait in a ring of 256 bytes of which one stays
  unused. The scancode that \<^verbatim>\<open>inb(0x60)\<close> reads is an argument of the handler, and the byte that the
  serial port has ready, if any, one of \<^verbatim>\<open>keyboard_read\<close>.
\<close>

definition BUF_SIZE :: nat where "BUF_SIZE = 256"

definition KEY_UP :: u8 where "KEY_UP = 0x80"
definition KEY_DOWN :: u8 where "KEY_DOWN = 0x81"
definition KEY_LEFT :: u8 where "KEY_LEFT = 0x82"
definition KEY_RIGHT :: u8 where "KEY_RIGHT = 0x83"
definition KEY_HOME :: u8 where "KEY_HOME = 0x84"
definition KEY_END :: u8 where "KEY_END = 0x85"
definition KEY_DELETE :: u8 where "KEY_DELETE = 0x86"

datatype esc_state_t = ESC_NORMAL | ESC_SEEN | ESC_CSI | ESC_CSI_DIGIT

record kbd =
  kb_buf :: bytes
  kb_head :: nat
  kb_tail :: nat
  shift_pressed :: bool
  ctrl_pressed :: bool
  e0_prefix :: bool
  esc_state :: esc_state_t
  esc_param :: u8

abbreviation chr :: "char \<Rightarrow> u8" where
  "chr c \<equiv> of_char c"

definition keymap :: bytes where
  "keymap = [0, 0] @ str ''1234567890-='' @ [8, 9] @ str ''qwertyuiop[]'' @ [10, 0] @ str ''asdfghjkl;'' @ [39] @ str ''`'' @
     [0, 92] @ str ''zxcvbnm,./'' @ [0] @ str ''*'' @ [0] @ str '' ''"

definition keymap_shift :: bytes where
  "keymap_shift = [0, 0] @ str ''!@#$%^&*()_+'' @ [8, 9] @ str ''QWERTYUIOP{}'' @ [10, 0] @ str ''ASDFGHJKL:'' @ [34] @ str ''~'' @
     [0] @ str ''|ZXCVBNM<>?'' @ [0] @ str ''*'' @ [0] @ str '' ''"

definition buffer_char :: "kbd \<Rightarrow> u8 \<Rightarrow> kbd" where
  "buffer_char k c =
     (let nxt = (kb_head k + 1) mod BUF_SIZE in
      if nxt \<noteq> kb_tail k then k\<lparr>kb_buf := (kb_buf k)[kb_head k := c], kb_head := nxt\<rparr> else k)"

text \<open>The keys behind the E0 prefix.\<close>

definition extended_key :: "kbd \<Rightarrow> u8 \<Rightarrow> kbd" where
  "extended_key k scancode =
     (if scancode = 0x48 then buffer_char k KEY_UP else if scancode = 0x50 then buffer_char k KEY_DOWN
      else if scancode = 0x4B then buffer_char k KEY_LEFT else if scancode = 0x4D then buffer_char k KEY_RIGHT
      else if scancode = 0x47 then buffer_char k KEY_HOME else if scancode = 0x4F then buffer_char k KEY_END
      else if scancode = 0x53 then buffer_char k KEY_DELETE else k)"

text \<open>Ctrl-C: the loop around the ring of tasks.\<close>

definition sigint_task :: "task_t \<Rightarrow> task_t" where
  "sigint_task t =
     (if pid t \<noteq> 0 \<and> state t \<noteq> TASK_ZOMBIE then t\<lparr>signal_pending := signal_pending t OR sig_bit SIGINT\<rparr> else t)"

partial_function (option) sigint_loop :: "sys \<Rightarrow> nat \<Rightarrow> nat \<Rightarrow> sys option" where
  "sigint_loop s start t =
     (if next_task (task_pool s ! t) = Some start then Some (upd_task s t sigint_task)
      else (case next_task (task_pool s ! t) of None \<Rightarrow> None
            | Some i \<Rightarrow> sigint_loop (upd_task s t sigint_task) start i))"

definition buffer_nonzero :: "kbd \<Rightarrow> u8 \<Rightarrow> kbd" where
  "buffer_nonzero k c = (if c \<noteq> 0 then buffer_char k c else k)"

text \<open>The escape-sequence state machine.\<close>

definition esc_step :: "kbd \<Rightarrow> u8 \<Rightarrow> u8 \<Rightarrow> kbd" where
  "esc_step k scancode c =
     (case esc_state k of
        ESC_NORMAL \<Rightarrow> if scancode = 0x01 then k\<lparr>esc_state := ESC_SEEN\<rparr> else buffer_nonzero k c
      | ESC_SEEN \<Rightarrow>
          if scancode = 0x1A then k\<lparr>esc_state := ESC_CSI\<rparr>
          else (buffer_nonzero (buffer_char k 0x1B) c)\<lparr>esc_state := ESC_NORMAL\<rparr>
      | ESC_CSI \<Rightarrow>
          if c \<ge> chr CHR ''A'' \<and> c \<le> chr CHR ''D'' then (buffer_char k (KEY_UP + (c - chr CHR ''A'')))\<lparr>esc_state := ESC_NORMAL\<rparr>
          else if c = chr CHR ''H'' then (buffer_char k KEY_HOME)\<lparr>esc_state := ESC_NORMAL\<rparr>
          else if c = chr CHR ''F'' then (buffer_char k KEY_END)\<lparr>esc_state := ESC_NORMAL\<rparr>
          else if c \<ge> chr CHR ''1'' \<and> c \<le> chr CHR ''9'' then k\<lparr>esc_param := c, esc_state := ESC_CSI_DIGIT\<rparr>
          else (buffer_nonzero (buffer_char (buffer_char k 0x1B) (chr CHR ''['')) c)\<lparr>esc_state := ESC_NORMAL\<rparr>
      | ESC_CSI_DIGIT \<Rightarrow>
          (if c = chr CHR ''~'' then
             if esc_param k = chr CHR ''3'' then buffer_char k KEY_DELETE
             else if esc_param k = chr CHR ''1'' then buffer_char k KEY_HOME
             else if esc_param k = chr CHR ''4'' then buffer_char k KEY_END
             else buffer_char (buffer_char (buffer_char (buffer_char k 0x1B) (chr CHR ''['')) (esc_param k)) (chr CHR ''~'')
           else buffer_nonzero (buffer_char (buffer_char (buffer_char k 0x1B) (chr CHR ''['')) (esc_param k)) c)\<lparr>esc_state := ESC_NORMAL\<rparr>)"

definition key_char :: "kbd \<Rightarrow> u8 \<Rightarrow> u8" where
  "key_char k scancode =
     (if unat scancode < length keymap then
        if shift_pressed k then keymap_shift ! unat scancode else keymap ! unat scancode
      else 0)"

definition keyboard_handler :: "kbd \<Rightarrow> sys \<Rightarrow> u8 \<Rightarrow> (kbd \<times> sys) option" where
  "keyboard_handler k s scancode =
     (if scancode = 0xE0 then Some (k\<lparr>e0_prefix := True\<rparr>, s)
      else if e0_prefix k then
        (let k = k\<lparr>e0_prefix := False\<rparr> in
         if scancode AND 0x80 \<noteq> 0 then Some (k, s) else Some (extended_key k scancode, s))
      else if scancode = 0x2A \<or> scancode = 0x36 then Some (k\<lparr>shift_pressed := True\<rparr>, s)
      else if scancode = 0xAA \<or> scancode = 0xB6 then Some (k\<lparr>shift_pressed := False\<rparr>, s)
      else if scancode = 0x1D then Some (k\<lparr>ctrl_pressed := True\<rparr>, s)
      else if scancode = 0x9D then Some (k\<lparr>ctrl_pressed := False\<rparr>, s)
      else if scancode AND 0x80 \<noteq> 0 then Some (k, s)
      else (let c = key_char k scancode in
        if ctrl_pressed k \<and> (c = chr CHR ''c'' \<or> c = chr CHR ''C'') then
          map_option (Pair (k\<lparr>esc_state := ESC_NORMAL\<rparr>))
            (case get_current_task s of None \<Rightarrow> Some s | Some t \<Rightarrow> sigint_loop s t t)
        else Some (esc_step k scancode c, s)))"

definition keyboard_init :: "kbd \<Rightarrow> kbd" where
  "keyboard_init k = k\<lparr>kb_head := 0, kb_tail := 0, shift_pressed := False, ctrl_pressed := False, e0_prefix := False,
     esc_state := ESC_NORMAL\<rparr>"

definition kb_get :: "kbd \<Rightarrow> kbd \<times> u8" where
  "kb_get k = (k\<lparr>kb_tail := (kb_tail k + 1) mod BUF_SIZE\<rparr>, kb_buf k ! kb_tail k)"

text \<open>\<open>None\<close>: nothing is there and the processor halts until the next interrupt.\<close>

definition keyboard_read :: "kbd \<Rightarrow> u8 option \<Rightarrow> kbd \<times> int option" where
  "keyboard_read k serial =
     (if kb_head k = kb_tail k then
        (case serial of None \<Rightarrow> (k, None)
         | Some c \<Rightarrow> (k, Some (if c = 13 then 10 else if c = 0x7F then 8 else sint c)))
      else (let (k', c) = kb_get k in (k', Some (uint c))))"

definition keyboard_data :: "kbd \<Rightarrow> bool" where
  "keyboard_data k = (kb_head k \<noteq> kb_tail k)"

primrec inject_loop :: "bytes \<Rightarrow> kbd \<Rightarrow> kbd" where
  "inject_loop [] k = k"
| "inject_loop (c # cs) k =
     (let nxt = (kb_head k + 1) mod BUF_SIZE in
      if nxt = kb_tail k then k else inject_loop cs (k\<lparr>kb_buf := (kb_buf k)[kb_head k := c], kb_head := nxt\<rparr>))"

definition keyboard_inject :: "kbd \<Rightarrow> bytes \<Rightarrow> kbd" where
  "keyboard_inject k s = inject_loop (cstr s) k"

subsection \<open>The ring of characters\<close>

definition kbd_wf :: "kbd \<Rightarrow> bool" where
  "kbd_wf k \<longleftrightarrow> length (kb_buf k) = 256 \<and> kb_head k < 256 \<and> kb_tail k < 256"

definition kbd_count :: "kbd \<Rightarrow> nat" where
  "kbd_count k = (kb_head k + 256 - kb_tail k) mod 256"

definition kbd_items :: "kbd \<Rightarrow> bytes" where
  "kbd_items k = ring_items (kb_buf k) (kb_tail k) (kbd_count k)"

lemma kbd_count_eq: "kbd_wf k \<Longrightarrow> kbd_count k = (if kb_tail k \<le> kb_head k then kb_head k - kb_tail k else kb_head k + 256 - kb_tail k)"
  by (auto simp: kbd_wf_def kbd_count_def mod_if)

lemma length_kbd_items [simp]: "length (kbd_items k) = kbd_count k"
  by (simp add: kbd_items_def)

lemma kbd_count_less [simp]: "kbd_count k < 256"
  by (simp add: kbd_count_def)

lemma kbd_Nil: "kbd_wf k \<Longrightarrow> kbd_items k = [] \<longleftrightarrow> kb_head k = kb_tail k"
  by (auto simp: kbd_count_eq kbd_wf_def simp flip: length_0_conv)

lemma full_iff: "kbd_wf k \<Longrightarrow> (kb_head k + 1) mod BUF_SIZE = kb_tail k \<longleftrightarrow> kbd_count k = 255"
  by (auto simp: kbd_count_eq kbd_wf_def BUF_SIZE_def mod_if split: if_splits)

lemma head_pos: "kbd_wf k \<Longrightarrow> kb_head k = (kb_tail k + kbd_count k) mod length (kb_buf k)"
  by (auto simp: kbd_count_eq kbd_wf_def mod_if)

lemma buffer_char_items:
  assumes "kbd_wf k"
  shows "kbd_wf (buffer_char k c)" "kbd_items (buffer_char k c) = take 255 (kbd_items k @ [c])"
proof -
  show "kbd_wf (buffer_char k c)" using assms by (simp add: kbd_wf_def buffer_char_def BUF_SIZE_def Let_def)
  show "kbd_items (buffer_char k c) = take 255 (kbd_items k @ [c])"
  proof (cases "kbd_count k = 255")
    case True
    then have "buffer_char k c = k" using full_iff [OF assms] by (simp add: buffer_char_def)
    then show ?thesis using True by simp
  next
    case False
    then have lt: "kbd_count k < 255" using kbd_count_less [of k] by linarith
    have b: "buffer_char k c = k\<lparr>kb_buf := (kb_buf k)[kb_head k := c], kb_head := (kb_head k + 1) mod 256\<rparr>"
      using False full_iff [OF assms] by (simp add: buffer_char_def BUF_SIZE_def)
    have "kbd_count (buffer_char k c) = Suc (kbd_count k)"
      using lt assms by (auto simp: b kbd_count_def kbd_wf_def mod_if split: if_splits)
    then show ?thesis
      using ring_put [of "kbd_count k" "kb_buf k" "kb_tail k" c] lt assms head_pos [OF assms]
      by (simp add: kbd_items_def b kbd_wf_def)
  qed
qed

lemma kb_get_items:
  assumes "kbd_wf k" "kbd_items k \<noteq> []"
  shows "kbd_wf (fst (kb_get k)) \<and> kbd_items (fst (kb_get k)) = tl (kbd_items k) \<and> snd (kb_get k) = hd (kbd_items k)"
proof -
  have ne: "kb_head k \<noteq> kb_tail k" using assms kbd_Nil by simp
  then have pos: "0 < kbd_count k" using assms(1) by (auto simp: kbd_count_eq kbd_wf_def)
  have "kbd_count (fst (kb_get k)) = kbd_count k - 1"
    using ne assms(1) by (auto simp: kb_get_def kbd_count_def kbd_wf_def BUF_SIZE_def mod_if split: if_splits)
  then show ?thesis
    using ring_get [OF pos, of "kb_tail k" "kb_buf k"] assms(1)
    by (simp add: kbd_items_def kb_get_def kbd_wf_def BUF_SIZE_def)
qed

interpretation kbd: fifo buffer_char kb_get kbd_items kbd_wf 255
  by unfold_locales (simp_all add: buffer_char_items kb_get_items)

subsection \<open>Decoding\<close>

text \<open>Appending characters as far as there is room.\<close>

definition emits :: "kbd \<Rightarrow> kbd \<Rightarrow> bytes \<Rightarrow> bool" where
  "emits k k' out \<longleftrightarrow> kbd_wf k' \<and> kbd_items k' = take 255 (kbd_items k @ out)"

named_theorems kbd_simps \<open>what the keyboard operations append\<close>

lemma kbd_items_more [simp]:
  "kbd_items (k\<lparr>shift_pressed := b\<rparr>) = kbd_items k" "kbd_items (k\<lparr>ctrl_pressed := b\<rparr>) = kbd_items k"
  "kbd_items (k\<lparr>e0_prefix := b\<rparr>) = kbd_items k" "kbd_items (k\<lparr>esc_state := e\<rparr>) = kbd_items k"
  "kbd_items (k\<lparr>esc_param := c\<rparr>) = kbd_items k"
  "kbd_wf (k\<lparr>shift_pressed := b\<rparr>) = kbd_wf k" "kbd_wf (k\<lparr>ctrl_pressed := b\<rparr>) = kbd_wf k"
  "kbd_wf (k\<lparr>e0_prefix := b\<rparr>) = kbd_wf k" "kbd_wf (k\<lparr>esc_state := e\<rparr>) = kbd_wf k"
  "kbd_wf (k\<lparr>esc_param := c\<rparr>) = kbd_wf k"
  by (simp_all add: kbd_items_def kbd_count_def kbd_wf_def)

lemma emits_refl: "kbd_wf k \<Longrightarrow> emits k k []"
proof -
  assume "kbd_wf k"
  moreover have "length (kbd_items k) \<le> 255" unfolding length_kbd_items using kbd_count_less [of k] by linarith
  ultimately show ?thesis by (simp add: emits_def)
qed

lemma emits_more [kbd_simps]:
  "emits k (k'\<lparr>shift_pressed := b\<rparr>) out = emits k k' out" "emits k (k'\<lparr>ctrl_pressed := b\<rparr>) out = emits k k' out"
  "emits k (k'\<lparr>e0_prefix := b\<rparr>) out = emits k k' out" "emits k (k'\<lparr>esc_state := e\<rparr>) out = emits k k' out"
  "emits k (k'\<lparr>esc_param := c\<rparr>) out = emits k k' out"
  by (simp_all add: emits_def)

lemma emits_buffer: "emits k k' out \<Longrightarrow> emits k (buffer_char k' c) (out @ [c])"
  by (simp add: emits_def buffer_char_items min_def flip: append_assoc)

text \<open>What the state machine emits for a character.\<close>

definition esc_out :: "kbd \<Rightarrow> u8 \<Rightarrow> u8 \<Rightarrow> bytes" where
  "esc_out k scancode c = (let cs = (if c \<noteq> 0 then [c] else []) in
     case esc_state k of
        ESC_NORMAL \<Rightarrow> if scancode = 0x01 then [] else cs
      | ESC_SEEN \<Rightarrow> if scancode = 0x1A then [] else 0x1B # cs
      | ESC_CSI \<Rightarrow> if chr CHR ''A'' \<le> c \<and> c \<le> chr CHR ''D'' then [KEY_UP + (c - chr CHR ''A'')]
          else if c = chr CHR ''H'' then [KEY_HOME] else if c = chr CHR ''F'' then [KEY_END]
          else if chr CHR ''1'' \<le> c \<and> c \<le> chr CHR ''9'' then [] else [0x1B, chr CHR ''[''] @ cs
      | ESC_CSI_DIGIT \<Rightarrow> if c = chr CHR ''~'' \<and> esc_param k = chr CHR ''3'' then [KEY_DELETE]
          else if c = chr CHR ''~'' \<and> esc_param k = chr CHR ''1'' then [KEY_HOME]
          else if c = chr CHR ''~'' \<and> esc_param k = chr CHR ''4'' then [KEY_END]
          else [0x1B, chr CHR ''['', esc_param k] @ cs)"

lemma esc_step_emits:
  assumes "kbd_wf k"
  shows "emits k (esc_step k scancode c) (esc_out k scancode c)"
proof -
  note E = emits_refl [OF assms]
  note B1 = emits_buffer [OF E]
  note B2 = emits_buffer [OF B1]
  note B3 = emits_buffer [OF B2]
  show ?thesis
    using E B1 B2 B3 emits_buffer [OF B3]
    by (cases "esc_state k"; cases "c = 0") (simp_all add: esc_step_def esc_out_def buffer_nonzero_def Let_def kbd_simps)
qed

definition extended_out :: "u8 \<Rightarrow> bytes" where
  "extended_out scancode = (case map_of [(0x48, KEY_UP), (0x50, KEY_DOWN), (0x4B, KEY_LEFT), (0x4D, KEY_RIGHT), (0x47, KEY_HOME),
      (0x4F, KEY_END), (0x53, KEY_DELETE)] scancode of None \<Rightarrow> [] | Some c \<Rightarrow> [c])"

definition ctrl_c :: "kbd \<Rightarrow> u8 \<Rightarrow> bool" where
  "ctrl_c k scancode \<longleftrightarrow> ctrl_pressed k \<and> (key_char k scancode = chr CHR ''c'' \<or> key_char k scancode = chr CHR ''C'')"

text \<open>The characters one scancode stands for, given the state of the decoder.\<close>

definition decoded :: "kbd \<Rightarrow> u8 \<Rightarrow> bytes" where
  "decoded k scancode =
     (if scancode AND 0x80 \<noteq> 0 then [] else if e0_prefix k then extended_out scancode
      else if scancode \<in> {0x2A, 0x36, 0x1D} \<or> ctrl_c k scancode then []
      else esc_out k scancode (key_char k scancode))"

lemma extended_emits: "kbd_wf k \<Longrightarrow> emits k (extended_key k scancode) (extended_out scancode)"
  using emits_buffer [OF emits_refl] emits_refl by (simp add: extended_key_def extended_out_def)

lemma sigint_loop_ring:
  assumes "ring s" "c < task_count s" "d < task_count s"
  shows "\<exists>t. sigint_loop s c ((c + d) mod task_count s) = Some t \<and> ring t \<and> length (task_pool t) = length (task_pool s) \<and>
    task_count t = task_count s \<and> current_task t = current_task s \<and>
    (\<forall>j. task_pool t ! j = (if j \<in> (\<lambda>d. (c + d) mod task_count s) ` {d..<task_count s} then sigint_task (task_pool s ! j) else task_pool s ! j))"
  using assms
proof (induction "task_count s - d" arbitrary: s d)
  case (Suc n)
  let ?n = "task_count s" let ?i = "(c + d) mod ?n"
  have i: "?i < ?n" using Suc.prems(2) by simp
  have len: "?i < length (task_pool s)" using less_le_trans [OF i] Suc.prems(1) by (simp add: ring_def)
  have nx: "next_task (task_pool s ! ?i) = Some ((c + Suc d) mod ?n)" using ring_next [OF Suc.prems(1) i] by (simp add: mod_Suc_eq)
  define s1 where "s1 = upd_task s ?i sigint_task"
  have keep: "next_task (sigint_task t) = next_task t" for t by (simp add: sigint_task_def)
  have s1: "ring s1" "task_count s1 = ?n" "current_task s1 = current_task s" "length (task_pool s1) = length (task_pool s)"
    "\<And>j. task_pool s1 ! j = (if j = ?i then sigint_task (task_pool s ! j) else task_pool s ! j)"
    using Suc.prems(1) len by (auto simp: s1_def ring_def upd_task_nth keep)
  show ?case
  proof (cases "Suc d = ?n")
    case True
    then have "{d..<?n} = {d}" "(c + Suc d) mod ?n = c" using Suc.prems by auto
    then show ?thesis using s1 nx by (intro exI [of _ s1]) (simp add: sigint_loop.simps [of s c ?i] s1_def)
  next
    case False
    then have d: "Suc d < ?n" using Suc.prems by simp
    then have ne: "(c + Suc d) mod ?n \<noteq> c" using ring_other [OF Suc.prems(2), of "Suc d"] by simp
    obtain t where t: "sigint_loop s1 c ((c + Suc d) mod ?n) = Some t" "ring t" "length (task_pool t) = length (task_pool s)"
      "task_count t = ?n" "current_task t = current_task s"
      "\<And>j. task_pool t ! j = (if j \<in> (\<lambda>d. (c + d) mod ?n) ` {Suc d..<?n} then sigint_task (task_pool s1 ! j) else task_pool s1 ! j)"
    proof -
      have "n = task_count s1 - Suc d" using Suc.hyps(2) s1(2) by simp
      from Suc.hyps(1) [OF this s1(1)] show thesis using that s1(2-4) Suc.prems(2) d by auto
    qed
    have fresh: "?i \<notin> (\<lambda>d. (c + d) mod ?n) ` {Suc d..<?n}"
    proof
      assume "?i \<in> (\<lambda>d. (c + d) mod ?n) ` {Suc d..<?n}"
      then obtain e where "Suc d \<le> e" "e < ?n" "(c + d) mod ?n = (c + e) mod ?n" by auto
      then show False using mod_add_less [of d e ?n c] by simp
    qed
    have ins: "(\<lambda>d. (c + d) mod ?n) ` {d..<?n} = insert ?i ((\<lambda>d. (c + d) mod ?n) ` {Suc d..<?n})"
    proof -
      have "{d..<?n} = insert d {Suc d..<?n}" using d by auto
      then show ?thesis by simp
    qed
    have "sigint_loop s c ?i = Some t" using t(1) nx ne by (simp add: sigint_loop.simps [of s c ?i] s1_def)
    then show ?thesis using t fresh s1(5) unfolding ins by (intro exI [of _ t]) auto
  qed
qed simp

lemma ring_covered: "c < n \<Longrightarrow> (\<lambda>d. (c + d) mod n) ` {0..<n} = {0..<(n :: nat)}"
proof (rule set_eqI, rule iffI)
  fix j assume c: "c < n" and "j \<in> {0..<n}"
  then have "j = (c + ((j + n - c) mod n)) mod n" "(j + n - c) mod n \<in> {0..<n}" by (simp_all add: mod_add_right_eq)
  then show "j \<in> (\<lambda>d. (c + d) mod n) ` {0..<n}" by blast
qed auto

lemma keyboard_handler_cases:
  "keyboard_handler k s scancode =
    (if \<not> e0_prefix k \<and> ctrl_c k scancode \<and> scancode AND 0x80 = 0 \<and> scancode \<notin> {0x2A, 0x36, 0x1D}
     then map_option (Pair (k\<lparr>esc_state := ESC_NORMAL\<rparr>)) (case current_task s of None \<Rightarrow> Some s | Some t \<Rightarrow> sigint_loop s t t)
     else Some (fst (the (keyboard_handler k s scancode)), s))"
proof -
  have "(0xE0 :: u8) AND 0x80 \<noteq> 0" "(0xAA :: u8) AND 0x80 \<noteq> 0" "(0xB6 :: u8) AND 0x80 \<noteq> 0" "(0x9D :: u8) AND 0x80 \<noteq> 0" by simp_all
  then show ?thesis
    by (auto simp: keyboard_handler_def ctrl_c_def get_current_task_def Let_def)
qed

lemma keyboard_handler_emits:
  assumes "kbd_wf k" "\<not> (\<not> e0_prefix k \<and> ctrl_c k scancode \<and> scancode AND 0x80 = 0 \<and> scancode \<notin> {0x2A, 0x36, 0x1D})"
  shows "\<exists>k'. keyboard_handler k s scancode = Some (k', s) \<and> emits k k' (decoded k scancode)"
proof -
  have codes: "(0xE0 :: u8) AND 0x80 \<noteq> 0" "(0xAA :: u8) AND 0x80 \<noteq> 0" "(0xB6 :: u8) AND 0x80 \<noteq> 0" "(0x9D :: u8) AND 0x80 \<noteq> 0"
    "(0x2A :: u8) AND 0x80 = 0" "(0x36 :: u8) AND 0x80 = 0" "(0x1D :: u8) AND 0x80 = 0" by simp_all
  then have "emits k (fst (the (keyboard_handler k s scancode))) (decoded k scancode)"
    using assms emits_refl [OF assms(1)] extended_emits [of "k\<lparr>e0_prefix := False\<rparr>" scancode] esc_step_emits [OF assms(1), of scancode]
    by (auto simp: keyboard_handler_def decoded_def ctrl_c_def kbd_simps Let_def emits_def)
  then show ?thesis using keyboard_handler_cases [of k s scancode] assms(2) by auto
qed


subsection \<open>Typing and reading\<close>

text \<open>Every key of the list is pressed and released.\<close>

primrec type_keys :: "kbd \<Rightarrow> sys \<Rightarrow> u8 list \<Rightarrow> (kbd \<times> sys) option" where
  "type_keys k s [] = Some (k, s)"
| "type_keys k s (sc # scs) = Option.bind (keyboard_handler k s sc) (\<lambda>(k, s).
     Option.bind (keyboard_handler k s (sc OR 0x80)) (\<lambda>(k, s). type_keys k s scs))"

primrec reads :: "nat \<Rightarrow> kbd \<Rightarrow> int option list" where
  "reads 0 k = []"
| "reads (Suc n) k = (let (k', c) = keyboard_read k None in c # reads n k')"

definition plain_key :: "u8 \<Rightarrow> bool" where
  "plain_key sc \<longleftrightarrow> unat sc < 58 \<and> keymap ! unat sc \<noteq> 0"

definition kbd_idle :: "kbd \<Rightarrow> bool" where
  "kbd_idle k \<longleftrightarrow> \<not> shift_pressed k \<and> \<not> ctrl_pressed k \<and> \<not> e0_prefix k \<and> esc_state k = ESC_NORMAL"

lemma length_keymap: "length keymap = 58" "length keymap_shift = 58"
  by (simp_all add: keymap_def keymap_shift_def str_def)

lemma plain_key_codes:
  assumes "plain_key sc"
  shows "sc AND 0x80 = 0" "sc OR 0x80 \<noteq> 0xE0" "(sc OR 0x80) AND 0x80 \<noteq> 0" "sc \<notin> {0xE0, 0x2A, 0x36, 0xAA, 0xB6, 0x1D, 0x9D, 0x01}"
    "sc OR 0x80 \<notin> {0x2A, 0x36, 0xAA, 0xB6, 0x1D, 0x9D}"
proof -
  let ?P = "\<lambda>n. keymap ! n = 0 \<or> (let sc = of_nat n :: u8 in sc AND 0x80 = 0 \<and> sc OR 0x80 \<noteq> 0xE0 \<and> (sc OR 0x80) AND 0x80 \<noteq> 0 \<and>
    sc \<notin> {0xE0, 0x2A, 0x36, 0xAA, 0xB6, 0x1D, 0x9D, 0x01} \<and> sc OR 0x80 \<notin> {0x2A, 0x36, 0xAA, 0xB6, 0x1D, 0x9D})"
  have "list_all ?P [0..<58]" by code_simp
  then have "?P (unat sc)" using assms by (auto simp: list_all_iff plain_key_def)
  then show "sc AND 0x80 = 0" "sc OR 0x80 \<noteq> 0xE0" "(sc OR 0x80) AND 0x80 \<noteq> 0" "sc \<notin> {0xE0, 0x2A, 0x36, 0xAA, 0xB6, 0x1D, 0x9D, 0x01}"
    "sc OR 0x80 \<notin> {0x2A, 0x36, 0xAA, 0xB6, 0x1D, 0x9D}"
    using assms by (simp_all add: plain_key_def Let_def)
qed

lemma type_key:
  assumes "kbd_idle k" "plain_key sc"
  shows "keyboard_handler k s sc = Some (buffer_char k (keymap ! unat sc), s)"
    and "keyboard_handler k s (sc OR 0x80) = Some (k, s)"
  using assms plain_key_codes [OF assms(2)]
  by (auto simp: keyboard_handler_def kbd_idle_def plain_key_def key_char_def length_keymap esc_step_def buffer_nonzero_def Let_def)

lemma buffer_char_idle: "kbd_idle (buffer_char k c) = kbd_idle k"
  by (simp add: buffer_char_def kbd_idle_def Let_def)

lemma type_keys_foldl:
  assumes "kbd_idle k" "list_all plain_key scs"
  shows "type_keys k s scs = Some (foldl buffer_char k (map (\<lambda>sc. keymap ! unat sc) scs), s)"
  using assms by (induction scs arbitrary: k) (simp_all add: type_key buffer_char_idle)

lemma reads_gets:
  assumes "kbd_wf k" "n \<le> length (kbd_items k)"
  shows "reads n k = map (\<lambda>c. Some (uint c)) (snd (gets kb_get n k))"
  using assms
proof (induction n arbitrary: k)
  case (Suc n)
  then have ne: "kbd_items k \<noteq> []" by (auto simp del: length_kbd_items)
  then have "kb_head k \<noteq> kb_tail k" using kbd_Nil [OF Suc.prems(1)] by simp
  then have "keyboard_read k None = (fst (kb_get k), Some (uint (snd (kb_get k))))" by (simp add: keyboard_read_def case_prod_beta)
  then show ?case
    using Suc.IH [of "fst (kb_get k)"] kb_get_items [OF Suc.prems(1) ne] Suc.prems(2)
    by (simp add: case_prod_beta del: length_kbd_items)
qed simp

text \<open>Text typed at an idle keyboard is read back: if up to 255 plain keys are pressed and released one
  after the other, that many reads return their characters in order, and the keyboard has no
  data after that.\<close>

theorem keyboard_typing:
  assumes "kbd_wf k" "kbd_idle k" "\<not> keyboard_data k" "list_all plain_key scs" "length scs \<le> 255"
  shows "\<exists>k'. type_keys k s scs = Some (k', s) \<and> reads (length scs) k' = map (\<lambda>sc. Some (uint (keymap ! unat sc))) scs \<and>
    \<not> keyboard_data (fst (gets kb_get (length scs) k'))"
proof -
  let ?cs = "map (\<lambda>sc. keymap ! unat sc) scs"
  let ?k = "foldl buffer_char k ?cs"
  have e: "kbd_items k = []" using assms(1,3) by (simp add: keyboard_data_def kbd_Nil)
  have k: "kbd_wf ?k" "kbd_items ?k = ?cs" using kbd.puts_items [OF assms(1), of ?cs] e assms(5) by simp_all
  obtain r where r: "gets kb_get (length scs) ?k = (r, ?cs)" "kbd_wf r" "kbd_items r = []"
    using kbd.gets_items [OF k(1), of "length scs"] k(2) by (auto simp del: length_kbd_items)
  have "reads (length scs) ?k = map (\<lambda>sc. Some (uint (keymap ! unat sc))) scs"
    using reads_gets [OF k(1), of "length scs"] k(2) r(1) by (simp add: o_def del: length_kbd_items)
  then show ?thesis using type_keys_foldl [OF assms(2,4)] r kbd_Nil [OF r(2)] by (auto simp: keyboard_data_def)
qed

text \<open>The escape sequences for the right and left arrow are exchanged: after escape and bracket, \<^verbatim>\<open>C\<close> (the
  right arrow of a terminal) is buffered as the key code for left, and \<^verbatim>\<open>D\<close> as that for right.\<close>

theorem keyboard_csi_arrows:
  assumes "kbd_wf k" "kbd_items k = []" "esc_state k = ESC_CSI" "shift_pressed k" "\<not> ctrl_pressed k" "\<not> e0_prefix k"
  shows "(\<exists>k'. keyboard_handler k s 0x2E = Some (k', s) \<and> kbd_items k' = [KEY_LEFT]) \<and>
    (\<exists>k'. keyboard_handler k s 0x20 = Some (k', s) \<and> kbd_items k' = [KEY_RIGHT])"
proof -
  have c: "key_char k 0x2E = chr CHR ''C''" "key_char k 0x20 = chr CHR ''D''"
    using assms(4) by (simp_all add: key_char_def length_keymap) code_simp+
  have "decoded k 0x2E = [KEY_LEFT]" "decoded k 0x20 = [KEY_RIGHT]"
    unfolding decoded_def c using assms(3-6) by (simp_all add: ctrl_c_def esc_out_def KEY_LEFT_def KEY_RIGHT_def KEY_UP_def)
  moreover have "\<not> ctrl_c k sc" for sc using assms(5) by (simp add: ctrl_c_def)
  ultimately show ?thesis
    using keyboard_handler_emits [OF assms(1), of "0x2E" s] keyboard_handler_emits [OF assms(1), of "0x20" s] assms(2) by (auto simp: emits_def)
qed

definition fresh_kbd :: kbd where
  "fresh_kbd = keyboard_init \<lparr>kb_buf = replicate 256 0, kb_head = 0, kb_tail = 0, shift_pressed = False, ctrl_pressed = False,
     e0_prefix = False, esc_state = ESC_NORMAL, esc_param = 0\<rparr>"

lemma fresh_kbd_ok: "kbd_wf fresh_kbd" "kbd_idle fresh_kbd" "\<not> keyboard_data fresh_kbd" "kbd_items fresh_kbd = []"
  by (simp_all add: fresh_kbd_def keyboard_init_def kbd_wf_def kbd_idle_def keyboard_data_def kbd_items_def kbd_count_def)

theorem keyboard_typing_witness:
  "\<exists>k'. type_keys fresh_kbd family [0x26, 0x1F] = Some (k', family) \<and> reads 2 k' = [Some 108, Some 115]"
proof -
  have p: "list_all plain_key [0x26, 0x1F]" "map (\<lambda>sc. Some (uint (keymap ! unat sc))) [0x26, 0x1F :: u8] = [Some 108, Some 115]"
    "length [0x26, 0x1F :: u8] = 2" by code_simp+
  from keyboard_typing [OF fresh_kbd_ok(1-3) p(1), of family, unfolded p(2,3)] show ?thesis by auto
qed

theorem keyboard_csi_arrows_witness:
  "\<exists>k'. keyboard_handler (fresh_kbd\<lparr>esc_state := ESC_CSI, shift_pressed := True\<rparr>) family 0x2E = Some (k', family) \<and> kbd_items k' = [KEY_LEFT]"
  using keyboard_csi_arrows [of "fresh_kbd\<lparr>esc_state := ESC_CSI, shift_pressed := True\<rparr>" family] fresh_kbd_ok by (simp add: kbd_idle_def)


end
