(* ===== verification/Console.thy ===== *)
theory Console
  imports Ata
begin

text \<open>
  The devices the kernel talks to people with: the text screen of \<^verbatim>\<open>kernel/vga.c\<close>, the serial line of
  \<^verbatim>\<open>kernel/serial.c\<close> and the clock of \<^verbatim>\<open>kernel/cmos.c\<close>. Video memory is a list of 80 times 25 cells;
  the port instructions are an argument, as for the disk driver. What the serial line relies on
  of the UART is the locale \<open>uart\<close>.
\<close>

subsection \<open>The screen\<close>

definition VGA_WIDTH :: u64 where "VGA_WIDTH = 80"
definition VGA_HEIGHT :: u64 where "VGA_HEIGHT = 25"
definition VGA_BLACK :: u8 where "VGA_BLACK = 0"
definition VGA_LIGHT_GREY :: u8 where "VGA_LIGHT_GREY = 7"

record vga =
  vrow :: u64
  vcol :: u64
  vcolor :: u8
  vmem :: "u16 list"

definition vga_entry :: "u8 \<Rightarrow> u8 \<Rightarrow> u16" where
  "vga_entry c color = ucast c OR push_bit 8 (ucast color)"

definition vga_cursor_update :: "'d port_io \<Rightarrow> vga \<Rightarrow> 'd \<Rightarrow> 'd" where
  "vga_cursor_update io v d =
     (let pos = ucast (vrow v * VGA_WIDTH + vcol v) :: u16;
          d = outb io 0x3D4 0x0E d;
          d = outb io 0x3D5 (ucast (drop_bit 8 pos)) d;
          d = outb io 0x3D4 0x0F d
      in outb io 0x3D5 (ucast (pos AND 0xFF)) d)"

definition cursor_shape :: "'d port_io \<Rightarrow> 'd \<Rightarrow> 'd" where
  "cursor_shape io d = outb io 0x3D5 0x0F (outb io 0x3D4 0x0B (outb io 0x3D5 0x0E (outb io 0x3D4 0x0A d)))"

definition vga_clear :: "'d port_io \<Rightarrow> u8 \<Rightarrow> vga \<times> 'd \<Rightarrow> vga \<times> 'd" where
  "vga_clear io bg = (\<lambda>(v, d).
     let m = fold (\<lambda>y m. fold (\<lambda>x m. m[y * 80 + x := vga_entry 0x20 bg]) [0..<80] m) [0..<25] (vmem v);
         v = v\<lparr>vmem := m, vrow := 0, vcol := 0\<rparr>
     in (v, vga_cursor_update io v (cursor_shape io d)))"

definition vga_init :: "'d port_io \<Rightarrow> vga \<times> 'd \<Rightarrow> vga \<times> 'd" where
  "vga_init io = (\<lambda>(v, d). vga_clear io VGA_BLACK (v\<lparr>vrow := 0, vcol := 0, vcolor := VGA_LIGHT_GREY\<rparr>, cursor_shape io d))"

definition vga_setcolor :: "u8 \<Rightarrow> vga \<Rightarrow> vga" where
  "vga_setcolor c v = v\<lparr>vcolor := c\<rparr>"

definition vga_scroll :: "vga \<Rightarrow> vga" where
  "vga_scroll v =
     (let m = fold (\<lambda>y m. fold (\<lambda>x m. m[y * 80 + x := m ! ((y + 1) * 80 + x)]) [0..<80] m) [0..<24] (vmem v);
          m = fold (\<lambda>x m. m[24 * 80 + x := vga_entry 0x20 VGA_BLACK]) [0..<80] m
      in v\<lparr>vmem := m\<rparr>)"

text \<open>\<^verbatim>\<open>char\<close> is signed: only characters from the blank up to 127 are drawn.\<close>

definition vga_move :: "vga \<Rightarrow> u8 \<Rightarrow> vga" where
  "vga_move v c =
     (if c = 10 then v\<lparr>vrow := vrow v + 1, vcol := 0\<rparr>
      else if c = 13 then v\<lparr>vcol := 0\<rparr>
      else if c = 9 then v\<lparr>vcol := (vcol v + 8) AND NOT 7\<rparr>
      else if c = 8 then if vcol v > 0 then v\<lparr>vcol := vcol v - 1\<rparr> else v
      else if sint c \<ge> 0x20 then
        v\<lparr>vmem := (vmem v)[unat (vrow v * VGA_WIDTH + vcol v) := vga_entry c (vcolor v)], vcol := vcol v + 1\<rparr>
      else v)"

definition vga_putchar :: "'d port_io \<Rightarrow> u8 \<Rightarrow> vga \<times> 'd \<Rightarrow> vga \<times> 'd" where
  "vga_putchar io c = (\<lambda>(v, d).
     let v = vga_move v c;
         v = (if vcol v \<ge> VGA_WIDTH then v\<lparr>vcol := 0, vrow := vrow v + 1\<rparr> else v);
         v = (if vrow v \<ge> VGA_HEIGHT then (vga_scroll v)\<lparr>vrow := VGA_HEIGHT - 1\<rparr> else v)
     in (v, vga_cursor_update io v d))"

definition vga_write :: "'d port_io \<Rightarrow> bytes \<Rightarrow> vga \<times> 'd \<Rightarrow> vga \<times> 'd" where
  "vga_write io buf = fold (vga_putchar io) buf"

definition vga_writestring :: "'d port_io \<Rightarrow> bytes \<Rightarrow> vga \<times> 'd \<Rightarrow> vga \<times> 'd" where
  "vga_writestring io s = fold (vga_putchar io) (cstr s)"

definition vga_setpos :: "'d port_io \<Rightarrow> u64 \<Rightarrow> u64 \<Rightarrow> vga \<times> 'd \<Rightarrow> vga \<times> 'd" where
  "vga_setpos io r c = (\<lambda>(v, d).
     if r < VGA_HEIGHT \<and> c < VGA_WIDTH then (let v = v\<lparr>vrow := r, vcol := c\<rparr> in (v, vga_cursor_update io v d)) else (v, d))"

definition vga_getpos :: "vga \<Rightarrow> u64 \<times> u64" where
  "vga_getpos v = (vrow v, vcol v)"

definition vga_ok :: "vga \<Rightarrow> bool" where
  "vga_ok v \<longleftrightarrow> unat (vrow v) < 25 \<and> unat (vcol v) < 80 \<and> length (vmem v) = 2000"

definition cell :: "vga \<Rightarrow> nat \<Rightarrow> nat \<Rightarrow> u16" where
  "cell v r c = vmem v ! (r * 80 + c)"

lemma cell_eq_iff: "c < 80 \<Longrightarrow> c' < 80 \<Longrightarrow> r * 80 + c = r' * 80 + c' \<longleftrightarrow> r = r' \<and> c = (c' :: nat)"
  by (cases r r' rule: linorder_cases) auto

text \<open>The nested loops run over the cells in the order of their addresses.\<close>

lemma fold_cells:
  "fold (\<lambda>y. fold (\<lambda>x. h (y * 80 + x)) [0..<80]) [0..<n] m = fold h [0..<n * 80] m"
proof (induction n)
  case (Suc n)
  have "[0..<Suc n * 80] = [0..<n * 80] @ map (\<lambda>x. n * 80 + x) [0..<80]"
    using upt_add_eq_append [of 0 "n * 80" 80] map_add_upt [of "n * 80" 80] by (simp add: add.commute)
  then show ?case using Suc by (simp add: fold_map o_def)
qed simp

lemma fold_fill:
  assumes "a + n \<le> length m"
  shows "length (fold (\<lambda>x m. m[a + x := e]) [0..<n] m) = length m"
    "fold (\<lambda>x m. m[a + x := e]) [0..<n] m ! j = (if a \<le> j \<and> j < a + n then e else m ! j)"
  using assms by (induction n) (auto simp: nth_upd less_Suc_eq)

lemma fold_shift:
  assumes "n + 80 \<le> length m"
  shows "length (fold (\<lambda>i m. m[i := m ! (i + 80)]) [0..<n] m) = length m \<and>
    (\<forall>j. fold (\<lambda>i m. m[i := m ! (i + 80)]) [0..<n] m ! j = (if j < n then m ! (j + 80) else m ! j))"
  using assms
proof (induction n)
  case (Suc n)
  then have IH: "length (fold (\<lambda>i m. m[i := m ! (i + 80)]) [0..<n] m) = length m"
    "\<And>j. fold (\<lambda>i m. m[i := m ! (i + 80)]) [0..<n] m ! j = (if j < n then m ! (j + 80) else m ! j)" by auto
  show ?case using IH Suc.prems by (auto simp: nth_upd)
qed simp

lemma vga_scroll_cells:
  assumes "length (vmem v) = 2000"
  shows "length (vmem (vga_scroll v)) = 2000" "vrow (vga_scroll v) = vrow v" "vcol (vga_scroll v) = vcol v" "vcolor (vga_scroll v) = vcolor v"
    "r < 25 \<Longrightarrow> c < 80 \<Longrightarrow> cell (vga_scroll v) r c = (if r < 24 then cell v (r + 1) c else vga_entry 0x20 VGA_BLACK)"
proof -
  define m1 where "m1 = fold (\<lambda>i m. m[i := m ! (i + 80)]) [0..<24 * 80] (vmem v)"
  have eq: "vga_scroll v = v\<lparr>vmem := fold (\<lambda>x m. m[24 * 80 + x := vga_entry 0x20 VGA_BLACK]) [0..<80] m1\<rparr>"
    unfolding m1_def fold_cells [symmetric] by (simp add: vga_scroll_def Let_def add.commute add.left_commute)
  have m1: "length m1 = 2000" "m1 ! j = (if j < 1920 then vmem v ! (j + 80) else vmem v ! j)" for j
    using fold_shift [of "24 * 80" "vmem v"] assms by (auto simp: m1_def)
  note F = fold_fill [of "24 * 80" 80 m1 "vga_entry 0x20 VGA_BLACK", unfolded m1]
  show "length (vmem (vga_scroll v)) = 2000" "vrow (vga_scroll v) = vrow v" "vcol (vga_scroll v) = vcol v" "vcolor (vga_scroll v) = vcolor v"
    using F(1) by (simp_all add: eq)
  show "r < 25 \<Longrightarrow> c < 80 \<Longrightarrow> cell (vga_scroll v) r c = (if r < 24 then cell v (r + 1) c else vga_entry 0x20 VGA_BLACK)"
    using F(2) [of "r * 80 + c"] m1(2) [of "r * 80 + c"] by (auto simp: cell_def eq algebra_simps)
qed

text \<open>Where a character moves the cursor, before the screen scrolls.\<close>

definition moved :: "u8 \<Rightarrow> nat \<Rightarrow> nat \<Rightarrow> nat \<times> nat" where
  "moved ch r c =
     (let (r, c) = (if ch = 10 then (r + 1, 0) else if ch = 13 then (r, 0) else if ch = 9 then (r, (c + 8) div 8 * 8)
        else if ch = 8 then (r, c - 1) else if 0x20 \<le> ch \<and> ch < 0x80 then (r, c + 1) else (r, c))
      in if c \<ge> 80 then (r + 1, 0) else (r, c))"

definition drawn :: "u8 \<Rightarrow> bool" where
  "drawn ch \<longleftrightarrow> 0x20 \<le> ch \<and> ch < 0x80"

lemma drawn_sint: "sint c \<ge> 0x20 \<longleftrightarrow> drawn c"
proof -
  have "list_all (\<lambda>n. sint (of_nat n :: u8) \<ge> 0x20 \<longleftrightarrow> drawn (of_nat n)) [0..<256]" by code_simp
  then have "sint (of_nat (unat c) :: u8) \<ge> 0x20 \<longleftrightarrow> drawn (of_nat (unat c))"
    using unsigned_less [of c, where 'a = nat] unfolding list_all_iff by (auto simp del: of_nat_unat)
  then show ?thesis by simp
qed

lemma tab_stop: "unat ((c + 8) AND NOT 7 :: u64) = (unat c + 8) div 8 * 8" if "unat c < 80" for c :: u64
proof -
  have "(c + 8) AND NOT 7 = push_bit 3 (drop_bit 3 (c + 8))"
  proof -
    have m: "(7 :: u64) = mask 3" by (simp add: mask_eq_exp_minus_1)
    show ?thesis unfolding m by (rule bit_word_eqI) (auto simp: bit_simps)
  qed
  moreover have "unat (c + 8) = unat c + 8" using that by (simp add: unat_word_ariths)
  moreover have "(unat c + 8) div 8 * 8 < 2 ^ 64" using that by (intro le_less_trans [OF div_times_less_eq_dividend]) simp
  ultimately show ?thesis by (simp add: push_bit_eq_mult drop_bit_eq_div unat_word_ariths unat_div_distrib)
qed

lemma cell_index: "unat (r * VGA_WIDTH + c) = unat r * 80 + unat c" if "unat r < 25" "unat c < 80" for r c :: u64
  using that by (simp add: VGA_WIDTH_def unat_word_ariths)

lemma vga_move_cells:
  fixes ch :: u8
  assumes "vga_ok v"
  defines "w \<equiv> vga_move v ch"
  shows "length (vmem w) = 2000" "vcolor w = vcolor v"
    "(unat (vrow w), unat (vcol w)) = (if ch = 10 then (unat (vrow v) + 1, 0) else if ch = 13 then (unat (vrow v), 0)
       else if ch = 9 then (unat (vrow v), (unat (vcol v) + 8) div 8 * 8) else if ch = 8 then (unat (vrow v), unat (vcol v) - 1)
       else if drawn ch then (unat (vrow v), unat (vcol v) + 1) else (unat (vrow v), unat (vcol v)))"
    "r < 25 \<Longrightarrow> c < 80 \<Longrightarrow> cell w r c = (if drawn ch \<and> r = unat (vrow v) \<and> c = unat (vcol v) then vga_entry ch (vcolor v) else cell v r c)"
proof -
  have ok: "unat (vrow v) < 25" "unat (vcol v) < 80" "length (vmem v) = 2000" using assms(1) by (simp_all add: vga_ok_def)
  have nd: "\<not> drawn 10" "\<not> drawn 13" "\<not> drawn 9" "\<not> drawn 8" by (simp_all add: drawn_def)
  show "length (vmem w) = 2000" "vcolor w = vcolor v" using ok by (simp_all add: w_def vga_move_def)
  have inc: "unat (vrow v + 1) = unat (vrow v) + 1" "unat (vcol v + 1) = unat (vcol v) + 1"
    "vcol v > 0 \<Longrightarrow> unat (vcol v - 1) = unat (vcol v) - 1"
    using ok by (simp_all add: unat_word_ariths unat_sub_nowrap word_le_nat_alt word_less_nat_alt)
  show "(unat (vrow w), unat (vcol w)) = (if ch = 10 then (unat (vrow v) + 1, 0) else if ch = 13 then (unat (vrow v), 0)
       else if ch = 9 then (unat (vrow v), (unat (vcol v) + 8) div 8 * 8) else if ch = 8 then (unat (vrow v), unat (vcol v) - 1)
       else if drawn ch then (unat (vrow v), unat (vcol v) + 1) else (unat (vrow v), unat (vcol v)))"
    using inc tab_stop [OF ok(2)] by (simp add: w_def vga_move_def drawn_sint word_less_nat_alt)
  show "r < 25 \<Longrightarrow> c < 80 \<Longrightarrow> cell w r c = (if drawn ch \<and> r = unat (vrow v) \<and> c = unat (vcol v) then vga_entry ch (vcolor v) else cell v r c)"
    using ok nd cell_eq_iff [of c "unat (vcol v)" r "unat (vrow v)"]
    by (auto simp: w_def vga_move_def drawn_sint cell_def cell_index nth_upd)
qed

lemma vga_putchar_effect:
  fixes io :: "'d port_io" and ch :: u8 and d :: 'd
  assumes "vga_ok v"
  defines "w \<equiv> fst (vga_putchar io ch (v, d))"
  shows "vga_ok w \<and> vcolor w = vcolor v \<and>
    (let (r1, c1) = moved ch (unat (vrow v)) (unat (vcol v)); up = (if r1 < 25 then 0 else 1) in
      unat (vrow w) = r1 - up \<and> unat (vcol w) = c1 \<and>
      (\<forall>r < 25. \<forall>c < 80. cell w r c =
         (if r + up = 25 then vga_entry 0x20 VGA_BLACK
          else if drawn ch \<and> r + up = unat (vrow v) \<and> c = unat (vcol v) then vga_entry ch (vcolor v)
          else cell v (r + up) c)))"
proof -
  define v1 where "v1 = vga_move v ch"
  note M = vga_move_cells [OF assms(1), where ch = ch, folded v1_def]
  define v2 where "v2 = (if vcol v1 \<ge> VGA_WIDTH then v1\<lparr>vcol := 0, vrow := vrow v1 + 1\<rparr> else v1)"
  obtain r1 c1 where m: "moved ch (unat (vrow v)) (unat (vcol v)) = (r1, c1)" by force
  have ok: "unat (vrow v) < 25" "unat (vcol v) < 80" using assms(1) by (simp_all add: vga_ok_def)
  have wrap: "vcol v1 \<ge> VGA_WIDTH \<longleftrightarrow> 80 \<le> unat (vcol v1)" "unat (vrow v1) < 26"
    using M(3) ok by (auto simp: VGA_WIDTH_def word_le_nat_alt split: if_splits)
  then have "unat (vrow v1 + 1) = unat (vrow v1) + 1" by (simp add: unat_word_ariths)
  then have v2: "unat (vrow v2) = r1" "unat (vcol v2) = c1" "c1 < 80" "r1 < 26"
    using m M(3) wrap ok by (auto simp: v2_def moved_def drawn_def Let_def split: if_splits)
  have same: "vmem v2 = vmem v1" "vcolor v2 = vcolor v" "length (vmem v2) = 2000" "cell v2 = cell v1"
    using M by (simp_all add: v2_def cell_def fun_eq_iff)
  have w: "w = (if 25 \<le> r1 then (vga_scroll v2)\<lparr>vrow := VGA_HEIGHT - 1\<rparr> else v2)"
  proof -
    have "VGA_HEIGHT \<le> vrow v2 \<longleftrightarrow> 25 \<le> r1" using v2(1) by (simp add: VGA_HEIGHT_def word_le_nat_alt)
    moreover have "w = (if VGA_HEIGHT \<le> vrow v2 then (vga_scroll v2)\<lparr>vrow := VGA_HEIGHT - 1\<rparr> else v2)"
      by (simp add: w_def vga_putchar_def v2_def v1_def Let_def)
    ultimately show ?thesis by simp
  qed
  note S = vga_scroll_cells [OF same(3)]
  have more: "cell (x\<lparr>vrow := y\<rparr>) = cell x" for x :: vga and y by (simp add: cell_def fun_eq_iff)
  show ?thesis unfolding m using w v2 same S M(4)
    by (cases "25 \<le> r1") (auto simp: vga_ok_def VGA_HEIGHT_def more)
qed

lemma vga_putchar_ok: "vga_ok v \<Longrightarrow> vga_ok (fst (vga_putchar io ch (v, d)))"
  by (rule vga_putchar_effect [THEN conjunct1])

text \<open>C28: drawing a character keeps the cursor on the screen and every store inside video memory. The cursor
  moves as the character says; a character from the blank to 127 is drawn where the cursor was, in
  the current colour, and no other cell changes, except that a screen whose cursor leaves the last
  line moves up by one line and gets a blank last line.\<close>

theorem vga_putchar_correct:
  fixes io :: "'d port_io" and ch :: u8 and d :: 'd
  assumes "vga_ok v"
  defines "w \<equiv> fst (vga_putchar io ch (v, d))"
  shows "vga_ok w \<and> vcolor w = vcolor v \<and>
    (let (r1, c1) = moved ch (unat (vrow v)) (unat (vcol v)); up = (if r1 < 25 then 0 else 1) in
      unat (vrow w) = r1 - up \<and> unat (vcol w) = c1 \<and>
      (\<forall>r < 25. \<forall>c < 80. cell w r c =
         (if r + up = 25 then vga_entry 0x20 VGA_BLACK
          else if drawn ch \<and> r + up = unat (vrow v) \<and> c = unat (vcol v) then vga_entry ch (vcolor v)
          else cell v (r + up) c)))"
  using vga_putchar_effect [OF assms(1), of io ch d] unfolding w_def .

definition last_cell :: vga where
  "last_cell = \<lparr>vrow = 24, vcol = 79, vcolor = 7, vmem = replicate 2000 0\<rparr>"

subsection \<open>Writing text\<close>

lemma vga_write_ok: "vga_ok (fst x) \<Longrightarrow> vga_ok (fst (vga_write io buf x))"
  unfolding vga_write_def
proof (induction buf arbitrary: x)
  case (Cons c cs)
  obtain v d where "x = (v, d)" by force
  then show ?case using Cons vga_putchar_ok [of v io c d] by simp
qed simp

subsection \<open>The serial line\<close>

definition COM1 :: u16 where "COM1 = 0x3F8"

definition serial_tx_empty :: "'d port_io \<Rightarrow> 'd \<Rightarrow> 'd \<times> bool" where
  "serial_tx_empty io d = (let (d, st) = inb io (COM1 + 5) d in (d, st AND 0x20 \<noteq> 0))"

definition serial_data_ready :: "'d port_io \<Rightarrow> 'd \<Rightarrow> 'd \<times> bool" where
  "serial_data_ready io d = (let (d, st) = inb io (COM1 + 5) d in (d, st AND 0x01 \<noteq> 0))"

definition serial_init :: "'d port_io \<Rightarrow> 'd \<Rightarrow> 'd" where
  "serial_init io d = fold (\<lambda>(p, b). outb io p b)
     [(COM1 + 1, 0x00), (COM1 + 3, 0x80), (COM1 + 0, 0x01), (COM1 + 1, 0x00), (COM1 + 3, 0x03), (COM1 + 2, 0xC7),
      (COM1 + 4, 0x0B), (COM1 + 4, 0x01)] d"

text \<open>The polling loops; \<open>None\<close> when the device never becomes ready.\<close>

partial_function (option) poll :: "('d \<Rightarrow> 'd \<times> bool) \<Rightarrow> 'd \<Rightarrow> 'd option" where
  "poll f d = (if snd (f d) then Some (fst (f d)) else poll f (fst (f d)))"

definition serial_putchar :: "'d port_io \<Rightarrow> u8 \<Rightarrow> 'd \<Rightarrow> 'd option" where
  "serial_putchar io c d = map_option (outb io COM1 c) (poll (serial_tx_empty io) d)"

primrec serial_write :: "'d port_io \<Rightarrow> bytes \<Rightarrow> 'd \<Rightarrow> 'd option" where
  "serial_write io [] d = Some d"
| "serial_write io (c # cs) d =
     Option.bind (if c = 10 then serial_putchar io 13 d else Some d)
       (\<lambda>d. Option.bind (serial_putchar io c d) (serial_write io cs))"

definition serial_read :: "'d port_io \<Rightarrow> 'd \<Rightarrow> ('d \<times> u8) option" where
  "serial_read io d = map_option (inb io COM1) (poll (serial_data_ready io) d)"

definition serial_data_available :: "'d port_io \<Rightarrow> 'd \<Rightarrow> 'd \<times> bool" where
  "serial_data_available io = serial_data_ready io"

text \<open>
  What the driver relies on of the transmitter: \<open>sent\<close> is what has gone out on the line, and after
  at most \<open>busy\<close> reads of the status register the transmitter is empty and takes a byte.
\<close>

locale uart =
  fixes io :: "'d port_io" and sent :: "'d \<Rightarrow> bytes" and busy :: "'d \<Rightarrow> nat"
  assumes status_sent: "inb io (COM1 + 5) d = (d', st) \<Longrightarrow> sent d' = sent d"
    and status_ready: "inb io (COM1 + 5) d = (d', st) \<Longrightarrow> (st AND 0x20 \<noteq> 0 \<longleftrightarrow> busy d = 0) \<and> busy d' = busy d - 1"
    and transmit: "busy d = 0 \<Longrightarrow> sent (outb io COM1 c d) = sent d @ [c]"
begin

lemma poll_empty: "\<exists>d'. poll (serial_tx_empty io) d = Some d' \<and> sent d' = sent d \<and> busy d' = 0"
proof (induction "busy d" arbitrary: d)
  case 0
  obtain d' st where i: "inb io (COM1 + 5) d = (d', st)" by force
  then show ?case using 0 status_ready [OF i] status_sent [OF i] by (subst poll.simps) (simp add: serial_tx_empty_def)
next
  case (Suc n)
  obtain d' st where i: "inb io (COM1 + 5) d = (d', st)" by force
  have "busy d' = n" "st AND 0x20 = 0" using status_ready [OF i] Suc.hyps(2) by auto
  then show ?case using Suc.hyps(1) [of d'] status_sent [OF i] i by (subst poll.simps) (simp add: serial_tx_empty_def)
qed

lemma putchar_sent: "\<exists>d'. serial_putchar io c d = Some d' \<and> sent d' = sent d @ [c]"
  using poll_empty [of d] transmit by (auto simp: serial_putchar_def)

lemma write_sent: "\<exists>d'. serial_write io cs d = Some d' \<and> sent d' = sent d @ concat (map (\<lambda>c. if c = 10 then [13, 10] else [c]) cs)"
proof (induction cs arbitrary: d)
  case (Cons c cs)
  obtain d1 where d1: "(if c = 10 then serial_putchar io 13 d else Some d) = Some d1" "sent d1 = sent d @ (if c = 10 then [13] else [])"
    using putchar_sent [of 13 d] by (cases "c = 10") auto
  obtain d2 where d2: "serial_putchar io c d1 = Some d2" "sent d2 = sent d1 @ [c]" using putchar_sent by blast
  then show ?case using Cons.IH [of d2] d1 by auto
qed simp

end

text \<open>A line that is busy for three polls after every byte.\<close>

definition line_io :: "(nat \<times> bytes) port_io" where
  "line_io = \<lparr>inb = (\<lambda>p (n, s). if p = COM1 + 5 then ((n - 1, s), if n = 0 then 0x20 else 0) else ((n, s), 0)),
     inw = (\<lambda>p d. (d, 0)), outb = (\<lambda>p c (n, s). if p = COM1 \<and> n = 0 then (3, s @ [c]) else (n, s)), outw = (\<lambda>p w d. d)\<rparr>"

interpretation line: uart line_io snd fst
  by unfold_locales (auto simp: line_io_def split: if_splits)

theorem vga_putchar_correct_witness:
  "vga_ok last_cell \<and> cell (fst (vga_putchar line_io 0x41 (last_cell, (0, [])))) 23 79 = 0x741 \<and>
    cell (fst (vga_putchar line_io 0x41 (last_cell, (0, [])))) 24 0 = 0x20"
proof -
  have ok: "vga_ok last_cell" by (simp add: vga_ok_def last_cell_def)
  have e: "moved 0x41 24 79 = (25, 0)" "drawn 0x41" "vga_entry 0x41 7 = 0x741" "vga_entry 0x20 VGA_BLACK = 0x20"
    by code_simp+
  show ?thesis using vga_putchar_correct [OF ok, of line_io "0x41" "(0, [])"] ok e by (simp add: last_cell_def)
qed

text \<open>On a line whose transmitter always becomes ready, writing text ends, and what goes out is the text
  with a carriage return before every newline.\<close>

theorem serial_write_sends:
  assumes "uart io sent busy"
  shows "\<exists>d'. serial_write io cs d = Some d' \<and> sent d' = sent d @ concat (map (\<lambda>c. if c = 10 then [13, 10] else [c]) cs)"
  by (rule uart.write_sent [OF assms])

theorem serial_write_sends_witness:
  "\<exists>d'. serial_write line_io [104, 105, 10] (0, []) = Some d' \<and> snd d' = [104, 105, 13, 10]"
  using serial_write_sends [OF line.uart_axioms, of "[104, 105, 10]" "(0, [])"] by simp

subsection \<open>The clock\<close>

record rtc_datetime_t =
  year :: u16
  month :: u8
  day :: u8
  hour :: u8
  minute :: u8
  second :: u8

definition CMOS_INDEX :: u16 where "CMOS_INDEX = 0x70"
definition CMOS_DATA :: u16 where "CMOS_DATA = 0x71"

definition cmos_read_reg :: "'d port_io \<Rightarrow> u8 \<Rightarrow> 'd \<Rightarrow> 'd \<times> u8" where
  "cmos_read_reg io reg d = inb io CMOS_DATA (outb io CMOS_INDEX reg d)"

definition bcd_to_bin :: "u8 \<Rightarrow> u8" where
  "bcd_to_bin val = (val AND 0x0F) + drop_bit 4 val * 10"

definition cmos_read_datetime :: "'d port_io \<Rightarrow> 'd \<Rightarrow> ('d \<times> rtc_datetime_t) option" where
  "cmos_read_datetime io d =
     map_option (\<lambda>d.
       let (d, regb) = cmos_read_reg io 0x0B d;
           cv = (if regb AND 0x04 = 0 then bcd_to_bin else id);
           (d, sec) = cmos_read_reg io 0x00 d;
           (d, min) = cmos_read_reg io 0x02 d;
           (d, hr) = cmos_read_reg io 0x04 d;
           (d, dy) = cmos_read_reg io 0x07 d;
           (d, mon) = cmos_read_reg io 0x08 d;
           (d, yr) = cmos_read_reg io 0x09 d;
           (d, century) = cmos_read_reg io 0x32 d
       in (d, \<lparr>year = ucast (cv century) * 100 + ucast (cv yr), month = cv mon, day = cv dy, hour = cv hr, minute = cv min, second = cv sec\<rparr>))
     (poll (\<lambda>d. let (d, a) = cmos_read_reg io 0x0A d in (d, a AND 0x80 = 0)) d)"

text \<open>The clock behind the two ports: \<open>reg\<close> are the registers, and none of them changes.\<close>

locale rtc =
  fixes io :: "'d port_io" and reg :: "u8 \<Rightarrow> u8" and ok :: "'d \<Rightarrow> bool"
  assumes read_reg: "ok d \<Longrightarrow> ok (fst (cmos_read_reg io r d)) \<and> snd (cmos_read_reg io r d) = reg r"
begin

lemma datetime:
  assumes "ok d" "reg 0x0A AND 0x80 = 0"
  defines "cv \<equiv> (if reg 0x0B AND 0x04 = 0 then bcd_to_bin else id)"
  shows "map_option snd (cmos_read_datetime io d) = Some \<lparr>year = ucast (cv (reg 0x32)) * 100 + ucast (cv (reg 9)), month = cv (reg 8),
    day = cv (reg 7), hour = cv (reg 4), minute = cv (reg 2), second = cv (reg 0)\<rparr>"
proof -
  have "poll (\<lambda>d. let (d, a) = cmos_read_reg io 0x0A d in (d, a AND 0x80 = 0)) d = Some (fst (cmos_read_reg io 0x0A d))"
    using read_reg [OF assms(1), of "0x0A"] assms(2) by (subst poll.simps) (simp add: case_prod_beta)
  then show ?thesis using assms(1) by (simp add: cmos_read_datetime_def case_prod_beta Let_def read_reg cv_def)
qed

end

definition clock_io :: "(u8 \<Rightarrow> u8) \<Rightarrow> u8 port_io" where
  "clock_io reg = \<lparr>inb = (\<lambda>p i. (i, if p = CMOS_DATA then reg i else 0)), inw = (\<lambda>p i. (i, 0)),
     outb = (\<lambda>p c i. if p = CMOS_INDEX then c else i), outw = (\<lambda>p w i. i)\<rparr>"

interpretation clock: rtc "clock_io reg" reg "\<lambda>_. True" for reg
  by unfold_locales (simp add: clock_io_def cmos_read_reg_def)

definition bcd :: "nat \<Rightarrow> u8" where
  "bcd n = of_nat (16 * (n div 10) + n mod 10)"

lemma bcd_to_bin_bcd: "n < 100 \<Longrightarrow> bcd_to_bin (bcd n) = of_nat n"
proof -
  assume "n < 100"
  moreover have "list_all (\<lambda>n. bcd_to_bin (bcd n) = of_nat n) [0..<100]" by code_simp
  ultimately show ?thesis by (simp add: list_all_iff)
qed

text \<open>The date is read correctly from a clock that counts in decimal digits: each field of the result is the
  number whose two digits its register holds, and the year is made of century and year.\<close>

theorem cmos_datetime_bcd:
  assumes "rtc io reg ok" "ok d" "reg 0x0A AND 0x80 = 0" "reg 0x0B AND 0x04 = 0"
    "reg 0x32 = bcd cc" "reg 9 = bcd yy" "reg 8 = bcd mm" "reg 7 = bcd dd" "reg 4 = bcd hh" "reg 2 = bcd mi" "reg 0 = bcd ss"
    "cc < 100" "yy < 100" "mm < 100" "dd < 100" "hh < 100" "mi < 100" "ss < 100"
  shows "\<exists>d' t. cmos_read_datetime io d = Some (d', t) \<and> unat (year t) = cc * 100 + yy \<and> unat (month t) = mm \<and> unat (day t) = dd \<and>
    unat (hour t) = hh \<and> unat (minute t) = mi \<and> unat (second t) = ss"
proof -
  obtain d' t where t: "cmos_read_datetime io d = Some (d', t)"
    "t = \<lparr>year = ucast (of_nat cc :: u8) * 100 + ucast (of_nat yy :: u8), month = of_nat mm, day = of_nat dd, hour = of_nat hh,
       minute = of_nat mi, second = of_nat ss\<rparr>"
    using rtc.datetime [OF assms(1-3)] assms(4-) by (auto simp: bcd_to_bin_bcd)
  have small: "n < 100 \<Longrightarrow> unat (of_nat n :: u8) = n" for n by (simp add: unat_of_nat_small)
  have "unat (ucast (of_nat n :: u8) :: u16) = n" if "n < 100" for n
    using small [OF that] that by (simp add: unsigned_ucast_eq take_bit_nat_eq_self)
  then show ?thesis using t small assms(12-) by (auto simp: unat_word_ariths)
qed

definition new_year :: "u8 \<Rightarrow> u8" where
  "new_year r = (if r = 0x32 then 0x20 else if r = 9 then 0x25 else if r = 8 \<or> r = 7 then 1 else 0)"

theorem cmos_datetime_bcd_witness:
  "\<exists>d' t. cmos_read_datetime (clock_io new_year) 0 = Some (d', t) \<and> unat (year t) = 2025 \<and> unat (month t) = 1"
proof -
  have "new_year 0x0A AND 0x80 = 0" "new_year 0x0B AND 0x04 = 0" "new_year 0x32 = bcd 20" "new_year 9 = bcd 25" "new_year 8 = bcd 1"
    "new_year 7 = bcd 1" "new_year 4 = bcd 0" "new_year 2 = bcd 0" "new_year 0 = bcd 0" by code_simp+
  from cmos_datetime_bcd [OF clock.rtc_axioms TrueI this, of 0] show ?thesis by auto
qed

end
