(* ===== verification/Interrupts.thy ===== *)
theory Interrupts
  imports Keyboard Console
begin

text \<open>
  Interrupts: the descriptor tables and the dispatcher of \<^verbatim>\<open>kernel/idt.c\<close> and \<^verbatim>\<open>kernel/gdt.c\<close>, the fault
  handlers, and the timer of \<^verbatim>\<open>kernel/timer.c\<close>. A fault that the kernel cannot resolve is reported
  and the processor halted with interrupts off: the result is then the text of the report. The
  address of \<^verbatim>\<open>cr2\<close> and the address space the processor has loaded are fields of the machine.
\<close>

subsection \<open>Descriptors\<close>

record idt_entry_t =
  offset_low :: u16
  selector :: u16
  ist :: u8
  type_attr :: u8
  offset_mid :: u16
  offset_high :: u32
  reserved :: u32

definition idt_set_entry :: "nat \<Rightarrow> u64 \<Rightarrow> u16 \<Rightarrow> u8 \<Rightarrow> idt_entry_t list \<Rightarrow> idt_entry_t list" where
  "idt_set_entry i base sel flags idt =
     idt[i := \<lparr>offset_low = ucast (base AND 0xFFFF), selector = sel, ist = 0, type_attr = flags,
       offset_mid = ucast (drop_bit 16 base AND 0xFFFF), offset_high = ucast (drop_bit 32 base AND 0xFFFFFFFF), reserved = 0\<rparr>]"

text \<open>The handler address as the processor assembles it from a gate.\<close>

definition gate_offset :: "idt_entry_t \<Rightarrow> u64" where
  "gate_offset e = ucast (offset_low e) OR push_bit 16 (ucast (offset_mid e)) OR push_bit 32 (ucast (offset_high e))"

definition pic_remap :: "'d port_io \<Rightarrow> 'd \<Rightarrow> 'd" where
  "pic_remap io d = fold (\<lambda>(p, b). outb io p b)
     [(0x20, 0x11), (0xA0, 0x11), (0x21, 0x20), (0xA1, 0x28), (0x21, 0x04), (0xA1, 0x02), (0x21, 0x01), (0xA1, 0x01),
      (0x21, 0xFC), (0xA1, 0xFF)] d"

definition idt_gates :: "u64 list \<Rightarrow> u64 list \<Rightarrow> u64 \<Rightarrow> idt_entry_t list \<Rightarrow> idt_entry_t list" where
  "idt_gates isrs irqs isr128 idt =
     (let idt = fold (\<lambda>i. idt_set_entry i (isrs ! i) 0x08 0x8E) [0..<32] idt;
          idt = fold (\<lambda>i. idt_set_entry (32 + i) (irqs ! i) 0x08 0x8E) [0..<16] idt
      in idt_set_entry 0x80 isr128 0x08 0xEF idt)"

record gdt_entry_t =
  limit_low :: u16
  base_low :: u16
  base_mid :: u8
  access :: u8
  granularity :: u8
  base_high :: u8

definition gdt_set_entry :: "nat \<Rightarrow> u32 \<Rightarrow> u32 \<Rightarrow> u8 \<Rightarrow> u8 \<Rightarrow> gdt_entry_t list \<Rightarrow> gdt_entry_t list" where
  "gdt_set_entry i base limit acc gran gdt =
     gdt[i := \<lparr>limit_low = ucast (limit AND 0xFFFF), base_low = ucast (base AND 0xFFFF), base_mid = ucast (drop_bit 16 base AND 0xFF),
       access = acc, granularity = gran OR ucast (drop_bit 16 limit AND 0x0F), base_high = ucast (drop_bit 24 base AND 0xFF)\<rparr>]"

definition gdt_base :: "gdt_entry_t \<Rightarrow> u32" where
  "gdt_base e = ucast (base_low e) OR push_bit 16 (ucast (base_mid e)) OR push_bit 24 (ucast (base_high e))"

definition gdt_limit :: "gdt_entry_t \<Rightarrow> u32" where
  "gdt_limit e = ucast (limit_low e) OR push_bit 16 (ucast (granularity e AND 0x0F))"

text \<open>The descriptor of the task state segment takes two slots; the second holds the upper half of
  its address.\<close>

definition gdt_entries :: "u64 \<Rightarrow> u16 \<Rightarrow> gdt_entry_t list \<Rightarrow> gdt_entry_t list" where
  "gdt_entries tss_base tss_limit gdt =
     (let gdt = gdt_set_entry 0 0 0 0 0 gdt;
          gdt = gdt_set_entry 1 0 0xFFFFF 0x9A 0xA0 gdt;
          gdt = gdt_set_entry 2 0 0xFFFFF 0x92 0xA0 gdt;
          gdt = gdt_set_entry 3 0 0xFFFFF 0xFA 0xA0 gdt;
          gdt = gdt_set_entry 4 0 0xFFFFF 0xF2 0xA0 gdt;
          gdt = gdt[5 := \<lparr>limit_low = tss_limit AND 0xFFFF, base_low = ucast (tss_base AND 0xFFFF),
            base_mid = ucast (drop_bit 16 tss_base AND 0xFF), access = 0x89, granularity = ucast (drop_bit 16 tss_limit AND 0x0F),
            base_high = ucast (drop_bit 24 tss_base AND 0xFF)\<rparr>];
          hi = ucast (drop_bit 32 tss_base) :: u32
      in gdt[6 := \<lparr>limit_low = ucast hi, base_low = ucast (drop_bit 16 hi), base_mid = 0, access = 0, granularity = 0, base_high = 0\<rparr>])"

subsection \<open>Fault handlers\<close>

definition hex_digit :: "u64 \<Rightarrow> u8" where
  "hex_digit nib = (if nib < 10 then 0x30 + ucast nib else 0x61 + ucast nib - 10)"

definition dump_hex64 :: "u64 \<Rightarrow> bytes" where
  "dump_hex64 v = map (\<lambda>i. hex_digit (drop_bit (60 - 4 * i) v AND 0xF)) [0..<16]"

definition flag_char :: "u64 \<Rightarrow> u64 \<Rightarrow> bytes" where
  "flag_char err b = [if err AND b \<noteq> 0 then 0x31 else 0x30]"

text \<open>The report on the serial line; every literal is cut to the length the code passes with it.\<close>

definition page_fault_report :: "u64 \<Rightarrow> u64 \<Rightarrow> registers_t \<Rightarrow> bytes" where
  "page_fault_report addr err r =
     take 20 ([10] @ str ''!!! PAGE FAULT !!!'' @ [10]) @ take 22 (str ''Fault address (CR2): 0x'') @ dump_hex64 addr @
     take 12 ([10] @ str ''Error code: '') @ dump_hex64 err @ take 11 ([10] @ str ''  Present: '') @ flag_char err 1 @
     take 11 ([10] @ str ''  Write:   '') @ flag_char err 2 @ take 11 ([10] @ str ''  User:    '') @ flag_char err 4 @
     take 7 ([10] @ str ''RIP: 0x'') @ dump_hex64 (r_rip r) @ take 7 ([10] @ str ''RSP: 0x'') @ dump_hex64 (r_rsp r) @
     take 9 ([10] @ str ''Halting.'' @ [10])"

definition gpf_report :: "registers_t \<Rightarrow> bytes" where
  "gpf_report r =
     take 33 ([10] @ str ''!!! GENERAL PROTECTION FAULT !!!'' @ [10]) @ take 12 (str ''Error code: '') @ dump_hex64 (r_err_code r) @
     take 7 ([10] @ str ''RIP: 0x'') @ dump_hex64 (r_rip r) @ take 6 ([10] @ str ''CS: 0x'') @ dump_hex64 (r_cs r) @
     take 7 ([10] @ str ''RSP: 0x'') @ dump_hex64 (r_rsp r) @ take 9 ([10] @ str ''Halting.'' @ [10])"

record 'd machine =
  msys :: sys
  tick_count :: u64
  mcr3 :: u64
  mcr2 :: u64
  mkbd :: kbd
  mvga :: vga
  mdev :: 'd

text \<open>\<open>Inl report\<close>: halted.\<close>

definition page_fault_handler :: "'d machine \<Rightarrow> registers_t \<Rightarrow> bytes + 'd machine" where
  "page_fault_handler m r =
     (let s = msys m; addr = mcr2 m; err = r_err_code r;
          pml4 = (case current_task s of Some c \<Rightarrow> cr3 (task_pool s ! c) | None \<Rightarrow> PML4_ADDR);
          (k, res) = paging_handle_cow_fault (mem s) pml4 addr err
      in if res = 0 then Inr (m\<lparr>msys := s\<lparr>mem := k\<rparr>\<rparr>)
         else (case current_task s of None \<Rightarrow> Inl (page_fault_report addr err r)
           | Some c \<Rightarrow>
               (let (k, res) = paging_handle_demand_fault k pml4 addr err (Some (vm_regions (task_pool s ! c)))
                in if res = 0 then Inr (m\<lparr>msys := s\<lparr>mem := k\<rparr>\<rparr>) else Inl (page_fault_report addr err r))))"

definition gpf_handler :: "'d machine \<Rightarrow> registers_t \<Rightarrow> bytes + 'd machine" where
  "gpf_handler m r = Inl (gpf_report r)"

subsection \<open>The timer\<close>

definition timer_handler :: "'d machine \<Rightarrow> registers_t \<Rightarrow> 'd machine option" where
  "timer_handler m r =
     map_option (\<lambda>s. m\<lparr>tick_count := tick_count m + 1, msys := s\<rparr>) (scheduler_tick (msys m))"

definition timer_init :: "'d port_io \<Rightarrow> 'd machine \<Rightarrow> 'd machine" where
  "timer_init io m =
     (let divisor = 1193182 div 100 :: u32;
          d = outb io 0x43 0x36 (mdev m);
          d = outb io 0x40 (ucast (divisor AND 0xFF)) d
      in m\<lparr>tick_count := 0, mdev := outb io 0x40 (ucast (drop_bit 8 divisor AND 0xFF)) d\<rparr>)"

definition timer_ticks :: "'d machine \<Rightarrow> u64" where
  "timer_ticks m = tick_count m"

text \<open>The target \<^verbatim>\<open>timer_sleep\<close> waits for, and its loop condition.\<close>

definition sleep_target :: "'d machine \<Rightarrow> u64 \<Rightarrow> u64" where
  "sleep_target m ms = tick_count m + ms div 10"

definition sleeping :: "'d machine \<Rightarrow> u64 \<Rightarrow> bool" where
  "sleeping m target \<longleftrightarrow> tick_count m < target"

subsection \<open>The dispatcher\<close>

text \<open>
  A handler gets the machine and the saved registers; \<open>None\<close> means that it does not return.
  \<^verbatim>\<open>handlers\<close> is the table of the registered ones.
\<close>

type_synonym 'd handler = "'d machine \<Rightarrow> registers_t \<Rightarrow> ('d machine \<times> registers_t) option"

definition end_of_interrupt :: "'d port_io \<Rightarrow> u64 \<Rightarrow> 'd \<Rightarrow> 'd" where
  "end_of_interrupt io int_no d =
     (if int_no \<ge> 32 \<and> int_no \<le> 47
      then outb io 0x20 0x20 (if int_no \<ge> 40 then outb io 0xA0 0x20 d else d) else d)"

definition handle_interrupt :: "'d port_io \<Rightarrow> 'd handler option list \<Rightarrow> 'd handler" where
  "handle_interrupt io handlers m r =
     Option.bind
       (case handlers ! unat (r_int_no r) of
          Some h \<Rightarrow> h m r
        | None \<Rightarrow> if r_int_no r < 32 then None else Some (m, r))
       (\<lambda>(m, r).
          (let m = m\<lparr>mdev := end_of_interrupt io (r_int_no r) (mdev m)\<rparr> in
           if r_cs r = 0x1B
           then map_option (\<lambda>(s, r). (m\<lparr>msys := s\<rparr>, r)) (signal_deliver (mcr3 m) (msys m) r)
           else Some (m, r)))"

definition fault :: "('d machine \<Rightarrow> registers_t \<Rightarrow> bytes + 'd machine) \<Rightarrow> 'd handler" where
  "fault f m r = (case f m r of Inl report \<Rightarrow> None | Inr m \<Rightarrow> Some (m, r))"

definition timer :: "'d handler" where
  "timer m r = map_option (\<lambda>m. (m, r)) (timer_handler m r)"

definition keyboard :: "'d port_io \<Rightarrow> 'd handler" where
  "keyboard io m r =
     (let (d, scancode) = inb io 0x60 (mdev m) in
      map_option (\<lambda>(k, s). (m\<lparr>mdev := d, mkbd := k, msys := s\<rparr>, r)) (keyboard_handler (mkbd m) (msys m) scancode))"

definition idt_register_handler :: "nat \<Rightarrow> 'd handler \<Rightarrow> 'd handler option list \<Rightarrow> 'd handler option list" where
  "idt_register_handler vector h handlers = handlers[vector := Some h]"

text \<open>The part of \<^verbatim>\<open>idt_init\<close> that fills the table of handlers, and the table after timer, keyboard and system
  calls have registered theirs.\<close>

definition idt_handlers :: "'d handler option list" where
  "idt_handlers = (replicate 256 None)[14 := Some (fault page_fault_handler), 13 := Some (fault gpf_handler)]"

definition handler_table :: "'d port_io \<Rightarrow> 'd handler \<Rightarrow> 'd handler option list" where
  "handler_table io syscalls =
     idt_register_handler 0x80 syscalls (idt_register_handler 33 (keyboard io) (idt_register_handler 32 timer idt_handlers))"

text \<open>
  The end of an interrupt in \<^verbatim>\<open>kernel/isr.asm\<close>: when a switch is pending, the stack pointer is saved in the
  old task and those of the new one are loaded.
\<close>

definition switch_check :: "'d machine \<Rightarrow> u64 \<Rightarrow> 'd machine \<times> u64" where
  "switch_check m sp =
     (let s = msys m in
      case pending_switch s of None \<Rightarrow> (m, sp)
      | Some old \<Rightarrow>
          (let s' = upd_task s old (rsp_update (\<lambda>_. sp))
           in (m\<lparr>msys := s'\<lparr>pending_switch := None, pending_cr3 := 0\<rparr>,
                 mcr3 := (if pending_cr3 s \<noteq> 0 then pending_cr3 s else mcr3 m)\<rparr>, pending_rsp s)))"

subsection \<open>Descriptors hold what was put into them\<close>

lemma gate_bits:
  fixes base :: u64
  shows "ucast (ucast (base AND 0xFFFF) :: u16) OR push_bit 16 (ucast (ucast (drop_bit 16 base AND 0xFFFF) :: u16)) OR
    push_bit 32 (ucast (ucast (drop_bit 32 base AND 0xFFFFFFFF) :: u32)) = base"
proof -
  have m: "(0xFFFF :: u64) = mask 16" "(0xFFFFFFFF :: u64) = mask 32" by (simp_all add: mask_eq_exp_minus_1)
  show ?thesis unfolding m
  proof (rule bit_word_eqI)
    fix n :: nat
    have "n < 16 \<or> 16 \<le> n \<and> n < 32 \<or> 32 \<le> n" by linarith
    then show "bit (ucast (ucast (base AND mask 16) :: u16) OR push_bit 16 (ucast (ucast (drop_bit 16 base AND mask 16) :: u16)) OR
        push_bit 32 (ucast (ucast (drop_bit 32 base AND mask 32) :: u32)) :: u64) n = bit base n" if "n < LENGTH(64)"
      using that by (elim disjE conjE) (auto simp: bit_simps)
  qed
qed

lemma idt_set_entry_get:
  assumes "i < length idt"
  shows "gate_offset (idt_set_entry i base sel fl idt ! i) = base" "selector (idt_set_entry i base sel fl idt ! i) = sel"
    "type_attr (idt_set_entry i base sel fl idt ! i) = fl"
  using assms gate_bits [of base] by (simp_all add: idt_set_entry_def gate_offset_def)

lemma fold_set:
  assumes "\<And>i. i < n \<Longrightarrow> a + i < length xs"
  shows "length (fold (\<lambda>i xs. xs[a + i := g i]) [0..<n] xs) = length xs"
    "fold (\<lambda>i xs. xs[a + i := g i]) [0..<n] xs ! j = (if a \<le> j \<and> j < a + n then g (j - a) else xs ! j)"
  using assms by (induction n) (auto simp: nth_upd less_Suc_eq)

definition gate :: "u64 \<Rightarrow> u8 \<Rightarrow> idt_entry_t" where
  "gate base fl = \<lparr>offset_low = ucast (base AND 0xFFFF), selector = 0x08, ist = 0, type_attr = fl,
       offset_mid = ucast (drop_bit 16 base AND 0xFFFF), offset_high = ucast (drop_bit 32 base AND 0xFFFFFFFF), reserved = 0\<rparr>"

text \<open>The interrupt table that is built: the gates of the 32 exceptions, the 16 hardware interrupts and the
  system call lead to their entry points in the kernel's code segment; only the system-call gate
  may be used from user mode, and no other gate is written.\<close>

theorem idt_gates_correct:
  fixes isrs irqs :: "u64 list" and isr128 :: u64
  assumes "length idt = 256"
  defines "t \<equiv> idt_gates isrs irqs isr128 idt"
  shows "length t = 256 \<and>
    (\<forall>i < 32. gate_offset (t ! i) = isrs ! i \<and> selector (t ! i) = 8 \<and> type_attr (t ! i) = 0x8E) \<and>
    (\<forall>i < 16. gate_offset (t ! (32 + i)) = irqs ! i \<and> selector (t ! (32 + i)) = 8 \<and> type_attr (t ! (32 + i)) = 0x8E) \<and>
    gate_offset (t ! 0x80) = isr128 \<and> selector (t ! 0x80) = 8 \<and> type_attr (t ! 0x80) = 0xEF \<and>
    (\<forall>i. 48 \<le> i \<and> i \<noteq> 0x80 \<longrightarrow> t ! i = idt ! i)"
proof -
  define t1 where "t1 = fold (\<lambda>i xs. xs[0 + i := gate (isrs ! i) 0x8E]) [0..<32] idt"
  define t2 where "t2 = fold (\<lambda>i xs. xs[32 + i := gate (irqs ! i) 0x8E]) [0..<16] t1"
  have t: "t = t2[0x80 := gate isr128 0xEF]"
  proof -
    have "idt_set_entry i b 8 fl = (\<lambda>idt. idt[i := gate b fl])" for i b fl by (simp add: fun_eq_iff idt_set_entry_def gate_def)
    then show ?thesis by (simp add: t_def idt_gates_def t2_def t1_def Let_def)
  qed
  have l1: "length t1 = 256" "t1 ! j = (if j < 32 then gate (isrs ! j) 0x8E else idt ! j)" for j
    using fold_set [of 32 0 idt "\<lambda>i. gate (isrs ! i) 0x8E"] assms(1) by (simp_all add: t1_def)
  have l2: "length t2 = 256" "t2 ! j = (if 32 \<le> j \<and> j < 48 then gate (irqs ! (j - 32)) 0x8E else t1 ! j)" for j
    using fold_set [of 16 32 t1 "\<lambda>i. gate (irqs ! i) 0x8E"] l1(1) by (simp_all add: t2_def)
  have g: "gate_offset (gate b fl) = b" "selector (gate b fl) = 8" "type_attr (gate b fl) = fl" for b fl
    using gate_bits [of b] by (simp_all add: gate_def gate_offset_def)
  show ?thesis unfolding t by (simp add: nth_upd l1 l2 g)
qed

theorem idt_gates_correct_witness:
  "gate_offset (idt_gates (replicate 32 0x100000) (replicate 16 0x110000) 0x123456789A
     (replicate 256 (gate 0 0)) ! 0x80) = 0x123456789A"
  using idt_gates_correct [of "replicate 256 (gate 0 0)" "replicate 32 0x100000" "replicate 16 0x110000" "0x123456789A"] by simp

subsection \<open>Timer interrupts, context switches and signals\<close>

lemma upd_task_inv_state:
  assumes "sched_inv s" "\<And>t. next_task (f t) = next_task t" "\<And>t. state (f t) = state t"
  shows "sched_inv (upd_task s i f)"
  using assms by (auto simp: sched_inv_def ring_def upd_task_def nth_upd)

lemma sched_inv_switch: "sched_inv (s\<lparr>pending_switch := p, pending_cr3 := q\<rparr>) = sched_inv s"
  by (simp add: sched_inv_def ring_def)


lemma timer_switch_deliver:
  assumes "sched_inv (msys m)" "current_task (msys m) = Some c" "first_ready (msys m) c \<noteq> c" "r_int_no r = 32" "r_cs r = 0x1B"
  defines "n \<equiv> first_ready (msys m) c"
  shows "\<exists>s'. current_task s' = Some n \<and> pending_switch s' = Some c \<and> mem s' = mem (msys m) \<and>
    n < length (task_pool s') \<and> task_pool s' ! n = (task_pool (msys m) ! n)\<lparr>state := TASK_RUNNING\<rparr> \<and>
    handle_interrupt io (handler_table io sc) m r =
      map_option (\<lambda>(s, r'). (m\<lparr>tick_count := tick_count m + 1, mdev := end_of_interrupt io 32 (mdev m), msys := s\<rparr>, r'))
        (signal_deliver (mcr3 m) s' r)"
proof -
  obtain s' where s: "scheduler_tick (msys m) = Some s'" "current_task s' = Some n" "pending_switch s' = Some c"
    using scheduler_tick_step [OF assms(1,2)] assms(3) unfolding n_def by blast
  have n: "n < length (task_pool (msys m))" "c < length (task_pool (msys m))"
    using assms(1,2) first_ready_cases(1) [of c "msys m"] by (auto simp: n_def sched_inv_def ring_def intro: less_le_trans)
  have t': "task_pool s' ! n = (task_pool (msys m) ! n)\<lparr>state := TASK_RUNNING\<rparr>" "length (task_pool s') = length (task_pool (msys m))"
    "mem s' = mem (msys m)"
    using scheduler_tick_eq [OF assms(1,2)] assms(3) s(1) n by (auto simp: n_def Let_def upd_task_nth)
  have h: "handler_table io sc ! 32 = Some timer"
    by (simp add: handler_table_def idt_register_handler_def idt_handlers_def)
  have "handle_interrupt io (handler_table io sc) m r =
      map_option (\<lambda>(s, r'). (m\<lparr>tick_count := tick_count m + 1, mdev := end_of_interrupt io 32 (mdev m), msys := s\<rparr>, r'))
        (signal_deliver (mcr3 m) s' r)"
    using assms(4,5) h s(1) by (simp add: handle_interrupt_def timer_def timer_handler_def)
  then show ?thesis using s n t' by auto
qed

lemma next_signal_state [simp]: "next_signal (t\<lparr>state := x\<rparr>) = next_signal t"
  by (simp add: next_signal_def unmasked_def ignored_def)

text \<open>C27: a signal can hit the wrong process. When the timer interrupts a user-mode task and the scheduler
  picks another task that has a signal with a handler waiting, the handler is entered in the
  frame of the interrupted task: its instruction pointer is redirected to the other task's
  handler and its registers are saved in the other task.\<close>

theorem signal_hits_interrupted_task:
  assumes "sched_inv (msys m)" "current_task (msys m) = Some c" "first_ready (msys m) c \<noteq> c" "r_int_no r = 32" "r_cs r = 0x1B"
  defines "n \<equiv> first_ready (msys m) c"
  defines "t \<equiv> task_pool (msys m) ! n"
  assumes "pid t \<noteq> 0" "\<not> bit (signal_pending t) SIGKILL" "\<not> in_signal t" "next_signal t = Some sig" "signal_handlers t ! sig \<noteq> SIG_DFL"
    and "handle_interrupt io (handler_table io sc) m r = Some (m', r')"
  shows "current_task (msys m') = Some n \<and> r_rip r' = signal_handlers t ! sig \<and> r_rdi r' = of_nat sig \<and>
    saved_rip (task_pool (msys m') ! n) = r_rip r \<and> saved_rsp (task_pool (msys m') ! n) = r_rsp r \<and>
    pending_switch (msys m') = Some c"
proof -
  obtain s' where s: "current_task s' = Some n" "pending_switch s' = Some c" "n < length (task_pool s')"
    "task_pool s' ! n = t\<lparr>state := TASK_RUNNING\<rparr>"
    "handle_interrupt io (handler_table io sc) m r =
      map_option (\<lambda>(s, r'). (m\<lparr>tick_count := tick_count m + 1, mdev := end_of_interrupt io 32 (mdev m), msys := s\<rparr>, r'))
        (signal_deliver (mcr3 m) s' r)"
    using timer_switch_deliver [OF assms(1-5), of io sc] unfolding n_def t_def by blast
  have "signal_deliver (mcr3 m) s' r = Some (msys m', r')" using assms(13) unfolding s(5) by (cases "signal_deliver (mcr3 m) s' r") auto
  then obtain k where "msys m' = upd_task (s'\<lparr>mem := k\<rparr>) n (\<lambda>u. u\<lparr>signal_pending := pending_above (t\<lparr>state := TASK_RUNNING\<rparr>) sig,
      saved_rip := r_rip r, saved_rsp := r_rsp r, saved_rflags := r_rflags r, in_signal := True\<rparr>)"
    "r_rip r' = signal_handlers t ! sig" "r_rdi r' = of_nat sig"
    using signal_deliver_handler [of n s' sig "mcr3 m" r, unfolded s(4)] s(1,3) assms(8-12) by (auto dest!: sym [where t = "msys m'"])
  then show ?thesis using s(1-3) by (simp add: upd_task_def)
qed

subsection \<open>A machine\<close>

definition idle_io :: "unit port_io" where
  "idle_io = \<lparr>inb = (\<lambda>_ d. (d, 0)), inw = (\<lambda>_ d. (d, 0)), outb = (\<lambda>_ _ d. d), outw = (\<lambda>_ _ d. d)\<rparr>"

definition box :: "sys \<Rightarrow> unit machine" where
  "box s = \<lparr>msys = s, tick_count = 0, mcr3 = 0x1000, mcr2 = 0, mkbd = fresh_kbd, mvga = last_cell, mdev = ()\<rparr>"

definition no_syscalls :: "unit handler" where
  "no_syscalls m r = Some (m, r)"

lemma family_ready: "first_ready family 1 = 2"
proof -
  have "[1..<3] = [1, 2 :: nat]" by (simp add: upt_rec)
  then show ?thesis using family_fields by (simp add: first_ready_def flip: numeral_2_eq_2)
qed


text \<open>In \<open>trapped\<close> task 2 has a signal and a handler for it, and its stack is in memory that is always mapped.\<close>

definition trapped :: sys where
  "trapped = upd_task family 2 (\<lambda>t. t\<lparr>signal_pending := 4, signal_handlers := (replicate 32 0)[2 := 0x400100], cr3 := 0x1000\<rparr>)"

text \<open>The entries of the boot tables that map the user's 2 MB page.\<close>

definition boot_like :: "kmem \<Rightarrow> bool" where
  "boot_like k \<longleftrightarrow> rd64 (phys k) 0x1000 = 0x2007 \<and> rd64 (phys k) 0x2000 = 0x3007 \<and> rd64 (phys k) 0x3010 = 0x400087"

lemma boot_like_index:
  assumes "drop_bit 21 v = (2 :: u64)"
  shows "pt_index 39 v = 0" "pt_index 30 v = 0" "pt_index 21 v = 2"
proof -
  have "drop_bit 39 v = drop_bit 18 (drop_bit 21 v)" "drop_bit 30 v = drop_bit 9 (drop_bit 21 v)" by (simp_all add: drop_bit_drop_bit)
  then show "pt_index 39 v = 0" "pt_index 30 v = 0" "pt_index 21 v = 2" using assms by (simp_all add: pt_index_def drop_bit_eq_div)
qed

lemma boot_like_consts: "present 0x2007" "present 0x3007" "present 0x400087" "huge 0x400087" "\<not> huge 0x2007" "\<not> huge 0x3007"
  "frame_of 0x2007 = 0x2000" "frame_of 0x3007 = 0x3000" "entry 0x1000 0 = 0x1000" "entry 0x2000 0 = 0x2000" "entry 0x3000 2 = 0x3010"
  by (simp_all add: present_def huge_def frame_of_def entry_def)

lemma boot_like_mmu:
  assumes "boot_like k" "drop_bit 21 v = (2 :: u64)"
  shows "\<exists>acc. mmu k 0x1000 v = Some (0x400000 + (v AND 0x1FFFFF), acc)" "paging_get_flags k 0x1000 v AND PAGE_PRESENT \<noteq> 0"
proof -
  have "ix 3 v = 0" "ix 2 v = 0" "ix 1 v = 2" using boot_like_index [OF assms(2)] by (simp_all add: ix_def)
  moreover have "mmu_walk (phys k) 4 = mmu_walk (phys k) (Suc (Suc (Suc (Suc 0))))" by (simp add: numeral_eq_Suc)
  ultimately show "\<exists>acc. mmu k 0x1000 v = Some (0x400000 + (v AND 0x1FFFFF), acc)"
    using assms(1) boot_like_consts
    by (simp add: mmu_def boot_like_def Let_def numeral_3_eq_3 numeral_2_eq_2)
  show "paging_get_flags k 0x1000 v AND PAGE_PRESENT \<noteq> 0"
    using assms(1) boot_like_index [OF assms(2)] boot_like_consts by (simp add: paging_get_flags_def boot_like_def Let_def)
qed

lemma boot_like_store:
  assumes "boot_like k"
  shows "boot_like (k\<lparr>phys := (phys k)(0x400000 + (v AND 0x1FFFFF) := b)\<rparr>)"
proof -
  let ?p = "0x400000 + (v AND 0x1FFFFF) :: u64"
  have m: "(0x1FFFFF :: u64) = mask 21" by (simp add: mask_eq_exp_minus_1)
  have "unat (v AND 0x1FFFFF) < 2 ^ 21" unfolding m by (metis take_bit_eq_mask take_bit_nat_less_exp unsigned_take_bit_eq)
  then have p: "0x400000 \<le> unat ?p" by (simp add: unat_word_ariths)
  have "a + of_nat i \<noteq> ?p" if "a \<in> {0x1000, 0x2000, 0x3010}" "i < 8" for a :: u64 and i
  proof
    assume eq: "a + of_nat i = ?p"
    have "unat (a + of_nat i) = unat a + i" using that by (auto simp: unat_word_ariths unat_of_nat_small)
    then show False using eq that p by auto
  qed
  then have "rd64 ((phys k)(?p := b)) a = rd64 (phys k) a" if "a \<in> {0x1000, 0x2000, 0x3010}" for a
    using that by (intro rd64_cong) auto
  then show ?thesis using assms by (simp add: boot_like_def)
qed

lemma store_bytes_boot:
  assumes "boot_like k" "\<And>i. i < length bs \<Longrightarrow> drop_bit 21 (v + of_nat i) = (2 :: u64)"
  shows "\<exists>k'. store_bytes 0x1000 v bs k = Some k' \<and> boot_like k'"
  using assms
proof (induction bs arbitrary: v k)
  case (Cons b bs)
  obtain acc where acc: "mmu k 0x1000 v = Some (0x400000 + (v AND 0x1FFFFF), acc)"
    using boot_like_mmu(1) [OF Cons.prems(1), of v] Cons.prems(2) [of 0] by auto
  have "drop_bit 21 (v + 1 + of_nat i) = 2" if "i < length bs" for i
    using Cons.prems(2) [of "Suc i"] that by (simp add: ac_simps)
  then show ?case using Cons.IH [OF boot_like_store [OF Cons.prems(1)], of "v + 1"] acc by auto
qed simp

lemma trapped_fields:
  "sched_inv trapped" "current_task trapped = Some 1" "first_ready trapped 1 = 2" "boot_like (mem trapped)"
  "pid (task_pool trapped ! 2) = 2" "signal_pending (task_pool trapped ! 2) = 4" "signal_mask (task_pool trapped ! 2) = 0"
  "\<not> in_signal (task_pool trapped ! 2)" "signal_handlers (task_pool trapped ! 2) = (replicate 32 0)[2 := 0x400100]"
  "cr3 (task_pool trapped ! 2) = 0x1000"
proof -
  have len: "2 < length (task_pool family)" using family_fields(3) by (simp add: MAX_TASKS_def)
  show "sched_inv trapped" unfolding trapped_def by (rule upd_task_inv_state [OF family_inv]) simp_all
  show "current_task trapped = Some 1" using family_fields(2) by (simp add: trapped_def)
  have "state (task_pool trapped ! j) = state (task_pool family ! j)" for j using len by (simp add: trapped_def upd_task_nth)
  then have "first_ready trapped 1 = first_ready family 1" by (simp add: first_ready_def trapped_def)
  then show "first_ready trapped 1 = 2" using family_ready by simp
  have "tab (phys boot_kmem) 0x1000 0 = 0x2007" "tab (phys boot_kmem) 0x2000 0 = 0x3007" "tab (phys boot_kmem) 0x3000 2 = 0x400087"
    by (simp_all add: boot_tab boot_aligned)
  then show "boot_like (mem trapped)" using family_fields(15) by (simp add: boot_like_def trapped_def boot_like_consts)
  show "pid (task_pool trapped ! 2) = 2" "signal_pending (task_pool trapped ! 2) = 4" "signal_mask (task_pool trapped ! 2) = 0"
    "\<not> in_signal (task_pool trapped ! 2)" "signal_handlers (task_pool trapped ! 2) = (replicate 32 0)[2 := 0x400100]"
    "cr3 (task_pool trapped ! 2) = 0x1000"
    using len by (simp_all add: trapped_def upd_task_nth family_fields(6)) (simp_all add: family_def upd_task_def three_tasks_def blank_task_def)
qed

lemma trapped_signal: "next_signal (task_pool trapped ! 2) = Some 2" "\<not> bit (signal_pending (task_pool trapped ! 2)) SIGKILL"
proof -
  have b: "bit (4 :: int) n \<longleftrightarrow> n = 2" for n using bit_exp_iff [of 2 n, where 'a = int] by simp
  have u: "unmasked (task_pool trapped ! 2) = 4" using trapped_fields by (simp add: unmasked_def)
  have h: "signal_handlers (task_pool trapped ! 2) ! 2 = 0x400100" using trapped_fields by simp
  show "next_signal (task_pool trapped ! 2) = Some 2" unfolding next_signal_def
    by (intro find_unique) (auto simp: u b h ignored_def NSIGS_def SIG_IGN_def SIG_DFL_def)
  show "\<not> bit (signal_pending (task_pool trapped ! 2)) SIGKILL" using trapped_fields(6) by (simp add: b SIGKILL_def)
qed

theorem signal_hits_interrupted_task_witness:
  "\<exists>m' r'. handle_interrupt idle_io (handler_table idle_io no_syscalls) (box trapped)
      (zero_regs\<lparr>r_int_no := 32, r_rip := 0x400000, r_rsp := 0x500000\<rparr>) = Some (m', r') \<and>
    pending_switch (msys m') = Some 1 \<and> r_rip r' = 0x400100"
proof -
  let ?r = "zero_regs\<lparr>r_int_no := 32, r_rip := 0x400000, r_rsp := 0x500000\<rparr>"
  let ?h = "handle_interrupt idle_io (handler_table idle_io no_syscalls) (box trapped) ?r"
  have "\<exists>m' r'. ?h = Some (m', r')"
  proof -
    note T = trapped_fields
    obtain s' where s: "current_task s' = Some 2" "mem s' = mem trapped" "2 < length (task_pool s')"
      "task_pool s' ! 2 = (task_pool trapped ! 2)\<lparr>state := TASK_RUNNING\<rparr>"
      "?h = map_option (\<lambda>(s, r'). ((box trapped)\<lparr>tick_count := tick_count (box trapped) + 1,
          mdev := end_of_interrupt idle_io 32 (mdev (box trapped)), msys := s\<rparr>, r')) (signal_deliver 0x1000 s' ?r)"
      using timer_switch_deliver [of "box trapped" 1 ?r idle_io no_syscalls] T(1-3) by (auto simp: box_def zero_regs_def)
    have v: "list_all (\<lambda>i. drop_bit 21 (0x4FFFF8 + of_nat i :: u64) = 2) [0..<8]" by code_simp
    then have "\<exists>k'. store64 0x1000 0x4FFFF8 x (mem trapped) = Some k'" for x
      using store_bytes_boot [OF T(4), of "le_bytes 8 x" "0x4FFFF8"] by (auto simp: store64_def list_all_iff)
    moreover have "drop_bit 21 (0x4FF000 :: u64) = 2" by code_simp
    then have "signal_page (mem trapped) 0x1000 0x4FF000 = mem trapped"
      using boot_like_mmu(2) [OF T(4)] by (simp add: signal_page_def)
    ultimately show ?thesis
      using signal_deliver_handler [of 2 s' 2 "0x1000" ?r] s T trapped_signal by (auto simp: SIG_DFL_def)
  qed
  then obtain m' r' where h: "?h = Some (m', r')" by blast
  from signal_hits_interrupted_task [of "box trapped" 1 ?r 2 idle_io no_syscalls m' r'] h
  show ?thesis using trapped_fields trapped_signal by (auto simp: box_def zero_regs_def SIG_DFL_def)
qed

end
