(* ===== verification/Elf.thy ===== *)
theory Elf
  imports Interrupts Vfs
begin

text \<open>
  The program loader \<^verbatim>\<open>kernel/elf.c\<close>. The file is read into a buffer on the kernel heap, and the headers
  are read from that memory, so a header that points outside the file reads whatever memory holds
  there. The file system shares the kernel's heap.
\<close>

definition ELF_BUF_SIZE :: u64 where "ELF_BUF_SIZE = 65536"
definition ELFCLASS64 :: u8 where "ELFCLASS64 = 2"
definition ELFDATA2LSB :: u8 where "ELFDATA2LSB = 1"
definition ET_EXEC :: u16 where "ET_EXEC = 2"
definition EM_X86_64 :: u16 where "EM_X86_64 = 0x3E"
definition PT_LOAD :: u32 where "PT_LOAD = 1"

definition rdn :: "nat \<Rightarrow> memory \<Rightarrow> u64 \<Rightarrow> 'a::len word" where
  "rdn n m a = le_word (map (\<lambda>i. m (a + of_nat i)) [0..<n])"

definition put_bytes :: "memory \<Rightarrow> u64 \<Rightarrow> bytes \<Rightarrow> memory" where
  "put_bytes m a bs = (\<lambda>x. if unat (x - a) < length bs then bs ! unat (x - a) else m x)"

record Elf64_Ehdr =
  e_ident :: bytes
  e_type :: u16
  e_machine :: u16
  e_entry :: u64
  e_phoff :: u64
  e_phnum :: u16

definition ehdr_at :: "memory \<Rightarrow> u64 \<Rightarrow> Elf64_Ehdr" where
  "ehdr_at m a = \<lparr>e_ident = map (\<lambda>i. m (a + of_nat i)) [0..<16], e_type = rdn 2 m (a + 16), e_machine = rdn 2 m (a + 18),
     e_entry = rdn 8 m (a + 24), e_phoff = rdn 8 m (a + 32), e_phnum = rdn 2 m (a + 56)\<rparr>"

record Elf64_Phdr =
  p_type :: u32
  p_offset :: u64
  p_vaddr :: u64
  p_filesz :: u64
  p_memsz :: u64

definition phdr_at :: "memory \<Rightarrow> u64 \<Rightarrow> Elf64_Phdr" where
  "phdr_at m a = \<lparr>p_type = rdn 4 m a, p_offset = rdn 8 m (a + 8), p_vaddr = rdn 8 m (a + 16), p_filesz = rdn 8 m (a + 32),
     p_memsz = rdn 8 m (a + 40)\<rparr>"

definition elf_ok :: "Elf64_Ehdr \<Rightarrow> bool" where
  "elf_ok e \<longleftrightarrow> e_ident e ! 0 = 0x7F \<and> e_ident e ! 1 = 0x45 \<and> e_ident e ! 2 = 0x4C \<and> e_ident e ! 3 = 0x46 \<and>
     e_ident e ! 4 = ELFCLASS64 \<and> e_ident e ! 5 = ELFDATA2LSB \<and> e_type e = ET_EXEC \<and> e_machine e = EM_X86_64"

text \<open>The addresses of a loop \<^verbatim>\<open>for (page = base; page < end; page += step)\<close> whose bounds are multiples of the step.\<close>

definition steps :: "u64 \<Rightarrow> u64 \<Rightarrow> u64 \<Rightarrow> u64 list" where
  "steps a b step = (if a < b then map (\<lambda>i. a + step * of_nat i) [0..<unat ((b - a) div step)] else [])"

definition add_region :: "sys \<Rightarrow> u64 \<Rightarrow> u64 \<Rightarrow> u64 \<Rightarrow> sys" where
  "add_region s a b flags =
     (case current_task s of None \<Rightarrow> s
      | Some c \<Rightarrow> (case vm_region_add (vm_regions (task_pool s ! c)) a b flags of None \<Rightarrow> s
                  | Some rs \<Rightarrow> upd_task s c (vm_regions_update (\<lambda>_. rs))))"

text \<open>
  Why a program is not loaded. All but the last two are a return value of -1; \<open>Copy_overrun\<close> is a file whose
  recorded length is negative, which \<^verbatim>\<open>fs_cat\<close> copies without end, and \<open>Zeroed_overflow\<close> the write past the end
  of \<^verbatim>\<open>pages_zeroed\<close>: neither has a defined continuation.
\<close>

datatype load_error = No_memory | No_file | Bad_header | No_frame | Map_failed | Supervisor_area
  | Zeroed_overflow | Copy_overrun

text \<open>A loop whose body can leave it with an error.\<close>

primrec each :: "('a \<Rightarrow> 's \<Rightarrow> 's \<times> 'e option) \<Rightarrow> 'a list \<Rightarrow> 's \<Rightarrow> 's \<times> 'e option" where
  "each f [] s = (s, None)"
| "each f (x # xs) s = (case f x s of (s, None) \<Rightarrow> each f xs s | (s, Some e) \<Rightarrow> (s, Some e))"

text \<open>The loop over the program headers, which reads \<^verbatim>\<open>ehdr->e_phnum\<close> again before every round.\<close>

function segments :: "('s \<Rightarrow> u16) \<Rightarrow> (nat \<Rightarrow> 's \<Rightarrow> 's \<times> 'e option) \<Rightarrow> nat \<Rightarrow> 's \<Rightarrow> 's \<times> 'e option" where
  "segments phnum f i s =
     (if i < unat (phnum s) then
        (case f i s of (s, None) \<Rightarrow> segments phnum f (Suc i) s | (s, Some e) \<Rightarrow> (s, Some e))
      else (s, None))"
  by pat_completeness auto
termination
proof (relation "measure (\<lambda>(phnum, f, i, s). 65536 - i)")
  fix phnum :: "'s \<Rightarrow> u16" and i :: nat and s
  assume "i < unat (phnum s)"
  moreover have "unat (phnum s) < 65536" using unsigned_less [of "phnum s"] by simp
  ultimately show "((phnum, f, Suc i, s'), phnum, f, i, s) \<in> measure (\<lambda>(phnum, f, i, s). 65536 - i)" for f s' by simp
qed simp

definition copy_size :: "u64 \<Rightarrow> u64 \<Rightarrow> u64" where
  "copy_size filesz copy_offset = (if copy_offset + 4096 > filesz then filesz - copy_offset else 4096)"

definition load_frame :: "u64 \<Rightarrow> u64 \<Rightarrow> u64 \<Rightarrow> nat \<Rightarrow> kmem \<Rightarrow> kmem \<times> load_error option" where
  "load_frame pml4_phys page src n k =
     (let (k, page_phys) = memory_alloc_page k in
      if page_phys = 0 then (k, Some No_frame)
      else (let k = k\<lparr>phys := memory_copy (phys k) page_phys src n\<rparr>;
                (k, res) = paging_map_4kb k pml4_phys page page_phys (PAGE_PRESENT OR PAGE_RW OR PAGE_USER)
            in (k, if res < 0 then Some Map_failed else None)))"

definition load_page :: "u64 \<Rightarrow> u64 \<Rightarrow> Elf64_Phdr \<Rightarrow> u64 \<Rightarrow> u64 \<Rightarrow> sys \<Rightarrow> sys \<times> load_error option" where
  "load_page pml4_phys buf phdr seg_end page s =
     (let vaddr = p_vaddr phdr; filesz = p_filesz phdr in
      if page < vaddr + filesz then
        (let copy_offset = (if page < vaddr then 0 else page - vaddr);
             (k, e) = load_frame pml4_phys page (buf + p_offset phdr + copy_offset) (unat (copy_size filesz copy_offset)) (mem s)
         in (s\<lparr>mem := k\<rparr>, e))
      else (let bss_end = (if page + 0x1000 > seg_end then seg_end else page + 0x1000)
            in (add_region s page bss_end (PAGE_USER OR PAGE_RW), None)))"

definition load_segment :: "u64 \<Rightarrow> u64 \<Rightarrow> Elf64_Phdr \<Rightarrow> sys \<Rightarrow> sys \<times> load_error option" where
  "load_segment pml4_phys buf phdr s =
     (if p_type phdr \<noteq> PT_LOAD \<or> p_memsz phdr = 0 then (s, None)
      else (let base = p_vaddr phdr AND NOT 0xFFF; seg_end = (p_vaddr phdr + p_memsz phdr + 0xFFF) AND NOT 0xFFF
            in each (load_page pml4_phys buf phdr seg_end) (steps base seg_end 0x1000) s))"

definition add_stack :: "u64 \<Rightarrow> sys \<Rightarrow> sys" where
  "add_stack pml4_phys s =
     (let s = add_region s 0x500000 0x510000 (PAGE_USER OR PAGE_RW)
      in s\<lparr>mem := fold (\<lambda>page k. paging_unmap_4kb k pml4_phys page) (steps 0x500000 0x510000 0x1000) (mem s)\<rparr>)"

definition map_segments :: "u64 \<Rightarrow> u64 \<Rightarrow> sys \<Rightarrow> sys \<times> load_error option" where
  "map_segments pml4_phys buf s =
     (let phdr = buf + e_phoff (ehdr_at (phys (mem s)) buf);
          s = (case get_current_task s of None \<Rightarrow> s | Some c \<Rightarrow> upd_task s c (vm_regions_update (\<lambda>_. vm_region_init)))
      in case segments (\<lambda>s. e_phnum (ehdr_at (phys (mem s)) buf))
             (\<lambda>i s. load_segment pml4_phys buf (phdr_at (phys (mem s)) (phdr + 56 * of_nat i)) s) 0 s of
           (s, Some e) \<Rightarrow> (s, Some e)
         | (s, None) \<Rightarrow> (add_stack pml4_phys s, None))"

text \<open>A call into the file system, which allocates its buffers on the kernel heap.\<close>

definition with_fs :: "('d fsys \<Rightarrow> 'd fsys \<times> 'r) \<Rightarrow> sys \<times> 'd fsys \<Rightarrow> (sys \<times> 'd fsys) \<times> 'r" where
  "with_fs f = (\<lambda>(s, fs). let (fs, r) = f (fs\<lparr>fs_heap := heap_blocks (mem s)\<rparr>)
     in ((s\<lparr>mem := (mem s)\<lparr>heap_blocks := fs_heap fs\<rparr>\<rparr>, fs), r))"

definition free_buf :: "u64 \<Rightarrow> sys \<Rightarrow> sys" where
  "free_buf p s = s\<lparr>mem := (mem s)\<lparr>heap_blocks := memory_free (heap_blocks (mem s)) p\<rparr>\<rparr>"

definition elf_load_into_address_space ::
  "'d disk_ops \<Rightarrow> u64 \<Rightarrow> bytes \<Rightarrow> sys \<times> 'd fsys \<Rightarrow> (sys \<times> 'd fsys) \<times> (load_error + u64)" where
  "elf_load_into_address_space D pml4_phys filename = (\<lambda>(s, fs).
     let (h, buf) = memory_alloc (heap_blocks (mem s)) ELF_BUF_SIZE;
         s = s\<lparr>mem := (mem s)\<lparr>heap_blocks := h\<rparr>\<rparr>
     in if buf = 0 then ((s, fs), Inl No_memory)
        else (case with_fs (fs_cat D filename (uint ELF_BUF_SIZE)) (s, fs) of
            ((s, fs), None) \<Rightarrow> ((s, fs), Inl Copy_overrun)
          | ((s, fs), Some (n, out)) \<Rightarrow>
              (let s = s\<lparr>mem := (mem s)\<lparr>phys := put_bytes (phys (mem s)) buf out\<rparr>\<rparr>;
                   ehdr = ehdr_at (phys (mem s)) buf
               in if n \<le> 0 then ((free_buf buf s, fs), Inl No_file)
                  else if \<not> elf_ok ehdr then ((free_buf buf s, fs), Inl Bad_header)
                  else (case map_segments pml4_phys buf s of
                      (s, Some e) \<Rightarrow> ((free_buf buf s, fs), Inl e)
                    | (s, None) \<Rightarrow> ((free_buf buf s, fs), Inr (e_entry ehdr))))))"

subsection \<open>Loading into the kernel's address space\<close>

text \<open>
  \<^verbatim>\<open>elf_load\<close> places a program at its own addresses, in 2 MB pages mapped one to one. The array
  \<^verbatim>\<open>pages_zeroed\<close> has 16 slots and the loop does not check them.
\<close>

definition load_2mb :: "u64 \<Rightarrow> kmem \<times> u64 list \<Rightarrow> (kmem \<times> u64 list) \<times> load_error option" where
  "load_2mb page = (\<lambda>(k, pages_zeroed).
     (let (k, e) = (if memory_get_flags k page = 0 then
                      (let (k, r) = memory_map_2mb k page page (PAGE_PRESENT OR PAGE_RW OR PAGE_USER)
                       in (k, if r < 0 then Some Map_failed else None))
                    else (k, if memory_get_flags k page AND PAGE_USER = 0 then Some Supervisor_area else None))
      in if e \<noteq> None then ((k, pages_zeroed), e)
         else if page \<in> set pages_zeroed then ((k, pages_zeroed), None)
         else if length pages_zeroed \<ge> 16 then ((k, pages_zeroed), Some Zeroed_overflow)
         else ((k\<lparr>phys := memory_set (phys k) page 0 0x200000\<rparr>, pages_zeroed @ [page]), None)))"

definition load_segment_2mb :: "u64 \<Rightarrow> u64 \<Rightarrow> nat \<Rightarrow> kmem \<times> u64 list \<Rightarrow> (kmem \<times> u64 list) \<times> load_error option" where
  "load_segment_2mb data phdrs i = (\<lambda>(k, pages_zeroed).
     (let phdr = phdr_at (phys k) (phdrs + 56 * of_nat i);
          vaddr = p_vaddr phdr;
          base = vaddr AND NOT 0x1FFFFF; seg_end = (vaddr + p_memsz phdr + 0x1FFFFF) AND NOT 0x1FFFFF
      in if p_type phdr \<noteq> PT_LOAD \<or> p_memsz phdr = 0 then ((k, pages_zeroed), None)
         else (case each load_2mb (steps base seg_end 0x200000) (k, pages_zeroed) of
                 ((k, pages_zeroed), Some e) \<Rightarrow> ((k, pages_zeroed), Some e)
               | ((k, pages_zeroed), None) \<Rightarrow>
                   ((k\<lparr>phys := memory_copy (phys k) vaddr (data + p_offset phdr) (unat (p_filesz phdr))\<rparr>, pages_zeroed), None))))"

definition elf_load :: "u64 \<Rightarrow> kmem \<Rightarrow> kmem \<times> (load_error + u64)" where
  "elf_load data k =
     (let ehdr = ehdr_at (phys k) data in
      if \<not> elf_ok ehdr then (k, Inl Bad_header)
      else (case segments (\<lambda>(k, pages_zeroed). e_phnum (ehdr_at (phys k) data))
                   (load_segment_2mb data (data + e_phoff ehdr)) 0 (k, []) of
              ((k, pages_zeroed), Some e) \<Rightarrow> (k, Inl e)
            | ((k, pages_zeroed), None) \<Rightarrow> (k, Inr (e_entry ehdr))))"

declare segments.simps [simp del]

subsection \<open>A segment in memory\<close>

text \<open>
  \<open>shows_page k T c page img\<close>: the page is mapped to a frame that is neither free nor a table and
  holds the bytes \<open>img\<close>.
\<close>

definition shows_page :: "kmem \<Rightarrow> (u64 \<Rightarrow> nat) \<Rightarrow> u64 \<Rightarrow> u64 \<Rightarrow> (nat \<Rightarrow> u8) \<Rightarrow> bool" where
  "shows_page k T c page img \<longleftrightarrow> (\<exists>p. (\<forall>w. same_page page w \<longrightarrow> map_option fst (mmu k c w) = Some (p + (w AND 0xFFF))) \<and>
     (\<forall>i < 4096. data_at k T (p + of_nat i) \<and> phys k (p + of_nat i) = img i))"

text \<open>A step from \<open>k\<close> to \<open>k'\<close> that keeps the tree, the data in memory and the pages outside \<open>P\<close>.\<close>

definition maps_only :: "u64 \<Rightarrow> (u64 \<Rightarrow> bool) \<Rightarrow> kmem \<Rightarrow> (u64 \<Rightarrow> nat) \<Rightarrow> kmem \<Rightarrow> (u64 \<Rightarrow> nat) \<Rightarrow> bool" where
  "maps_only c P k T k' T' \<longleftrightarrow> frames_ok k' \<and> pt_tree k' T' \<and> T' c = 4 \<and>
     (\<forall>a. data_at k T a \<longrightarrow> data_at k' T' a \<and> phys k' a = phys k a) \<and> (\<forall>w. \<not> P w \<longrightarrow> mmu k' c w = mmu k c w)"

lemma maps_onlyD:
  assumes "maps_only c P k T k' T'"
  shows "frames_ok k'" "pt_tree k' T'" "T' c = 4" "data_at k T a \<Longrightarrow> data_at k' T' a" "data_at k T a \<Longrightarrow> phys k' a = phys k a"
    "\<not> P w \<Longrightarrow> mmu k' c w = mmu k c w"
  using assms by (simp_all add: maps_only_def)

lemma maps_only_refl: "frames_ok k \<Longrightarrow> pt_tree k T \<Longrightarrow> T c = 4 \<Longrightarrow> maps_only c P k T k T"
  by (simp add: maps_only_def)

lemma maps_only_trans:
  "maps_only c P k T k' T' \<Longrightarrow> maps_only c Q k' T' k'' T'' \<Longrightarrow> (\<And>w. P w \<or> Q w \<Longrightarrow> R w) \<Longrightarrow> maps_only c R k T k'' T''"
  unfolding maps_only_def by metis

lemma same_page_trans: "same_page u v \<Longrightarrow> same_page v w \<Longrightarrow> same_page u w"
  by (simp add: same_page_def)

lemma same_page_sym: "same_page u v \<longleftrightarrow> same_page v u"
  by (auto simp: same_page_def)

lemma shows_page_maps_only:
  assumes "shows_page k T c page img" "maps_only c P k T k' T'" "\<And>w. same_page page w \<Longrightarrow> \<not> P w"
  shows "shows_page k' T' c page img"
proof -
  obtain p where p: "\<And>w. same_page page w \<Longrightarrow> map_option fst (mmu k c w) = Some (p + (w AND 0xFFF))"
      "\<And>i. i < 4096 \<Longrightarrow> data_at k T (p + of_nat i) \<and> phys k (p + of_nat i) = img i"
    using assms(1) by (auto simp: shows_page_def)
  have "map_option fst (mmu k' c w) = Some (p + (w AND 0xFFF))" if "same_page page w" for w
    using p(1) [OF that] maps_onlyD(6) [OF assms(2) assms(3) [OF that]] by simp
  moreover have "data_at k' T' (p + of_nat i) \<and> phys k' (p + of_nat i) = img i" if "i < 4096" for i
    using p(2) [OF that] maps_onlyD(4,5) [OF assms(2)] by simp
  ultimately show ?thesis by (auto simp: shows_page_def)
qed

text \<open>A frame filled from memory that is in use.\<close>

lemma fill_frame:
  assumes ok: "frames_ok k" and tree: "pt_tree k T" and al: "memory_alloc_page k = (k1, p)" "p \<noteq> 0"
    and n: "n \<le> 4096" and src: "\<And>i. i < n \<Longrightarrow> data_at k T (src + of_nat i)"
    and k2: "k2 = k1\<lparr>phys := memory_copy (phys k1) p src n\<rparr>"
  shows "pt_extends k T k2 T" and "i < 4096 \<Longrightarrow> data_at k2 T (p + of_nat i)"
    and "i < 4096 \<Longrightarrow> phys k2 (p + of_nat i) = (if i < n then phys k (src + of_nat i) else 0)"
proof -
  note A = alloc_page_tree [OF ok tree al] and D = memory_alloc_pageD [OF ok al]
  have src': "\<not> unat (src + of_nat i - p) < 4096" if "i < n" for i
    using alloc_page_data(2) [OF ok al] src [OF that] by (simp add: data_at_def)
  have copy: "phys k2 a = (if unat (a - p) < n then phys k1 (src + (a - p)) else phys k1 a)" for a
  proof -
    have "\<not> unat (x - p) < n" if "unat (x - src) < n" for x using src' [OF that] n by simp
    then show ?thesis using memory_copy_eq [of n src p "phys k1"] n by (simp add: k2)
  qed
  have out: "phys k2 a = phys k a" if "\<not> unat (a - p) < 4096" for a using that copy [of a] D(6) n by simp
  show "pt_extends k T k2 T"
  proof (rule pt_extends_tabs [OF tree])
    show "frames_ok k2" using A(4) by (simp add: k2 frames_ok_def)
    show "free_frame k s" if "free_frame k2 s" for s using that A(5) by (simp add: k2 free_frame_def)
    show "tab (phys k2) s j = tab (phys k) s j" if "T s \<noteq> 0" "j < 512" for s j
    proof (rule tab_outside [OF _ A(2) _ that(2) out])
      show "aligned s" using that(1) pt_treeD(1) [OF tree, of s] by (cases "T s") auto
      show "s \<noteq> p" using that(1) A(1) by auto
    qed
    show "phys k2 a = phys k a" if "data_at k T a" for a
      using that alloc_page_data(2) [OF ok al] by (intro out) (simp add: data_at_def)
  qed
  assume i: "i < 4096"
  then have pi: "unat (p + of_nat i - p) = i" by (simp add: unat_of_nat_small)
  have "\<not> unat (p + of_nat i - t) < 4096" if "T t \<noteq> 0" for t
  proof
    assume "unat (p + of_nat i - t) < 4096"
    moreover have "aligned t" using that pt_treeD(1) [OF tree, of t] by (cases "T t") auto
    ultimately have "p = t" using aligned_page_overlap [OF A(2) _ _ i] by blast
    then show False using that A(1) by simp
  qed
  moreover have "\<not> free_frame k2 (p + of_nat i)" using D(7) [of "p + of_nat i"] pi i by (simp add: k2 free_frame_def)
  ultimately show "data_at k2 T (p + of_nat i)" by (simp add: data_at_def)
  have "phys k1 (src + of_nat i) = phys k (src + of_nat i)" if "i < n"
    using D(6) src' [OF that] by simp
  then show "phys k2 (p + of_nat i) = (if i < n then phys k (src + of_nat i) else 0)"
    using copy [of "p + of_nat i"] pi i D(6) [of "p + of_nat i"] by simp
qed

lemma load_frame_shows:
  assumes ok: "frames_ok k" and tree: "pt_tree k T" and c: "T c = 4"
    and n: "n \<le> 4096" and src: "\<And>i. i < n \<Longrightarrow> data_at k T (src + of_nat i)"
    and l: "load_frame c page src n k = (k', e)"
  shows "\<exists>T'. maps_only c (same_page page) k T k' T' \<and>
    (if e = None then shows_page k' T' c page (\<lambda>i. if i < n then phys k (src + of_nat i) else 0)
     else page_alloc_end k' \<le> page_alloc_cur k')"
proof -
  obtain k1 p where al: "memory_alloc_page k = (k1, p)" by force
  show ?thesis
  proof (cases "p = 0")
    case True
    then have "k' = k" "e = Some No_frame" "page_alloc_end k \<le> page_alloc_cur k"
      using l al memory_alloc_page_zero [OF ok, of k1] by (simp_all add: load_frame_def)
    then show ?thesis using maps_only_refl [OF ok tree c] by auto
  next
    case False
    define k2 where "k2 = k1\<lparr>phys := memory_copy (phys k1) p src n\<rparr>"
    note F = fill_frame [OF ok tree al False n src k2_def]
    obtain r where m: "paging_map_4kb k2 c page p (PAGE_PRESENT OR PAGE_RW OR PAGE_USER) = (k', r)"
        "e = (if r < 0 then Some Map_failed else None)"
      using l al False by (auto simp: load_frame_def k2_def Let_def split: prod.splits)
    have E: "frames_ok k2" "pt_tree k2 T" using F(1) by (simp_all add: pt_extends_def)
    have "aligned p" using alloc_page_tree(2) [OF ok tree al False] .
    from paging_map_4kb_maps [OF E c m(1) this] obtain T' where
      T': "frames_ok k'" "pt_tree k' T'" "T' c = 4" "\<forall>a. data_at k2 T a \<longrightarrow> data_at k' T' a \<and> phys k' a = phys k2 a"
      and r: "if r = 0 then (\<forall>w. same_page page w \<longrightarrow> map_option fst (mmu k' c w) = Some (p + (w AND 0xFFF))) \<and>
          (\<forall>w. \<not> same_page page w \<longrightarrow> mmu k' c w = mmu k2 c w)
        else r = -1 \<and> page_alloc_end k' \<le> page_alloc_cur k' \<and> (\<forall>w. mmu k' c w = mmu k2 c w)"
      by (auto split: if_splits)
    have "maps_only c (same_page page) k T k' T'"
      using T' r pt_extends_data [OF F(1)] mmu_extends [OF F(1) c] by (auto simp: maps_only_def split: if_splits)
    moreover have "shows_page k' T' c page (\<lambda>i. if i < n then phys k (src + of_nat i) else 0)" if "r = 0"
      unfolding shows_page_def using r that T'(4) F(2,3) by (intro exI [of _ p]) simp
    ultimately show ?thesis using r m(2) by (intro exI [of _ T']) (auto split: if_splits)
  qed
qed

lemma load_pages_show:
  fixes phdr :: Elf64_Phdr and img :: "u64 \<Rightarrow> nat \<Rightarrow> u8" and buf :: u64
  defines "data \<equiv> \<lambda>page. page < p_vaddr phdr + p_filesz phdr"
    and "src \<equiv> \<lambda>page. buf + p_offset phdr + (if page < p_vaddr phdr then 0 else page - p_vaddr phdr)"
    and "len \<equiv> \<lambda>page. unat (copy_size (p_filesz phdr) (if page < p_vaddr phdr then 0 else page - p_vaddr phdr))"
  assumes "frames_ok (mem s)" "pt_tree (mem s) T" "T c = 4"
    and "distinct xs" "\<And>x y. x \<in> set xs \<Longrightarrow> y \<in> set xs \<Longrightarrow> same_page x y \<Longrightarrow> x = y"
    and "\<And>x. x \<in> set xs \<Longrightarrow> data x \<Longrightarrow> len x \<le> 4096"
    and "\<And>x i. x \<in> set xs \<Longrightarrow> data x \<Longrightarrow> i < len x \<Longrightarrow>
      data_at (mem s) T (src x + of_nat i) \<and> phys (mem s) (src x + of_nat i) = img x i"
    and "\<And>x i. x \<in> set xs \<Longrightarrow> \<not> i < len x \<Longrightarrow> img x i = 0"
    and "each (load_page c buf phdr seg_end) xs s = (s', e)"
  shows "\<exists>T'. maps_only c (\<lambda>w. \<exists>x \<in> set xs. data x \<and> same_page x w) (mem s) T (mem s') T' \<and>
    (if e = None then \<forall>x \<in> set xs. data x \<longrightarrow> shows_page (mem s') T' c x (img x)
     else page_alloc_end (mem s') \<le> page_alloc_cur (mem s'))"
  using assms(4-)
proof (induction xs arbitrary: s T)
  case Nil
  then show ?case using maps_only_refl [of "mem s" T c] by auto
next
  case (Cons x xs)
  let ?P = "\<lambda>xs w. \<exists>x \<in> set xs. data x \<and> same_page x w"
  obtain s1 e1 where l: "load_page c buf phdr seg_end x s = (s1, e1)" by force
  have step: "\<exists>T1. maps_only c (\<lambda>w. data x \<and> same_page x w) (mem s) T (mem s1) T1 \<and>
    (if e1 = None then data x \<longrightarrow> shows_page (mem s1) T1 c x (img x)
     else page_alloc_end (mem s1) \<le> page_alloc_cur (mem s1))"
  proof (cases "data x")
    case True
    have f: "load_frame c x (src x) (len x) (mem s) = (mem s1, e1)"
      using l True by (auto simp: load_page_def data_def src_def len_def Let_def split: prod.splits)
    have img: "(\<lambda>i. if i < len x then phys (mem s) (src x + of_nat i) else 0) = img x"
      using Cons.prems(7,8) [of x] True by auto
    from load_frame_shows [OF Cons.prems(1-3) _ _ f] Cons.prems(6,7) [of x] True
    show ?thesis unfolding img by (cases e1) auto
  next
    case False
    then have "mem s1 = mem s" "e1 = None"
      using l by (auto simp: load_page_def data_def add_region_def upd_task_def Let_def split: option.splits)
    then show ?thesis using maps_only_refl [OF Cons.prems(1-3)] False by auto
  qed
  then obtain T1 where T1: "maps_only c (\<lambda>w. data x \<and> same_page x w) (mem s) T (mem s1) T1"
      "e1 = None \<Longrightarrow> data x \<Longrightarrow> shows_page (mem s1) T1 c x (img x)"
      "e1 \<noteq> None \<Longrightarrow> page_alloc_end (mem s1) \<le> page_alloc_cur (mem s1)" by (auto split: if_splits)
  show ?case
  proof (cases e1)
    case (Some a)
    then have "s' = s1" "e = Some a" using Cons.prems(9) l by simp_all
    moreover have "maps_only c (?P (x # xs)) (mem s) T (mem s1) T1" using T1(1) by (auto simp: maps_only_def)
    ultimately show ?thesis using T1(3) Some by auto
  next
    case None
    note D = maps_onlyD [OF T1(1)]
    have "\<exists>T'. maps_only c (?P xs) (mem s1) T1 (mem s') T' \<and>
      (if e = None then \<forall>x \<in> set xs. data x \<longrightarrow> shows_page (mem s') T' c x (img x)
       else page_alloc_end (mem s') \<le> page_alloc_cur (mem s'))"
    proof (rule Cons.IH [OF D(1-3)])
      show "data_at (mem s1) T1 (src y + of_nat i) \<and> phys (mem s1) (src y + of_nat i) = img y i"
        if "y \<in> set xs" "data y" "i < len y" for y i
        using Cons.prems(7) [of y i] that D(4,5) [of "src y + of_nat i"] by simp
    qed (use Cons.prems l None in auto)
    then obtain T' where T': "maps_only c (?P xs) (mem s1) T1 (mem s') T'"
        "e = None \<Longrightarrow> \<forall>x \<in> set xs. data x \<longrightarrow> shows_page (mem s') T' c x (img x)"
        "e \<noteq> None \<Longrightarrow> page_alloc_end (mem s') \<le> page_alloc_cur (mem s')" by (auto split: if_splits)
    have "maps_only c (?P (x # xs)) (mem s) T (mem s') T'" by (rule maps_only_trans [OF T1(1) T'(1)]) auto
    moreover have "shows_page (mem s') T' c x (img x)" if "data x"
    proof (rule shows_page_maps_only [OF T1(2) [OF None that] T'(1)])
      fix w assume w: "same_page x w"
      show "\<not> ?P xs w"
      proof
        assume "?P xs w"
        then obtain y where y: "y \<in> set xs" "same_page y w" by blast
        then have "same_page x y" using w same_page_trans same_page_sym by blast
        then show False using y(1) Cons.prems(4,5) by auto
      qed
    qed
    ultimately show ?thesis using T'(2,3) by auto
  qed
qed

lemma word_nat_cast: "of_nat (unat w) = (w :: u64)"
  by simp

lemma unat_frame_of: "unat (frame_of x) = 4096 * (unat x div 4096)"
proof -
  have "x = frame_of x OR take_bit 12 x"
    by (rule bit_word_eqI) (auto simp: bit_or_iff bit_frame_of bit_take_bit_iff not_less)
  also have "\<dots> = frame_of x + take_bit 12 x"
    by (rule disjunctive_add [symmetric]) (auto simp: bit_frame_of bit_take_bit_iff)
  finally have x: "x = frame_of x + of_nat (unat x mod 4096)"
    by (metis unat_take_bit_12 word_nat_cast)
  have dvd: "4096 dvd unat (frame_of x)" using frame_of_aligned [of x] by (simp only: aligned_dvd)
  have "unat x = unat (frame_of x) + unat x mod 4096"
    using arg_cong [OF x, of unat] unat_aligned_add [of 12 "frame_of x" "unat x mod 4096"] dvd by simp
  then show ?thesis using dvd by (metis add_diff_cancel_right' minus_mod_eq_mult_div)
qed

lemma frame_of_id: "aligned t \<Longrightarrow> frame_of t = t"
  using frame_of_or [of t 0] by simp

lemma same_page_unat:
  assumes "unat v < 2 ^ 48" "unat w < 2 ^ 48"
  shows "same_page v w \<longleftrightarrow> unat v div 4096 = unat w div 4096"
proof -
  have "unat (take_bit 36 (drop_bit 12 x)) = unat x div 4096" if "unat x < 2 ^ 48" for x :: u64
    using that by (simp add: take_bit_eq_mod drop_bit_eq_div unat_mod unat_div less_mult_imp_div_less)
  then show ?thesis using assms by (simp only: same_page_def word_unat_eq_iff)
qed

lemma low12_unat: "w AND 0xFFF = (of_nat (unat w mod 4096) :: u64)"
  by (metis mask_12 take_bit_eq_mask unat_take_bit_12 word_nat_cast)

text \<open>A segment as the loader means it: it starts on a page, in the lower half of the address space.\<close>

definition seg_placed :: "Elf64_Phdr \<Rightarrow> bool" where
  "seg_placed phdr \<longleftrightarrow> p_type phdr = PT_LOAD \<and> aligned (p_vaddr phdr) \<and> 0 < p_memsz phdr \<and> p_filesz phdr \<le> p_memsz phdr \<and>
     unat (p_vaddr phdr) + unat (p_memsz phdr) + 0x1000 \<le> 2 ^ 47"

abbreviation seg_page :: "Elf64_Phdr \<Rightarrow> nat \<Rightarrow> u64" where
  "seg_page phdr i \<equiv> p_vaddr phdr + 0x1000 * of_nat i"

lemma seg_offset:
  assumes "seg_placed phdr" "n < unat (p_memsz phdr) + 0x1000"
  shows "unat (p_vaddr phdr + of_nat n) = unat (p_vaddr phdr) + n" "unat (p_vaddr phdr + of_nat n) < 2 ^ 48"
proof -
  have "unat (p_vaddr phdr) + n < 2 ^ 47" using assms by (simp add: seg_placed_def)
  then show "unat (p_vaddr phdr + of_nat n) = unat (p_vaddr phdr) + n" "unat (p_vaddr phdr + of_nat n) < 2 ^ 48"
    by (simp_all add: unat_word_ariths unat_of_nat_small)
qed

lemma seg_page_unat:
  assumes "seg_placed phdr" "4096 * i < unat (p_memsz phdr) + 0x1000"
  shows "unat (seg_page phdr i) = unat (p_vaddr phdr) + 4096 * i" "unat (seg_page phdr i) < 2 ^ 48"
  using seg_offset [OF assms] by (simp_all add: mult.commute)

lemma seg_steps:
  assumes "seg_placed phdr"
  shows "steps (p_vaddr phdr AND NOT 0xFFF) ((p_vaddr phdr + p_memsz phdr + 0xFFF) AND NOT 0xFFF) 0x1000 =
    map (seg_page phdr) [0..<(unat (p_memsz phdr) + 4095) div 4096]"
proof -
  let ?v = "p_vaddr phdr" and ?m = "unat (p_memsz phdr)"
  obtain q where q: "unat ?v = 4096 * q" using assms by (auto simp: seg_placed_def aligned_dvd elim: dvdE)
  have m: "0 < ?m" using assms by (simp add: seg_placed_def word_less_nat_alt)
  have b: "frame_of ?v = ?v" using frame_of_id assms by (simp add: seg_placed_def)
  have "?v + p_memsz phdr + 0xFFF = ?v + of_nat (?m + 4095)" by (simp add: algebra_simps)
  also have "unat \<dots> = unat ?v + (?m + 4095)" by (rule seg_offset(1) [OF assms]) simp
  finally have "unat (?v + p_memsz phdr + 0xFFF) = unat ?v + (?m + 4095)" .
  then have e: "unat (frame_of (?v + p_memsz phdr + 0xFFF)) = unat ?v + 4096 * ((?m + 4095) div 4096)"
    by (simp add: unat_frame_of q)
  let ?e = "frame_of (?v + p_memsz phdr + 0xFFF)"
  have lt: "?v < ?e" using e m by (simp add: word_less_nat_alt)
  then have "unat (?e - ?v) = 4096 * ((?m + 4095) div 4096)" using e by (simp add: unat_sub less_imp_le)
  then have "unat ((?e - ?v) div 0x1000) = (?m + 4095) div 4096" by (simp add: unat_div)
  then show ?thesis unfolding frame_of_def [symmetric] steps_def b using lt by simp
qed

abbreviation filesz :: "Elf64_Phdr \<Rightarrow> nat" where
  "filesz phdr \<equiv> unat (p_filesz phdr)"

abbreviation seg_pages :: "Elf64_Phdr \<Rightarrow> u64 list" where
  "seg_pages phdr \<equiv> map (seg_page phdr) [0..<(unat (p_memsz phdr) + 4095) div 4096]"

text \<open>The bytes of the page at \<open>x\<close>: what the file has for it, then zeros.\<close>

definition page_len :: "Elf64_Phdr \<Rightarrow> u64 \<Rightarrow> nat" where
  "page_len phdr x = unat (copy_size (p_filesz phdr) (x - p_vaddr phdr))"

definition page_image :: "memory \<Rightarrow> u64 \<Rightarrow> Elf64_Phdr \<Rightarrow> u64 \<Rightarrow> nat \<Rightarrow> u8" where
  "page_image m buf phdr x i = (if i < page_len phdr x then m (buf + p_offset phdr + (x - p_vaddr phdr) + of_nat i) else 0)"

lemma seg_filesz: "seg_placed phdr \<Longrightarrow> filesz phdr \<le> unat (p_memsz phdr)"
  by (simp add: seg_placed_def word_le_nat_alt)

lemma seg_page_less: "i < (unat (p_memsz phdr) + 4095) div 4096 \<Longrightarrow> 4096 * i < unat (p_memsz phdr) + 0x1000"
  by linarith

lemma seg_page_data:
  assumes "seg_placed phdr" "4096 * i < unat (p_memsz phdr) + 0x1000"
  shows "seg_page phdr i < p_vaddr phdr + p_filesz phdr \<longleftrightarrow> 4096 * i < filesz phdr" "\<not> seg_page phdr i < p_vaddr phdr"
  using seg_offset(1) [OF assms(1), of "filesz phdr"] seg_page_unat(1) [OF assms] seg_filesz [OF assms(1)]
  by (simp_all add: word_less_nat_alt)

lemma seg_page_len:
  assumes "seg_placed phdr" "4096 * i < filesz phdr"
  shows "page_len phdr (seg_page phdr i) = min 4096 (filesz phdr - 4096 * i)"
proof -
  have "4096 * i + 4096 < 2 ^ 48" using assms(2) seg_filesz [OF assms(1)] assms(1) by (simp add: seg_placed_def)
  then have "unat (of_nat (4096 * i) :: u64) = 4096 * i" "unat (of_nat (4096 * i + 4096) :: u64) = 4096 * i + 4096"
    by (intro unat_of_nat_small; simp)+
  then have "unat (0x1000 * of_nat i :: u64) = 4096 * i" "unat (0x1000 * of_nat i + 4096 :: u64) = 4096 * i + 4096"
    by (simp_all add: add.commute)
  then show ?thesis
    using assms(2) by (auto simp: page_len_def copy_size_def word_less_nat_alt unat_sub word_le_nat_alt)
qed

lemma seg_pages_apart:
  assumes "seg_placed phdr" "same_page (seg_page phdr i) (seg_page phdr j)"
    "4096 * i < unat (p_memsz phdr) + 0x1000" "4096 * j < unat (p_memsz phdr) + 0x1000"
  shows "i = j"
  using assms seg_page_unat [OF assms(1,3)] seg_page_unat [OF assms(1,4)]
  by (auto simp: same_page_unat seg_placed_def aligned_dvd elim!: dvdE)

lemma load_segment_pages:
  assumes "frames_ok (mem s)" "pt_tree (mem s) T" "T c = 4" and seg: "seg_placed phdr"
    and buf: "\<forall>i < filesz phdr. data_at (mem s) T (buf + p_offset phdr + of_nat i)"
    and load: "load_segment c buf phdr s = (s', e)"
  shows "\<exists>T'. maps_only c (\<lambda>w. \<exists>x \<in> set (seg_pages phdr). x < p_vaddr phdr + p_filesz phdr \<and> same_page x w) (mem s) T (mem s') T' \<and>
    (if e = None then \<forall>x \<in> set (seg_pages phdr). x < p_vaddr phdr + p_filesz phdr \<longrightarrow>
       shows_page (mem s') T' c x (page_image (phys (mem s)) buf phdr x)
     else page_alloc_end (mem s') \<le> page_alloc_cur (mem s'))"
proof -
  have "p_type phdr = PT_LOAD" "p_memsz phdr \<noteq> 0" using seg by (auto simp: seg_placed_def)
  then have l: "each (load_page c buf phdr ((p_vaddr phdr + p_memsz phdr + 0xFFF) AND NOT 0xFFF)) (seg_pages phdr) s = (s', e)"
    using load unfolding load_segment_def Let_def seg_steps [OF seg] by simp
  note apart = seg_pages_apart [OF seg _ seg_page_less seg_page_less]
  show ?thesis
  proof (rule load_pages_show [OF assms(1-3) _ _ _ _ _ l])
    show "distinct (seg_pages phdr)" using apart by (auto simp: distinct_map inj_on_def)
    show "x = y" if "x \<in> set (seg_pages phdr)" "y \<in> set (seg_pages phdr)" "same_page x y" for x y
      using that by (auto dest!: apart)
    fix x assume "x \<in> set (seg_pages phdr)"
    then obtain j where j: "x = seg_page phdr j" "4096 * j < unat (p_memsz phdr) + 0x1000" using seg_page_less by auto
    have nx: "(if x < p_vaddr phdr then 0 else x - p_vaddr phdr) = x - p_vaddr phdr"
      using seg_page_data(2) [OF seg j(2)] j(1) by simp
    show "unat (copy_size (p_filesz phdr) (if x < p_vaddr phdr then 0 else x - p_vaddr phdr)) \<le> 4096"
      if "x < p_vaddr phdr + p_filesz phdr"
    proof -
      have "page_len phdr x \<le> 4096" using that seg_page_len [OF seg, of j] seg_page_data(1) [OF seg j(2)] j(1) by simp
      then show ?thesis unfolding nx page_len_def .
    qed
    show "page_image (phys (mem s)) buf phdr x n = 0"
      if "\<not> n < unat (copy_size (p_filesz phdr) (if x < p_vaddr phdr then 0 else x - p_vaddr phdr))" for n
      using that unfolding nx page_len_def [symmetric] by (simp add: page_image_def)
    show "data_at (mem s) T (buf + p_offset phdr + (if x < p_vaddr phdr then 0 else x - p_vaddr phdr) + of_nat n) \<and>
        phys (mem s) (buf + p_offset phdr + (if x < p_vaddr phdr then 0 else x - p_vaddr phdr) + of_nat n) =
          page_image (phys (mem s)) buf phdr x n"
      if "x < p_vaddr phdr + p_filesz phdr"
        "n < unat (copy_size (p_filesz phdr) (if x < p_vaddr phdr then 0 else x - p_vaddr phdr))" for n
    proof -
      have n: "n < page_len phdr x" using that(2) unfolding nx page_len_def [symmetric] .
      have jf: "4096 * j < filesz phdr" using that(1) seg_page_data(1) [OF seg j(2)] j(1) by simp
      have "n < filesz phdr - 4096 * j" using n seg_page_len [OF seg jf] j(1) by simp
      then have "4096 * j + n < filesz phdr" by linarith
      from buf [rule_format, OF this] show ?thesis using n unfolding nx by (simp add: page_image_def j(1) add.assoc)
    qed
  qed
qed

text \<open>Page by page to byte by byte.\<close>

lemma shows_byte:
  assumes seg: "seg_placed phdr" and j: "4096 * j < filesz phdr" and o': "o' < 4096"
    and "shows_page k T c (seg_page phdr j) (page_image m buf phdr (seg_page phdr j))"
  shows "\<exists>p. map_option fst (mmu k c (p_vaddr phdr + of_nat (4096 * j + o'))) = Some p \<and> data_at k T p \<and>
    phys k p = (if 4096 * j + o' < filesz phdr then m (buf + p_offset phdr + of_nat (4096 * j + o')) else 0)"
proof -
  define w where "w = p_vaddr phdr + of_nat (4096 * j + o')"
  obtain p where p: "\<And>w. same_page (seg_page phdr j) w \<Longrightarrow> map_option fst (mmu k c w) = Some (p + (w AND 0xFFF))"
      "\<And>i. i < 4096 \<Longrightarrow> data_at k T (p + of_nat i) \<and> phys k (p + of_nat i) = page_image m buf phdr (seg_page phdr j) i"
    using assms(4) by (auto simp: shows_page_def)
  have jm: "4096 * j < unat (p_memsz phdr)" using j seg_filesz [OF seg] by simp
  have w: "unat w = unat (p_vaddr phdr) + (4096 * j + o')" "unat w < 2 ^ 48"
    unfolding w_def using jm o' by (intro seg_offset [OF seg]; simp)+
  have "same_page (seg_page phdr j) w"
    using same_page_unat [OF seg_page_unat(2) [OF seg] w(2), of j] seg_page_unat(1) [OF seg, of j] w(1) o' jm seg
    by (auto simp: seg_placed_def aligned_dvd elim!: dvdE)
  moreover have "w AND 0xFFF = of_nat o'"
    using w(1) o' seg unfolding low12_unat by (auto simp: seg_placed_def aligned_dvd elim!: dvdE)
  ultimately have "map_option fst (mmu k c w) = Some (p + of_nat o')" using p(1) by metis
  moreover have "page_image m buf phdr (seg_page phdr j) o' =
      (if 4096 * j + o' < filesz phdr then m (buf + p_offset phdr + of_nat (4096 * j + o')) else 0)"
    using seg_page_len [OF seg j] o' by (auto simp: page_image_def add.assoc)
  ultimately show ?thesis using p(2) [OF o'] unfolding w_def by auto
qed

text \<open>C6: loading a page-aligned program segment. If it succeeds, every address of the segment that comes from the file
  holds its byte of the file, and the rest of the last page is zero; no other address changes its translation. If it
  fails, no frames are left. In both cases the page tables stay well formed and data in memory keeps its value.\<close>

theorem load_segment_correct:
  assumes "frames_ok (mem s)" "pt_tree (mem s) T" "T c = 4" and seg: "seg_placed phdr"
    and "\<forall>i < filesz phdr. data_at (mem s) T (buf + p_offset phdr + of_nat i)"
    and "load_segment c buf phdr s = (s', e)"
  shows "\<exists>T'. maps_only c (\<lambda>w. \<exists>i. 4096 * i < filesz phdr \<and> same_page (seg_page phdr i) w) (mem s) T (mem s') T' \<and>
    (if e = None then
       \<forall>i < 4096 * ((filesz phdr + 4095) div 4096).
         \<exists>p. map_option fst (mmu (mem s') c (p_vaddr phdr + of_nat i)) = Some p \<and> data_at (mem s') T' p \<and>
           phys (mem s') p = (if i < filesz phdr then phys (mem s) (buf + p_offset phdr + of_nat i) else 0)
     else page_alloc_end (mem s') \<le> page_alloc_cur (mem s'))"
proof -
  from load_segment_pages [OF assms] obtain T' where
    T': "maps_only c (\<lambda>w. \<exists>x \<in> set (seg_pages phdr). x < p_vaddr phdr + p_filesz phdr \<and> same_page x w) (mem s) T (mem s') T'"
      "e = None \<Longrightarrow> \<forall>x \<in> set (seg_pages phdr). x < p_vaddr phdr + p_filesz phdr \<longrightarrow>
         shows_page (mem s') T' c x (page_image (phys (mem s)) buf phdr x)"
      "e \<noteq> None \<Longrightarrow> page_alloc_end (mem s') \<le> page_alloc_cur (mem s')" by (auto split: if_splits)
  note data = seg_page_data(1) [OF seg]
  have "maps_only c (\<lambda>w. \<exists>i. 4096 * i < filesz phdr \<and> same_page (seg_page phdr i) w) (mem s) T (mem s') T'"
    by (rule maps_only_trans [OF maps_only_refl [OF assms(1-3), of "\<lambda>_. False"] T'(1)]) (use data seg_page_less in auto)
  moreover have "\<exists>p. map_option fst (mmu (mem s') c (p_vaddr phdr + of_nat b)) = Some p \<and> data_at (mem s') T' p \<and>
      phys (mem s') p = (if b < filesz phdr then phys (mem s) (buf + p_offset phdr + of_nat b) else 0)"
    if e: "e = None" and b: "b < 4096 * ((filesz phdr + 4095) div 4096)" for b
  proof -
    define j o' where "j = b div 4096" and "o' = b mod 4096"
    have bj: "b = 4096 * j + o'" "o' < 4096" by (simp_all add: j_def o'_def)
    have "Suc j \<le> (filesz phdr + 4095) div 4096" using b by (simp add: j_def less_mult_imp_div_less mult.commute Suc_le_eq)
    then have j: "Suc j * 4096 \<le> filesz phdr + 4095" by (simp add: less_eq_div_iff_mult_less_eq)
    then have "Suc j * 4096 \<le> unat (p_memsz phdr) + 4095" using seg_filesz [OF seg] by simp
    then have "j < (unat (p_memsz phdr) + 4095) div 4096" by (simp only: less_eq_div_iff_mult_less_eq Suc_le_eq [symmetric])
    then have "shows_page (mem s') T' c (seg_page phdr j) (page_image (phys (mem s)) buf phdr (seg_page phdr j))"
      using T'(2) [OF e] data [of j] j seg_page_less [of j phdr] by auto
    then show ?thesis using shows_byte [OF seg _ bj(2)] j unfolding bj(1) by simp
  qed
  ultimately show ?thesis using T'(3) by (intro exI [of _ T']) simp
qed

subsection \<open>Enough frames\<close>

text \<open>\<open>takes n k k'\<close>: at most \<open>n\<close> frames were handed out.\<close>

definition takes :: "nat \<Rightarrow> kmem \<Rightarrow> kmem \<Rightarrow> bool" where
  "takes n k k' \<longleftrightarrow> page_alloc_end k' = page_alloc_end k \<and> (\<exists>j \<le> n. page_alloc_cur k' = page_alloc_cur k + 4096 * of_nat j)"

lemma takes_trans: "takes m k k' \<Longrightarrow> takes n k' k'' \<Longrightarrow> takes (m + n) k k''"
proof -
  assume "takes m k k'" "takes n k' k''"
  then obtain i j where "i \<le> m" "j \<le> n" "page_alloc_cur k'' = page_alloc_cur k + 4096 * of_nat (i + j)"
      "page_alloc_end k'' = page_alloc_end k" by (auto simp: takes_def algebra_simps)
  then show "takes (m + n) k k''" unfolding takes_def by (meson add_mono)
qed

lemma takes_alloc: "takes 1 k (fst (memory_alloc_page k))"
  unfolding takes_def memory_alloc_page_def by (auto simp: Let_def intro: exI [of _ "1 :: nat"] exI [of _ "0 :: nat"])

lemma takes_pt_next: "takes 1 k (fst (pt_next k t i True extra))"
  using takes_alloc [of k] by (auto simp: pt_next_def takes_def Let_def split: prod.splits)

lemma takes_pd_next: "takes 1 k (fst (pd_next k t i True))"
  using takes_alloc [of k] by (auto simp: pd_next_def takes_def Let_def split: prod.splits)

lemma takes_mono: "takes m k k' \<Longrightarrow> m \<le> n \<Longrightarrow> takes n k k'"
  unfolding takes_def by (meson order_trans)

lemma takes_map: "takes 3 k (fst (paging_map_4kb k c v p fl))"
proof -
  obtain k1 r1 where n1: "pt_next k c (pt_index 39 v) True 0 = (k1, r1)" by force
  obtain k2 r2 where n2: "pt_next k1 (the r1) (pt_index 30 v) True 0 = (k2, r2)" by force
  obtain k3 r3 where n3: "pd_next k2 (the r2) (pt_index 21 v) True = (k3, r3)" by force
  have "takes 1 k k1" "takes 1 k1 k2" "takes 1 k2 k3"
    using takes_pt_next [of k c "pt_index 39 v" 0] takes_pt_next [of k1 "the r1" "pt_index 30 v" 0]
      takes_pd_next [of k2 "the r2" "pt_index 21 v"] n1 n2 n3 by simp_all
  then have "takes 3 k k1" "takes 3 k k2" "takes 3 k k3"
    using takes_trans [of 1 k k1 1 k2] takes_trans [of 2 k k2 1 k3] by (auto intro: takes_mono simp: numeral_eq_Suc)
  then have "takes 3 k (fst (paging_walk_4kb k c v True))"
    using n1 n2 n3 by (auto simp: paging_walk_4kb_def Let_def split: option.splits)
  then show ?thesis by (auto simp: paging_map_4kb_def takes_def split: prod.splits option.splits)
qed

lemma takes_frame: "takes 4 k (fst (load_frame c page src n k))"
proof -
  obtain k1 p where al: "memory_alloc_page k = (k1, p)" by force
  define k2 where "k2 = k1\<lparr>phys := memory_copy (phys k1) p src n\<rparr>"
  have "takes 1 k k1" using takes_alloc [of k] al by simp
  moreover from this have "takes 1 k k2" by (simp add: k2_def takes_def)
  ultimately have "takes 4 k k1" "takes (1 + 3) k (fst (paging_map_4kb k2 c page p (PAGE_PRESENT OR PAGE_RW OR PAGE_USER)))"
    using takes_mono [of 1 k k1 4] takes_trans [of 1 k k2 3, OF _ takes_map] by simp_all
  then show ?thesis using al by (auto simp: load_frame_def k2_def Let_def split: prod.splits)
qed

text \<open>A program of three bytes at \<open>0x400000\<close>, whose file lies at \<open>0x300000\<close>.\<close>

definition code_sys :: sys where
  "code_sys = three_tasks\<lparr>mem := boot_kmem\<lparr>phys := (phys boot_kmem)(0x300001 := 0x90)\<rparr>\<rparr>"

definition code_phdr :: Elf64_Phdr where
  "code_phdr = \<lparr>p_type = PT_LOAD, p_offset = 0, p_vaddr = 0x400000, p_filesz = 3, p_memsz = 0x2000\<rparr>"

lemma code_sys_tree: "frames_ok (mem code_sys)" "pt_tree (mem code_sys) boot_levels"
proof -
  show "frames_ok (mem code_sys)" using boot_frames_ok by (simp add: code_sys_def frames_ok_def)
  have tab: "tab (phys (mem code_sys)) t j = tab (phys boot_kmem) t j" if "boot_levels t \<noteq> 0" "j < 512" for t j
  proof (rule tab_outside [of t "0x300000"])
    show "aligned t" "t \<noteq> 0x300000" using that by (auto simp: boot_levels_def aligned_dvd split: if_splits)
    show "phys (mem code_sys) a = phys boot_kmem a" if "\<not> unat (a - 0x300000) < 4096" for a
      using that by (auto simp: code_sys_def)
  qed (use that in \<open>simp_all add: aligned_dvd\<close>)
  have free: "free_frame (mem code_sys) = free_frame boot_kmem" by (simp add: code_sys_def free_frame_def fun_eq_iff)
  show "pt_tree (mem code_sys) boot_levels" using boot_tree tab free unfolding pt_tree_def by (smt (verit) nat.distinct(1))
qed

lemma code_sys_load: "takes 4 (mem code_sys) (mem (fst (load_segment 0x1000 0x300000 code_phdr code_sys)))"
proof -
  have seg: "seg_placed code_phdr" by (simp add: seg_placed_def code_phdr_def aligned_dvd)
  have pages: "seg_pages code_phdr = [0x400000, 0x401000]" by (simp add: code_phdr_def upt_rec)
  obtain s1 e1 where l: "load_page 0x1000 0x300000 code_phdr 0x402000 0x400000 code_sys = (s1, e1)" by force
  then have "takes 4 (mem code_sys) (mem s1)"
    using takes_frame [of "mem code_sys" "0x1000" "0x400000" "0x300000" 3]
    by (auto simp: load_page_def code_phdr_def copy_size_def Let_def split: prod.splits)
  moreover have "mem (fst (load_page 0x1000 0x300000 code_phdr 0x402000 0x401000 s1)) = mem s1"
    by (simp add: load_page_def code_phdr_def add_region_def upd_task_def Let_def split: option.splits)
  moreover have "p_type code_phdr = PT_LOAD" "p_memsz code_phdr \<noteq> 0"
    "(p_vaddr code_phdr + p_memsz code_phdr + 0xFFF) AND NOT 0xFFF = 0x402000"
    by (simp_all add: code_phdr_def)
  ultimately show ?thesis
    unfolding load_segment_def Let_def seg_steps [OF seg] pages using l by (auto split: option.splits prod.splits)
qed

theorem load_segment_correct_witness:
  "\<exists>s' p. load_segment 0x1000 0x300000 code_phdr code_sys = (s', None) \<and>
     map_option fst (mmu (mem s') 0x1000 0x400001) = Some p \<and> phys (mem s') p = 0x90"
proof -
  have seg: "seg_placed code_phdr" by (simp add: seg_placed_def code_phdr_def aligned_dvd)
  have buf: "\<forall>i < filesz code_phdr. data_at (mem code_sys) boot_levels (0x300000 + p_offset code_phdr + of_nat i)"
  proof (intro allI impI)
    fix i assume "i < filesz code_phdr"
    then have "i = 0 \<or> i = 1 \<or> i = 2" by (auto simp: code_phdr_def)
    then show "data_at (mem code_sys) boot_levels (0x300000 + p_offset code_phdr + of_nat i)"
      by (elim disjE) (simp_all add: code_phdr_def data_at_def code_sys_def free_frame_def boot_alloc boot_levels_def)
  qed
  obtain s' e where l: "load_segment 0x1000 0x300000 code_phdr code_sys = (s', e)" by force
  note C = load_segment_correct [OF code_sys_tree boot_root seg buf l]
  obtain j where j: "j \<le> 4" "page_alloc_cur (mem s') = 0x600000 + 4096 * of_nat j" "page_alloc_end (mem s') = 0x800000"
    using code_sys_load l by (auto simp: takes_def code_sys_def boot_alloc)
  then have "j = 0 \<or> j = 1 \<or> j = 2 \<or> j = 3 \<or> j = 4" by auto
  then have "\<not> page_alloc_end (mem s') \<le> page_alloc_cur (mem s')" using j(2,3) by (elim disjE) simp_all
  then have e: "e = None" using C by metis
  obtain T' where "\<forall>i < 4096 * ((filesz code_phdr + 4095) div 4096).
         \<exists>p. map_option fst (mmu (mem s') 0x1000 (p_vaddr code_phdr + of_nat i)) = Some p \<and> data_at (mem s') T' p \<and>
           phys (mem s') p = (if i < filesz code_phdr then phys (mem code_sys) (0x300000 + p_offset code_phdr + of_nat i) else 0)"
    using C unfolding e by (simp only: if_True simp_thms) blast
  from this [rule_format, of 1] show ?thesis using l e by (auto simp: code_phdr_def code_sys_def)
qed

subsection \<open>Regions for the zeroed part\<close>

definition user_region :: "u64 \<Rightarrow> u64 \<Rightarrow> vm_region_t" where
  "user_region a b = \<lparr>vm_start = a, vm_end = b, vm_flags = PAGE_USER OR PAGE_RW\<rparr>"

definition no_region :: vm_region_t where
  "no_region = \<lparr>vm_start = 0, vm_end = 0, vm_flags = 0\<rparr>"

lemma vm_region_add_next:
  assumes "\<forall>r \<in> set rs. \<not> vm_unused r"
  shows "vm_region_add (rs @ replicate n no_region) a b fl =
    (case n of 0 \<Rightarrow> None | Suc n \<Rightarrow> Some (rs @ \<lparr>vm_start = a, vm_end = b, vm_flags = fl\<rparr> # replicate n no_region))"
  using assms
proof (induction rs)
  case Nil
  then show ?case by (cases n) (simp_all add: no_region_def vm_unused_def)
qed (auto split: nat.splits)

text \<open>The regions of a task after \<open>n\<close> pages of a segment that has no bytes in the file.\<close>

definition bss_regions :: "Elf64_Phdr \<Rightarrow> nat \<Rightarrow> vm_regions" where
  "bss_regions phdr n = map (\<lambda>i. user_region (seg_page phdr i) (seg_page phdr (Suc i))) [0..<min n MAX_VM_REGIONS] @
     replicate (MAX_VM_REGIONS - n) no_region"

lemma bss_region_used:
  assumes "seg_placed phdr" "4096 * i < unat (p_memsz phdr)"
  shows "\<not> vm_unused (user_region (seg_page phdr i) (seg_page phdr (Suc i)))"
proof -
  have "unat (seg_page phdr (Suc i)) = unat (p_vaddr phdr) + 4096 * Suc i"
    using seg_page_unat(1) [OF assms(1), of "Suc i"] assms(2) by simp
  then have "seg_page phdr (Suc i) \<noteq> 0" by (metis add_is_0 mult_is_0 nat.distinct(1) unat_0 zero_neq_numeral)
  then show ?thesis by (simp add: vm_unused_def user_region_def)
qed

lemma bss_regions_add:
  assumes "seg_placed phdr" "\<forall>i < n. 4096 * i < unat (p_memsz phdr)"
  shows "vm_region_add (bss_regions phdr n) a b fl = (if n < MAX_VM_REGIONS then
    Some (map (\<lambda>i. user_region (seg_page phdr i) (seg_page phdr (Suc i))) [0..<n] @ \<lparr>vm_start = a, vm_end = b, vm_flags = fl\<rparr> #
      replicate (MAX_VM_REGIONS - Suc n) no_region) else None)"
proof -
  have "\<forall>r \<in> set (map (\<lambda>i. user_region (seg_page phdr i) (seg_page phdr (Suc i))) [0..<min n MAX_VM_REGIONS]). \<not> vm_unused r"
    using bss_region_used [OF assms(1)] assms(2) by auto
  from vm_region_add_next [OF this] show ?thesis
    by (auto simp: bss_regions_def min_def split: nat.splits)
qed

lemma bss_regions_Suc:
  assumes "seg_placed phdr" "\<forall>i < n. 4096 * i < unat (p_memsz phdr)"
  shows "(case vm_region_add (bss_regions phdr n) (seg_page phdr n) (seg_page phdr (Suc n)) (PAGE_USER OR PAGE_RW) of
      None \<Rightarrow> bss_regions phdr n | Some rs \<Rightarrow> rs) = bss_regions phdr (Suc n)"
  unfolding bss_regions_add [OF assms] by (auto simp: bss_regions_def user_region_def min_def)

lemma load_bss_page:
  assumes seg: "seg_placed phdr" "p_filesz phdr = 0" and i: "4096 * i < unat (p_memsz phdr)"
    and e: "seg_end = (p_vaddr phdr + p_memsz phdr + 0xFFF) AND NOT 0xFFF"
  shows "load_page c buf phdr seg_end (seg_page phdr i) s =
    (add_region s (seg_page phdr i) (seg_page phdr (Suc i)) (PAGE_USER OR PAGE_RW), None)"
proof -
  let ?v = "p_vaddr phdr" and ?m = "unat (p_memsz phdr)"
  have "\<not> seg_page phdr i < ?v + p_filesz phdr" using seg_page_data(1) [OF seg(1), of i] seg(2) i by simp
  moreover have "\<not> seg_page phdr i + 0x1000 > seg_end"
  proof -
    have s: "seg_page phdr i + 0x1000 = seg_page phdr (Suc i)" by (simp add: algebra_simps)
    have "?v + p_memsz phdr + 0xFFF = ?v + of_nat (?m + 4095)" by (simp add: algebra_simps)
    also have "unat \<dots> = unat ?v + (?m + 4095)" by (rule seg_offset(1) [OF seg(1)]) simp
    finally have "unat seg_end = 4096 * ((unat ?v + (?m + 4095)) div 4096)"
      unfolding e frame_of_def [symmetric] unat_frame_of by simp
    moreover have "unat (seg_page phdr (Suc i)) = unat ?v + 4096 * Suc i"
      using seg_page_unat(1) [OF seg(1), of "Suc i"] i by simp
    moreover have "Suc i \<le> (?m + 4095) div 4096" using i by (simp only: less_eq_div_iff_mult_less_eq) simp
    ultimately show ?thesis unfolding s using seg(1)
      by (auto simp: word_less_nat_alt seg_placed_def aligned_dvd not_less elim!: dvdE)
  qed
  ultimately show ?thesis by (simp add: load_page_def Let_def algebra_simps)
qed

lemma upd_task_regions: "vm_regions (task_pool s ! t) = rs \<Longrightarrow> upd_task s t (vm_regions_update (\<lambda>_. rs)) = s"
proof -
  assume "vm_regions (task_pool s ! t) = rs"
  then have "vm_regions_update (\<lambda>_. rs) (task_pool s ! t) = task_pool s ! t" by (cases "task_pool s ! t") simp
  then show ?thesis by (simp add: upd_task_def)
qed

lemma load_bss_pages:
  assumes seg: "seg_placed phdr" "p_filesz phdr = 0"
    and e: "seg_end = (p_vaddr phdr + p_memsz phdr + 0xFFF) AND NOT 0xFFF"
    and t: "current_task s = Some t" "t < length (task_pool s)"
  shows "n + k \<le> (unat (p_memsz phdr) + 4095) div 4096 \<Longrightarrow> vm_regions (task_pool s ! t) = bss_regions phdr n \<Longrightarrow>
    each (load_page c buf phdr seg_end) (map (seg_page phdr) [n..<n + k]) s =
      (upd_task s t (vm_regions_update (\<lambda>_. bss_regions phdr (n + k))), None)"
  using t
proof (induction k arbitrary: n s)
  case 0
  then show ?case by (simp add: upd_task_regions)
next
  case (Suc k)
  have n: "4096 * i < unat (p_memsz phdr)" if "i \<le> n" for i using Suc.prems(1) that by linarith
  define s1 where "s1 = upd_task s t (vm_regions_update (\<lambda>_. bss_regions phdr (Suc n)))"
  have "load_page c buf phdr seg_end (seg_page phdr n) s = (s1, None)"
    using load_bss_page [OF seg n [OF order_refl] e] bss_regions_Suc [OF seg(1), of n] n Suc.prems(2,3)
    upd_task_regions [OF Suc.prems(2)] by (auto simp: add_region_def s1_def split: option.splits)
  moreover have "each (load_page c buf phdr seg_end) (map (seg_page phdr) [Suc n..<Suc n + k]) s1 =
      (upd_task s1 t (vm_regions_update (\<lambda>_. bss_regions phdr (Suc n + k))), None)"
    using Suc.prems by (intro Suc.IH) (simp_all add: s1_def upd_task_def)
  moreover have "[n..<n + Suc k] = n # [Suc n..<Suc n + k]" by (simp add: upt_rec)
  ultimately show ?case using Suc.prems(4) by (simp add: s1_def upd_task_def)
qed

text \<open>A segment without bytes in the file takes one of the eight region slots of the task for each of its pages, and
  pages beyond the eighth get none. A program with eight such pages or more is loaded all the same, but its stack
  region is dropped.\<close>

theorem load_bss_correct:
  assumes "seg_placed phdr" "p_filesz phdr = 0" "current_task s = Some t" "t < length (task_pool s)"
    and "vm_regions (task_pool s ! t) = vm_region_init" "n = (unat (p_memsz phdr) + 4095) div 4096"
  shows "load_segment c buf phdr s = (upd_task s t (vm_regions_update (\<lambda>_. bss_regions phdr n)), None) \<and>
    vm_region_add (bss_regions phdr n) 0x500000 0x510000 (PAGE_USER OR PAGE_RW) =
      (if n < MAX_VM_REGIONS then
         Some (map (\<lambda>i. user_region (seg_page phdr i) (seg_page phdr (Suc i))) [0..<n] @ user_region 0x500000 0x510000 #
           replicate (MAX_VM_REGIONS - Suc n) no_region)
       else None)"
proof
  have "p_type phdr = PT_LOAD" "p_memsz phdr \<noteq> 0" using assms(1) by (auto simp: seg_placed_def)
  moreover have "vm_regions (task_pool s ! t) = bss_regions phdr 0"
    using assms(5) by (simp add: bss_regions_def vm_region_init_def no_region_def)
  ultimately show "load_segment c buf phdr s = (upd_task s t (vm_regions_update (\<lambda>_. bss_regions phdr n)), None)"
    unfolding load_segment_def Let_def seg_steps [OF assms(1)]
    using load_bss_pages [OF assms(1,2) refl assms(3,4), of 0 n] assms(6) by simp
  have "\<forall>i < n. 4096 * i < unat (p_memsz phdr)" using assms(6) by linarith
  from bss_regions_add [OF assms(1) this]
  show "vm_region_add (bss_regions phdr n) 0x500000 0x510000 (PAGE_USER OR PAGE_RW) =
      (if n < MAX_VM_REGIONS then
         Some (map (\<lambda>i. user_region (seg_page phdr i) (seg_page phdr (Suc i))) [0..<n] @ user_region 0x500000 0x510000 #
           replicate (MAX_VM_REGIONS - Suc n) no_region)
       else None)" by (simp add: user_region_def)
qed

theorem load_bss_correct_witness:
  "\<exists>rs s'. load_segment 0x1000 0 \<lparr>p_type = PT_LOAD, p_offset = 0, p_vaddr = 0x400000, p_filesz = 0, p_memsz = 0x8000\<rparr> three_tasks
      = (s', None) \<and> vm_regions (task_pool s' ! 1) = rs \<and> vm_region_add rs 0x500000 0x510000 (PAGE_USER OR PAGE_RW) = None"
proof -
  let ?p = "\<lparr>p_type = PT_LOAD, p_offset = 0, p_vaddr = 0x400000, p_filesz = 0, p_memsz = 0x8000\<rparr>"
  have "seg_placed ?p" by (simp add: seg_placed_def aligned_dvd)
  moreover have "vm_regions (task_pool three_tasks ! 1) = vm_region_init" by (simp add: three_tasks_def blank_task_def)
  ultimately show ?thesis
    using load_bss_correct [of ?p three_tasks 1 8 "0x1000" 0] three_tasks_fields
    by (simp add: MAX_TASKS_def MAX_VM_REGIONS_def upd_task_def)
qed

end
