(* ===== verification/Syscalls.thy ===== *)
theory Syscalls
  imports Elf
begin

text \<open>
  The system calls, \<^verbatim>\<open>kernel/syscall.c\<close>: one definition per case of \<^verbatim>\<open>syscall_handler\<close> that does more than
  call another component, and the dispatch on \<^verbatim>\<open>rax\<close>. The kernel's state is the machine, the file system and
  the static \<^verbatim>\<open>heap_break\<close> of the case for \<^verbatim>\<open>sbrk\<close>. Pointers of the caller are followed through the page tables
  the processor has loaded.
\<close>

record 'd kernel =
  mach :: "'d machine"
  kfs :: "'d fsys"
  heap_break :: u64

text \<open>What a call waits for: data or room in a pipe, a child, a key, a number of timer ticks.\<close>

datatype waiting = Pipe_data nat | Pipe_room nat bytes nat | Child nat | Key | Ticks u64

text \<open>
  \<open>Return\<close>: back to the caller with these registers. \<open>Wait\<close>: the call is in its waiting loop, interrupts go on.
  \<open>Ended\<close>: the task has exited. \<open>Stop\<close>: the machine is halted. \<open>Fault\<close>: the kernel touches an address that is
  not mapped, or follows a null \<^verbatim>\<open>current_task\<close>. \<open>Hang\<close>: a device is polled that never gets ready.
\<close>

datatype 'd outcome = Return "'d kernel" registers_t | Wait "'d kernel" waiting | Ended "'d kernel" | Stop "'d kernel"
  | Fault | Hang

abbreviation ksys :: "'d kernel \<Rightarrow> sys" where
  "ksys st \<equiv> msys (mach st)"

definition set_sys :: "'d kernel \<Rightarrow> sys \<Rightarrow> 'd kernel" where
  "set_sys st s = st\<lparr>mach := (mach st)\<lparr>msys := s\<rparr>\<rparr>"

definition set_dev :: "'d kernel \<Rightarrow> 'd \<Rightarrow> 'd kernel" where
  "set_dev st d = st\<lparr>mach := (mach st)\<lparr>mdev := d\<rparr>\<rparr>"

definition set_vga :: "'d kernel \<Rightarrow> vga \<times> 'd \<Rightarrow> 'd kernel" where
  "set_vga st = (\<lambda>(v, d). st\<lparr>mach := (mach st)\<lparr>mvga := v, mdev := d\<rparr>\<rparr>)"

definition ret :: "'d kernel \<Rightarrow> registers_t \<Rightarrow> u64 \<Rightarrow> 'd outcome" where
  "ret st r v = Return st (r\<lparr>r_rax := v\<rparr>)"

definition ret_int :: "'d kernel \<Rightarrow> registers_t \<Rightarrow> int \<Rightarrow> 'd outcome" where
  "ret_int st r v = ret st r (of_int v)"

text \<open>The conversion \<^verbatim>\<open>(int)r->rdi\<close>.\<close>

definition int_arg :: "u64 \<Rightarrow> int" where
  "int_arg x = sint (ucast x :: u32)"

definition with_task :: "'d kernel \<Rightarrow> (nat \<Rightarrow> 'd outcome) \<Rightarrow> 'd outcome" where
  "with_task st f = (case current_task (ksys st) of None \<Rightarrow> Fault | Some c \<Rightarrow> f c)"

subsection \<open>Memory of the caller\<close>

definition load_byte :: "u64 \<Rightarrow> kmem \<Rightarrow> u64 \<Rightarrow> u8 option" where
  "load_byte pml4 k v = map_option (\<lambda>(p, acc). phys k p) (mmu k pml4 v)"

primrec load_bytes :: "u64 \<Rightarrow> kmem \<Rightarrow> u64 \<Rightarrow> nat \<Rightarrow> bytes option" where
  "load_bytes pml4 k v 0 = Some []"
| "load_bytes pml4 k v (Suc n) =
     Option.bind (load_byte pml4 k v) (\<lambda>c. map_option ((#) c) (load_bytes pml4 k (v + 1) n))"

partial_function (option) load_string :: "u64 \<Rightarrow> kmem \<Rightarrow> u64 \<Rightarrow> bytes option" where
  "load_string pml4 k v =
     Option.bind (load_byte pml4 k v)
       (\<lambda>c. if c = 0 then Some [] else Option.bind (load_string pml4 k (v + 1)) (\<lambda>cs. Some (c # cs)))"

definition with_bytes :: "'d kernel \<Rightarrow> u64 \<Rightarrow> nat \<Rightarrow> (bytes \<Rightarrow> 'd outcome) \<Rightarrow> 'd outcome" where
  "with_bytes st v n f =
     (case load_bytes (mcr3 (mach st)) (mem (ksys st)) v n of None \<Rightarrow> Fault | Some bs \<Rightarrow> f bs)"

definition with_string :: "'d kernel \<Rightarrow> u64 \<Rightarrow> (bytes \<Rightarrow> 'd outcome) \<Rightarrow> 'd outcome" where
  "with_string st v f =
     (case load_string (mcr3 (mach st)) (mem (ksys st)) v of None \<Rightarrow> Fault | Some bs \<Rightarrow> f bs)"

text \<open>A path that the callee compares with \<^verbatim>\<open>NULL\<close>.\<close>

definition with_path :: "'d kernel \<Rightarrow> u64 \<Rightarrow> (bytes option \<Rightarrow> 'd outcome) \<Rightarrow> 'd outcome" where
  "with_path st v f = (if v = 0 then f None else with_string st v (\<lambda>p. f (Some p)))"

definition store :: "'d kernel \<Rightarrow> u64 \<Rightarrow> bytes \<Rightarrow> ('d kernel \<Rightarrow> 'd outcome) \<Rightarrow> 'd outcome" where
  "store st v bs f =
     (case store_bytes (mcr3 (mach st)) v bs (mem (ksys st)) of None \<Rightarrow> Fault
      | Some k \<Rightarrow> f (set_sys st ((ksys st)\<lparr>mem := k\<rparr>)))"

subsection \<open>The file system\<close>

text \<open>The file system runs on the kernel's heap and the machine's devices.\<close>

definition fs_call :: "('d fsys \<Rightarrow> 'd fsys \<times> 'r) \<Rightarrow> 'd kernel \<Rightarrow> 'd kernel \<times> 'r" where
  "fs_call f st =
     (let ((s, fs), r) = with_fs f (ksys st, (kfs st)\<lparr>dev := mdev (mach st)\<rparr>)
      in ((set_dev (set_sys st s) (dev fs))\<lparr>kfs := fs\<rparr>, r))"

definition fs_result :: "registers_t \<Rightarrow> 'd kernel \<times> int \<Rightarrow> 'd outcome" where
  "fs_result r = (\<lambda>(st, v). ret_int st r v)"

definition sys_ls :: "'d disk_ops \<Rightarrow> 'd kernel \<Rightarrow> registers_t \<Rightarrow> 'd outcome" where
  "sys_ls D st r = with_path st (r_rdi r) (\<lambda>path.
     let (st, (v, out)) = fs_call (fs_ls D path (int_arg (r_rdx r))) st
     in store st (r_rsi r) out (\<lambda>st. ret_int st r v))"

definition sys_cat :: "'d disk_ops \<Rightarrow> 'd kernel \<Rightarrow> registers_t \<Rightarrow> 'd outcome" where
  "sys_cat D st r = with_string st (r_rdi r) (\<lambda>path.
     case fs_call (fs_cat D path (int_arg (r_rdx r))) st of
       (st, None) \<Rightarrow> Fault
     | (st, Some (v, out)) \<Rightarrow> store st (r_rsi r) out (\<lambda>st. ret_int st r v))"

subsection \<open>Programs\<close>

definition enter_program :: "u64 \<Rightarrow> registers_t \<Rightarrow> registers_t" where
  "enter_program start r = r\<lparr>r_rip := start, r_rsp := 0x500000, r_cs := 0x1B, r_ss := 0x23, r_rflags := 0x202, r_rax := 0\<rparr>"

definition sys_exec :: "'d disk_ops \<Rightarrow> bytes \<Rightarrow> 'd kernel \<Rightarrow> registers_t \<Rightarrow> 'd outcome" where
  "sys_exec D filename st r =
     (let s = ksys st;
          (k, new_cr3) = paging_create (mem s);
          s = s\<lparr>mem := k\<rparr>
      in if new_cr3 = 0 then ret (set_sys st s) r (-1)
         else (case elf_load_into_address_space D new_cr3 filename (s, (kfs st)\<lparr>dev := mdev (mach st)\<rparr>) of
             ((s, fs), Inl e) \<Rightarrow>
               (if e = Copy_overrun then Fault
                else ret ((set_dev (set_sys st (s\<lparr>mem := paging_destroy (mem s) new_cr3\<rparr>)) (dev fs))\<lparr>kfs := fs\<rparr>) r (-1))
           | ((s, fs), Inr start) \<Rightarrow>
               (case current_task s of None \<Rightarrow> Fault
                | Some c \<Rightarrow>
                    (let old_cr3 = cr3 (task_pool s ! c);
                         s = upd_task s c (cr3_update (\<lambda>_. new_cr3));
                         s = (if old_cr3 \<noteq> 0x1000 then s\<lparr>mem := paging_destroy (mem s) old_cr3\<rparr> else s);
                         st = (set_dev (set_sys st s) (dev fs))\<lparr>kfs := fs\<rparr>
                     in Return (st\<lparr>mach := (mach st)\<lparr>mcr3 := new_cr3\<rparr>\<rparr>) (enter_program start r)))))"

subsection \<open>Reading and writing\<close>

definition has_fd :: "sys \<Rightarrow> nat \<Rightarrow> int \<Rightarrow> u8 \<Rightarrow> bool" where
  "has_fd s c fd ty \<longleftrightarrow> 0 \<le> fd \<and> fd < int MAX_FDS \<and> fd_type (task_pool s ! c) ! nat fd = ty"

definition write_refused :: "sys \<Rightarrow> nat option \<Rightarrow> int \<Rightarrow> bool" where
  "write_refused s pipe len \<longleftrightarrow> len \<le> 0 \<or> (case pipe of None \<Rightarrow> True | Some p \<Rightarrow> \<not> read_open (pipe_at s p))"

definition sys_write :: "'d port_io \<Rightarrow> 'd kernel \<Rightarrow> registers_t \<Rightarrow> 'd outcome" where
  "sys_write io st r = with_task st (\<lambda>c.
     let fd = int_arg (r_rdi r); s = ksys st; len = int_arg (r_rdx r); pipe = fd_data (task_pool s ! c) ! nat fd
     in if has_fd s c fd FD_PIPE_WRITE then
          (if write_refused s pipe len then ret_int st r (-1)
           else with_bytes st (r_rsi r) (nat len) (\<lambda>buf.
             case pipe_write s pipe buf of
               (s, Inr n) \<Rightarrow> ret_int (set_sys st s) r n
             | (s, Inl tot) \<Rightarrow> Wait (set_sys st s) (Pipe_room (the pipe) buf tot)))
        else if fd = 1 \<or> fd = 2 then
          with_bytes st (r_rsi r) (unat (r_rdx r)) (\<lambda>buf.
            let st = set_vga st (vga_write io buf (mvga (mach st), mdev (mach st)))
            in case serial_write io buf (mdev (mach st)) of None \<Rightarrow> Hang
               | Some d \<Rightarrow> ret (set_dev st d) r (r_rdx r))
        else ret st r (-1))"

definition sys_read :: "'d port_io \<Rightarrow> 'd kernel \<Rightarrow> registers_t \<Rightarrow> 'd outcome" where
  "sys_read io st r = with_task st (\<lambda>c.
     let fd = int_arg (r_rdi r); s = ksys st; pipe = fd_data (task_pool s ! c) ! nat fd
     in if has_fd s c fd FD_PIPE_READ then
          (case pipe_read s pipe (int_arg (r_rdx r)) of
             (s, None) \<Rightarrow> Wait (set_sys st s) (Pipe_data (the pipe))
           | (s, Some (n, out)) \<Rightarrow> store (set_sys st s) (r_rsi r) out (\<lambda>st. ret_int st r n))
        else if fd = 0 then
          (let (d, ready) = (if keyboard_data (mkbd (mach st)) then (mdev (mach st), False)
                             else serial_data_available io (mdev (mach st)));
               got = (if ready then map_option (\<lambda>(d, c). (d, Some c)) (serial_read io d) else Some (d, None))
           in case got of None \<Rightarrow> Hang
              | Some (d, serial) \<Rightarrow>
                  (let (k, ch) = keyboard_read (mkbd (mach st)) serial;
                       st = st\<lparr>mach := (mach st)\<lparr>mdev := d, mkbd := k\<rparr>\<rparr>
                   in case ch of None \<Rightarrow> Wait st Key
                      | Some ch \<Rightarrow> store st (r_rsi r) [of_int ch] (\<lambda>st. ret st r 1)))
        else ret st r (-1))"

subsection \<open>The heap of the program\<close>

definition sbrk_page :: "u64 \<Rightarrow> u64 \<Rightarrow> kmem \<Rightarrow> kmem \<times> unit option" where
  "sbrk_page pml4 page k =
     (if page \<ge> 0x600000 then (k, Some ())
      else (let (k, page_phys) = memory_alloc_page k in
        if page_phys = 0 then (k, Some ())
        else (fst (paging_map_4kb (k\<lparr>phys := memory_set (phys k) page_phys 0 4096\<rparr>) pml4 page page_phys
                     (PAGE_PRESENT OR PAGE_RW OR PAGE_USER)), None)))"

text \<open>The page boundary at or above an address.\<close>

definition round_up :: "u64 \<Rightarrow> u64" where
  "round_up a = (a + 0xFFF) AND NOT 0xFFF"

definition sys_sbrk :: "'d kernel \<Rightarrow> registers_t \<Rightarrow> 'd outcome" where
  "sys_sbrk st r =
     (let increment = r_rdi r; old_break = heap_break st; new_break = old_break + increment in
      if sint increment < 0 then
        ret (st\<lparr>heap_break := (if sint new_break < 0x510000 then 0x510000 else new_break)\<rparr>) r old_break
      else if sint increment > 0 then
        (let page_aligned_old = round_up old_break; page_aligned_new = round_up new_break
         in if page_aligned_new > page_aligned_old then
              with_task st (\<lambda>c.
                case each (sbrk_page (cr3 (task_pool (ksys st) ! c))) (steps page_aligned_old page_aligned_new 0x1000) (mem (ksys st)) of
                  (k, None) \<Rightarrow> ret (set_sys (st\<lparr>heap_break := new_break\<rparr>) ((ksys st)\<lparr>mem := k\<rparr>)) r old_break
                | (k, Some _) \<Rightarrow> ret (set_sys st ((ksys st)\<lparr>mem := k\<rparr>)) r (-1))
            else ret (st\<lparr>heap_break := new_break\<rparr>) r old_break)
      else ret st r old_break)"

subsection \<open>Descriptors\<close>

definition set_fd :: "sys \<Rightarrow> nat \<Rightarrow> nat \<Rightarrow> u8 \<Rightarrow> nat option \<Rightarrow> sys" where
  "set_fd s c i ty p = upd_task s c (\<lambda>t. t\<lparr>fd_type := (fd_type t)[i := ty], fd_data := (fd_data t)[i := p]\<rparr>)"

definition free_fds :: "task_t \<Rightarrow> nat list" where
  "free_fds t = filter (\<lambda>i. fd_type t ! i = 0) [3..<MAX_FDS]"

definition open_pipe :: "sys \<Rightarrow> nat \<Rightarrow> sys \<times> (nat \<times> nat) option" where
  "open_pipe s c =
     (case free_fds (task_pool s ! c) of
        free1 # free2 # _ \<Rightarrow>
          (case pipe_create s of
             (s, None) \<Rightarrow> (s, None)
           | (s, Some p) \<Rightarrow>
               (let s = set_fd s c free1 FD_PIPE_READ (Some p);
                    s = set_fd s c free2 FD_PIPE_WRITE (Some p);
                    s = pipe_ref_inc s (Some p) 0
                in (pipe_ref_inc s (Some p) 1, Some (free1, free2))))
      | _ \<Rightarrow> (s, None))"

definition sys_pipe :: "'d kernel \<Rightarrow> registers_t \<Rightarrow> 'd outcome" where
  "sys_pipe st r = with_task st (\<lambda>c.
     case open_pipe (ksys st) c of
       (s, None) \<Rightarrow> ret (set_sys st s) r (-1)
     | (s, Some (free1, free2)) \<Rightarrow>
         store (set_sys st s) (r_rdi r) (le_bytes 4 (of_nat free1 :: u32) @ le_bytes 4 (of_nat free2 :: u32)) (\<lambda>st. ret st r 0))"

definition dup2 :: "sys \<Rightarrow> nat \<Rightarrow> int \<Rightarrow> int \<Rightarrow> sys \<times> int" where
  "dup2 s c oldfd newfd =
     (if oldfd < 0 \<or> oldfd \<ge> int MAX_FDS \<or> newfd < 0 \<or> newfd \<ge> int MAX_FDS then (s, -1)
      else (let i = nat oldfd; j = nat newfd; t = task_pool s ! c in
        if fd_type t ! i = 0 then (s, -1)
        else if oldfd = newfd then (s, newfd)
        else (let s = (if fd_type t ! j \<noteq> 0 then pipe_ref_dec s (fd_data t ! j) (end_of (fd_type t ! j)) else s);
                  t = task_pool s ! c;
                  s = set_fd s c j (fd_type t ! i) (fd_data t ! i)
              in (pipe_ref_inc s (fd_data t ! i) (end_of (fd_type t ! i)), newfd))))"

definition close :: "sys \<Rightarrow> nat \<Rightarrow> int \<Rightarrow> sys \<times> int" where
  "close s c fd =
     (if fd < 0 \<or> fd \<ge> int MAX_FDS \<or> fd < 3 then (s, -1)
      else (let i = nat fd; t = task_pool s ! c;
                s = (if fd_type t ! i = FD_PIPE_READ then pipe_close_end s (fd_data t ! i) 0
                     else if fd_type t ! i = FD_PIPE_WRITE then pipe_close_end s (fd_data t ! i) 1 else s)
            in (set_fd s c i 0 None, 0)))"

definition task_call :: "(sys \<Rightarrow> nat \<Rightarrow> sys \<times> int) \<Rightarrow> 'd kernel \<Rightarrow> registers_t \<Rightarrow> 'd outcome" where
  "task_call f st r = with_task st (\<lambda>c. let (s, v) = f (ksys st) c in ret_int (set_sys st s) r v)"

subsection \<open>Signals\<close>

definition sigaction :: "int \<Rightarrow> u64 \<Rightarrow> u64 \<Rightarrow> sys \<Rightarrow> nat \<Rightarrow> sys \<times> int" where
  "sigaction sig handler trampoline s c =
     (if sig < 1 \<or> sig \<ge> int NSIGS then (s, -1)
      else (let s = upd_task s c (signal_handlers_update (\<lambda>hs. hs[nat sig := handler]))
            in (if trampoline \<noteq> 0 then upd_task s c (trampoline_addr_update (\<lambda>_. trampoline)) else s, 0)))"

definition sigreturn :: "sys \<Rightarrow> nat \<Rightarrow> registers_t \<Rightarrow> sys \<times> registers_t" where
  "sigreturn s c r =
     (let t = task_pool s ! c
      in (upd_task s c (in_signal_update (\<lambda>_. False)),
          r\<lparr>r_rip := saved_rip t, r_rsp := saved_rsp t, r_rflags := saved_rflags t, r_cs := 0x1B, r_ss := 0x23, r_rax := 0\<rparr>))"

subsection \<open>The date\<close>

definition digit :: "nat \<Rightarrow> u8" where
  "digit n = 48 + of_nat n"

definition two_digits :: "u8 \<Rightarrow> bytes" where
  "two_digits x = [digit (unat x div 10), digit (unat x mod 10)]"

definition date_text :: "rtc_datetime_t \<Rightarrow> bytes" where
  "date_text dt =
     (let y = unat (year dt) in
      [digit (y div 1000 mod 10), digit (y div 100 mod 10), digit (y div 10 mod 10), digit (y mod 10), 45] @
      two_digits (month dt) @ [45] @ two_digits (day dt) @ [32] @ two_digits (hour dt) @ [58] @
      two_digits (minute dt) @ [58] @ two_digits (second dt) @ [10])"

definition sys_datetime :: "'d port_io \<Rightarrow> 'd kernel \<Rightarrow> registers_t \<Rightarrow> 'd outcome" where
  "sys_datetime io st r =
     (case cmos_read_datetime io (mdev (mach st)) of None \<Rightarrow> Hang
      | Some (d, dt) \<Rightarrow>
          (let st = set_dev st d in
           if r_rsi r \<ge> 20 then store st (r_rdi r) (date_text dt) (\<lambda>st. ret st r 20) else ret st r 0))"

subsection \<open>Tasks, the screen and the machine\<close>

text \<open>\<open>sp\<close> and \<open>frame\<close>: the kernel's stack pointer, and where on that stack the registers are saved.\<close>

definition sys_fork_call :: "u64 \<Rightarrow> u64 \<Rightarrow> 'd kernel \<Rightarrow> registers_t \<Rightarrow> 'd outcome" where
  "sys_fork_call sp frame st r = with_task st (\<lambda>c.
     case sys_fork (ksys st) sp (cr3 (task_pool (ksys st) ! c)) frame of None \<Rightarrow> Hang
     | Some (s, v) \<Rightarrow> ret_int (set_sys st s) r v)"

definition sys_exit_call :: "'d kernel \<Rightarrow> registers_t \<Rightarrow> 'd outcome" where
  "sys_exit_call st r = with_task st (\<lambda>c.
     case sys_exit (ksys st) (int_arg (r_rdi r)) of None \<Rightarrow> Hang | Some s \<Rightarrow> Ended (set_sys st s))"

definition sys_waitpid_call :: "'d kernel \<Rightarrow> registers_t \<Rightarrow> 'd outcome" where
  "sys_waitpid_call st r = with_task st (\<lambda>c.
     case sys_waitpid (ksys st) (ucast (r_rdi r)) of None \<Rightarrow> Hang
     | Some (s, Inl i) \<Rightarrow> Wait (set_sys st s) (Child i)
     | Some (s, Inr v) \<Rightarrow> ret_int (set_sys st s) r v)"

definition sys_kill_call :: "'d kernel \<Rightarrow> registers_t \<Rightarrow> 'd outcome" where
  "sys_kill_call st r =
     (case sys_kill (ksys st) (ucast (r_rdi r)) (int_arg (r_rsi r)) of None \<Rightarrow> Hang
      | Some (s, v) \<Rightarrow> ret_int (set_sys st s) r v)"

definition sys_sleep :: "'d kernel \<Rightarrow> registers_t \<Rightarrow> 'd outcome" where
  "sys_sleep st r =
     (let target = sleep_target (mach st) (r_rdi r)
      in if sleeping (mach st) target then Wait st (Ticks target) else ret st r 0)"

definition sys_serial :: "'d port_io \<Rightarrow> 'd kernel \<Rightarrow> registers_t \<Rightarrow> 'd outcome" where
  "sys_serial io st r = with_bytes st (r_rdi r) (unat (r_rsi r)) (\<lambda>buf.
     case serial_write io buf (mdev (mach st)) of None \<Rightarrow> Hang | Some d \<Rightarrow> ret (set_dev st d) r (r_rsi r))"

definition sys_reboot :: "'d port_io \<Rightarrow> 'd kernel \<Rightarrow> registers_t \<Rightarrow> 'd outcome" where
  "sys_reboot io st r =
     (case poll (\<lambda>d. let (d, good) = inb io 0x64 d in (d, good AND 0x02 = 0)) (mdev (mach st)) of None \<Rightarrow> Hang
      | Some d \<Rightarrow> ret (set_dev st (outb io 0x64 0xFE d)) r 0)"

definition sys_shutdown :: "'d port_io \<Rightarrow> 'd kernel \<Rightarrow> 'd outcome" where
  "sys_shutdown io st = Stop (set_dev st (outw io 0xB004 0x2000 (outw io 0x604 0x2000 (mdev (mach st)))))"

definition sys_get_cursor :: "'d kernel \<Rightarrow> registers_t \<Rightarrow> 'd outcome" where
  "sys_get_cursor st r = (let (cr, cc) = vga_getpos (mvga (mach st)) in ret st r (push_bit 16 cr OR cc))"

definition screen :: "'d kernel \<Rightarrow> vga \<times> 'd" where
  "screen st = (mvga (mach st), mdev (mach st))"

definition sys_sigreturn :: "'d kernel \<Rightarrow> registers_t \<Rightarrow> 'd outcome" where
  "sys_sigreturn st r = with_task st (\<lambda>c. let (s, r) = sigreturn (ksys st) c r in Return (set_sys st s) r)"

subsection \<open>The dispatch\<close>

definition file_syscall :: "'d disk_ops \<Rightarrow> 'd kernel \<Rightarrow> registers_t \<Rightarrow> 'd outcome" where
  "file_syscall D st r =
     (if r_rax r = 6 then sys_ls D st r
      else if r_rax r = 7 then with_path st (r_rsi r) (\<lambda>p. fs_result r (fs_call (fs_cd D p) st))
      else if r_rax r = 8 then sys_cat D st r
      else if r_rax r = 12 then with_path st (r_rdi r) (\<lambda>p. fs_result r (fs_call (fs_mkdir D p) st))
      else if r_rax r = 13 then with_path st (r_rdi r) (\<lambda>p. fs_result r (fs_call (fs_rmdir D p) st))
      else if r_rax r = 14 then with_path st (r_rdi r) (\<lambda>p. fs_result r (fs_call (fs_delete D p) st))
      else if r_rax r = 15 then with_path st (r_rdi r) (\<lambda>p. with_path st (r_rsi r) (\<lambda>q. fs_result r (fs_call (fs_rename D p q) st)))
      else if r_rax r = 16 then with_path st (r_rdi r) (\<lambda>p. with_path st (r_rsi r) (\<lambda>q. fs_result r (fs_call (fs_copy D p q) st)))
      else if r_rax r = 29 then with_path st (r_rdi r) (\<lambda>p. fs_result r (fs_call (fs_create D p) st))
      else with_path st (r_rdi r) (\<lambda>p. with_bytes st (r_rsi r) (min 4096 (unat (ucast (r_rdx r) :: u32))) (\<lambda>data.
             fs_result r (fs_call (fs_write_file D p data (ucast (r_rdx r))) st))))"

definition syscall_handler :: "'d port_io \<Rightarrow> 'd disk_ops \<Rightarrow> u64 \<Rightarrow> u64 \<Rightarrow> 'd kernel \<Rightarrow> registers_t \<Rightarrow> 'd outcome" where
  "syscall_handler io D sp frame st r =
     (let n = r_rax r in
      if n = 0 then sys_write io st r
      else if n = 1 then sys_read io st r
      else if n = 2 then sys_sleep st r
      else if n = 3 then ret st r (timer_ticks (mach st))
      else if n = 4 then ret (set_vga st (vga_clear io VGA_BLACK (screen st))) r 0
      else if n = 5 then sys_exec D (str ''shell'') st r
      else if n \<in> {6, 7, 8, 12, 13, 14, 15, 16, 29, 32} then file_syscall D st r
      else if n = 9 then sys_reboot io st r
      else if n = 10 then sys_shutdown io st
      else if n = 11 then sys_serial io st r
      else if n = 17 then with_string st (r_rdi r) (\<lambda>filename. sys_exec D filename st r)
      else if n = 18 then sys_datetime io st r
      else if n = 19 then sys_fork_call sp frame st r
      else if n = 20 then sys_exit_call st r
      else if n = 21 then sys_waitpid_call st r
      else if n = 22 then sys_sbrk st r
      else if n = 23 then sys_pipe st r
      else if n = 24 then task_call (\<lambda>s c. dup2 s c (int_arg (r_rdi r)) (int_arg (r_rsi r))) st r
      else if n = 25 then task_call (\<lambda>s c. close s c (int_arg (r_rdi r))) st r
      else if n = 26 then task_call (sigaction (int_arg (r_rdi r)) (r_rsi r) (r_rdx r)) st r
      else if n = 27 then sys_kill_call st r
      else if n = 28 then sys_sigreturn st r
      else if n = 30 then sys_get_cursor st r
      else if n = 31 then ret (set_vga st (vga_setpos io (r_rdi r) (r_rsi r) (screen st))) r 0
      else if n = 33 then ret st r (if keyboard_data (mkbd (mach st)) then 1 else 0)
      else ret st r (-1))"

subsection \<open>The break of the heap\<close>

text \<open>The pages \<^verbatim>\<open>sbrk\<close> maps.\<close>

lemma sbrk_page_shows:
  assumes ok: "frames_ok k" and tree: "pt_tree k T" and c: "T c = 4" and s: "sbrk_page c page k = (k', e)"
  shows "\<exists>T'. maps_only c (same_page page) k T k' T' \<and>
    (e = None \<longrightarrow> page_alloc_end k' \<le> page_alloc_cur k' \<or> shows_page k' T' c page (\<lambda>i. 0))"
proof (cases "page \<ge> 0x600000 \<or> snd (memory_alloc_page k) = 0")
  case True
  then have "e \<noteq> None" "k' = k" using s memory_alloc_page_zero [OF ok] by (auto simp: sbrk_page_def split: prod.splits if_splits)
  then show ?thesis using maps_only_refl [OF ok tree c] by auto
next
  case False
  then obtain k1 p where al: "memory_alloc_page k = (k1, p)" "p \<noteq> 0" by (cases "memory_alloc_page k") auto
  have D: "phys k1 a = 0" if "unat (a - p) < 4096" for a using memory_alloc_pageD(6) [OF ok al] that by simp
  have "k1\<lparr>phys := memory_set (phys k1) p 0 4096\<rparr> = k1\<lparr>phys := memory_copy (phys k1) p 0 0\<rparr>"
    using D by (intro arg_cong [where f = "\<lambda>m. k1\<lparr>phys := m\<rparr>"] ext) (simp add: memory_set_eq)
  moreover obtain k2 r where "paging_map_4kb (k1\<lparr>phys := memory_copy (phys k1) p 0 0\<rparr>) c page p (PAGE_PRESENT OR PAGE_RW OR PAGE_USER) = (k2, r)"
    by force
  ultimately obtain e' where l: "load_frame c page 0 0 k = (k', e')" "e = None"
    using s False al by (auto simp: sbrk_page_def load_frame_def Let_def)
  from load_frame_shows [OF ok tree c _ _ l(1)] show ?thesis by (auto split: if_splits)
qed

lemma pages_apart:
  assumes "distinct (x # xs)" "\<And>y. y \<in> set xs \<Longrightarrow> same_page x y \<Longrightarrow> x = y" "same_page x w"
  shows "\<not> (\<exists>y \<in> set xs. same_page y w)"
proof
  assume "\<exists>y \<in> set xs. same_page y w"
  then obtain y where y: "y \<in> set xs" "same_page y w" by blast
  then have "same_page x y" using assms(3) same_page_trans same_page_sym by blast
  then show False using assms(1,2) y(1) by auto
qed

lemma sbrk_pages_show:
  assumes "frames_ok k" "pt_tree k T" "T c = 4" "distinct xs" "\<And>x y. x \<in> set xs \<Longrightarrow> y \<in> set xs \<Longrightarrow> same_page x y \<Longrightarrow> x = y"
    and "each (sbrk_page c) xs k = (k', e)"
  shows "\<exists>T'. maps_only c (\<lambda>w. \<exists>x \<in> set xs. same_page x w) k T k' T' \<and>
    (e = None \<and> page_alloc_cur k' < page_alloc_end k' \<longrightarrow> (\<forall>x \<in> set xs. shows_page k' T' c x (\<lambda>i. 0)))"
  using assms
proof (induction xs arbitrary: k T)
  case Nil
  then show ?case using maps_only_refl [of k T c] by auto
next
  case (Cons x xs)
  obtain k1 e1 where s: "sbrk_page c x k = (k1, e1)" by force
  from sbrk_page_shows [OF Cons.prems(1-3) s] obtain T1 where
    T1: "maps_only c (same_page x) k T k1 T1" "e1 = None \<Longrightarrow> page_alloc_end k1 \<le> page_alloc_cur k1 \<or> shows_page k1 T1 c x (\<lambda>i. 0)"
    by auto
  show ?case
  proof (cases e1)
    case (Some a)
    then have "k' = k1" "e \<noteq> None" using Cons.prems(6) s by auto
    moreover have "maps_only c (\<lambda>w. \<exists>y \<in> set (x # xs). same_page y w) k T k1 T1" using T1(1) by (auto simp: maps_only_def)
    ultimately show ?thesis by auto
  next
    case None
    note D = maps_onlyD [OF T1(1)]
    have run: "each (sbrk_page c) xs k1 = (k', e)" using Cons.prems(6) s None by simp
    from Cons.IH [OF D(1-3) _ _ this] Cons.prems(4,5) obtain T' where
      T': "maps_only c (\<lambda>w. \<exists>y \<in> set xs. same_page y w) k1 T1 k' T'"
        "e = None \<Longrightarrow> page_alloc_cur k' < page_alloc_end k' \<Longrightarrow> \<forall>y \<in> set xs. shows_page k' T' c y (\<lambda>i. 0)" by auto
    have "shows_page k' T' c x (\<lambda>i. 0)" if "e = None" "page_alloc_cur k' < page_alloc_end k'"
    proof -
      have "\<not> page_alloc_end k1 \<le> page_alloc_cur k1"
        using run that by (cases xs) (auto simp: sbrk_page_def page_simps split: if_splits)
      then have "shows_page k1 T1 c x (\<lambda>i. 0)" using T1(2) None by blast
      then show ?thesis
      proof (rule shows_page_maps_only [OF _ T'(1)])
        show "\<not> (\<exists>y \<in> set xs. same_page y w)" if "same_page x w" for w
          by (rule pages_apart [OF Cons.prems(4) _ that]) (use Cons.prems(5) in auto)
      qed
    qed
    moreover have "maps_only c (\<lambda>w. \<exists>y \<in> set (x # xs). same_page y w) k T k' T'" by (rule maps_only_trans [OF T1(1) T'(1)]) auto
    ultimately show ?thesis using T'(2) by auto
  qed
qed

definition break_ok :: "'d kernel \<Rightarrow> bool" where
  "break_ok st \<longleftrightarrow> 0x510000 \<le> heap_break st \<and> heap_break st \<le> 0x600000"

lemma round_up_unat:
  assumes "unat a + 4096 \<le> 2 ^ 64"
  shows "unat (round_up a) = 4096 * ((unat a + 4095) div 4096)"
proof -
  have "unat (a + 0xFFF) = unat a + 4095" using assms by (simp add: unat_word_ariths)
  then show ?thesis unfolding round_up_def frame_of_def [symmetric] unat_frame_of by simp
qed

lemma sbrk_pages_below:
  "each (sbrk_page c) xs k = (k', None) \<Longrightarrow> x \<in> set xs \<Longrightarrow> x < 0x600000"
proof (induction xs arbitrary: k)
  case (Cons y ys)
  obtain k1 e1 where s: "sbrk_page c y k = (k1, e1)" by force
  then have "e1 = None" using Cons.prems(1) by (cases e1) auto
  moreover from this s have "y < 0x600000" by (auto simp: sbrk_page_def split: if_splits)
  ultimately show ?case using Cons s by auto
qed simp

lemma steps_pages:
  assumes "aligned a" "aligned b"
  shows "set (steps a b 0x1000) = {x. a \<le> x \<and> x < b \<and> aligned x}" "distinct (steps a b 0x1000)"
proof -
  obtain q r where q: "unat a = 4096 * q" "unat b = 4096 * r" using assms by (auto simp: aligned_dvd elim!: dvdE)
  have b: "unat b < 2 ^ 64" using unsigned_less [of b, where ?'a = nat] by simp
  have u: "unat (a + 0x1000 * of_nat i) = 4096 * (q + i)" if "q + i < r" for i
  proof -
    have "unat (of_nat (4096 * i) :: u64) = 4096 * i" using that q(2) b by (intro unat_of_nat_small) simp
    then have "unat (a + of_nat (4096 * i)) = 4096 * (q + i)" using that q b by (simp only: unat_word_ariths) simp
    then show ?thesis by (simp add: mult.commute)
  qed
  have n: "unat ((b - a) div 0x1000) = r - q" if "a < b"
    using that q by (simp add: unat_div unat_sub less_imp_le)
  have lt: "a < b \<longleftrightarrow> q < r" using q by (simp add: word_less_nat_alt)
  show "set (steps a b 0x1000) = {x. a \<le> x \<and> x < b \<and> aligned x}"
  proof (intro set_eqI iffI)
    fix x assume "x \<in> set (steps a b 0x1000)"
    then obtain i where i: "x = a + 0x1000 * of_nat i" "a < b" "i < r - q" using n by (auto simp: steps_def split: if_splits)
    then show "x \<in> {x. a \<le> x \<and> x < b \<and> aligned x}" using u [of i] q by (auto simp: word_le_nat_alt word_less_nat_alt aligned_dvd)
  next
    fix x assume "x \<in> {x. a \<le> x \<and> x < b \<and> aligned x}"
    then obtain j where j: "unat x = 4096 * j" "q \<le> j" "j < r" using q by (auto simp: aligned_dvd word_le_nat_alt word_less_nat_alt elim!: dvdE)
    then have "x = a + 0x1000 * of_nat (j - q)" using u [of "j - q"] by (simp add: word_unat_eq_iff)
    moreover have "steps a b 0x1000 = map (\<lambda>i. a + 0x1000 * of_nat i) [0..<r - q]" using j lt n by (simp add: steps_def)
    moreover have "j - q < r - q" using j by simp
    ultimately show "x \<in> set (steps a b 0x1000)" by (auto simp del: of_nat_diff intro!: image_eqI [of _ _ "j - q"])
  qed
  have "inj_on (\<lambda>i. a + 0x1000 * of_nat i) {0..<r - q}"
  proof (rule inj_onI)
    fix i j assume "i \<in> {0..<r - q}" "j \<in> {0..<r - q}" and eq: "a + 0x1000 * of_nat i = a + 0x1000 * of_nat j"
    then have "4096 * (q + i) = 4096 * (q + j)" using u [of i] u [of j] by (metis atLeastLessThan_iff less_diff_conv add.commute)
    then show "i = j" by simp
  qed
  then show "distinct (steps a b 0x1000)" using n by (auto simp: steps_def distinct_map)
qed

lemma round_up_aligned [simp]: "aligned (round_up a)"
  unfolding round_up_def frame_of_def [symmetric] by simp

definition grows :: "'d kernel \<Rightarrow> registers_t \<Rightarrow> bool" where
  "grows st r \<longleftrightarrow> 0 < sint (r_rdi r)"

lemma sbrk_sum:
  assumes "break_ok st" "grows st r"
  shows "unat (heap_break st + r_rdi r) = unat (heap_break st) + unat (r_rdi r)" "unat (heap_break st + r_rdi r) + 4096 \<le> 2 ^ 64"
proof -
  have s: "sint (r_rdi r) < 2 ^ 63" "0 < sint (r_rdi r)" using sint_lt [of "r_rdi r"] assms(2) by (simp_all add: grows_def)
  have "uint (r_rdi r) = take_bit 64 (sint (r_rdi r))" using uint_sint [of "r_rdi r"] by simp
  also have "\<dots> = sint (r_rdi r)" using s by (intro take_bit_int_eq_self) simp_all
  finally have "int (unat (r_rdi r)) < 2 ^ 63" using s(1) by simp
  then have "int (unat (r_rdi r)) < int (2 ^ 63)" by simp
  then have i: "unat (r_rdi r) < 2 ^ 63" by (simp only: of_nat_less_iff)
  have h: "unat (heap_break st) \<le> 0x600000" using assms(1) by (simp add: break_ok_def word_le_nat_alt)
  show u: "unat (heap_break st + r_rdi r) = unat (heap_break st) + unat (r_rdi r)"
    using i h by (simp only: unat_word_ariths) simp
  show "unat (heap_break st + r_rdi r) + 4096 \<le> 2 ^ 64" using u i h by simp
qed

lemma sbrk_grow_cases:
  assumes st: "break_ok st" "grows st r" and "sys_sbrk st r = Return st' r'"
  defines "old \<equiv> heap_break st" and "new \<equiv> heap_break st + r_rdi r"
  obtains (within) "st' = st\<lparr>heap_break := new\<rparr>" "r' = r\<lparr>r_rax := old\<rparr>" "round_up new \<le> round_up old"
    | (mapped) c k where "current_task (ksys st) = Some c" "st' = set_sys (st\<lparr>heap_break := new\<rparr>) ((ksys st)\<lparr>mem := k\<rparr>)"
        "r' = r\<lparr>r_rax := old\<rparr>" "round_up old < round_up new"
        "each (sbrk_page (cr3 (task_pool (ksys st) ! c))) (steps (round_up old) (round_up new) 0x1000) (mem (ksys st)) = (k, None)"
    | (failed) k where "st' = set_sys st ((ksys st)\<lparr>mem := k\<rparr>)" "r' = r\<lparr>r_rax := -1\<rparr>"
  using assms(2,3) within mapped failed
  by (auto simp: sys_sbrk_def grows_def old_def new_def ret_def with_task_def Let_def not_less
      split: if_splits option.splits prod.splits)

lemma sbrk_new_break:
  assumes "break_ok st" "grows st r" "round_up (heap_break st + r_rdi r) \<le> 0x600000"
  shows "0x510000 \<le> heap_break st + r_rdi r" "heap_break st + r_rdi r \<le> 0x600000"
proof -
  note S = sbrk_sum [OF assms(1,2)]
  have "0x510000 \<le> unat (heap_break st)" using assms(1) by (simp add: break_ok_def word_le_nat_alt)
  then show "0x510000 \<le> heap_break st + r_rdi r" using S(1) by (simp add: word_le_nat_alt)
  have "4096 * ((unat (heap_break st + r_rdi r) + 4095) div 4096) \<le> 0x600000"
    using assms(3) round_up_unat [OF S(2)] by (simp add: word_le_nat_alt)
  then show "heap_break st + r_rdi r \<le> 0x600000" by (simp add: word_le_nat_alt)
qed

lemma round_up_break: "break_ok st \<Longrightarrow> round_up (heap_break st) \<le> 0x600000"
  using round_up_unat [of "heap_break st"] div_le_mono [of "unat (heap_break st) + 4095" "0x600000 + 4095" 4096]
  by (simp add: break_ok_def word_le_nat_alt)

lemma steps_below:
  assumes "a < b" "aligned a" "aligned b" "aligned l" "\<And>x. x \<in> set (steps a b 0x1000) \<Longrightarrow> x < l"
  shows "b \<le> l"
proof -
  obtain q r where q: "unat a = 4096 * q" "unat b = 4096 * r" using assms by (auto simp: aligned_dvd elim!: dvdE)
  have "0x1000 \<le> b" using assms(1) q by (simp add: word_less_nat_alt word_le_nat_alt)
  then have u: "unat (b - 0x1000) = 4096 * (r - 1)" using q(2) by (simp add: unat_sub right_diff_distrib')
  have "b - 0x1000 \<in> set (steps a b 0x1000)"
    unfolding steps_pages [OF assms(2,3)] using u q assms(1) by (auto simp: word_le_nat_alt word_less_nat_alt aligned_dvd)
  then have "b - 0x1000 < l" by (rule assms(5))
  then show ?thesis using u q assms(1,4) by (auto simp: word_le_nat_alt word_less_nat_alt aligned_dvd elim!: dvdE)
qed

lemma uint_nonneg: "0 \<le> sint w \<Longrightarrow> uint w = sint (w :: u64)"
  using uint_sint [of w] sint_lt [of w] by (simp add: take_bit_int_eq_self)

lemma sint_break: "uint w < 2 ^ 63 \<Longrightarrow> sint w = uint (w :: u64)"
proof -
  assume "uint w < 2 ^ 63"
  moreover have "- (2 ^ 63) \<le> uint w" by (rule order_trans [OF _ uint_ge_0]) simp
  ultimately show ?thesis by (simp add: sint_uint signed_take_bit_int_eq_self)
qed

lemma sbrk_shrink:
  assumes "break_ok st" "\<not> grows st r" "\<not> sint (heap_break st + r_rdi r) < 0x510000"
  shows "0x510000 \<le> heap_break st + r_rdi r \<and> heap_break st + r_rdi r \<le> 0x600000"
proof -
  have h: "sint (heap_break st) = uint (heap_break st)" "0x510000 \<le> uint (heap_break st)" "uint (heap_break st) \<le> 0x600000"
    using assms(1) sint_break [of "heap_break st"] by (simp_all add: break_ok_def word_le_def)
  have i: "sint (r_rdi r) \<le> 0" "- (2 ^ 63) \<le> sint (r_rdi r)" using assms(2) sint_ge [of "r_rdi r"] by (simp_all add: grows_def)
  have "sint (heap_break st + r_rdi r) = sint (heap_break st) + sint (r_rdi r)"
    using h i by (simp add: sint_word_ariths signed_take_bit_int_eq_self)
  moreover have "uint (heap_break st + r_rdi r) = sint (heap_break st + r_rdi r)" using assms(3) by (intro uint_nonneg) simp
  ultimately show ?thesis using assms(3) h i by (simp add: word_le_def)
qed

lemma sbrk_grown:
  assumes "break_ok st" "grows st r" "sys_sbrk st r = Return st' r'"
  shows "break_ok st' \<and> (r' = r\<lparr>r_rax := heap_break st\<rparr> \<and> heap_break st' = heap_break st + r_rdi r \<or>
    r' = r\<lparr>r_rax := -1\<rparr> \<and> heap_break st' = heap_break st)"
  using assms
proof (cases rule: sbrk_grow_cases)
  case within
  then show ?thesis using sbrk_new_break [OF assms(1,2)] round_up_break [OF assms(1)] by (auto simp: break_ok_def)
next
  case (mapped c k)
  have "aligned 0x600000" by (simp add: aligned_dvd)
  then have "round_up (heap_break st + r_rdi r) \<le> 0x600000"
    using steps_below [OF mapped(4) round_up_aligned round_up_aligned] sbrk_pages_below [OF mapped(5)] by blast
  then show ?thesis using sbrk_new_break [OF assms(1,2)] mapped by (simp add: break_ok_def set_sys_def)
next
  case (failed k)
  then show ?thesis using assms(1) by (simp add: break_ok_def set_sys_def)
qed

text \<open>C5: \<^verbatim>\<open>sbrk\<close> keeps the break of the heap between 0x510000 and 0x600000, whatever the increment is: it returns
  the old break, or -1 with the break unchanged when a positive increment cannot be satisfied; a
  negative one never takes the break below the start of the heap.\<close>

theorem sbrk_bounds:
  assumes "break_ok st" "sys_sbrk st r = Return st' r'"
  shows "break_ok st' \<and> (r' = r\<lparr>r_rax := heap_break st\<rparr> \<or> r' = r\<lparr>r_rax := -1\<rparr> \<and> heap_break st' = heap_break st \<and> 0 < sint (r_rdi r))"
proof (cases "grows st r")
  case True
  from sbrk_grown [OF assms(1) True assms(2)] True show ?thesis by (auto simp: grows_def)
next
  case False
  then have "st' = st \<or> st' = st\<lparr>heap_break := (if sint (heap_break st + r_rdi r) < 0x510000 then 0x510000 else heap_break st + r_rdi r)\<rparr>"
    "r' = r\<lparr>r_rax := heap_break st\<rparr>" using assms(2) by (auto simp: sys_sbrk_def grows_def ret_def Let_def split: if_splits)
  moreover have "0x510000 \<le> heap_break st + r_rdi r \<and> heap_break st + r_rdi r \<le> 0x600000" if "\<not> sint (heap_break st + r_rdi r) < 0x510000"
    using sbrk_shrink [OF assms(1) False that] .
  ultimately show ?thesis using assms(1) by (auto simp: break_ok_def)
qed

lemma frame_between:
  assumes "lo \<le> a" "a < hi" "aligned lo"
  shows "lo \<le> frame_of a \<and> frame_of a < hi"
proof -
  obtain q where "unat lo = 4096 * q" using assms(3) by (auto simp: aligned_dvd elim: dvdE)
  moreover from this have "q \<le> unat a div 4096" using assms(1) div_le_mono [of "unat lo" "unat a" 4096] by (simp add: word_le_nat_alt)
  moreover have "4096 * (unat a div 4096) \<le> unat a" by simp
  ultimately show ?thesis using assms(2) by (auto simp: word_le_nat_alt word_less_nat_alt unat_frame_of)
qed

text \<open>When \<^verbatim>\<open>sbrk\<close> grants a positive increment and frames are left, every address from the page above the old
  break to the page above the new one is mapped in the caller's address space and reads zero; all other
  pages keep their translation, and data in memory its value.\<close>

theorem sbrk_maps:
  assumes "break_ok st" "0 < sint (r_rdi r)" "sys_sbrk st r = Return st' r'" "r_rax r' \<noteq> -1"
    and "current_task (ksys st) = Some c" "frames_ok (mem (ksys st))" "pt_tree (mem (ksys st)) T" "T (cr3 (task_pool (ksys st) ! c)) = 4"
  defines "pml4 \<equiv> cr3 (task_pool (ksys st) ! c)"
  shows "heap_break st' = heap_break st + r_rdi r \<and>
    (\<exists>T'. maps_only pml4 (\<lambda>w. \<exists>x. aligned x \<and> round_up (heap_break st) \<le> x \<and> x < round_up (heap_break st') \<and> same_page x w)
       (mem (ksys st)) T (mem (ksys st')) T') \<and>
    (page_alloc_cur (mem (ksys st')) < page_alloc_end (mem (ksys st')) \<longrightarrow>
     (\<forall>a. round_up (heap_break st) \<le> a \<and> a < round_up (heap_break st') \<longrightarrow>
       (\<exists>p. map_option fst (mmu (mem (ksys st')) pml4 a) = Some p \<and> phys (mem (ksys st')) p = 0)))"
proof -
  have grows: "grows st r" using assms(2) by (simp add: grows_def)
  from assms(1) grows assms(3) show ?thesis
  proof (cases rule: sbrk_grow_cases)
    case within
    then show ?thesis using maps_only_refl [OF assms(6-8)] assms(9) by auto
  next
    case (mapped c' k)
    let ?lo = "round_up (heap_break st)" and ?hi = "round_up (heap_break st + r_rdi r)"
    have new: "heap_break st' = heap_break st + r_rdi r" "mem (ksys st') = k" using mapped(2) by (simp_all add: set_sys_def)
    note P = steps_pages [OF round_up_aligned round_up_aligned, of "heap_break st" "heap_break st + r_rdi r"]
    have run: "each (sbrk_page pml4) (steps ?lo ?hi 0x1000) (mem (ksys st)) = (k, None)" using mapped(1,5) assms(5,9) by simp
    have below: "x < 0x600000" if "x \<in> set (steps ?lo ?hi 0x1000)" for x using sbrk_pages_below [OF run that] .
    have apart: "x = y" if "x \<in> set (steps ?lo ?hi 0x1000)" "y \<in> set (steps ?lo ?hi 0x1000)" "same_page x y" for x y
      using that below [OF that(1)] below [OF that(2)] unfolding P(1)
      by (auto simp: same_page_unat word_less_nat_alt aligned_dvd word_unat_eq_iff elim!: dvdE)
    from sbrk_pages_show [OF assms(6-8) [folded pml4_def] P(2) apart run] obtain T' where
      T': "maps_only pml4 (\<lambda>w. \<exists>x \<in> set (steps ?lo ?hi 0x1000). same_page x w) (mem (ksys st)) T k T'"
        "page_alloc_cur k < page_alloc_end k \<Longrightarrow> \<forall>x \<in> set (steps ?lo ?hi 0x1000). shows_page k T' pml4 x (\<lambda>i. 0)" by auto
    have "\<exists>p. map_option fst (mmu k pml4 a) = Some p \<and> phys k p = 0"
      if left: "page_alloc_cur k < page_alloc_end k" and a: "?lo \<le> a" "a < ?hi" for a
    proof -
      have fr: "frame_of a \<in> set (steps ?lo ?hi 0x1000)" using P(1) frame_between [OF a] by simp
      then have "shows_page k T' pml4 (frame_of a) (\<lambda>i. 0)" using T'(2) [OF left] by blast
      then obtain p where p: "\<And>w. same_page (frame_of a) w \<Longrightarrow> map_option fst (mmu k pml4 w) = Some (p + (w AND 0xFFF))"
          "\<And>i. i < 4096 \<Longrightarrow> phys k (p + of_nat i) = 0"
        by (auto simp: shows_page_def)
      have "map_option fst (mmu k pml4 a) = Some (p + of_nat (unat a mod 4096))"
        using p(1) [of a] same_page_frame(1) [of a] same_page_sym low12_unat [of a] by metis
      then show ?thesis using p(2) [of "unat a mod 4096"] by (intro exI [of _ "p + of_nat (unat a mod 4096)"]) simp
    qed
    then show ?thesis using T'(1) new unfolding P(1) by (auto simp: conj_ac)
  next
    case (failed k)
    then show ?thesis using assms(4) by simp
  qed
qed

subsection \<open>Replacing the program\<close>

text \<open>A step of the loader changes memory and the regions of the current task, and nothing else.\<close>

definition regions_only :: "sys \<Rightarrow> sys \<Rightarrow> bool" where
  "regions_only s s' \<longleftrightarrow>
     (\<exists>k f. s' = (case current_task s of None \<Rightarrow> s | Some c \<Rightarrow> upd_task s c (vm_regions_update f))\<lparr>mem := k\<rparr>)"

lemma vm_regions_update_id [simp]: "vm_regions_update (\<lambda>x. x) t = t"
  by (cases t) simp

lemma regions_only_refl [simp]: "regions_only s s"
  unfolding regions_only_def
  by (intro exI [of _ "mem s"] exI [of _ "\<lambda>x. x"]) (simp add: upd_task_def split: option.splits)

lemma regions_only_trans: "regions_only s s' \<Longrightarrow> regions_only s' s'' \<Longrightarrow> regions_only s s''"
proof -
  assume "regions_only s s'" "regions_only s' s''"
  then obtain k f k' f' where
    s': "s' = (case current_task s of None \<Rightarrow> s | Some c \<Rightarrow> upd_task s c (vm_regions_update f))\<lparr>mem := k\<rparr>" and
    s'': "s'' = (case current_task s' of None \<Rightarrow> s' | Some c \<Rightarrow> upd_task s' c (vm_regions_update f'))\<lparr>mem := k'\<rparr>"
    by (auto simp: regions_only_def)
  have c: "current_task s' = current_task s" by (simp add: s' upd_task_def split: option.splits)
  have "s'' = (case current_task s of None \<Rightarrow> s | Some c \<Rightarrow> upd_task s c (vm_regions_update (f' \<circ> f)))\<lparr>mem := k'\<rparr>"
    unfolding s'' c by (cases "current_task s"; cases "the (current_task s) < length (task_pool s)") (simp_all add: s' upd_task_def not_less list_update_beyond)
  then show ?thesis by (auto simp: regions_only_def)
qed

lemma regions_only_mem: "regions_only s s' \<Longrightarrow> regions_only s (s'\<lparr>mem := k\<rparr>)"
  unfolding regions_only_def by (elim exE, rule exI [of _ k], rule exI) simp

lemma regions_only_upd:
  "current_task s = Some c \<Longrightarrow> regions_only s (upd_task s c (vm_regions_update f))"
  unfolding regions_only_def by (intro exI [of _ "mem s"] exI [of _ f]) (simp add: upd_task_def)

lemma add_region_only: "regions_only s (add_region s a b fl)"
  by (auto simp: add_region_def intro: regions_only_upd split: option.splits)

lemma each_only: "(\<And>x s. regions_only s (fst (f x s))) \<Longrightarrow> regions_only s (fst (each f xs s))"
proof (induction xs arbitrary: s)
  case (Cons x xs)
  obtain s1 e where f: "f x s = (s1, e)" by force
  have "regions_only s s1" using Cons.prems [of s x] f by simp
  then show ?case using Cons f by (cases e) (auto intro: regions_only_trans)
qed simp

lemma load_page_only: "regions_only s (fst (load_page c buf phdr e page s))"
  using add_region_only by (auto simp: load_page_def Let_def intro: regions_only_mem split: prod.splits)

lemma load_segment_only: "regions_only s (fst (load_segment c buf phdr s))"
  by (auto simp: load_segment_def Let_def intro: each_only load_page_only)

lemma segments_only: "(\<And>i s. regions_only s (fst (f i s))) \<Longrightarrow> regions_only s (fst (segments n f i s))"
proof (induction n f i s rule: segments.induct)
  case (1 n f i s)
  obtain s1 e where f: "f i s = (s1, e)" by force
  have r: "regions_only s s1" using "1.prems" [of s i] f by simp
  show ?case
  proof (cases "i < unat (n s) \<and> e = None")
    case True
    then have "regions_only s1 (fst (segments n f (Suc i) s1))" using 1 f by auto
    then show ?thesis using True f r by (simp add: segments.simps [of n f i s] regions_only_trans)
  next
    case False
    then show ?thesis using f r by (cases e) (auto simp: segments.simps [of n f i s])
  qed
qed

lemma map_segments_only: "regions_only s (fst (map_segments c buf s))"
proof -
  define s1 where "s1 = (case get_current_task s of None \<Rightarrow> s | Some c \<Rightarrow> upd_task s c (vm_regions_update (\<lambda>_. vm_region_init)))"
  have "regions_only s s1" by (auto simp: s1_def get_current_task_def intro: regions_only_upd split: option.splits)
  let ?f = "\<lambda>i u. load_segment c buf (phdr_at (phys (mem u)) (buf + e_phoff (ehdr_at (phys (mem s)) buf) + 56 * of_nat i)) u"
  obtain s2 e where s2: "segments (\<lambda>s. e_phnum (ehdr_at (phys (mem s)) buf)) ?f 0 s1 = (s2, e)" by force
  have "regions_only s1 (fst (segments (\<lambda>s. e_phnum (ehdr_at (phys (mem s)) buf)) ?f 0 s1))"
    by (rule segments_only) (rule load_segment_only)
  with \<open>regions_only s s1\<close> have s12: "regions_only s s2" unfolding s2 fst_conv by (rule regions_only_trans)
  have "regions_only s2 (add_stack c s2)"
    by (simp add: add_stack_def Let_def regions_only_mem add_region_only)
  from regions_only_trans [OF s12 this] s12 show ?thesis
    unfolding map_segments_def Let_def s1_def [symmetric] s2 by (cases e) simp_all
qed

lemma free_buf_only: "regions_only s s' \<Longrightarrow> regions_only s (free_buf p s')"
  by (simp add: free_buf_def regions_only_mem)

lemma elf_load_only:
  assumes "elf_load_into_address_space D pml4 name (s, fs) = ((s', fs'), r)"
  shows "regions_only s s'"
proof -
  note F = regions_only_mem [OF regions_only_refl]
  have "regions_only u (fst (map_segments pml4 b u))" for u b by (rule map_segments_only)
  then have M: "regions_only s (fst (map_segments pml4 b (s\<lparr>mem := k\<rparr>)))" for k b using F regions_only_trans by blast
  from assms show ?thesis
    unfolding elf_load_into_address_space_def with_fs_def
    by (auto simp: Let_def intro!: F free_buf_only split: prod.splits option.splits if_splits dest!: arg_cong [of _ _ fst])
      (use M in \<open>force+\<close>)
qed

lemma regions_only_current:
  "regions_only s s' \<Longrightarrow> current_task s = Some c \<Longrightarrow> \<exists>k f. s' = (upd_task s c (vm_regions_update f))\<lparr>mem := k\<rparr>"
  by (auto simp: regions_only_def)


subsection \<open>Returning from a signal handler\<close>

text \<open>C25: a signal handler that ends with \<^verbatim>\<open>sigreturn\<close> resumes the interrupted program where it was: instruction pointer,
  stack pointer, flags and segments are those of the moment of delivery, and the task takes signals again.
  The other registers are not restored: \<^verbatim>\<open>rax\<close> becomes 0, the rest keeps what the handler left in it.\<close>

theorem sigreturn_roundtrip:
  assumes "c < length (task_pool s)" "current_task s = Some c" "pid (task_pool s ! c) \<noteq> 0"
    "\<not> bit (signal_pending (task_pool s ! c)) SIGKILL" "\<not> in_signal (task_pool s ! c)" "next_signal (task_pool s ! c) = Some sig"
    "signal_handlers (task_pool s ! c) ! sig \<noteq> SIG_DFL" "r_cs r = 0x1B" "r_ss r = 0x23"
    and deliver: "signal_deliver cpu s r = Some (s1, r1)" and return: "sigreturn s1 c r2 = (s2, r3)"
  shows "r_rip r1 = signal_handlers (task_pool s ! c) ! sig \<and>
    r3 = r2\<lparr>r_rip := r_rip r, r_rsp := r_rsp r, r_rflags := r_rflags r, r_cs := r_cs r, r_ss := r_ss r, r_rax := 0\<rparr> \<and>
    \<not> in_signal (task_pool s2 ! c)"
  using deliver return assms(1,8,9) unfolding signal_deliver_handler [OF assms(1-7)]
  by (auto simp: sigreturn_def upd_task_def Let_def)

subsection \<open>The text of the date\<close>

definition number :: "bytes \<Rightarrow> nat" where
  "number ds = foldl (\<lambda>n d. 10 * n + (unat d - 48)) 0 ds"

lemma digit_unat: "n < 10 \<Longrightarrow> unat (digit n) = 48 + n"
  by (simp add: digit_def unat_word_ariths unat_of_nat_small)

text \<open>The text that the date call writes has 20 characters, and for a date in range its fields read back as the
  year, month, day, hour, minute and second.\<close>

theorem date_text_fields:
  assumes "unat (year dt) < 10000" "unat (month dt) < 100" "unat (day dt) < 100" "unat (hour dt) < 100" "unat (minute dt) < 100"
    "unat (second dt) < 100"
  defines "t \<equiv> date_text dt"
  shows "length t = 20 \<and> number (get_at 0 4 t) = unat (year dt) \<and> number (get_at 5 2 t) = unat (month dt) \<and>
    number (get_at 8 2 t) = unat (day dt) \<and> number (get_at 11 2 t) = unat (hour dt) \<and>
    number (get_at 14 2 t) = unat (minute dt) \<and> number (get_at 17 2 t) = unat (second dt)"
proof -
  have two: "number (two_digits x) = unat x" if "unat x < 100" for x :: u8
    using that by (simp add: number_def two_digits_def digit_unat less_mult_imp_div_less)
  have y: "number [digit (y div 1000 mod 10), digit (y div 100 mod 10), digit (y div 10 mod 10), digit (y mod 10)] = y"
    if "y < 10000" for y
  proof -
    have "y div 10 = 10 * (y div 100) + y div 10 mod 10" "y div 100 = 10 * (y div 1000) + y div 100 mod 10" "y div 1000 mod 10 = y div 1000"
      using that div_mult2_eq [of y 10 10] div_mult2_eq [of y 100 10] by (simp_all add: less_mult_imp_div_less)
    moreover have "y div 1000 < 10" using that by (simp add: less_mult_imp_div_less)
    ultimately show ?thesis by (simp add: number_def digit_unat)
  qed
  have l: "length (two_digits x) = 2" for x by (simp add: two_digits_def)
  show ?thesis
    using two assms(2-6) y [OF assms(1)] by (simp add: t_def date_text_def get_at_def l Let_def two_digits_def)
qed

subsection \<open>Witnesses\<close>

definition box_kernel :: "sys \<Rightarrow> unit kernel" where
  "box_kernel s = \<lparr>mach = box s,
     kfs = \<lparr>fs_heap = [], dev = (), sb = get_superblock (replicate 4096 0), cwd_inum = 0\<rparr>, heap_break = 0x510000\<rparr>"

definition no_disk :: "unit disk_ops" where
  "no_disk = \<lparr>d_read = (\<lambda>_ _ d. (d, None)), d_write = (\<lambda>_ _ _ d. (d, -1))\<rparr>"

theorem sbrk_bounds_witness:
  "sys_sbrk (box_kernel three_tasks) (zero_regs\<lparr>r_rdi := -1\<rparr>) =
     Return (box_kernel three_tasks) (zero_regs\<lparr>r_rdi := -1, r_rax := 0x510000\<rparr>) \<and> break_ok (box_kernel three_tasks)"
proof -
  have "sys_sbrk (box_kernel three_tasks) (zero_regs\<lparr>r_rdi := -1\<rparr>) =
     Return (box_kernel three_tasks) (zero_regs\<lparr>r_rdi := -1, r_rax := 0x510000\<rparr>)"
    by (simp add: sys_sbrk_def box_kernel_def ret_def Let_def)
  then show ?thesis using sbrk_bounds [of "box_kernel three_tasks" "zero_regs\<lparr>r_rdi := -1\<rparr>"] by (simp add: break_ok_def box_kernel_def)
qed

theorem sbrk_maps_witness:
  "\<exists>st' r' p. sys_sbrk (box_kernel (upd_task three_tasks 1 (cr3_update (\<lambda>_. 0x1000)))) (zero_regs\<lparr>r_rdi := 0x1000\<rparr>) = Return st' r' \<and>
     heap_break st' = 0x511000 \<and> map_option fst (mmu (mem (ksys st')) 0x1000 0x510123) = Some p \<and> phys (mem (ksys st')) p = 0"
proof -
  define s where "s = upd_task three_tasks 1 (cr3_update (\<lambda>_. 0x1000))"
  define st where "st = box_kernel s"
  let ?r = "zero_regs\<lparr>r_rdi := 0x1000\<rparr>"
  have c: "current_task s = Some 1" "cr3 (task_pool s ! 1) = 0x1000" "mem s = boot_kmem"
    using three_tasks_fields by (simp_all add: s_def upd_task_def MAX_TASKS_def) (simp add: three_tasks_def boot_sys_def scheduler_init_def upd_task_def Let_def)
  have ru: "round_up 0x510000 = 0x510000" "round_up 0x511000 = 0x511000" "steps 0x510000 0x511000 0x1000 = [0x510000]"
    by (simp_all add: round_up_def steps_def)
  obtain k1 where al: "memory_alloc_page boot_kmem = (k1, 0x600000)" by (simp add: memory_alloc_page_def boot_alloc Let_def)
  define k where "k = fst (paging_map_4kb (k1\<lparr>phys := memory_set (phys k1) 0x600000 0 4096\<rparr>) 0x1000 0x510000 0x600000
    (PAGE_PRESENT OR PAGE_RW OR PAGE_USER))"
  have st: "ksys st = s" "heap_break st = 0x510000" by (simp_all add: st_def box_kernel_def box_def)
  have run: "sys_sbrk st ?r = Return (set_sys (st\<lparr>heap_break := 0x511000\<rparr>) (s\<lparr>mem := k\<rparr>)) (?r\<lparr>r_rax := 0x510000\<rparr>)"
    using c ru al by (simp add: sys_sbrk_def st ret_def with_task_def sbrk_page_def k_def Let_def)
  have "takes 1 boot_kmem (k1\<lparr>phys := memory_set (phys k1) 0x600000 0 4096\<rparr>)" using takes_alloc [of boot_kmem] al by (simp add: takes_def)
  from takes_trans [OF this takes_map] have "takes (1 + 3) boot_kmem k" by (simp only: k_def)
  then obtain j where j: "j \<le> 4" "page_alloc_cur k = 0x600000 + 4096 * of_nat j" "page_alloc_end k = 0x800000"
    by (auto simp: takes_def boot_alloc)
  then have "j = 0 \<or> j = 1 \<or> j = 2 \<or> j = 3 \<or> j = 4" by auto
  then have left: "page_alloc_cur k < page_alloc_end k" using j(2,3) by (elim disjE) simp_all
  from sbrk_maps [OF _ _ run, of 1 boot_levels]
  have "\<forall>a. 0x510000 \<le> a \<and> a < 0x511000 \<longrightarrow> (\<exists>p. map_option fst (mmu k 0x1000 a) = Some p \<and> phys k p = 0)"
    using c left st ru boot_root by (simp add: break_ok_def set_sys_def)
  from this [rule_format, of "0x510123"] obtain p where "map_option fst (mmu k 0x1000 0x510123) = Some p" "phys k p = 0" by auto
  then show ?thesis using run unfolding s_def [symmetric] st_def [symmetric]
    by (intro exI [of _ "set_sys (st\<lparr>heap_break := 0x511000\<rparr>) (s\<lparr>mem := k\<rparr>)"] exI [of _ "?r\<lparr>r_rax := 0x510000\<rparr>"] exI [of _ p])
      (simp add: set_sys_def)
qed


theorem sigreturn_roundtrip_witness:
  "\<exists>s1 r1 s2 r3. signal_deliver 0x1000 (trapped\<lparr>current_task := Some 2\<rparr>) (zero_regs\<lparr>r_rip := 0x400777, r_rsp := 0x500000\<rparr>) = Some (s1, r1) \<and>
     r_rip r1 = 0x400100 \<and> sigreturn s1 2 (zero_regs\<lparr>r_rax := 28\<rparr>) = (s2, r3) \<and> r_rip r3 = 0x400777 \<and> r_rsp r3 = 0x500000"
proof -
  let ?s = "trapped\<lparr>current_task := Some 2\<rparr>" and ?r = "zero_regs\<lparr>r_rip := 0x400777, r_rsp := 0x500000\<rparr>"
  note T = trapped_fields
  have len: "2 < length (task_pool trapped)" using T(1) by (simp add: sched_inv_def ring_def MAX_TASKS_def)
  have h: "signal_handlers (task_pool ?s ! 2) ! 2 = 0x400100" using T(9) by simp
  have v: "list_all (\<lambda>i. drop_bit 21 (0x4FFFF8 + of_nat i :: u64) = 2) [0..<8]" by code_simp
  then have "\<exists>k'. store64 0x1000 0x4FFFF8 x (mem trapped) = Some k'" for x
    using store_bytes_boot [OF T(4), of "le_bytes 8 x" "0x4FFFF8"] by (auto simp: store64_def list_all_iff)
  moreover have "drop_bit 21 (0x4FF000 :: u64) = 2" by code_simp
  then have "signal_page (mem trapped) 0x1000 0x4FF000 = mem trapped" using boot_like_mmu(2) [OF T(4)] by (simp add: signal_page_def)
  ultimately have "\<exists>s1 r1. signal_deliver 0x1000 ?s ?r = Some (s1, r1)"
    using signal_deliver_handler [of 2 ?s 2 "0x1000" ?r] T trapped_signal len h by (auto simp: SIG_DFL_def)
  then obtain s1 r1 where d: "signal_deliver 0x1000 ?s ?r = Some (s1, r1)" by blast
  obtain s2 r3 where ret: "sigreturn s1 2 (zero_regs\<lparr>r_rax := 28\<rparr>) = (s2, r3)" by force
  from sigreturn_roundtrip [OF _ _ _ _ _ _ _ _ _ d ret, of 2] show ?thesis
    using d ret T trapped_signal len h by (auto simp: SIG_DFL_def zero_regs_def)
qed

theorem date_text_fields_witness:
  "let t = date_text \<lparr>year = 2026, month = 2, day = 28, hour = 9, minute = 5, second = 0\<rparr>
   in t = str ''2026-02-28 09:05:00'' @ [10] \<and> number (get_at 0 4 t) = 2026 \<and> number (get_at 8 2 t) = 28"
  using date_text_fields [of "\<lparr>year = 2026, month = 2, day = 28, hour = 9, minute = 5, second = 0\<rparr>"]
  by (simp add: Let_def) (simp add: date_text_def two_digits_def digit_def str_def)

end
