(* ===== verification/Descriptors.thy ===== *)
theory Descriptors
  imports Syscalls
begin

text \<open>
  The references that pipes count against the descriptors of all tasks: the invariant that a count is the
  number of descriptors, or more after a fork that failed, kept by the calls that create, duplicate and close
  descriptors, by fork, exit and the removal of a zombie, and by the ticks of the scheduler.
\<close>

subsection \<open>Counting\<close>

lemma sum_upd:
  fixes f :: "nat \<Rightarrow> int"
  assumes "i < n" "\<And>j. j < n \<Longrightarrow> j \<noteq> i \<Longrightarrow> g j = f j"
  shows "(\<Sum>j<n. g j) = (\<Sum>j<n. f j) - f i + g i"
proof -
  have "(\<Sum>j \<in> {..<n} - {i}. g j) = (\<Sum>j \<in> {..<n} - {i}. f j)" using assms(2) by (intro sum.cong) auto
  then show ?thesis using assms(1) by (simp add: sum.remove [of _ i])
qed

lemma fd_refs_sum: "int (fd_refs t ty p) = (\<Sum>i<MAX_FDS. if refers t ty p i then 1 else 0)"
proof -
  have "int (length (filter P [0..<n])) = (\<Sum>i<n. if P i then 1 else 0)" for P n
    by (induction n) simp_all
  then show ?thesis by (simp add: fd_refs_def)
qed

definition put_fd :: "nat \<Rightarrow> u8 \<Rightarrow> nat option \<Rightarrow> task_t \<Rightarrow> task_t" where
  "put_fd i ty q t = t\<lparr>fd_type := (fd_type t)[i := ty], fd_data := (fd_data t)[i := q]\<rparr>"

lemma set_fd_eq: "set_fd s c i ty q = upd_task s c (put_fd i ty q)"
  by (simp add: set_fd_def put_fd_def [abs_def])

definition fds_wf :: "task_t \<Rightarrow> bool" where
  "fds_wf t \<longleftrightarrow> length (fd_type t) = MAX_FDS \<and> length (fd_data t) = MAX_FDS \<and>
     (\<forall>i < MAX_FDS. fd_type t ! i = 0 \<or> pipe_end (fd_type t ! i) \<and> (\<exists>p < MAX_PIPES. fd_data t ! i = Some p))"

lemma refers_put_fd:
  assumes "fds_wf t" "i < MAX_FDS" "j < MAX_FDS"
  shows "refers (put_fd i ty' q t) ty p j = (if i = j then ty' = ty \<and> q = Some p else refers t ty p j)"
  using assms by (auto simp: refers_def put_fd_def fds_wf_def)

lemma fd_refs_put_fd:
  assumes "fds_wf t" "i < MAX_FDS"
  shows "int (fd_refs (put_fd i ty' q t) ty p) =
    int (fd_refs t ty p) - (if refers t ty p i then 1 else 0) + (if ty' = ty \<and> q = Some p then 1 else 0)"
  unfolding fd_refs_sum
  using sum_upd [OF assms(2), of "\<lambda>j. if refers (put_fd i ty' q t) ty p j then 1 else 0" "\<lambda>j. if refers t ty p j then 1 else 0"]
    refers_put_fd [OF assms] assms(2) by simp

lemma fds_wf_put_fd:
  "fds_wf t \<Longrightarrow> i < MAX_FDS \<Longrightarrow> ty = 0 \<or> pipe_end ty \<and> (\<exists>p < MAX_PIPES. q = Some p) \<Longrightarrow> fds_wf (put_fd i ty q t)"
  by (auto simp: fds_wf_def put_fd_def nth_list_update)

text \<open>The descriptors of all tasks that refer to an end of a pipe.\<close>

definition holds :: "sys \<Rightarrow> u8 \<Rightarrow> nat \<Rightarrow> int" where
  "holds s ty p = (\<Sum>t<length (task_pool s). int (fd_refs (task_pool s ! t) ty p))"

lemma holds_nonneg: "0 \<le> holds s ty p"
  by (simp add: holds_def sum_nonneg)

lemma fd_refs_le_holds: "t < length (task_pool s) \<Longrightarrow> int (fd_refs (task_pool s ! t) ty p) \<le> holds s ty p"
  unfolding holds_def by (rule member_le_sum) auto

lemma refers_holds:
  assumes "t < length (task_pool s)" "refers (task_pool s ! t) ty p i" "i < MAX_FDS"
  shows "0 < holds s ty p"
proof -
  have "i \<in> set (filter (refers (task_pool s ! t) ty p) [0..<MAX_FDS])" using assms(2,3) by simp
  then have "0 < fd_refs (task_pool s ! t) ty p" unfolding fd_refs_def by (rule length_pos_if_in_set)
  then show ?thesis using fd_refs_le_holds [OF assms(1), of ty p] by linarith
qed

lemma holds_set_fd:
  assumes "c < length (task_pool s)" "fds_wf (task_pool s ! c)" "i < MAX_FDS"
  shows "holds (set_fd s c i ty' q) ty p =
    holds s ty p - (if refers (task_pool s ! c) ty p i then 1 else 0) + (if ty' = ty \<and> q = Some p then 1 else 0)"
proof -
  have "holds (set_fd s c i ty' q) ty p =
      holds s ty p - int (fd_refs (task_pool s ! c) ty p) + int (fd_refs (put_fd i ty' q (task_pool s ! c)) ty p)"
    unfolding holds_def set_fd_eq
    using sum_upd [OF assms(1), of "\<lambda>t. int (fd_refs (task_pool (upd_task s c (put_fd i ty' q)) ! t) ty p)"
        "\<lambda>t. int (fd_refs (task_pool s ! t) ty p)"] assms(1) by (simp add: upd_task_def)
  then show ?thesis using fd_refs_put_fd [OF assms(2,3)] by simp
qed

lemma holds_cong:
  "length (task_pool s') = length (task_pool s) \<Longrightarrow>
   (\<And>t. fd_type (task_pool s' ! t) = fd_type (task_pool s ! t)) \<Longrightarrow> (\<And>t. fd_data (task_pool s' ! t) = fd_data (task_pool s ! t)) \<Longrightarrow>
   holds s' ty p = holds s ty p"
  by (simp add: holds_def fd_refs_def refers_def [abs_def])

subsection \<open>The invariant\<close>

text \<open>An end is open exactly while it is referred to, and a pipe is in use exactly while an end is open.\<close>

definition pipe_ok :: "pipe_t \<Rightarrow> bool" where
  "pipe_ok q \<longleftrightarrow> (\<forall>ty. pipe_end ty \<longrightarrow> 0 \<le> pipe_refs ty q \<and> (pipe_open ty q \<longleftrightarrow> 0 < pipe_refs ty q)) \<and>
     (pipe_used q \<longleftrightarrow> read_open q \<or> write_open q)"

lemma pipe_ok_iff:
  "pipe_ok q \<longleftrightarrow> 0 \<le> read_refcnt q \<and> 0 \<le> write_refcnt q \<and> (read_open q \<longleftrightarrow> 0 < read_refcnt q) \<and>
     (write_open q \<longleftrightarrow> 0 < write_refcnt q) \<and> (pipe_used q \<longleftrightarrow> read_open q \<or> write_open q)"
  by (auto simp: pipe_ok_def pipe_refs_def pipe_open_def)

lemma pipe_ok_close:
  "pipe_ok q \<Longrightarrow> 0 < read_refcnt q \<Longrightarrow> pipe_ok (close_read q)"
  "pipe_ok q \<Longrightarrow> 0 < write_refcnt q \<Longrightarrow> pipe_ok (close_write q)"
  by (auto simp: pipe_ok_iff less_one_def close_read_def close_write_def Let_def)

text \<open>\<open>counted s \<delta>\<close>: the counts are those of the descriptors plus the difference \<open>\<delta>\<close>.\<close>

definition counted :: "sys \<Rightarrow> (u8 \<Rightarrow> nat \<Rightarrow> int) \<Rightarrow> bool" where
  "counted s \<delta> \<longleftrightarrow> length (pipe_pool s) = MAX_PIPES \<and> (\<forall>t < length (task_pool s). fds_wf (task_pool s ! t)) \<and>
     (\<forall>p < MAX_PIPES. pipe_ok (pipe_at s p)) \<and>
     (\<forall>p < MAX_PIPES. \<forall>ty. pipe_end ty \<longrightarrow> pipe_refs ty (pipe_at s p) = holds s ty p + \<delta> ty p)"

definition one :: "u8 \<Rightarrow> nat option \<Rightarrow> u8 \<Rightarrow> nat \<Rightarrow> int" where
  "one ty' q ty p = (if ty' = ty \<and> q = Some p then 1 else 0)"

lemma counted_cong: "counted s \<delta> \<Longrightarrow> (\<And>ty p. p < MAX_PIPES \<Longrightarrow> pipe_end ty \<Longrightarrow> \<delta> ty p = \<epsilon> ty p) \<Longrightarrow> counted s \<epsilon>"
  by (simp add: counted_def)

lemma counted_set_fd:
  assumes "counted s \<delta>" "c < length (task_pool s)" "i < MAX_FDS" "ty' = 0 \<or> pipe_end ty' \<and> (\<exists>p < MAX_PIPES. q = Some p)"
  shows "counted (set_fd s c i ty' q)
    (\<lambda>ty p. \<delta> ty p + one (fd_type (task_pool s ! c) ! i) (fd_data (task_pool s ! c) ! i) ty p - one ty' q ty p)"
proof -
  have wf: "fds_wf (task_pool s ! c)" using assms(1,2) by (simp add: counted_def)
  have "fds_wf (task_pool (set_fd s c i ty' q) ! t)" if "t < length (task_pool s)" for t
    using that assms fds_wf_put_fd [OF wf assms(3,4)] by (auto simp: set_fd_eq upd_task_def nth_upd counted_def)
  then show ?thesis
    using assms(1,2,4) holds_set_fd [OF assms(2) wf assms(3)]
    by (simp add: counted_def set_fd_eq one_def refers_def upd_task_def)
qed

lemma counted_close:
  assumes "counted s \<delta>" "pipe_end ty'" "q < MAX_PIPES" "0 < pipe_refs ty' (pipe_at s q)"
  shows "counted (pipe_close_end s (Some q) (end_of ty')) (\<lambda>ty p. \<delta> ty p - one ty' (Some q) ty p)"
proof -
  let ?s = "pipe_close_end s (Some q) (end_of ty')"
  have "pipe_ok (pipe_at ?s p)" if "p < MAX_PIPES" for p
  proof (cases "p = q")
    case True
    then show ?thesis
      using close_end_pipe [of q s "end_of ty'"] assms pipe_ok_close [of "pipe_at s q"] that
      by (auto simp: counted_def end_of_def pipe_refs_def)
  next
    case False
    then show ?thesis using close_end_other [of "Some q" p s "end_of ty'"] assms(1) that by (simp add: counted_def)
  qed
  moreover have "pipe_refs ty (pipe_at ?s p) = holds ?s ty p + (\<delta> ty p - one ty' (Some q) ty p)"
    if "p < MAX_PIPES" "pipe_end ty" for ty p
  proof -
    have "holds ?s ty p = holds s ty p" by (rule holds_cong) simp_all
    then show ?thesis
      using close_end_refs(1) [of p s ty ty' "Some q"] assms that by (auto simp: counted_def one_def less_one_def)
  qed
  ultimately show ?thesis using assms(1) by (simp add: counted_def fds_wf_def)
qed

lemma counted_inc:
  assumes "counted s \<delta>" "pipe_end ty'" "q < MAX_PIPES" "pipe_open ty' (pipe_at s q)"
  shows "counted (pipe_ref_inc s (Some q) (end_of ty')) (\<lambda>ty p. \<delta> ty p + one ty' (Some q) ty p)"
proof -
  let ?s = "pipe_ref_inc s (Some q) (end_of ty')"
  have at: "pipe_at ?s p = (if p = q then (if ty' = FD_PIPE_READ then read_refcnt_update (\<lambda>n. n + 1) (pipe_at s q)
      else write_refcnt_update (\<lambda>n. n + 1) (pipe_at s q)) else pipe_at s p)" if "p < MAX_PIPES" for p
    using that assms(1,2) by (auto simp: pipe_ref_inc_def end_of_def upd_pipe_def nth_upd counted_def)
  have "pipe_ok (pipe_at ?s p)" if "p < MAX_PIPES" for p
    using that assms by (auto simp: at counted_def pipe_ok_iff pipe_open_def)
  moreover have "holds ?s ty p = holds s ty p" for ty p by (rule holds_cong) simp_all
  moreover have "length (pipe_pool ?s) = length (pipe_pool s)" by (simp add: pipe_ref_inc_def upd_pipe_def)
  ultimately show ?thesis
    using assms(1,2) by (auto simp: counted_def at one_def pipe_refs_def)
qed

subsection \<open>The operations\<close>

text \<open>The difference is never negative: a fork that fails leaves counts behind, never descriptors without a count.\<close>

definition nonneg :: "(u8 \<Rightarrow> nat \<Rightarrow> int) \<Rightarrow> bool" where
  "nonneg \<delta> \<longleftrightarrow> (\<forall>ty p. 0 \<le> \<delta> ty p)"

lemma nonneg_one: "nonneg \<delta> \<Longrightarrow> nonneg (\<lambda>ty p. \<delta> ty p + one a b ty p)"
  by (auto simp: nonneg_def one_def)

lemma end_of_ends [simp]: "end_of FD_PIPE_READ = 0" "end_of FD_PIPE_WRITE = 1"
  by (simp_all add: end_of_def)

lemma one_free [simp]: "pipe_end ty \<Longrightarrow> one 0 q ty p = 0"
  by (auto simp: one_def)

lemma inv_fd:
  assumes "counted s \<delta>" "nonneg \<delta>" "c < length (task_pool s)" "i < MAX_FDS" "fd_type (task_pool s ! c) ! i \<noteq> 0"
  obtains p where "pipe_end (fd_type (task_pool s ! c) ! i)" "fd_data (task_pool s ! c) ! i = Some p" "p < MAX_PIPES"
    "0 < pipe_refs (fd_type (task_pool s ! c) ! i) (pipe_at s p)" "0 < holds s (fd_type (task_pool s ! c) ! i) p"
proof -
  have wf: "fds_wf (task_pool s ! c)" using assms(1,3) by (simp add: counted_def)
  then obtain p where p: "pipe_end (fd_type (task_pool s ! c) ! i)" "fd_data (task_pool s ! c) ! i = Some p" "p < MAX_PIPES"
    using assms(4,5) by (auto simp: fds_wf_def)
  then have pos: "0 < holds s (fd_type (task_pool s ! c) ! i) p"
    using refers_holds [OF assms(3) _ assms(4)] by (simp add: refers_def)
  have "pipe_refs (fd_type (task_pool s ! c) ! i) (pipe_at s p) =
      holds s (fd_type (task_pool s ! c) ! i) p + \<delta> (fd_type (task_pool s ! c) ! i) p"
    using p(1,3) assms(1) by (auto simp: counted_def)
  then have "0 < pipe_refs (fd_type (task_pool s ! c) ! i) (pipe_at s p)"
    using pos assms(2) by (simp add: nonneg_def add_pos_nonneg)
  then show thesis using that p pos by blast
qed

text \<open>Closing a descriptor: the count goes down with the number of descriptors.\<close>

definition drop_fd :: "sys \<Rightarrow> nat \<Rightarrow> nat \<Rightarrow> sys" where
  "drop_fd s c i =
     (let ty = fd_type (task_pool s ! c) ! i
      in if ty = 0 then s else pipe_close_end s (fd_data (task_pool s ! c) ! i) (end_of ty))"

lemma counted_drop:
  assumes "counted s \<delta>" "nonneg \<delta>" "c < length (task_pool s)" "i < MAX_FDS"
  shows "counted (drop_fd s c i)
    (\<lambda>ty p. \<delta> ty p - one (fd_type (task_pool s ! c) ! i) (fd_data (task_pool s ! c) ! i) ty p)"
proof (cases "fd_type (task_pool s ! c) ! i = 0")
  case True
  then show ?thesis using assms(1) by (auto simp: drop_fd_def elim!: counted_cong)
next
  case False
  then obtain p where p: "pipe_end (fd_type (task_pool s ! c) ! i)" "fd_data (task_pool s ! c) ! i = Some p" "p < MAX_PIPES"
    "0 < pipe_refs (fd_type (task_pool s ! c) ! i) (pipe_at s p)"
    using inv_fd [OF assms] by metis
  from counted_close [OF assms(1) p(1,3,4)] show ?thesis using False p(2) by (simp add: drop_fd_def)
qed

lemma drop_fd_frame [simp]:
  "length (task_pool (drop_fd s c i)) = length (task_pool s)"
  "fd_type (task_pool (drop_fd s c i) ! t) = fd_type (task_pool s ! t)" "fd_data (task_pool (drop_fd s c i) ! t) = fd_data (task_pool s ! t)"
  by (simp_all add: drop_fd_def Let_def)

lemma inv_replace_fd:
  assumes "counted s \<delta>" "nonneg \<delta>" "c < length (task_pool s)" "i < MAX_FDS" "ty' = 0 \<or> pipe_end ty' \<and> (\<exists>p < MAX_PIPES. q = Some p)"
  shows "counted (set_fd (drop_fd s c i) c i ty' q) (\<lambda>ty p. \<delta> ty p - one ty' q ty p)"
  using counted_set_fd [OF counted_drop [OF assms(1-4)] _ assms(4,5), of c] assms(3) by simp

lemma inv_clear_fd:
  assumes "counted s \<delta>" "nonneg \<delta>" "c < length (task_pool s)" "i < MAX_FDS"
  shows "counted (set_fd (drop_fd s c i) c i 0 None) \<delta>"
  using inv_replace_fd [OF assms, of 0 None] by (rule counted_cong) simp_all

lemma drop_fd_close:
  assumes "counted s \<delta>" "nonneg \<delta>" "c < length (task_pool s)" "i < MAX_FDS"
  shows "drop_fd s c i =
    (if fd_type (task_pool s ! c) ! i = FD_PIPE_READ then pipe_close_end s (fd_data (task_pool s ! c) ! i) 0
     else if fd_type (task_pool s ! c) ! i = FD_PIPE_WRITE then pipe_close_end s (fd_data (task_pool s ! c) ! i) 1 else s)"
  using assms by (cases "fd_type (task_pool s ! c) ! i = 0") (auto simp: drop_fd_def Let_def elim: inv_fd)

lemma close_inv:
  assumes "counted s \<delta>" "nonneg \<delta>" "c < length (task_pool s)"
  shows "counted (fst (close s c fd)) \<delta>"
  using assms inv_clear_fd [OF assms, of "nat fd"] drop_fd_close [OF assms, of "nat fd"]
  by (auto simp: close_def Let_def MAX_FDS_def)

lemma task_close_fds_inv:
  assumes "counted s \<delta>" "nonneg \<delta>" "t < length (task_pool s)"
  shows "counted (task_close_fds s (Some t)) \<delta>"
proof -
  have step: "counted (close_fd t i s) \<delta> \<and> length (task_pool (close_fd t i s)) = length (task_pool s)"
    if "counted s \<delta>" "t < length (task_pool s)" "i < MAX_FDS" for s i
    using inv_clear_fd [OF that(1) assms(2) that(2,3)] drop_fd_close [OF that(1) assms(2) that(2,3)] that
    by (auto simp: close_fd_def set_fd_def Let_def upd_task_def)
  have "counted (fold (close_fd t) xs s) \<delta>" if "counted s \<delta>" "t < length (task_pool s)" "\<forall>i \<in> set xs. i < MAX_FDS" for xs s
    using that by (induction xs arbitrary: s) (simp_all add: step)
  then show ?thesis using assms by (simp add: task_close_fds_def)
qed

lemma two_refs:
  assumes "t < length (task_pool s)" "refers (task_pool s ! t) ty p i" "refers (task_pool s ! t) ty p j"
    "i < MAX_FDS" "j < MAX_FDS" "i \<noteq> j"
  shows "2 \<le> holds s ty p"
proof -
  have "card {i, j} \<le> card (set (filter (refers (task_pool s ! t) ty p) [0..<MAX_FDS]))"
    using assms by (intro card_mono) auto
  also have "\<dots> \<le> fd_refs (task_pool s ! t) ty p" unfolding fd_refs_def by (rule card_length)
  finally show ?thesis using assms(6) fd_refs_le_holds [OF assms(1), of ty p] by simp
qed

lemma dup2_inv:
  assumes inv: "counted s \<delta>" and nn: "nonneg \<delta>" and c: "c < length (task_pool s)"
  shows "counted (fst (dup2 s c oldfd newfd)) \<delta>"
proof (cases "oldfd < 0 \<or> oldfd \<ge> int MAX_FDS \<or> newfd < 0 \<or> newfd \<ge> int MAX_FDS \<or>
    fd_type (task_pool s ! c) ! nat oldfd = 0 \<or> oldfd = newfd")
  case True
  then show ?thesis using inv by (auto simp: dup2_def Let_def)
next
  case False
  define i j where "i = nat oldfd" and "j = nat newfd"
  let ?ty = "fd_type (task_pool s ! c) ! i" and ?q = "fd_data (task_pool s ! c) ! i"
  have ij: "i < MAX_FDS" "j < MAX_FDS" "i \<noteq> j" "?ty \<noteq> 0" using False by (auto simp: i_def j_def nat_less_iff)
  obtain p where p: "pipe_end ?ty" "?q = Some p" "p < MAX_PIPES" using inv_fd [OF inv nn c ij(1,4)] by metis
  let ?u = "set_fd (drop_fd s c j) c j ?ty ?q"
  have R: "counted ?u (\<lambda>ty p. \<delta> ty p - one ?ty ?q ty p)" by (rule inv_replace_fd [OF inv nn c ij(2)]) (use p in auto)
  have cu: "c < length (task_pool ?u)" using c by (simp add: set_fd_eq upd_task_def)
  have "fds_wf (task_pool s ! c)" using inv c by (simp add: counted_def)
  then have "refers (task_pool ?u ! c) ?ty p i" "refers (task_pool ?u ! c) ?ty p j"
    using c ij p by (auto simp: refers_def set_fd_eq upd_task_def put_fd_def fds_wf_def)
  then have "2 \<le> holds ?u ?ty p" using two_refs [OF cu] ij by blast
  moreover have "0 \<le> \<delta> ?ty p" using nn by (simp add: nonneg_def)
  moreover have "pipe_refs ?ty (pipe_at ?u p) = holds ?u ?ty p + \<delta> ?ty p - 1" using R p by (auto simp: counted_def one_def)
  ultimately have "0 < pipe_refs ?ty (pipe_at ?u p)" by linarith
  then have "pipe_open ?ty (pipe_at ?u p)" using R p by (auto simp: counted_def pipe_ok_def)
  from counted_inc [OF R p(1,3) this] have "counted (pipe_ref_inc ?u ?q (end_of ?ty)) \<delta>" using p(2) by simp
  moreover have "fst (dup2 s c oldfd newfd) = pipe_ref_inc ?u ?q (end_of ?ty)"
    using False by (auto simp: dup2_def Let_def i_def j_def drop_fd_def pipe_ref_dec_def pipe_close_end_def split: option.splits)
  ultimately show ?thesis by simp
qed

text \<open>A copy forgets the descriptor it overwrites, whose count remains.\<close>

lemma copy_fd_inv:
  assumes inv: "counted s \<delta>" and nn: "nonneg \<delta>" and "d \<noteq> r" "d < length (task_pool s)" "r < length (task_pool s)" "i < MAX_FDS"
  shows "counted (copy_fd d r i s)
    (\<lambda>ty p. \<delta> ty p + one (fd_type (task_pool s ! d) ! i) (fd_data (task_pool s ! d) ! i) ty p)" (is "counted _ ?\<epsilon>")
proof -
  let ?ty = "fd_type (task_pool s ! r) ! i" and ?q = "fd_data (task_pool s ! r) ! i"
  let ?u = "set_fd s d i ?ty ?q"
  have R: "counted ?u (\<lambda>ty p. ?\<epsilon> ty p - one ?ty ?q ty p)" if "?ty = 0 \<or> pipe_end ?ty \<and> (\<exists>p < MAX_PIPES. ?q = Some p)"
    using counted_set_fd [OF inv assms(4,6) that] .
  show ?thesis
  proof (cases "?ty = 0")
    case True
    then have "counted ?u ?\<epsilon>" using R by (auto elim!: counted_cong)
    then show ?thesis using True by (simp add: copy_fd_def set_fd_def Let_def)
  next
    case False
    then obtain p where p: "pipe_end ?ty" "?q = Some p" "p < MAX_PIPES" "0 < pipe_refs ?ty (pipe_at s p)"
      using inv_fd [OF inv nn assms(5,6)] by metis
    then have op: "pipe_open ?ty (pipe_at ?u p)" using inv by (auto simp: counted_def pipe_ok_def set_fd_eq)
    have "counted ?u (\<lambda>ty p. ?\<epsilon> ty p - one ?ty ?q ty p)" using R p by blast
    from counted_inc [OF this p(1,3) op] have "counted (pipe_ref_inc ?u ?q (end_of ?ty)) ?\<epsilon>" using p(2) by simp
    moreover have "copy_fd d r i s = pipe_ref_inc ?u ?q (end_of ?ty)"
      using p(1) by (auto simp: copy_fd_def set_fd_def Let_def)
    ultimately show ?thesis by simp
  qed
qed

definition no_fds :: "task_t \<Rightarrow> bool" where
  "no_fds t \<longleftrightarrow> (\<forall>i < MAX_FDS. fd_type t ! i = 0)"

lemma task_copy_fds_inv:
  assumes "counted s \<delta>" "nonneg \<delta>" "d \<noteq> r" "d < length (task_pool s)" "r < length (task_pool s)"
  shows "\<exists>\<epsilon>. nonneg \<epsilon> \<and> counted (task_copy_fds s (Some d) (Some r)) \<epsilon>"
    "no_fds (task_pool s ! d) \<Longrightarrow> counted (task_copy_fds s (Some d) (Some r)) \<delta>"
proof -
  have "\<exists>\<epsilon>. nonneg \<epsilon> \<and> counted (fold (copy_fd d r) [0..<n] s) \<epsilon> \<and> (no_fds (task_pool s ! d) \<longrightarrow> \<epsilon> = \<delta>) \<and>
      length (task_pool (fold (copy_fd d r) [0..<n] s)) = length (task_pool s) \<and>
      (\<forall>i. n \<le> i \<longrightarrow> fd_type (task_pool (fold (copy_fd d r) [0..<n] s) ! d) ! i = fd_type (task_pool s ! d) ! i)"
    if "n \<le> MAX_FDS" for n
    using that
  proof (induction n)
    case (Suc n)
    let ?s = "fold (copy_fd d r) [0..<n] s"
    obtain \<epsilon> where e: "nonneg \<epsilon>" "counted ?s \<epsilon>" "no_fds (task_pool s ! d) \<longrightarrow> \<epsilon> = \<delta>" "length (task_pool ?s) = length (task_pool s)"
      "\<forall>i. n \<le> i \<longrightarrow> fd_type (task_pool ?s ! d) ! i = fd_type (task_pool s ! d) ! i"
      using Suc by auto
    let ?\<epsilon> = "\<lambda>ty p. \<epsilon> ty p + one (fd_type (task_pool ?s ! d) ! n) (fd_data (task_pool ?s ! d) ! n) ty p"
    have c: "counted (copy_fd d r n ?s) ?\<epsilon>"
      by (rule copy_fd_inv [OF e(2,1) assms(3)]) (use Suc.prems e(4) assms(4,5) in simp_all)
    have fr: "length (task_pool (copy_fd d r n ?s)) = length (task_pool s)"
      "\<forall>i. Suc n \<le> i \<longrightarrow> fd_type (task_pool (copy_fd d r n ?s) ! d) ! i = fd_type (task_pool s ! d) ! i"
      using e(4,5) assms(4) copy_fd_tasks [OF assms(3), where i = n and s = ?s] by simp_all
    show ?case
    proof (cases "no_fds (task_pool s ! d)")
      case True
      then have "counted (copy_fd d r n ?s) \<delta>"
        using c e(3,5) Suc.prems by (auto simp: no_fds_def elim!: counted_cong)
      then show ?thesis using fr assms(2) by (intro exI [of _ \<delta>]) simp
    next
      case False
      then show ?thesis using c fr nonneg_one [OF e(1)] by (intro exI [of _ ?\<epsilon>]) simp
    qed
  qed (use assms in auto)
  from this [of MAX_FDS] show "\<exists>\<epsilon>. nonneg \<epsilon> \<and> counted (task_copy_fds s (Some d) (Some r)) \<epsilon>"
    "no_fds (task_pool s ! d) \<Longrightarrow> counted (task_copy_fds s (Some d) (Some r)) \<delta>"
    by (auto simp: task_copy_fds_def)
qed

lemma pipe_create_cases:
  assumes "counted s \<delta>" "pipe_create s = (s1, r)"
  obtains (none) "r = None" "s1 = s" "\<forall>i < MAX_PIPES. pipe_used (pipe_at s i)"
    | (some) i where "r = Some i" "i < MAX_PIPES" "\<not> pipe_used (pipe_at s i)" "task_pool s1 = task_pool s"
      "length (pipe_pool s1) = MAX_PIPES" "\<And>p. p \<noteq> i \<Longrightarrow> pipe_at s1 p = pipe_at s p"
      "pipe_used (pipe_at s1 i)" "read_open (pipe_at s1 i)" "write_open (pipe_at s1 i)"
      "read_refcnt (pipe_at s1 i) = 0" "write_refcnt (pipe_at s1 i) = 0"
proof (cases "find (\<lambda>i. \<not> pipe_used (pipe_at s i)) [0..<MAX_PIPES]")
  case None
  then have "r = None" "s1 = s" using assms(2) by (simp_all add: pipe_create_def)
  then show thesis using None by (intro none) (auto simp: find_None_iff)
next
  case (Some i)
  then have "i < MAX_PIPES" "\<not> pipe_used (pipe_at s i)" by (auto simp: find_Some_iff)
  moreover have "length (pipe_pool s) = MAX_PIPES" using assms(1) by (simp add: counted_def)
  ultimately show thesis using assms(2) Some by (intro some [of i]) (auto simp: pipe_create_def upd_pipe_def)
qed

lemma inv_unused:
  assumes "counted s \<delta>" "nonneg \<delta>" "p < MAX_PIPES" "\<not> pipe_used (pipe_at s p)" "pipe_end ty"
  shows "holds s ty p = 0" "\<delta> ty p = 0"
proof -
  have "pipe_refs ty (pipe_at s p) = 0" using assms by (auto simp: counted_def pipe_ok_iff pipe_refs_def)
  moreover have "pipe_refs ty (pipe_at s p) = holds s ty p + \<delta> ty p" using assms by (auto simp: counted_def)
  moreover have "0 \<le> \<delta> ty p" using assms(2) by (simp add: nonneg_def)
  ultimately show "holds s ty p = 0" "\<delta> ty p = 0" using holds_nonneg [of s ty p] by linarith+
qed

lemma open_pipe_inv:
  assumes inv: "counted s \<delta>" and nn: "nonneg \<delta>" and c: "c < length (task_pool s)"
  shows "counted (fst (open_pipe s c)) \<delta>"
proof (cases "\<exists>a b l. free_fds (task_pool s ! c) = a # b # l")
  case False
  then show ?thesis using inv by (auto simp: open_pipe_def split: list.splits)
next
  case True
  then obtain a b l where fr: "free_fds (task_pool s ! c) = a # b # l" by blast
  have "distinct (free_fds (task_pool s ! c))" by (simp add: free_fds_def)
  then have "a \<noteq> b" "{a, b} \<subseteq> set (free_fds (task_pool s ! c))" by (auto simp: fr)
  then have ab: "a < MAX_FDS" "b < MAX_FDS" "a \<noteq> b" "fd_type (task_pool s ! c) ! a = 0" "fd_type (task_pool s ! c) ! b = 0"
    by (auto simp: free_fds_def)
  obtain s1 r where cr: "pipe_create s = (s1, r)" by force
  from inv cr show ?thesis
  proof (cases rule: pipe_create_cases)
    case none
    then show ?thesis using inv fr cr by (simp add: open_pipe_def)
  next
    case (some p)
    let ?s2 = "set_fd s1 c a FD_PIPE_READ (Some p)"
    let ?s3 = "set_fd ?s2 c b FD_PIPE_WRITE (Some p)"
    let ?s4 = "pipe_ref_inc (pipe_ref_inc ?s3 (Some p) 0) (Some p) 1"
    have wf: "\<forall>t < length (task_pool s). fds_wf (task_pool s ! t)" using inv by (simp add: counted_def)
    have c1: "c < length (task_pool s1)" "fds_wf (task_pool s1 ! c)" using c wf some(4) by simp_all
    have c2: "c < length (task_pool ?s2)" "fds_wf (task_pool ?s2 ! c)"
      using c1 fds_wf_put_fd [OF c1(2) ab(1), of FD_PIPE_READ "Some p"] some(2) by (auto simp: set_fd_eq upd_task_def)
    have b0: "fd_type (task_pool ?s2 ! c) ! b = 0" using c1 ab some(4) by (auto simp: set_fd_eq upd_task_def put_fd_def)
    have h1: "holds s1 ty q = holds s ty q" for ty q by (rule holds_cong) (simp_all add: some(4))
    have h: "holds ?s4 ty q = holds s ty q + one FD_PIPE_READ (Some p) ty q + one FD_PIPE_WRITE (Some p) ty q" if "pipe_end ty" for ty q
    proof -
      have "holds ?s4 ty q = holds ?s3 ty q" by (rule holds_cong) simp_all
      then show ?thesis
        using holds_set_fd [OF c2 ab(2), of FD_PIPE_WRITE "Some p" ty q] holds_set_fd [OF c1 ab(1), of FD_PIPE_READ "Some p" ty q]
          b0 ab(4) some(4) that h1 [of ty q] by (auto simp: refers_def one_def)
    qed
    have at: "pipe_at ?s4 q = (if q = p then (pipe_at s1 p)\<lparr>read_refcnt := 1, write_refcnt := 1\<rparr> else pipe_at s q)" for q
      using some by (auto simp: pipe_ref_inc_def upd_pipe_def set_fd_eq nth_upd)
    have "fds_wf (task_pool ?s4 ! t)" if "t < length (task_pool s)" for t
      using that wf c1 c2 fds_wf_put_fd [OF c2(2) ab(2), of FD_PIPE_WRITE "Some p"] some(2,4)
      by (cases "t = c") (auto simp: set_fd_eq upd_task_def)
    moreover have "length (pipe_pool ?s4) = MAX_PIPES" "length (task_pool ?s4) = length (task_pool s)"
      using some(4,5) by (simp_all add: pipe_ref_inc_def upd_pipe_def set_fd_eq upd_task_def)
    moreover have "pipe_ok (pipe_at ?s4 q)" if "q < MAX_PIPES" for q
      using that inv some by (auto simp: at counted_def pipe_ok_iff)
    moreover have "pipe_refs ty (pipe_at ?s4 q) = holds ?s4 ty q + \<delta> ty q" if "q < MAX_PIPES" "pipe_end ty" for ty q
      using that inv h inv_unused [OF inv nn some(2,3)] by (auto simp: at counted_def one_def pipe_refs_def)
    ultimately have "counted ?s4 \<delta>" unfolding counted_def by simp
    then show ?thesis using fr cr some(1) by (simp add: open_pipe_def)
  qed
qed

subsection \<open>Changes that leave the descriptors alone\<close>

definition same_fds :: "sys \<Rightarrow> sys \<Rightarrow> bool" where
  "same_fds s u \<longleftrightarrow> pipe_pool u = pipe_pool s \<and> length (task_pool u) = length (task_pool s) \<and>
     (\<forall>t < length (task_pool s). fd_type (task_pool u ! t) = fd_type (task_pool s ! t) \<and> fd_data (task_pool u ! t) = fd_data (task_pool s ! t))"

lemma same_fds_counted:
  assumes "same_fds s u" "counted s \<delta>"
  shows "counted u \<delta>"
proof -
  have "holds u ty p = holds s ty p" for ty p
    using assms(1) unfolding holds_def same_fds_def by (intro sum.cong) (simp_all add: fd_refs_def refers_def [abs_def])
  then show ?thesis using assms by (simp add: counted_def same_fds_def fds_wf_def)
qed

lemma same_fds_refl [simp]: "same_fds s s"
  by (simp add: same_fds_def)

lemma same_fds_upd:
  "same_fds s u \<Longrightarrow> (\<And>t. fd_type (f t) = fd_type t \<and> fd_data (f t) = fd_data t) \<Longrightarrow> same_fds s (upd_task u i f)"
  "same_fds s u \<Longrightarrow> same_fds s (u\<lparr>mem := k\<rparr>)" "same_fds s u \<Longrightarrow> same_fds s (u\<lparr>next_pid := n\<rparr>)"
  "same_fds s u \<Longrightarrow> same_fds s (u\<lparr>current_task := ct\<rparr>)"
  by (auto simp: same_fds_def upd_task_def nth_upd)

lemma scheduler_tick_fds:
  assumes "sched_inv s" "scheduler_tick s = Some t"
  shows "sched_inv t" "task_count t = task_count s" "same_fds s t"
proof -
  obtain c where c: "current_task s = Some c" using assms(1) by (auto simp: sched_inv_def)
  show "sched_inv t" "task_count t = task_count s" using scheduler_tick_step [OF assms(1) c] assms(2) by auto
  show "same_fds s t"
    using scheduler_tick_eq [OF assms(1) c] assms(2) by (auto simp: Let_def same_fds_def upd_task_def nth_upd split: if_splits)
qed

text \<open>A fork changes descriptors by the copy into the new slot only, also when it fails later.\<close>

lemma sys_fork_fds:
  fixes r :: u64
  assumes "sched_inv s" "current_task s = Some p" "task_count s < MAX_TASKS" "\<forall>i < MAX_TASKS. fds_ok (task_pool s ! i)"
    and fork: "sys_fork s prsp pcr3 r = Some (t, v)"
  shows "sched_inv t" "same_fds (fork_task s (task_count s) p) t" "task_count t = task_count s \<and> v = -1 \<or> task_count t = Suc (task_count s)"
proof -
  define n where "n = task_count s"
  have n: "n < MAX_TASKS" "length (task_pool s) = MAX_TASKS" "p < n"
    using assms(1-3) by (auto simp: sched_inv_def ring_def n_def)
  have "p \<noteq> n" "n < length (task_pool s)" "fds_ok (task_pool s ! n)" "fds_ok (task_pool s ! p)" using n assms(4) by auto
  note E = fork_task_effect [OF this]
  let ?w = "fork_task s n p"
  let ?P = "\<lambda>u. sched_inv u \<and> same_fds ?w u \<and> task_count u = n \<and> state (task_pool u ! n) \<noteq> TASK_RUNNING"
  have w: "?P ?w" using assms(1) E(1-3,5,7,8) by (auto simp: sched_inv_def ring_def n_def child_of_def)
  have upd: "?P (upd_task u n f)"
    if "?P u" "\<And>t. fd_type (f t) = fd_type t \<and> fd_data (f t) = fd_data t \<and> (state (f t) = state t \<or> state (f t) = TASK_ZOMBIE)" for u f
    using that upd_beyond_inv [of u n f] same_fds_upd(1) [of ?w u f n] by (auto simp: upd_task_def nth_upd split: if_splits)
      (metis task_state_t.distinct)+
  have memk: "?P (u\<lparr>mem := k\<rparr>)" if "?P u" for u k using that same_fds_upd(2) by simp
  have undo: "?P (fork_undo u n b)" if "?P u" for u b unfolding fork_undo_def by (intro upd memk that) simp
  have link: "sched_inv t \<and> same_fds ?w t \<and> task_count t = Suc n" if "?P u" "link_task u n = Some t" for u
  proof -
    have u: "sched_inv u" "task_count u = n" "state (task_pool u ! n) \<noteq> TASK_RUNNING" using that(1) by auto
    obtain t' where t': "link_task u n = Some t'" "sched_inv t'" "task_count t' = Suc n" "pipe_pool t' = pipe_pool u"
      "\<forall>i < MAX_TASKS. \<exists>x. task_pool t' ! i = (task_pool u ! i)\<lparr>next_task := x\<rparr>"
      using link_task_inv [OF u(1), unfolded u(2), OF n(1) u(3)] by blast
    have "length (task_pool t') = length (task_pool u)" "length (task_pool u) = MAX_TASKS"
      using t'(2) that(1) by (auto simp: sched_inv_def ring_def)
    moreover have "fd_type (task_pool t' ! i) = fd_type (task_pool u ! i) \<and> fd_data (task_pool t' ! i) = fd_data (task_pool u ! i)"
      if i: "i < MAX_TASKS" for i
    proof -
      obtain x where "task_pool t' ! i = (task_pool u ! i)\<lparr>next_task := x\<rparr>" using t'(5) i by blast
      then show ?thesis by simp
    qed
    ultimately have "same_fds u t'" using t'(4) by (simp add: same_fds_def)
    then have "same_fds ?w t'" using that(1) by (simp add: same_fds_def)
    then show ?thesis using t' that(2) by simp
  qed
  define base pb where "base = snd (memory_alloc (heap_blocks (mem s)) STACK_SIZE)" and "pb = stack_base (task_pool s ! p)"
  obtain k1 c where k1: "paging_create (fork_mem (mem s) pb r) = (k1, c)" by force
  obtain k2 res where k2: "paging_cow_clone_user k1 c pcr3 = (k2, res)" by force
  define u where "u = upd_task ?w n (stack_base_update (\<lambda>_. base))"
  define x where "x = upd_task u n (\<lambda>t. t\<lparr>rsp := base + (prsp - pb), cr3 := c\<rparr>)"
  have u: "?P u" unfolding u_def by (rule upd [OF w]) simp
  have x: "?P x" unfolding x_def by (rule upd [OF u]) simp
  let ?h = "fst (memory_alloc (heap_blocks (mem s)) STACK_SIZE)"
  have eq: "sys_fork s prsp pcr3 r =
      (if base = 0 then Some (u\<lparr>mem := (mem s)\<lparr>heap_blocks := ?h\<rparr>\<rparr>, -1)
       else if c = 0 then Some (fork_undo (x\<lparr>mem := k1\<rparr>) n base, -1)
       else if res < 0 then Some (fork_undo (x\<lparr>mem := k2\<rparr>) n base, -1)
       else map_option (\<lambda>t. (t, sint (pid (task_pool t ! n)))) (link_task (x\<lparr>mem := k2\<rparr>) n))"
    using sys_fork_eq [OF assms(2,3), of prsp pcr3 r] E(4) k1 k2
    by (simp add: u_def x_def n_def base_def pb_def Let_def)
  consider "t = u\<lparr>mem := (mem s)\<lparr>heap_blocks := ?h\<rparr>\<rparr> \<and> v = -1" | "t = fork_undo (x\<lparr>mem := k1\<rparr>) n base \<and> v = -1"
    | "t = fork_undo (x\<lparr>mem := k2\<rparr>) n base \<and> v = -1" | "link_task (x\<lparr>mem := k2\<rparr>) n = Some t"
    using eq [symmetric, unfolded fork] by (auto split: if_splits)
  then have "sched_inv t \<and> same_fds ?w t \<and> (task_count t = n \<and> v = -1 \<or> task_count t = Suc n)"
    using memk [OF u] undo [OF memk [OF x]] link [OF memk [OF x]] by cases blast+
  then show "sched_inv t" "same_fds (fork_task s (task_count s) p) t" "task_count t = task_count s \<and> v = -1 \<or> task_count t = Suc (task_count s)"
    by (simp_all add: n_def)
qed

subsection \<open>Every sequence of calls\<close>

text \<open>
  The steps are the calls of the running task and the ticks of the timer. The mark of a step says that references
  are lost: a fork that fails although a slot is free has copied the descriptors and does not close them.
\<close>

inductive fd_step :: "bool \<Rightarrow> sys \<Rightarrow> sys \<Rightarrow> bool" where
  Pipe: "current_task s = Some c \<Longrightarrow> fd_step False s (fst (open_pipe s c))"
| Dup2: "current_task s = Some c \<Longrightarrow> fd_step False s (fst (dup2 s c oldfd newfd))"
| Close: "current_task s = Some c \<Longrightarrow> fd_step False s (fst (close s c fd))"
| Fork: "sys_fork s prsp pcr3 r = Some (s', v) \<Longrightarrow> fd_step (task_count s < MAX_TASKS \<and> v = -1) s s'"
| Exit: "sys_exit s code = Some s' \<Longrightarrow> fd_step False s s'"
| Reap: "fd_step False s (scheduler_remove_zombie s p)"
| Tick: "scheduler_tick s = Some s' \<Longrightarrow> fd_step False s s'"

inductive fd_run :: "bool \<Rightarrow> sys \<Rightarrow> sys \<Rightarrow> bool" where
  refl: "fd_run False s s"
| step: "fd_run l s t \<Longrightarrow> fd_step l' t u \<Longrightarrow> fd_run (l \<or> l') s u"

text \<open>\<open>kept b s u\<close>: \<open>u\<close> has the invariant of the tasks and counted descriptors when \<open>s\<close> has; unless the mark \<open>b\<close> is set,
  no reference is lost and the slots of the pool that no task has yet hold no descriptors, when that was so.\<close>

definition spare_free :: "sys \<Rightarrow> bool" where
  "spare_free s \<longleftrightarrow> (\<forall>t. task_count s \<le> t \<and> t < MAX_TASKS \<longrightarrow> no_fds (task_pool s ! t))"

definition refs_inv :: "bool \<Rightarrow> sys \<Rightarrow> bool" where
  "refs_inv lost s \<longleftrightarrow> sched_inv s \<and> (\<exists>\<delta>. nonneg \<delta> \<and> counted s \<delta> \<and> (\<not> lost \<longrightarrow> spare_free s \<and> \<delta> = (\<lambda>ty p. 0)))"

lemma refs_invI:
  assumes "sched_inv u" "nonneg \<delta>" "counted u \<delta>" "\<not> lost \<Longrightarrow> spare_free u \<and> \<delta> = (\<lambda>ty p. 0)"
  shows "refs_inv lost u"
  using assms unfolding refs_inv_def by blast

lemma spare_free_cong:
  assumes "spare_free s" "task_count u = task_count s"
    "\<And>t. task_count s \<le> t \<Longrightarrow> t < MAX_TASKS \<Longrightarrow> fd_type (task_pool u ! t) = fd_type (task_pool s ! t)"
  shows "spare_free u"
  using assms by (auto simp: spare_free_def no_fds_def)

lemma woken_calls:
  "woken s (fst (open_pipe s c))" "woken s (fst (dup2 s c a b))" "woken s (fst (close s c a))"
  by (auto simp: open_pipe_def pipe_create_def dup2_def close_def set_fd_def Let_def pipe_ref_dec_def task_core_def
      split: list.split option.split intro!: woken_ref_inc woken_upd_fds woken_upd_pipe woken_close_end)

lemma calls_other:
  assumes "j \<noteq> c"
  shows "fd_type (task_pool (fst (open_pipe s c)) ! j) = fd_type (task_pool s ! j)"
    "fd_type (task_pool (fst (dup2 s c a b)) ! j) = fd_type (task_pool s ! j)"
    "fd_type (task_pool (fst (close s c a)) ! j) = fd_type (task_pool s ! j)"
    "fd_type (task_pool (task_close_fds s (Some c)) ! j) = fd_type (task_pool s ! j)"
proof -
  show "fd_type (task_pool (fst (open_pipe s c)) ! j) = fd_type (task_pool s ! j)"
    using assms by (auto simp: open_pipe_def pipe_create_def set_fd_eq upd_task_def split: list.split option.split)
  show "fd_type (task_pool (fst (dup2 s c a b)) ! j) = fd_type (task_pool s ! j)"
    "fd_type (task_pool (fst (close s c a)) ! j) = fd_type (task_pool s ! j)"
    using assms by (simp_all add: dup2_def close_def Let_def pipe_ref_dec_def set_fd_eq upd_task_def split: option.split)
  have "fd_type (task_pool (fold (close_fd c) xs s) ! j) = fd_type (task_pool s ! j)" for xs
    using assms by (induction xs arbitrary: s) (simp_all add: close_fd_def Let_def upd_task_def)
  then show "fd_type (task_pool (task_close_fds s (Some c)) ! j) = fd_type (task_pool s ! j)" by (simp add: task_close_fds_def)
qed

text \<open>A call that changes the descriptors of one task that exists and counts them right keeps the invariant.\<close>

lemma refs_inv_call:
  assumes "refs_inv lost s" "c < task_count s" "sched_inv u" "task_count u = task_count s"
    "\<And>\<delta>. counted s \<delta> \<Longrightarrow> nonneg \<delta> \<Longrightarrow> c < length (task_pool s) \<Longrightarrow> counted u \<delta>"
    "\<And>t. t < MAX_TASKS \<Longrightarrow> t \<noteq> c \<Longrightarrow> fd_type (task_pool u ! t) = fd_type (task_pool s ! t)"
  shows "refs_inv lost u"
proof -
  obtain \<delta> where d: "nonneg \<delta>" "counted s \<delta>" "\<not> lost \<Longrightarrow> spare_free s \<and> \<delta> = (\<lambda>ty p. 0)" "sched_inv s"
    using assms(1) unfolding refs_inv_def by blast
  have "c < length (task_pool s)" using d(4) assms(2) by (auto simp: sched_inv_def ring_def)
  then have "counted u \<delta>" using assms(5) d(1,2) by blast
  moreover have "spare_free u" if "spare_free s" by (rule spare_free_cong [OF that assms(4)]) (use assms(2,6) in auto)
  ultimately show ?thesis using assms(3) d by (intro refs_invI [of u \<delta>]) auto
qed

lemma refs_inv_tick:
  assumes "refs_inv lost s" "scheduler_tick s = Some t"
  shows "refs_inv lost t"
proof -
  obtain \<delta> where d: "nonneg \<delta>" "counted s \<delta>" "\<not> lost \<Longrightarrow> spare_free s \<and> \<delta> = (\<lambda>ty p. 0)" "sched_inv s"
    using assms(1) unfolding refs_inv_def by blast
  note T = scheduler_tick_fds [OF d(4) assms(2)]
  have "spare_free t" if "spare_free s"
    by (rule spare_free_cong [OF that T(2)]) (use T(3) d(4) in \<open>simp add: same_fds_def sched_inv_def ring_def\<close>)
  then show ?thesis using T same_fds_counted [OF T(3) d(2)] d by (intro refs_invI [of t \<delta>]) auto
qed

lemma fork_task_copies:
  "\<exists>s1. same_fds s s1 \<and> same_fds (task_copy_fds s1 (Some n) (Some p)) (fork_task s n p)"
  unfolding fork_task_def Let_def
  by (rule exI, rule conjI [rotated], rule same_fds_upd(1), rule same_fds_refl) (auto intro!: same_fds_upd)

lemma reap_closes: "\<exists>s1. same_fds s s1 \<and> reap s i = task_close_fds s1 (Some i)"
proof -
  define s1 where "s1 = (if stack_base (task_pool s ! i) \<noteq> 0
    then upd_task (s\<lparr>mem := (mem s)\<lparr>heap_blocks := memory_free (heap_blocks (mem s)) (stack_base (task_pool s ! i))\<rparr>\<rparr>) i
           (stack_base_update (\<lambda>_. 0)) else s)"
  define s2 where "s2 = (if cr3 (task_pool s ! i) \<noteq> 0 \<and> cr3 (task_pool s ! i) \<noteq> 0x1000
    then upd_task (s1\<lparr>mem := paging_destroy (mem s1) (cr3 (task_pool s ! i))\<rparr>) i (cr3_update (\<lambda>_. 0)) else s1)"
  define s3 where "s3 = upd_task s2 i (\<lambda>t. t\<lparr>pid := 0, state := TASK_ZOMBIE\<rparr>)"
  have "same_fds s s1" unfolding s1_def by (auto intro!: same_fds_upd)
  then have "same_fds s s2" unfolding s2_def by (auto intro!: same_fds_upd)
  then have "same_fds s s3" unfolding s3_def by (auto intro!: same_fds_upd)
  moreover have "reap s i = task_close_fds s3 (Some i)" by (simp add: reap_def s1_def s2_def s3_def Let_def)
  ultimately show ?thesis by blast
qed

lemma refs_inv_fork:
  fixes r :: u64
  assumes "refs_inv lost s" "sys_fork s prsp pcr3 r = Some (t, v)"
  shows "refs_inv (lost \<or> task_count s < MAX_TASKS \<and> v = -1) t"
proof (cases "task_count s < MAX_TASKS")
  case False
  then show ?thesis using assms by (simp add: sys_fork_def)
next
  case room: True
  obtain \<delta> where d: "nonneg \<delta>" "counted s \<delta>" "\<not> lost \<Longrightarrow> spare_free s \<and> \<delta> = (\<lambda>ty p. 0)" "sched_inv s"
    using assms(1) unfolding refs_inv_def by blast
  obtain p where p: "current_task s = Some p" "p < task_count s" using d(4) by (auto simp: sched_inv_def)
  have len: "length (task_pool s) = MAX_TASKS" using d(4) by (simp add: sched_inv_def ring_def)
  have wf: "\<forall>i < MAX_TASKS. fds_ok (task_pool s ! i)" using d(2) len by (simp add: counted_def fds_wf_def fds_ok_def)
  note F = sys_fork_fds [OF d(4) p(1) room wf assms(2)]
  let ?n = "task_count s"
  obtain s1 where s1: "same_fds s s1" "same_fds (task_copy_fds s1 (Some ?n) (Some p)) (fork_task s ?n p)"
    using fork_task_copies by blast
  have c1: "counted s1 \<delta>" by (rule same_fds_counted [OF s1(1) d(2)])
  have l1: "length (task_pool s1) = MAX_TASKS" using s1(1) len by (simp add: same_fds_def)
  note C = task_copy_fds_inv [OF c1 d(1), of ?n p]
  have S: "counted (task_copy_fds s1 (Some ?n) (Some p)) \<epsilon> \<Longrightarrow> counted t \<epsilon>" for \<epsilon>
    by (rule same_fds_counted [OF F(2) same_fds_counted [OF s1(2)]])
  show ?thesis
  proof (cases "lost \<or> v = -1")
    case True
    then show ?thesis using C(1) S F(1) room p l1 unfolding refs_inv_def by auto
  next
    case False
    have "no_fds (task_pool s1 ! ?n)" using d(3) False s1(1) room len by (auto simp: spare_free_def no_fds_def same_fds_def)
    then have "counted t \<delta>" using S C(2) room p l1 by auto
    moreover have "spare_free t"
    proof -
      have "fd_type (task_pool t ! j) = fd_type (task_pool s ! j)" if "j < MAX_TASKS" "j \<noteq> ?n" for j
        using F(2) fork_task_effect(5) [of p ?n s] fork_task_effect(7) [of p ?n s j] wf p room len that by (auto simp: same_fds_def)
      moreover have "task_count t = Suc ?n" using F(3) False by blast
      ultimately show ?thesis using d(3) False by (auto simp: spare_free_def no_fds_def)
    qed
    ultimately show ?thesis using F(1) d False by (intro refs_invI [of t \<delta>]) auto
  qed
qed

lemma refs_inv_exit:
  assumes "refs_inv lost s" "sys_exit s code = Some t"
  shows "refs_inv lost t"
proof -
  have inv: "sched_inv s" using assms(1) by (simp add: refs_inv_def)
  obtain c where c: "current_task s = Some c" "c < task_count s" using inv by (auto simp: sched_inv_def)
  let ?f = "\<lambda>t :: task_t. t\<lparr>state := TASK_ZOMBIE, exit_code := code\<rparr>"
  let ?u = "upd_task (task_close_fds s (Some c)) c ?f"
  note W = wokenD [OF woken_close_fds [of s "Some c"]]
  have "refs_inv lost ?u"
  proof (rule refs_inv_call [OF assms(1) c(2)])
    show "sched_inv ?u" by (rule upd_task_inv [OF woken_inv [OF woken_close_fds inv]]) simp_all
    show "counted ?u \<delta>" if "counted s \<delta>" "nonneg \<delta>" "c < length (task_pool s)" for \<delta>
      using same_fds_counted [OF same_fds_upd(1) [OF same_fds_refl, of ?f] task_close_fds_inv [OF that]] by simp
    show "fd_type (task_pool ?u ! t) = fd_type (task_pool s ! t)" if "t \<noteq> c" for t
      using calls_other(4) [OF that, of s] that by (simp add: upd_task_def)
  qed (use W(2) in simp)
  moreover have "scheduler_tick ?u = Some t" using assms(2) W(4) c(1) by (simp add: sys_exit_def Let_def)
  ultimately show ?thesis by (rule refs_inv_tick)
qed

lemma refs_inv_reap:
  assumes "refs_inv lost s"
  shows "refs_inv lost (scheduler_remove_zombie s q)"
proof (cases "find (\<lambda>i. pid (task_pool s ! i) = q \<and> state (task_pool s ! i) = TASK_ZOMBIE \<and> waited (task_pool s ! i)) [0..<task_count s]")
  case None
  then show ?thesis using assms by (simp add: scheduler_remove_zombie_def)
next
  case (Some i)
  then have i: "i < task_count s" "state (task_pool s ! i) = TASK_ZOMBIE" by (auto simp: find_Some_iff)
  have inv: "sched_inv s" using assms by (simp add: refs_inv_def)
  obtain s3 where s3: "same_fds s s3" "reap s i = task_close_fds s3 (Some i)"
    using reap_closes by blast
  have len: "length (task_pool s3) = length (task_pool s)" using s3(1) by (simp add: same_fds_def)
  have "refs_inv lost (reap s i)"
  proof (rule refs_inv_call [OF assms i(1) reap_effect(1,6) [OF inv i]])
    show "counted (reap s i) \<delta>" if "counted s \<delta>" "nonneg \<delta>" "i < length (task_pool s)" for \<delta>
      unfolding s3(2) by (rule task_close_fds_inv [OF same_fds_counted [OF s3(1) that(1)] that(2)]) (simp add: len that(3))
    show "fd_type (task_pool (reap s i) ! t) = fd_type (task_pool s ! t)" if "t < MAX_TASKS" "t \<noteq> i" for t
      using calls_other(4) [OF that(2), of s3] s3 inv that(1) by (simp add: same_fds_def sched_inv_def ring_def)
  qed
  then show ?thesis using Some by (simp add: scheduler_remove_zombie_def)
qed

lemma fd_step_inv:
  assumes "fd_step l s s'" "refs_inv lost s"
  shows "refs_inv (lost \<or> l) s'"
proof -
  have inv: "sched_inv s" using assms(2) by (simp add: refs_inv_def)
  have cur: "c < task_count s" if "current_task s = Some c" for c using inv that by (auto simp: sched_inv_def)
  have call: "refs_inv lost (f s c)" if "current_task s = Some c" "woken s (f s c)"
    "\<And>\<delta>. counted s \<delta> \<Longrightarrow> nonneg \<delta> \<Longrightarrow> c < length (task_pool s) \<Longrightarrow> counted (f s c) \<delta>"
    "\<And>t. t \<noteq> c \<Longrightarrow> fd_type (task_pool (f s c) ! t) = fd_type (task_pool s ! t)" for f c
    by (rule refs_inv_call [OF assms(2) _ woken_inv [OF that(2) inv] wokenD(2) [OF that(2)]])
      (use that cur in auto)
  show ?thesis using assms(1)
  proof cases
    case (Pipe c)
    then show ?thesis using call [of c "\<lambda>s c. fst (open_pipe s c)"] woken_calls(1) open_pipe_inv calls_other(1) by simp
  next
    case (Dup2 c a b)
    then show ?thesis using call [of c "\<lambda>s c. fst (dup2 s c a b)"] woken_calls(2) dup2_inv calls_other(2) by simp
  next
    case (Close c a)
    then show ?thesis using call [of c "\<lambda>s c. fst (close s c a)"] woken_calls(3) close_inv calls_other(3) by simp
  next
    case (Fork prsp pcr3 r v)
    then show ?thesis using refs_inv_fork [OF assms(2)] by simp
  next
    case (Exit code)
    then show ?thesis using refs_inv_exit [OF assms(2)] by simp
  next
    case (Reap q)
    then show ?thesis using refs_inv_reap [OF assms(2)] by simp
  next
    case Tick
    then show ?thesis using refs_inv_tick [OF assms(2)] by simp
  qed
qed

lemma fd_run_inv: "fd_run lost s s' \<Longrightarrow> refs_inv False s \<Longrightarrow> refs_inv lost s'"
  by (induction rule: fd_run.induct) (auto dest: fd_step_inv)


definition idle_pipes :: sys where
  "idle_pipes = pipe_init three_tasks"

lemma idle_pipes_inv: "refs_inv False idle_pipes"
proof -
  have f: "fd_type (task_pool idle_pipes ! t) = replicate MAX_FDS 0" "fd_data (task_pool idle_pipes ! t) = replicate MAX_FDS None"
    if "t < length (task_pool idle_pipes)" for t
  proof -
    have "\<forall>u \<in> set (task_pool idle_pipes). fd_type u = replicate MAX_FDS 0 \<and> fd_data u = replicate MAX_FDS None"
      by (auto simp: idle_pipes_def pipe_init_def three_tasks_def blank_task_def)
    then show "fd_type (task_pool idle_pipes ! t) = replicate MAX_FDS 0" "fd_data (task_pool idle_pipes ! t) = replicate MAX_FDS None"
      using that by auto
  qed
  have len: "length (task_pool idle_pipes) = MAX_TASKS" by (simp add: idle_pipes_def pipe_init_def three_tasks_def MAX_TASKS_def)
  have "holds idle_pipes ty p = 0" for ty p
    unfolding holds_def by (rule sum.neutral) (auto simp: fd_refs_def refers_def f filter_empty_conv)
  moreover have "pipe_at idle_pipes p = zero_pipe" if "p < MAX_PIPES" for p
    using that by (simp add: idle_pipes_def pipe_init_def)
  moreover have "pipe_refs ty zero_pipe = 0" "pipe_ok zero_pipe" for ty
    by (simp_all add: zero_pipe_def pipe_refs_def pipe_ok_iff)
  moreover have "fds_wf (task_pool idle_pipes ! t)" if "t < length (task_pool idle_pipes)" for t
    using f [OF that] by (simp add: fds_wf_def)
  moreover have "length (pipe_pool idle_pipes) = MAX_PIPES" by (simp add: idle_pipes_def pipe_init_def)
  ultimately have "counted idle_pipes (\<lambda>ty p. 0)" by (simp add: counted_def)
  moreover have "sched_inv idle_pipes"
    using three_tasks_inv by (simp add: sched_inv_def ring_def idle_pipes_def pipe_init_def)
  moreover have "spare_free idle_pipes" using f len by (simp add: spare_free_def no_fds_def)
  ultimately show ?thesis by (intro refs_invI) (simp_all add: nonneg_def)
qed


end
