(* ===== verification/Cstring.thy ===== *)
theory Cstring
  imports Pages
begin

text \<open>
  The string functions of the C library for programs, \<^verbatim>\<open>some-libc/string.c\<close>, on byte-addressed memory. A loop that
  runs until a terminator may not end: those are partial functions. The lengths are C integers; \<^verbatim>\<open>strlen\<close>
  counts in 32 bits.
\<close>

partial_function (option) strlen_loop :: "memory \<Rightarrow> u64 \<Rightarrow> u32 \<Rightarrow> u32 option" where
  "strlen_loop m s n = (if m (s + scast n) = 0 then Some n else strlen_loop m s (n + 1))"

definition strlen :: "memory \<Rightarrow> u64 \<Rightarrow> u32 option" where
  "strlen m s = strlen_loop m s 0"

partial_function (option) str_copy :: "memory \<Rightarrow> u64 \<Rightarrow> u64 \<Rightarrow> memory option" where
  "str_copy m d src =
     (let c = m src; m = m(d := c) in if c = 0 then Some m else str_copy m (d + 1) (src + 1))"

definition strcpy :: "memory \<Rightarrow> u64 \<Rightarrow> u64 \<Rightarrow> memory option" where
  "strcpy m dst src = str_copy m dst src"

partial_function (option) strcmp :: "memory \<Rightarrow> u64 \<Rightarrow> u64 \<Rightarrow> int option" where
  "strcmp m a b =
     (if m a \<noteq> 0 \<and> m a = m b then strcmp m (a + 1) (b + 1) else Some (uint (m a) - uint (m b)))"

primrec strncpy_loop :: "nat \<Rightarrow> memory \<Rightarrow> u64 \<Rightarrow> u64 \<Rightarrow> memory" where
  "strncpy_loop 0 m d src = m"
| "strncpy_loop (Suc n) m d src =
     (let c = m src; m = m(d := c) in if c = 0 then memory_set m (d + 1) 0 n else strncpy_loop n m (d + 1) (src + 1))"

definition strncpy :: "memory \<Rightarrow> u64 \<Rightarrow> u64 \<Rightarrow> int \<Rightarrow> memory" where
  "strncpy m dst src n = strncpy_loop (nat n) m dst src"

partial_function (option) str_end :: "memory \<Rightarrow> u64 \<Rightarrow> u64 option" where
  "str_end m d = (if m d = 0 then Some d else str_end m (d + 1))"

definition strcat :: "memory \<Rightarrow> u64 \<Rightarrow> u64 \<Rightarrow> memory option" where
  "strcat m dst src = Option.bind (str_end m dst) (\<lambda>d. str_copy m d src)"

text \<open>\<^verbatim>\<open>NULL\<close> is the address 0. A character is signed, and is compared with an integer.\<close>

partial_function (option) strchr :: "memory \<Rightarrow> u64 \<Rightarrow> int \<Rightarrow> u64 option" where
  "strchr m s c = (if m s = 0 then Some 0 else if sint (m s) = c then Some s else strchr m (s + 1) c)"

definition memset :: "memory \<Rightarrow> u64 \<Rightarrow> int \<Rightarrow> int \<Rightarrow> memory" where
  "memset m dst c n = memory_set m dst (word_of_int c) (nat n)"

definition memcpy :: "memory \<Rightarrow> u64 \<Rightarrow> u64 \<Rightarrow> int \<Rightarrow> memory" where
  "memcpy m dst src n = memory_copy m dst src (nat n)"

primrec copy_down :: "nat \<Rightarrow> memory \<Rightarrow> u64 \<Rightarrow> u64 \<Rightarrow> memory" where
  "copy_down 0 m d s = m"
| "copy_down (Suc n) m d s = copy_down n (m(d - 1 := m (s - 1))) (d - 1) (s - 1)"

definition memmove :: "memory \<Rightarrow> u64 \<Rightarrow> u64 \<Rightarrow> int \<Rightarrow> memory" where
  "memmove m d s n =
     (if d < s then memory_copy m d s (nat n) else copy_down (nat n) m (d + word_of_int n) (s + word_of_int n))"

function match_len :: "memory \<Rightarrow> u64 \<Rightarrow> u64 \<Rightarrow> nat \<Rightarrow> nat \<Rightarrow> nat" where
  "match_len m haystack needle nlen i =
     (if i < nlen \<and> m (haystack + of_nat i) = m (needle + of_nat i) then match_len m haystack needle nlen (Suc i) else i)"
  by pat_completeness auto
termination by (relation "measure (\<lambda>(m, h, nd, n, i). n - i)") auto

declare match_len.simps [simp del]

partial_function (option) strstr_loop :: "memory \<Rightarrow> u64 \<Rightarrow> u64 \<Rightarrow> nat \<Rightarrow> u64 option" where
  "strstr_loop m haystack needle nlen =
     (if m haystack = 0 then Some 0
      else if match_len m haystack needle nlen 0 = nlen then Some haystack
      else strstr_loop m (haystack + 1) needle nlen)"

definition strstr :: "memory \<Rightarrow> u64 \<Rightarrow> u64 \<Rightarrow> u64 option" where
  "strstr m haystack needle =
     (if m needle = 0 then Some haystack
      else Option.bind (strlen m needle) (\<lambda>nlen. strstr_loop m haystack needle (nat (sint nlen))))"

subsection \<open>Strings in memory\<close>

text \<open>\<open>string_at m a s\<close>: at \<open>a\<close> begins a string with the text \<open>s\<close>.\<close>

primrec string_at :: "memory \<Rightarrow> u64 \<Rightarrow> bytes \<Rightarrow> bool" where
  "string_at m a [] \<longleftrightarrow> m a = 0"
| "string_at m a (c # s) \<longleftrightarrow> m a = c \<and> c \<noteq> 0 \<and> string_at m (a + 1) s"

lemma string_at_nth: "string_at m a s \<Longrightarrow> i \<le> length s \<Longrightarrow> m (a + of_nat i) = chr_at (s @ [0]) i"
proof (induction s arbitrary: a i)
  case (Cons c s)
  then show ?case using Cons.IH [of "a + 1" "i - 1"] by (cases i) (auto simp: add.assoc)
qed simp

lemma string_at_drop: "string_at m a s \<Longrightarrow> i \<le> length s \<Longrightarrow> string_at m (a + of_nat i) (drop i s)"
proof (induction s arbitrary: a i)
  case (Cons c s)
  then show ?case using Cons.IH [of "a + 1" "i - 1"] by (cases i) (auto simp: add.assoc)
qed simp

lemma string_at_no_nul: "string_at m a s \<Longrightarrow> 0 \<notin> set s"
  by (induction s arbitrary: a) auto

lemma string_at_unique: "string_at m a s \<Longrightarrow> string_at m a t \<Longrightarrow> s = t"
proof (induction s arbitrary: a t)
  case Nil
  then show ?case by (cases t) auto
next
  case (Cons c s)
  then show ?case by (cases t) auto
qed

lemma string_at_cong:
  "(\<And>i. i \<le> length s \<Longrightarrow> m' (a + of_nat i) = m (a + of_nat i)) \<Longrightarrow> string_at m' a s \<longleftrightarrow> string_at m a s"
proof (induction s arbitrary: a)
  case Nil
  then show ?case using Nil [of 0] by simp
next
  case (Cons c s)
  have "string_at m' (a + 1) s \<longleftrightarrow> string_at m (a + 1) s"
    by (rule Cons.IH) (use Cons.prems [of "Suc i" for i] in \<open>simp add: add.assoc\<close>)
  then show ?case using Cons.prems [of 0] by auto
qed

lemma scast_small:
  assumes "n < 2 ^ 31"
  shows "(scast (of_nat n :: u32) :: u64) = of_nat n"
proof -
  have "sint (of_nat n :: u32) = int n"
    using assms by (simp add: signed_of_nat signed_take_bit_int_eq_self)
  then show ?thesis by (metis of_int_of_nat_eq of_int_sint)
qed

lemma strlen_loop_eq:
  assumes "string_at m (s + of_nat n) t" "n + length t < 2 ^ 31"
  shows "strlen_loop m s (of_nat n) = Some (of_nat (n + length t))"
  using assms
proof (induction t arbitrary: n)
  case Nil
  then show ?case by (subst strlen_loop.simps) (simp add: scast_small)
next
  case (Cons c t)
  have "strlen_loop m s (of_nat (Suc n)) = Some (of_nat (Suc n + length t))"
    by (rule Cons.IH) (use Cons.prems in \<open>simp_all add: algebra_simps\<close>)
  moreover have "m (s + scast (of_nat n :: u32)) \<noteq> 0" using Cons.prems by (simp add: scast_small)
  ultimately show ?case by (subst strlen_loop.simps) (simp add: add.commute)
qed

lemma strlen_eq: "string_at m s t \<Longrightarrow> length t < 2 ^ 31 \<Longrightarrow> strlen m s = Some (of_nat (length t))"
  using strlen_loop_eq [of m s 0 t] by (simp add: strlen_def)

subsection \<open>Comparing\<close>

text \<open>Two strings compare as their first difference does, and the result is 0 only for equal strings.\<close>

fun str_order :: "bytes \<Rightarrow> bytes \<Rightarrow> int" where
  "str_order (c # s) (d # t) = (if c = d then str_order s t else uint c - uint d)"
| "str_order s t = uint (chr_at s 0) - uint (chr_at t 0)"

lemma string_at_hd: "string_at m a s \<Longrightarrow> chr_at s 0 = m a"
  by (cases s) auto

lemma strcmp_eq: "string_at m a s \<Longrightarrow> string_at m b t \<Longrightarrow> strcmp m a b = Some (str_order s t)"
proof (induction s t arbitrary: a b rule: str_order.induct)
  case (1 c s d t)
  then show ?case by (subst strcmp.simps) auto
qed (auto simp: strcmp.simps [of m a b for a b] string_at_hd)

lemma str_order_0: "0 \<notin> set s \<Longrightarrow> 0 \<notin> set t \<Longrightarrow> str_order s t = 0 \<longleftrightarrow> s = t"
proof (induction s arbitrary: t)
  case Nil
  then show ?case by (cases t) (auto simp: uint_0_iff)
next
  case (Cons c s)
  show ?case
  proof (cases t)
    case Nil
    then show ?thesis using Cons.prems by (simp add: uint_0_iff)
  next
    case t: (Cons d u)
    then show ?thesis using Cons.IH [of u] Cons.prems by (cases "c = d") (simp_all add: word_uint_eq_iff)
  qed
qed

subsection \<open>Copying\<close>

text \<open>The bytes from \<open>a\<close> on, without wrapping around the end of memory.\<close>

definition within :: "u64 \<Rightarrow> nat \<Rightarrow> u64 \<Rightarrow> bool" where
  "within a n x \<longleftrightarrow> unat (x - a) < n"

lemma within_Suc: "within a (Suc n) x \<longleftrightarrow> x = a \<or> within (a + 1) n x"
proof (cases "x = a")
  case False
  then have "unat (x - (a + 1)) = unat (x - a) - 1" "unat (x - a) \<noteq> 0"
    using unat_minus_one [of "x - a"] by (simp_all add: diff_diff_eq unat_eq_zero)
  then show ?thesis using False by (auto simp: within_def)
qed (simp add: within_def)

lemma string_upd_other:
  assumes "string_at m a s" "\<And>x. within a (Suc (length s)) x \<Longrightarrow> m' x = m x" "length s < 2 ^ 63"
  shows "string_at m' a s"
proof -
  have "m' (a + of_nat i) = m (a + of_nat i)" if "i \<le> length s" for i
    using assms(2,3) that by (simp add: within_def unat_of_nat_small)
  then show ?thesis using assms(1) string_at_cong [of s m' a m] by blast
qed

lemma memory_copy_up:
  assumes "unat d + n \<le> 2 ^ 64" "unat s + n \<le> 2 ^ 64" "d < s"
  shows "memory_copy m d s n a = (if within d n a then m (s + (a - d)) else m a)"
  using assms(1,2)
proof (induction n arbitrary: a)
  case 0
  then show ?case by (simp add: within_def)
next
  case (Suc n)
  have IH: "memory_copy m d s n b = (if within d n b then m (s + (b - d)) else m b)" for b
    using Suc by simp
  have n: "n < 2 ^ 64" using Suc.prems by simp
  have src: "\<not> within d n (s + of_nat n)"
  proof -
    have "unat (s + of_nat n - d) = unat s + n - unat d"
      using Suc.prems assms(3) n by (subst unat_sub_nowrap) (auto simp: unat_add_nowrap unat_of_nat_small word_le_nat_alt word_less_nat_alt)
    then show ?thesis using assms(3) by (simp add: within_def word_less_nat_alt)
  qed
  have "a = d + of_nat n \<longleftrightarrow> unat (a - d) = n" by (rule word_offset_iff) (use n in simp)
  then show ?case using IH src by (auto simp: within_def Let_def)
qed

lemma copy_down_eq:
  assumes "unat d + n \<le> 2 ^ 64" "unat s + n \<le> 2 ^ 64" "s \<le> d"
  shows "copy_down n m (d + of_nat n) (s + of_nat n) a = (if within d n a then m (s + (a - d)) else m a)"
  using assms(1,2)
proof (induction n arbitrary: m)
  case 0
  then show ?case by (simp add: within_def)
next
  case (Suc n)
  let ?m = "m(d + of_nat n := m (s + of_nat n))"
  have n: "n < 2 ^ 64" using Suc.prems by simp
  have "copy_down (Suc n) m (d + of_nat (Suc n)) (s + of_nat (Suc n)) a = copy_down n ?m (d + of_nat n) (s + of_nat n) a"
    by (simp add: algebra_simps)
  also have "\<dots> = (if within d n a then ?m (s + (a - d)) else ?m a)" using Suc by simp
  also have "\<dots> = (if within d (Suc n) a then m (s + (a - d)) else m a)"
  proof -
    have "s + (a - d) \<noteq> d + of_nat n" if "within d n a"
    proof -
      have i: "unat (a - d) < n" using that by (simp add: within_def)
      then have "unat (s + (a - d)) = unat s + unat (a - d)" using Suc.prems by (simp add: unat_add_nowrap)
      moreover have "unat (d + of_nat n) = unat d + n" using Suc.prems n by (simp add: unat_add_nowrap unat_of_nat_small)
      ultimately have "unat (s + (a - d)) \<noteq> unat (d + of_nat n)" using i assms(3) by (simp add: word_le_nat_alt)
      then show ?thesis by metis
    qed
    moreover have "a = d + of_nat n \<longleftrightarrow> unat (a - d) = n" by (rule word_offset_iff) (use n in simp)
    ultimately show ?thesis by (auto simp: within_def less_Suc_eq)
  qed
  finally show ?case .
qed

text \<open>A string copied behind itself would never end; elsewhere the copy is the string and nothing else changes.\<close>

lemma str_copy_eq:
  assumes "string_at m src s" "\<And>i. i \<le> length s \<Longrightarrow> \<not> within dst (Suc (length s)) (src + of_nat i)" "length s < 2 ^ 63"
  shows "\<exists>m'. str_copy m dst src = Some m' \<and> string_at m' dst s \<and> (\<forall>x. \<not> within dst (Suc (length s)) x \<longrightarrow> m' x = m x)"
  using assms
proof (induction s arbitrary: m dst src)
  case Nil
  then show ?case by (subst str_copy.simps) (auto simp: within_def)
next
  case (Cons c s)
  define m1 where "m1 = m(dst := c)"
  have c: "m src = c" "c \<noteq> 0" "string_at m (src + 1) s" using Cons.prems(1) by auto
  have apart: "\<not> within (dst + 1) (Suc (length s)) (src + 1 + of_nat i)" "src + 1 + of_nat i \<noteq> dst" if "i \<le> length s" for i
    using Cons.prems(2) [of "Suc i"] that by (simp_all add: within_Suc [of dst] algebra_simps)
  then have "string_at m1 (src + 1) s"
    using c(3) string_at_cong [of s m1 "src + 1" m] by (simp add: m1_def)
  then obtain m' where m': "str_copy m1 (dst + 1) (src + 1) = Some m'" "string_at m' (dst + 1) s"
      "\<And>x. \<not> within (dst + 1) (Suc (length s)) x \<Longrightarrow> m' x = m1 x"
    using Cons.IH [of m1 "src + 1" "dst + 1"] apart Cons.prems(3) by auto
  have "\<not> within (dst + 1) (Suc (length s)) dst"
    using Cons.prems(3) by (simp add: within_def unsigned_minus_1_eq_mask mask_eq_exp_minus_1)
  then have "m' dst = c" using m'(3) by (simp add: m1_def)
  moreover have "m' x = m x" if "\<not> within dst (Suc (length (c # s))) x" for x
    using that m'(3) [of x] by (simp add: within_Suc [of dst] m1_def)
  ultimately show ?case using m'(1,2) c by (subst str_copy.simps) (auto simp: Let_def m1_def)
qed

lemma str_end_eq: "string_at m a s \<Longrightarrow> str_end m a = Some (a + of_nat (length s))"
  by (induction s arbitrary: a) (auto simp: str_end.simps [of m a for a] algebra_simps)

lemma string_at_append:
  "string_at m a (s @ t) \<longleftrightarrow> (\<forall>i < length s. m (a + of_nat i) = s ! i \<and> s ! i \<noteq> 0) \<and> string_at m (a + of_nat (length s)) t"
  by (induction s arbitrary: a) (auto simp: All_less_Suc2 algebra_simps)

text \<open>Appending one string to another that has room after it.\<close>

lemma strcat_eq:
  assumes "string_at m dst s" "string_at m src t" "length s + length t < 2 ^ 63"
    and "\<And>i. i \<le> length t \<Longrightarrow> \<not> within (dst + of_nat (length s)) (Suc (length t)) (src + of_nat i)"
  shows "\<exists>m'. strcat m dst src = Some m' \<and> string_at m' dst (s @ t) \<and>
    (\<forall>x. \<not> within (dst + of_nat (length s)) (Suc (length t)) x \<longrightarrow> m' x = m x)"
proof -
  define d where "d = dst + of_nat (length s)"
  obtain m' where m': "str_copy m d src = Some m'" "string_at m' d t" "\<And>x. \<not> within d (Suc (length t)) x \<Longrightarrow> m' x = m x"
    using str_copy_eq [OF assms(2), of d] assms(3,4) unfolding d_def by auto
  have "m' (dst + of_nat i) = s ! i \<and> s ! i \<noteq> 0" if i: "i < length s" for i
  proof -
    have "\<not> within d (Suc (length t)) (dst + of_nat i)"
    proof
      define q where "q = unat (dst + of_nat i - d)"
      assume "within d (Suc (length t)) (dst + of_nat i)"
      then have q: "q \<le> length t" by (simp add: within_def q_def)
      have "dst + of_nat i = d + of_nat q" by (simp add: q_def)
      then have "(of_nat i :: u64) = of_nat (length s + q)" by (simp add: d_def)
      moreover have "unat (of_nat i :: u64) = i" "unat (of_nat (length s + q) :: u64) = length s + q"
        using q i assms(3) by (simp_all add: unat_of_nat_small del: of_nat_add)
      ultimately have "i = length s + q" by metis
      then show False using i by simp
    qed
    moreover have "s ! i \<noteq> 0" using string_at_no_nul [OF assms(1)] i by (metis nth_mem)
    ultimately show ?thesis using m'(3) string_at_nth [OF assms(1), of i] i by (simp add: chr_at_def nth_append)
  qed
  then show ?thesis using m' str_end_eq [OF assms(1)] by (auto simp: strcat_def string_at_append d_def)
qed

lemma find_upt_Suc: "find P [0..<Suc n] = (if P 0 then Some 0 else map_option Suc (find (\<lambda>i. P (Suc i)) [0..<n]))"
proof -
  have "find P (map Suc xs) = map_option Suc (find (\<lambda>i. P (Suc i)) xs)" for xs by (induction xs) auto
  then show ?thesis by (simp add: upt_conv_Cons map_Suc_upt [symmetric] del: upt_Suc)
qed

lemma strchr_eq:
  "string_at m a s \<Longrightarrow> strchr m a c = Some (case find (\<lambda>i. sint (s ! i) = c) [0..<length s] of None \<Rightarrow> 0 | Some i \<Rightarrow> a + of_nat i)"
proof (induction s arbitrary: a)
  case Nil
  then show ?case by (subst strchr.simps) simp
next
  case (Cons d s)
  have "find (\<lambda>i. sint ((d # s) ! i) = c) [0..<length (d # s)] =
      (if sint d = c then Some 0 else map_option Suc (find (\<lambda>i. sint (s ! i) = c) [0..<length s]))"
    unfolding length_Cons by (subst find_upt_Suc) simp
  then show ?case using Cons by (subst strchr.simps) (auto simp: add.assoc split: option.split)
qed

subsection \<open>Searching\<close>

lemma match_len_full:
  "i \<le> n \<Longrightarrow> match_len m h nd n i = n \<longleftrightarrow> (\<forall>j. i \<le> j \<and> j < n \<longrightarrow> m (h + of_nat j) = m (nd + of_nat j))"
proof (induction m h nd n i rule: match_len.induct)
  case (1 m h nd n i)
  show ?case
  proof (cases "i < n \<and> m (h + of_nat i) = m (nd + of_nat i)")
    case True
    then have "match_len m h nd n i = match_len m h nd n (Suc i)" by (subst match_len.simps) simp
    moreover have "i \<le> j \<longleftrightarrow> j = i \<or> Suc i \<le> j" for j by auto
    ultimately show ?thesis using True "1.IH" by (auto simp: Suc_le_eq)
  next
    case False
    then show ?thesis using "1.prems" by (subst match_len.simps) (auto simp: le_less)
  qed
qed

lemma match_prefix:
  "string_at m h s \<Longrightarrow> string_at m nd t \<Longrightarrow>
   (\<forall>j < length t. m (h + of_nat j) = m (nd + of_nat j)) \<longleftrightarrow> take (length t) s = t"
proof (induction t arbitrary: s h nd)
  case (Cons c t)
  then show ?case
    by (cases s) (auto simp: All_less_Suc2 add.assoc [symmetric])
qed simp

definition first_match :: "bytes \<Rightarrow> bytes \<Rightarrow> nat option" where
  "first_match t s = find (\<lambda>i. take (length t) (drop i s) = t) [0..<Suc (length s)]"

lemma first_match_Cons: "first_match t (c # s) = (if take (length t) (c # s) = t then Some 0 else map_option Suc (first_match t s))"
  unfolding first_match_def length_Cons by (subst find_upt_Suc) simp

lemma strstr_loop_eq:
  assumes "string_at m h s" "string_at m nd t" "t \<noteq> []"
  shows "strstr_loop m h nd (length t) = Some (case first_match t s of None \<Rightarrow> 0 | Some i \<Rightarrow> h + of_nat i)"
  using assms(1)
proof (induction s arbitrary: h)
  case Nil
  then show ?case using assms(3) by (subst strstr_loop.simps) (simp add: first_match_def)
next
  case (Cons c s)
  have "match_len m h nd (length t) 0 = length t \<longleftrightarrow> take (length t) (c # s) = t"
    using match_len_full [of 0 "length t" m h nd] match_prefix [OF Cons.prems assms(2)] by simp
  then show ?case using Cons
    by (subst strstr_loop.simps) (auto simp: first_match_Cons add.assoc split: option.split)
qed

lemma strncpy_loop_eq:
  assumes "string_at m src s" "\<And>i. i \<le> length s \<Longrightarrow> \<not> within d n (src + of_nat i)" "n < 2 ^ 31"
  shows "strncpy_loop n m d src a = (if within d n a then chr_at s (unat (a - d)) else m a)"
  using assms
proof (induction n arbitrary: m d src s)
  case 0
  then show ?case by (simp add: within_def)
next
  case (Suc n)
  have apart: "src + of_nat i \<noteq> d \<and> \<not> within (d + 1) n (src + of_nat i)" if "i \<le> length s" for i
    using Suc.prems(2) [OF that] by (simp add: within_Suc)
  have off: "unat (a - d) = Suc (unat (a - (d + 1)))" if "a \<noteq> d"
    using that unat_minus_one [of "a - d"] unat_eq_zero [of "a - d"] by (simp add: diff_diff_eq)
  show ?case
  proof (cases s)
    case Nil
    then show ?thesis using Suc.prems(1,3) off by (auto simp: memory_set_eq within_def)
  next
    case (Cons c t)
    define m1 where "m1 = m(d := c)"
    have c: "m src = c" "c \<noteq> 0" "string_at m (src + 1) t" using Suc.prems(1) Cons by auto
    have "strncpy_loop n m1 (d + 1) (src + 1) a = (if within (d + 1) n a then chr_at t (unat (a - (d + 1))) else m1 a)"
    proof (rule Suc.IH)
      show "string_at m1 (src + 1) t"
        using c(3) apart [of "Suc i" for i] Cons string_at_cong [of t m1 "src + 1" m] by (simp add: m1_def algebra_simps)
      show "\<not> within (d + 1) n (src + 1 + of_nat i)" if "i \<le> length t" for i
        using apart [of "Suc i"] Cons that by (simp add: algebra_simps)
      show "n < 2 ^ 31" using Suc.prems(3) by simp
    qed
    moreover have "\<not> within (d + 1) n d"
      using Suc.prems(3) by (simp add: within_def unsigned_minus_1_eq_mask mask_eq_exp_minus_1)
    ultimately show ?thesis using c off Cons by (cases "a = d") (auto simp: m1_def within_Suc)
  qed
qed

subsection \<open>Properties\<close>

text \<open>Moving a block of memory gives the destination the bytes that the source had before, however the two
  blocks overlap, and changes nothing else.\<close>

theorem memmove_correct:
  assumes "0 \<le> n" "uint d + n \<le> 2 ^ 64" "uint s + n \<le> 2 ^ 64"
  shows "memmove m d s n a = (if unat (a - d) < nat n then m (s + (a - d)) else m a)"
proof -
  obtain k where k: "n = int k" using assms(1) by (metis nonneg_int_cases)
  have "int (unat d) + int k \<le> 2 ^ 64" "int (unat s) + int k \<le> 2 ^ 64" using assms(2,3) by (simp_all add: k)
  then have "int (unat d + k) \<le> int (2 ^ 64)" "int (unat s + k) \<le> int (2 ^ 64)" by simp_all
  then have "unat d + k \<le> 2 ^ 64" "unat s + k \<le> 2 ^ 64" by (simp_all only: of_nat_le_iff)
  then show ?thesis
    using memory_copy_up [of d k s m a] copy_down_eq [of d k s m a] by (auto simp: memmove_def within_def k)
qed

text \<open>Searching a string for another returns a pointer to its first occurrence, and a null pointer if
  there is none.\<close>

theorem strstr_first:
  assumes "string_at m h s" "string_at m nd t" "length t < 2 ^ 31"
  shows "strstr m h nd = Some (case find (\<lambda>i. take (length t) (drop i s) = t) [0..<Suc (length s)] of
      None \<Rightarrow> 0 | Some i \<Rightarrow> h + of_nat i)"
proof (cases t)
  case Nil
  then show ?thesis using assms(2) by (simp add: strstr_def find_upt_Suc del: upt_Suc)
next
  case (Cons c u)
  have "nat (sint (of_nat (length t) :: u32)) = length t"
    using assms(3) by (simp add: signed_of_nat signed_take_bit_int_eq_self)
  moreover have "m nd \<noteq> 0" using assms(2) Cons by auto
  ultimately show ?thesis
    using strstr_loop_eq [OF assms(1,2)] strlen_eq [OF assms(2,3)] Cons by (simp add: strstr_def first_match_def del: upt_Suc)
qed

text \<open>The two properties on the word \<^verbatim>\<open>banana\<close> at address 16, with the pattern \<^verbatim>\<open>nan\<close> at 32.\<close>

definition banana :: memory where
  "banana a = chr_at (str ''banana'' @ replicate 10 0 @ str ''nan'') (unat (a - 16))"

lemma banana_strings: "string_at banana 16 (str ''banana'')" "string_at banana 32 (str ''nan'')"
  by (simp_all add: banana_def str_def chr_at_def nth_append)

theorem memmove_correct_witness: "memmove banana 18 16 4 21 = 97 \<and> memmove banana 18 16 4 22 = 0"
  using memmove_correct [of 4 18 16 banana 21] memmove_correct [of 4 18 16 banana 22]
  by (simp add: banana_def str_def chr_at_def nth_append)

theorem strstr_first_witness: "strstr banana 16 32 = Some 18"
  using strstr_first [OF banana_strings] by (simp add: str_def upt_rec)

end
