(* ===== verification/Malloc.thy ===== *)
theory Malloc
  imports Syscalls Cstring
begin

text \<open>
  The allocator of the C library, \<^verbatim>\<open>some-libc/stdlib.c\<close>: a first-fit list of free blocks with headers in the memory
  they describe, which grows by whole pages through the \<^verbatim>\<open>sbrk\<close> call of the kernel. Memory is the program's view
  of its address space. What the allocator relies on of the break is the locale \<open>program_break\<close>; the system call
  fulfils it.
\<close>

definition HEADER_SIZE :: u32 where "HEADER_SIZE = 16"
definition MIN_BLOCK :: u32 where "MIN_BLOCK = 32"
definition MAGIC_FREE :: u32 where "MAGIC_FREE = 0xDEADBEEF"
definition MAGIC_USED :: u32 where "MAGIC_USED = 0xCAFEBABE"

subsection \<open>Block headers\<close>

definition size_of :: "memory \<Rightarrow> u64 \<Rightarrow> u32" where
  "size_of m a = rdn 4 m a"

definition magic_of :: "memory \<Rightarrow> u64 \<Rightarrow> u32" where
  "magic_of m a = rdn 4 m (a + 4)"

definition next_of :: "memory \<Rightarrow> u64 \<Rightarrow> u64" where
  "next_of m a = rdn 8 m (a + 8)"

definition set_size :: "u64 \<Rightarrow> u32 \<Rightarrow> memory \<Rightarrow> memory" where
  "set_size a v m = put_bytes m a (le_bytes 4 v)"

definition set_magic :: "u64 \<Rightarrow> u32 \<Rightarrow> memory \<Rightarrow> memory" where
  "set_magic a v m = put_bytes m (a + 4) (le_bytes 4 v)"

definition set_next :: "u64 \<Rightarrow> u64 \<Rightarrow> memory \<Rightarrow> memory" where
  "set_next a v m = put_bytes m (a + 8) (le_bytes 8 v)"

text \<open>The static variables of the library, and the rest of the system behind \<^verbatim>\<open>sbrk\<close>.\<close>

record 'k lib =
  umem :: memory
  free_list :: u64
  initialized :: bool
  outside :: 'k

subsection \<open>Allocation\<close>

text \<open>Sizes are C integers of 32 bits, which wrap around here where C leaves the overflow undefined.\<close>

definition round_size :: "u32 \<Rightarrow> u32" where
  "round_size n =
     (let alloc_size = n + HEADER_SIZE;
          alloc_size = (if sint alloc_size < sint MIN_BLOCK then MIN_BLOCK else alloc_size)
      in (alloc_size + 7) AND NOT 7)"

text \<open>The search returns the block that fits and the one before it in the list (0 for none).\<close>

partial_function (option) find_block :: "memory \<Rightarrow> u32 \<Rightarrow> u64 \<Rightarrow> u64 \<Rightarrow> (u64 \<times> u64) option option" where
  "find_block m alloc_size prev cur =
     (if cur = 0 then Some None
      else if magic_of m cur = MAGIC_FREE \<and> sint (size_of m cur) \<ge> sint alloc_size then Some (Some (prev, cur))
      else find_block m alloc_size cur (next_of m cur))"

definition link :: "u64 \<Rightarrow> u64 \<Rightarrow> 'k lib \<Rightarrow> 'k lib" where
  "link prev q st = (if prev \<noteq> 0 then st\<lparr>umem := set_next prev q (umem st)\<rparr> else st\<lparr>free_list := q\<rparr>)"

definition take_block :: "u32 \<Rightarrow> u64 \<Rightarrow> u64 \<Rightarrow> 'k lib \<Rightarrow> 'k lib \<times> u64" where
  "take_block alloc_size prev cur st =
     (let m = umem st;
          st = (if sint (size_of m cur) \<ge> sint (alloc_size + MIN_BLOCK) then
                  (let new_free = cur + scast alloc_size;
                       m = set_size new_free (size_of m cur - alloc_size) m;
                       m = set_magic new_free MAGIC_FREE m;
                       m = set_next new_free (next_of m cur) m;
                       m = set_size cur alloc_size m
                   in link prev new_free (st\<lparr>umem := m\<rparr>))
                else link prev (next_of m cur) st)
      in (st\<lparr>umem := set_magic cur MAGIC_USED (umem st)\<rparr>, cur + 16))"

definition chunk_size :: "u32 \<Rightarrow> u32" where
  "chunk_size alloc_size = ((alloc_size + 0xFFF) div 0x1000 + 1) * 0x1000"

definition new_chunk :: "u32 \<Rightarrow> u64 \<Rightarrow> 'k lib \<Rightarrow> 'k lib \<times> u64" where
  "new_chunk alloc_size new_block st =
     (let m = set_size new_block (chunk_size alloc_size) (umem st);
          m = set_magic new_block MAGIC_FREE m;
          m = set_next new_block (free_list st) m
      in if sint (size_of m new_block) \<ge> sint (alloc_size + MIN_BLOCK) then
           (let rem_block = new_block + scast alloc_size;
                m = set_size rem_block (size_of m new_block - alloc_size) m;
                m = set_magic rem_block MAGIC_FREE m;
                m = set_next rem_block (next_of m new_block) m;
                m = set_size new_block alloc_size m;
                m = set_magic new_block MAGIC_USED m
            in (st\<lparr>umem := m, free_list := rem_block\<rparr>, new_block + 16))
         else (st\<lparr>umem := set_magic new_block MAGIC_USED m, free_list := next_of m new_block\<rparr>, new_block + 16))"

definition malloc :: "(u64 \<Rightarrow> 'k \<Rightarrow> ('k \<times> u64) option) \<Rightarrow> u32 \<Rightarrow> 'k lib \<Rightarrow> ('k lib \<times> u64) option" where
  "malloc brk_call n st =
     (if sint n \<le> 0 then Some (st, 0)
      else (let st = (if initialized st then st else st\<lparr>initialized := True, free_list := 0\<rparr>);
                alloc_size = round_size n
            in case find_block (umem st) alloc_size 0 (free_list st) of
                 None \<Rightarrow> None
               | Some (Some (prev, cur)) \<Rightarrow> Some (take_block alloc_size prev cur st)
               | Some None \<Rightarrow>
                   map_option (\<lambda>(k, new_block). let st = st\<lparr>outside := k\<rparr>
                       in if new_block = -1 then (st, 0) else new_chunk alloc_size new_block st)
                     (brk_call (scast (chunk_size alloc_size)) (outside st))))"

definition free :: "u64 \<Rightarrow> 'k lib \<Rightarrow> 'k lib" where
  "free ptr st =
     (if ptr = 0 then st
      else (let blk = ptr - 16 in
        if magic_of (umem st) blk \<noteq> MAGIC_USED then st
        else st\<lparr>umem := set_next blk (free_list st) (set_magic blk MAGIC_FREE (umem st)), free_list := blk\<rparr>))"

text \<open>The break of the program, through the system call. A call that does not return to the program is \<open>None\<close>.\<close>

definition sbrk :: "registers_t \<Rightarrow> u64 \<Rightarrow> 'd kernel \<Rightarrow> ('d kernel \<times> u64) option" where
  "sbrk r increment k =
     (case sys_sbrk k (r\<lparr>r_rax := 22, r_rdi := increment\<rparr>) of Return k r \<Rightarrow> Some (k, r_rax r) | _ \<Rightarrow> None)"

subsection \<open>Headers in memory\<close>

lemma rdn_cong: "(\<And>i. i < n \<Longrightarrow> m' (a + of_nat i) = m (a + of_nat i)) \<Longrightarrow> rdn n m' a = rdn n m a"
  unfolding rdn_def by (rule arg_cong [where f = le_word]) simp

lemma rdn_put_same:
  assumes "n \<le> 8" "LENGTH('a) \<le> 8 * n"
  shows "rdn n (put_bytes m a (le_bytes n (w :: 'a::len word))) a = w"
proof -
  have "map (\<lambda>i. put_bytes m a (le_bytes n w) (a + of_nat i)) [0..<n] = le_bytes n w"
    using assms(1) by (intro nth_equalityI) (simp_all add: put_bytes_def unat_of_nat_small)
  then show ?thesis using assms(2) by (simp add: rdn_def)
qed

text \<open>\<open>far a b\<close>: the headers at \<open>a\<close> and \<open>b\<close> do not overlap.\<close>

definition far :: "u64 \<Rightarrow> u64 \<Rightarrow> bool" where
  "far a b \<longleftrightarrow> (\<forall>i < 16. \<forall>j < 16. a + of_nat i \<noteq> b + of_nat j)"

lemma put_bytes_other:
  assumes "off + length bs \<le> 16" "\<And>j. j < 16 \<Longrightarrow> x \<noteq> b + of_nat j"
  shows "put_bytes m (b + of_nat off) bs x = m x"
proof -
  have "\<not> unat (x - (b + of_nat off)) < length bs"
  proof
    define q where "q = unat (x - (b + of_nat off))"
    assume "unat (x - (b + of_nat off)) < length bs"
    then have q: "off + q < 16" using assms(1) by (simp add: q_def)
    have "x = b + of_nat off + of_nat q" by (simp add: q_def)
    then have "x = b + of_nat (off + q)" by (simp add: add.assoc)
    then show False using assms(2) q by blast
  qed
  then show ?thesis by (simp add: put_bytes_def)
qed

lemma set_other:
  assumes "\<And>j. j < 16 \<Longrightarrow> x \<noteq> b + of_nat j"
  shows "set_size b v m x = m x" "set_magic b w m x = m x" "set_next b u m x = m x"
  using put_bytes_other [of 0 "le_bytes 4 v" x b m] put_bytes_other [of 4 "le_bytes 4 w" x b m]
    put_bytes_other [of 8 "le_bytes 8 u" x b m] assms
  by (simp_all add: set_size_def set_magic_def set_next_def)

lemma rdn_off:
  assumes "\<And>i. i < 16 \<Longrightarrow> m' (a + of_nat i) = m (a + of_nat i)" "off + n \<le> 16"
  shows "rdn n m' (a + of_nat off) = rdn n m (a + of_nat off)"
proof (rule rdn_cong)
  fix i assume "i < n"
  then show "m' (a + of_nat off + of_nat i) = m (a + of_nat off + of_nat i)"
    using assms(1) [of "off + i"] assms(2) by (simp add: add.assoc)
qed

lemma header_agree:
  assumes "\<And>i. i < 16 \<Longrightarrow> m' (a + of_nat i) = m (a + of_nat i)"
  shows "size_of m' a = size_of m a" "magic_of m' a = magic_of m a" "next_of m' a = next_of m a"
  using rdn_off [of m' a m 0 4, where ?'a = 32] rdn_off [of m' a m 4 4, where ?'a = 32] rdn_off [of m' a m 8 8, where ?'a = 64] assms
  by (simp_all add: size_of_def magic_of_def next_of_def)

lemma header_far [simp]:
  assumes "far a b"
  shows "size_of (set_size b v m) a = size_of m a" "size_of (set_magic b v m) a = size_of m a" "size_of (set_next b u m) a = size_of m a"
    "magic_of (set_size b v m) a = magic_of m a" "magic_of (set_magic b v m) a = magic_of m a" "magic_of (set_next b u m) a = magic_of m a"
    "next_of (set_size b v m) a = next_of m a" "next_of (set_magic b v m) a = next_of m a" "next_of (set_next b u m) a = next_of m a"
  by (rule header_agree set_other; use assms in \<open>simp add: far_def\<close>)+

lemma rdn_put_beside:
  assumes "off + n \<le> off' \<or> off' + length bs \<le> off" "off + n \<le> 16" "off' + length bs \<le> 16"
  shows "rdn n (put_bytes m (a + of_nat off') bs) (a + of_nat off) = rdn n m (a + of_nat off)"
proof (rule rdn_cong)
  fix i assume i: "i < n"
  define q where "q = unat (a + of_nat off + of_nat i - (a + of_nat off'))"
  have "\<not> q < length bs"
  proof
    assume q: "q < length bs"
    have "a + of_nat off + of_nat i = a + of_nat off' + of_nat q" by (simp add: q_def)
    then have "(of_nat (off + i) :: u64) = of_nat (off' + q)" by simp
    moreover have "unat (of_nat (off + i) :: u64) = off + i" "unat (of_nat (off' + q) :: u64) = off' + q"
      using i q assms(2,3) by (simp_all add: unat_of_nat_small del: of_nat_add)
    ultimately have "off + i = off' + q" by metis
    then show False using i q assms(1) by auto
  qed
  then show "put_bytes m (a + of_nat off') bs (a + of_nat off + of_nat i) = m (a + of_nat off + of_nat i)"
    by (simp add: put_bytes_def q_def)
qed

lemma header_same [simp]:
  "size_of (set_size a v m) a = v" "size_of (set_magic a v m) a = size_of m a" "size_of (set_next a u m) a = size_of m a"
  "magic_of (set_size a v m) a = magic_of m a" "magic_of (set_magic a v m) a = v" "magic_of (set_next a u m) a = magic_of m a"
  "next_of (set_size a v m) a = next_of m a" "next_of (set_magic a v m) a = next_of m a" "next_of (set_next a u m) a = u"
  using rdn_put_same [of 4 m a v] rdn_put_same [of 4 m "a + 4" v] rdn_put_same [of 8 m "a + 8" u]
    rdn_put_beside [of 0 4 4 "le_bytes 4 v" m a, where ?'a = 32] rdn_put_beside [of 0 4 8 "le_bytes 8 u" m a, where ?'a = 32]
    rdn_put_beside [of 4 4 0 "le_bytes 4 v" m a, where ?'a = 32] rdn_put_beside [of 4 4 8 "le_bytes 8 u" m a, where ?'a = 32]
    rdn_put_beside [of 8 8 0 "le_bytes 4 v" m a, where ?'a = 64] rdn_put_beside [of 8 8 4 "le_bytes 4 v" m a, where ?'a = 64]
  by (simp_all add: size_of_def magic_of_def next_of_def set_size_def set_magic_def set_next_def)

lemma far_sym: "far a b \<Longrightarrow> far b a"
  unfolding far_def by metis

lemma far_irrefl [simp]: "\<not> far a a"
  by (auto simp: far_def intro!: exI [of _ 0])

lemma far_apart:
  assumes "unat a + 16 \<le> unat b" "unat b + 16 \<le> 2 ^ 64"
  shows "far a b"
  unfolding far_def
proof (intro allI impI)
  fix i j :: nat assume ij: "i < 16" "j < 16"
  have "unat (a + of_nat i) = unat a + i" "unat (b + of_nat j) = unat b + j"
    using assms ij by (simp_all add: unat_add_nowrap unat_of_nat_small)
  then show "a + of_nat i \<noteq> b + of_nat j" using assms(1) ij by auto
qed

subsection \<open>The free list\<close>

primrec path :: "memory \<Rightarrow> u64 \<Rightarrow> u64 list \<Rightarrow> u64 \<Rightarrow> bool" where
  "path m p [] q \<longleftrightarrow> p = q"
| "path m p (a # as) q \<longleftrightarrow> p = a \<and> a \<noteq> 0 \<and> path m (next_of m a) as q"

lemma path_append [simp]: "path m p (xs @ ys) q \<longleftrightarrow> (\<exists>r. path m p xs r \<and> path m r ys q)"
  by (induction xs arbitrary: p) auto

lemma path_cong: "(\<And>a. a \<in> set xs \<Longrightarrow> next_of m' a = next_of m a) \<Longrightarrow> path m' p xs q \<longleftrightarrow> path m p xs q"
  by (induction xs arbitrary: p) auto

lemma path_relink:
  "path m p (xs @ [a]) r \<Longrightarrow> (\<And>b. b \<in> set xs \<Longrightarrow> next_of m' b = next_of m b) \<Longrightarrow> next_of m' a = q \<Longrightarrow> path m' p (xs @ [a]) q"
  by (induction xs arbitrary: p) auto

lemma find_block_eq:
  assumes "path m p xs 0" "\<And>a. a \<in> set xs \<Longrightarrow> magic_of m a = MAGIC_FREE"
  shows "find_block m k prev p = Some (case dropWhile (\<lambda>a. sint (size_of m a) < sint k) xs of [] \<Rightarrow> None
    | a # _ \<Rightarrow> Some (last (prev # takeWhile (\<lambda>a. sint (size_of m a) < sint k) xs), a))"
  using assms
proof (induction xs arbitrary: p prev)
  case Nil
  then show ?case by (subst find_block.simps) simp
next
  case (Cons a xs)
  then show ?case using Cons.IH [of "next_of m a" a]
    by (cases "sint (size_of m a) < sint k"; subst find_block.simps) (simp_all add: not_less del: dropWhile_eq_Nil_conv split: list.split)
qed

subsection \<open>The invariant\<close>

text \<open>
  The blocks \<open>B\<close> (address of the header to size, header included) lie between the start of the heap and the
  break without overlapping, their headers carry their sizes, and the list of free blocks is \<open>fs\<close>; the
  blocks not in it are in use.
\<close>

definition heap_ok :: "memory \<Rightarrow> u64 \<Rightarrow> u64 \<Rightarrow> (u64 \<Rightarrow> nat option) \<Rightarrow> u64 list \<Rightarrow> bool" where
  "heap_ok m fl brk B fs \<longleftrightarrow> path m fl fs 0 \<and> distinct fs \<and> set fs \<subseteq> dom B \<and> unat brk \<le> 0x600000 \<and>
     (\<forall>a n. B a = Some n \<longrightarrow> 32 \<le> n \<and> 0x510000 \<le> unat a \<and> unat a + n \<le> unat brk \<and> size_of m a = of_nat n \<and>
        magic_of m a = (if a \<in> set fs then MAGIC_FREE else MAGIC_USED)) \<and>
     (\<forall>a n b k. B a = Some n \<and> B b = Some k \<and> a \<noteq> b \<longrightarrow> unat a + n \<le> unat b \<or> unat b + k \<le> unat a)"

lemma heap_okD:
  assumes "heap_ok m fl brk B fs" "B a = Some n"
  shows "32 \<le> n" "0x510000 \<le> unat a" "unat a + n \<le> unat brk" "unat a + n \<le> 0x600000" "size_of m a = of_nat n"
    "magic_of m a = (if a \<in> set fs then MAGIC_FREE else MAGIC_USED)" "a \<noteq> 0"
  using assms by (fastforce simp: heap_ok_def)+

lemma heap_ok_disjoint:
  "heap_ok m fl brk B fs \<Longrightarrow> B a = Some n \<Longrightarrow> B b = Some k \<Longrightarrow> a \<noteq> b \<Longrightarrow> unat a + n \<le> unat b \<or> unat b + k \<le> unat a"
  unfolding heap_ok_def by blast

lemma heap_ok_far:
  assumes "heap_ok m fl brk B fs" "B a = Some n" "B b = Some k" "a \<noteq> b"
  shows "far a b"
proof -
  have "unat a + 16 \<le> unat b \<or> unat b + 16 \<le> unat a"
    using heap_ok_disjoint [OF assms] heap_okD(1) [OF assms(1,2)] heap_okD(1) [OF assms(1,3)] by linarith
  then show ?thesis
    using heap_okD(1,4) [OF assms(1,2)] heap_okD(1,4) [OF assms(1,3)] far_apart [of a b] far_sym [OF far_apart [of b a]] by auto
qed

text \<open>Replacing a free block by another one in the list, or taking it out.\<close>

lemma prev_block:
  assumes "heap_ok m fl brk B (ys @ cur # zs)" "prev = last (0 # ys)"
  shows "prev \<noteq> 0 \<longleftrightarrow> ys \<noteq> []" "prev \<notin> set zs" "ys \<noteq> [] \<Longrightarrow> prev \<in> set ys" "ys \<noteq> [] \<Longrightarrow> B prev = Some (the (B prev))"
    "ys \<noteq> [] \<Longrightarrow> prev \<noteq> cur"
proof -
  have dist: "distinct (ys @ cur # zs)" and sub: "set ys \<subseteq> dom B" "set zs \<subseteq> dom B" using assms(1) by (auto simp: heap_ok_def)
  have l: "ys \<noteq> [] \<Longrightarrow> last ys \<in> dom B" using sub(1) last_in_set by blast
  then show "prev \<noteq> 0 \<longleftrightarrow> ys \<noteq> []" using heap_okD(7) [OF assms(1)] by (auto simp: assms(2))
  show "prev \<in> set ys" "B prev = Some (the (B prev))" "prev \<noteq> cur" if "ys \<noteq> []"
    using that l dist last_in_set [OF that] by (auto simp: assms(2))
  have "0 \<notin> set zs" using heap_okD(7) [OF assms(1)] sub(2) by blast
  then show "prev \<notin> set zs" using dist last_in_set [of ys] by (auto simp: assms(2) disjoint_iff)
qed

lemma relink:
  assumes H: "heap_ok m fl brk B (ys @ cur # zs)" and prev: "prev = last (0 # ys)"
    and nx: "\<And>b. b \<in> dom B \<Longrightarrow> b \<noteq> cur \<Longrightarrow> b \<noteq> prev \<Longrightarrow> next_of m' b = next_of m b" "ys \<noteq> [] \<Longrightarrow> next_of m' prev = q"
    and q: "q = next_of m cur \<and> ws = zs \<or> q \<noteq> 0 \<and> next_of m' q = next_of m cur \<and> ws = q # zs"
  shows "path m' (if prev \<noteq> 0 then fl else q) (ys @ ws) 0"
proof -
  have P: "path m fl ys cur" "path m (next_of m cur) zs 0" and d: "distinct (ys @ cur # zs)" and sub: "set (ys @ cur # zs) \<subseteq> dom B"
    using H by (auto simp: heap_ok_def)
  note pv = prev_block [OF H prev]
  have same: "next_of m' b = next_of m b" if "b \<in> set (ys @ zs)" "b \<noteq> prev" for b
  proof -
    have "b \<in> dom B" "b \<noteq> cur" using that(1) sub d by auto
    then show ?thesis using nx(1) that(2) by blast
  qed
  have "path m' (next_of m cur) zs 0" using P(2) path_cong [of zs m' m] same pv(2) by fastforce
  then have ws: "path m' q ws 0" using q by auto
  show ?thesis
  proof (cases ys rule: rev_cases)
    case Nil
    then show ?thesis using ws by (simp add: prev)
  next
    case (snoc xs b)
    then have b: "prev = b" "b \<notin> set xs" "prev \<noteq> 0" using prev d pv(1) by auto
    have "path m' fl (xs @ [b]) q"
    proof (rule path_relink)
      show "path m fl (xs @ [b]) cur" using P(1) snoc by simp
      show "next_of m' b = q" using nx(2) snoc b(1) by simp
      show "next_of m' c = next_of m c" if "c \<in> set xs" for c using same [of c] that b snoc by auto
    qed
    then show ?thesis using ws snoc b(3) by auto
  qed
qed

text \<open>Splitting a free block: its first \<open>k\<close> bytes are used, the rest takes its place in the list.\<close>

lemma split_block_ok:
  assumes H: "heap_ok m fl brk B (ys @ cur # zs)" and cur: "B cur = Some n" and k: "32 \<le> k" "k + 32 \<le> n"
    and nf: "nf = cur + of_nat k" and prev: "prev = last (0 # ys)"
    and m1: "m1 = set_size cur (of_nat k) (set_next nf (next_of m cur) (set_magic nf MAGIC_FREE (set_size nf (of_nat (n - k)) m)))"
    and m2: "m2 = set_magic cur MAGIC_USED (if prev \<noteq> 0 then set_next prev nf m1 else m1)"
  shows "heap_ok m2 (if prev \<noteq> 0 then fl else nf) brk (B(cur \<mapsto> k, nf \<mapsto> n - k)) (ys @ nf # zs)"
    and "unat x < unat cur \<or> unat cur + n \<le> unat x \<Longrightarrow> (\<And>j. j < 16 \<Longrightarrow> x \<noteq> prev + of_nat j) \<Longrightarrow> m2 x = m x"
proof -
  note D = heap_okD [OF H cur]
  have u: "unat nf = unat cur + k" using D(4) k by (simp add: nf unat_add_nowrap unat_of_nat_small)
  have fcn: "far cur nf" "far nf cur"
    using far_apart [of cur nf] u D(4) k far_sym by auto
  have fb: "far b cur" "far b nf" if b: "B b = Some l" "b \<noteq> cur" for b l
  proof -
    show "far b cur" by (rule heap_ok_far [OF H b(1) cur b(2)])
    have "unat b + 16 \<le> unat nf \<or> unat nf + 16 \<le> unat b"
      using heap_ok_disjoint [OF H b(1) cur b(2)] heap_okD(1) [OF H b(1)] u k by linarith
    then show "far b nf" using far_apart [of b nf] far_sym [OF far_apart [of nf b]] u D(4) k heap_okD(1,4) [OF H b(1)] by auto
  qed
  have dist: "distinct (ys @ cur # zs)" and sub: "set (ys @ cur # zs) \<subseteq> dom B" using H by (auto simp: heap_ok_def)
  note pv = prev_block [OF H prev]
  have fp: "far b prev" if "ys \<noteq> []" "B b = Some l" "b \<noteq> prev" for b l
    using heap_ok_far [OF H that(2) pv(4) [OF that(1)] that(3)] .
  have fnp: "far nf prev" if "ys \<noteq> []" using fb(2) [OF pv(4,5)] that far_sym by blast
  have others: "size_of m2 b = size_of m b" "magic_of m2 b = magic_of m b" "b \<noteq> prev \<Longrightarrow> next_of m2 b = next_of m b"
    if b: "B b = Some l" "b \<noteq> cur" for b l
    using fb [OF b] fp [OF _ b(1)] pv(1) by (cases "b = prev"; auto simp: m2 m1)+
  have heads: "size_of m2 cur = of_nat k" "magic_of m2 cur = MAGIC_USED" "size_of m2 nf = of_nat (n - k)" "magic_of m2 nf = MAGIC_FREE"
      "next_of m2 nf = next_of m cur"
    using fcn fnp fp [OF _ cur] pv(1,5) by (auto simp: m2 m1)
  have np: "ys \<noteq> [] \<Longrightarrow> next_of m2 prev = nf" using pv(1) fb [OF pv(4,5)] by (auto simp: m2 m1)
  have "nf \<noteq> cur" using fcn(1) by auto
  then have nfB: "nf \<notin> dom B" "nf \<noteq> cur" "nf \<noteq> 0" using fb(2) [of nf] u k by auto
  show "heap_ok m2 (if prev \<noteq> 0 then fl else nf) brk (B(cur \<mapsto> k, nf \<mapsto> n - k)) (ys @ nf # zs)"
    unfolding heap_ok_def
  proof (intro conjI allI impI; (elim conjE)?)
    show "path m2 (if prev \<noteq> 0 then fl else nf) (ys @ nf # zs) 0"
      by (rule relink [OF H prev]) (use others(3) np heads(5) nfB(3) in auto)
    show "distinct (ys @ nf # zs)" using dist sub nfB(1) by auto
    show "set (ys @ nf # zs) \<subseteq> dom (B(cur \<mapsto> k, nf \<mapsto> n - k))" using sub by auto
    show "unat brk \<le> 0x600000" using H by (simp add: heap_ok_def)
  next
    fix a l assume a: "(B(cur \<mapsto> k, nf \<mapsto> n - k)) a = Some l"
    have "32 \<le> l \<and> 0x510000 \<le> unat a \<and> unat a + l \<le> unat brk \<and> size_of m2 a = of_nat l \<and>
        magic_of m2 a = (if a \<in> set (ys @ nf # zs) then MAGIC_FREE else MAGIC_USED)"
    proof (cases "a = cur \<or> a = nf")
      case True
      then show ?thesis using a D u k heads nfB dist by auto
    next
      case False
      then show ?thesis using a heap_okD [OF H, of a l] others [of a l] by auto
    qed
    then show "32 \<le> l" "0x510000 \<le> unat a" "unat a + l \<le> unat brk" "size_of m2 a = of_nat l"
        "magic_of m2 a = (if a \<in> set (ys @ nf # zs) then MAGIC_FREE else MAGIC_USED)" by blast+
  next
    fix a l b l' assume ab: "(B(cur \<mapsto> k, nf \<mapsto> n - k)) a = Some l" "(B(cur \<mapsto> k, nf \<mapsto> n - k)) b = Some l'" "a \<noteq> b"
    show "unat a + l \<le> unat b \<or> unat b + l' \<le> unat a"
      using ab heap_ok_disjoint [OF H, of a l b l'] heap_ok_disjoint [OF H, of a l cur n] heap_ok_disjoint [OF H, of b l' cur n] cur u k
      by (auto split: if_splits)
  qed
  show "m2 x = m x" if x: "unat x < unat cur \<or> unat cur + n \<le> unat x" and p: "\<And>j. j < 16 \<Longrightarrow> x \<noteq> prev + of_nat j"
  proof -
    have "unat (cur + of_nat j) = unat cur + j" "unat (nf + of_nat j) = unat cur + k + j" if "j < 16" for j
      using that u D(4) k by (simp_all add: unat_add_nowrap unat_of_nat_small)
    then have "x \<noteq> cur + of_nat j" "x \<noteq> nf + of_nat j" if "j < 16" for j using that x k by auto
    then show ?thesis using p by (auto simp: m2 m1 set_other)
  qed
qed

text \<open>Taking a whole block out of the list.\<close>

lemma whole_block_ok:
  assumes H: "heap_ok m fl brk B (ys @ cur # zs)" and cur: "B cur = Some n" and prev: "prev = last (0 # ys)"
    and m2: "m2 = set_magic cur MAGIC_USED (if prev \<noteq> 0 then set_next prev (next_of m cur) m else m)"
  shows "heap_ok m2 (if prev \<noteq> 0 then fl else next_of m cur) brk B (ys @ zs)"
    and "unat x < unat cur \<or> unat cur + n \<le> unat x \<Longrightarrow> (\<And>j. j < 16 \<Longrightarrow> x \<noteq> prev + of_nat j) \<Longrightarrow> m2 x = m x"
proof -
  have dist: "distinct (ys @ cur # zs)" and sub: "set (ys @ cur # zs) \<subseteq> dom B" using H by (auto simp: heap_ok_def)
  note pv = prev_block [OF H prev]
  have fp: "far b prev" if "ys \<noteq> []" "B b = Some l" "b \<noteq> prev" for b l
    using heap_ok_far [OF H that(2) pv(4) [OF that(1)] that(3)] .
  have sizes: "size_of m2 b = size_of m b" if "B b = Some l" for b l
    using that heap_ok_far [OF H that cur] fp [OF _ that] pv(1) by (cases "b = cur"; cases "b = prev"; auto simp: m2)
  have others: "magic_of m2 b = magic_of m b" "b \<noteq> prev \<Longrightarrow> next_of m2 b = next_of m b"
    if b: "B b = Some l" "b \<noteq> cur" for b l
    using heap_ok_far [OF H b(1) cur b(2)] fp [OF _ b(1)] pv(1) by (cases "b = prev"; auto simp: m2)+
  have np: "ys \<noteq> [] \<Longrightarrow> next_of m2 prev = next_of m cur" using pv(1) heap_ok_far [OF H pv(4) cur pv(5)] by (auto simp: m2)
  show "heap_ok m2 (if prev \<noteq> 0 then fl else next_of m cur) brk B (ys @ zs)"
    unfolding heap_ok_def
  proof (intro conjI allI impI; (elim conjE)?)
    show "path m2 (if prev \<noteq> 0 then fl else next_of m cur) (ys @ zs) 0"
      by (rule relink [OF H prev]) (use others(2) np in auto)
  next
    fix a l assume a: "B a = Some l"
    show "magic_of m2 a = (if a \<in> set (ys @ zs) then MAGIC_FREE else MAGIC_USED)"
      using others(1) [OF a] heap_okD(6) [OF H a] dist by (cases "a = cur") (auto simp: m2)
  qed (use H dist sub sizes in \<open>auto simp: heap_ok_def\<close>)
  show "m2 x = m x" if x: "unat x < unat cur \<or> unat cur + n \<le> unat x" and p: "\<And>j. j < 16 \<Longrightarrow> x \<noteq> prev + of_nat j"
  proof -
    have "unat (cur + of_nat j) = unat cur + j" if "j < 16" for j
      using that heap_okD(4) [OF H cur] by (simp add: unat_add_nowrap unat_of_nat_small)
    then have "x \<noteq> cur + of_nat j" if "j < 16" for j using that x heap_okD(1) [OF H cur] by auto
    then show ?thesis using p by (auto simp: m2 set_other)
  qed
qed

text \<open>Putting a block at the head of the list: one that is given back, or a new one at the break.\<close>

lemma free_block_ok:
  assumes H: "heap_ok m fl brk B fs" and a: "B a = Some n" "a \<notin> set fs"
  shows "heap_ok (set_next a fl (set_magic a MAGIC_FREE m)) a brk B (a # fs)"
proof -
  define m2 where "m2 = set_next a fl (set_magic a MAGIC_FREE m)"
  have others: "size_of m2 b = size_of m b" "magic_of m2 b = magic_of m b" "next_of m2 b = next_of m b" if "B b = Some l" "b \<noteq> a" for b l
    using heap_ok_far [OF H that(1) a(1) that(2)] by (auto simp: m2_def)
  have self: "size_of m2 a = size_of m a" "magic_of m2 a = MAGIC_FREE" "next_of m2 a = fl" by (simp_all add: m2_def)
  have "path m2 fl fs 0 \<longleftrightarrow> path m fl fs 0"
  proof (rule path_cong)
    fix b assume "b \<in> set fs"
    moreover have "set fs \<subseteq> dom B" using H by (simp add: heap_ok_def)
    ultimately show "next_of m2 b = next_of m b" using others(3) [of b] a(2) by auto
  qed
  moreover have "size_of m2 b = size_of m b" if "B b = Some l" for b l using others(1) [OF that] self by (cases "b = a") auto
  moreover have "magic_of m2 b = (if b \<in> set (a # fs) then MAGIC_FREE else MAGIC_USED)" if "B b = Some l" for b l
    using others(2) [OF that] self heap_okD(6) [OF H that] by (cases "b = a") auto
  ultimately show ?thesis
    using H a self(3) heap_okD(7) [OF H a(1)] unfolding m2_def [symmetric] heap_ok_def by auto
qed

lemma add_chunk_ok:
  assumes H: "heap_ok m fl brk B fs" and brk: "0x510000 \<le> unat brk" "unat brk' = unat brk + n" "unat brk' \<le> 0x600000" "32 \<le> n"
  shows "heap_ok (set_next brk fl (set_magic brk MAGIC_FREE (set_size brk (of_nat n) m))) brk brk' (B(brk \<mapsto> n)) (brk # fs)"
proof -
  define m2 where "m2 = set_next brk fl (set_magic brk MAGIC_FREE (set_size brk (of_nat n) m))"
  have far: "far b brk" if "B b = Some l" for b l
    by (rule far_apart) (use heap_okD(1,3) [OF H that] brk in auto)
  then have others: "size_of m2 b = size_of m b" "magic_of m2 b = magic_of m b" "next_of m2 b = next_of m b" if "B b = Some l" for b l
    using that by (auto simp: m2_def)
  have self: "size_of m2 brk = of_nat n" "magic_of m2 brk = MAGIC_FREE" "next_of m2 brk = fl" by (simp_all add: m2_def)
  have new: "brk \<notin> dom B" "brk \<noteq> 0" using far [of brk] brk(1) by auto
  have sub: "set fs \<subseteq> dom B" using H by (simp add: heap_ok_def)
  have "path m2 fl fs 0 \<longleftrightarrow> path m fl fs 0" by (rule path_cong) (use sub others(3) in blast)
  then have "path m2 brk (brk # fs) 0" using H self new by (simp add: heap_ok_def)
  moreover have "unat b + l \<le> unat brk" "unat b + l \<le> unat brk + n" if "B b = Some l" for b l using heap_okD(3) [OF H that] by simp_all
  ultimately show ?thesis
    using H new self others brk sub unfolding m2_def [symmetric] heap_ok_def by (auto split: if_splits)
qed

subsection \<open>Sizes\<close>

lemma sint_of_nat: "n < 2 ^ 31 \<Longrightarrow> sint (of_nat n :: u32) = int n"
  by (simp add: signed_of_nat signed_take_bit_int_eq_self)

lemma and_not_7:
  assumes "j < 2 ^ 32"
  shows "(of_nat j :: u32) AND NOT 7 = of_nat (8 * (j div 8))"
proof -
  have "(of_nat j :: u32) AND NOT (mask 3) = push_bit 3 (drop_bit 3 (of_nat j))"
    by (rule bit_word_eqI) (auto simp: bit_simps)
  also have "drop_bit 3 (of_nat j :: u32) = of_nat (j div 8)"
    using assms by (simp add: word_unat_eq_iff unsigned_drop_bit_eq unat_div unat_of_nat_small drop_bit_eq_div div_le_dividend [THEN le_less_trans])
  finally show ?thesis by (simp add: mask_eq_exp_minus_1 push_bit_eq_mult mult.commute)
qed

lemma round_size_eq:
  assumes "0 < sint n" "sint n \<le> 0x7FFF0000"
  obtains k where "round_size n = of_nat k" "32 \<le> k" "unat n + 16 \<le> k" "k < 0x7FFFE000"
proof -
  define x where "x = unat n"
  have n: "n = of_nat x" by (simp add: x_def)
  have "int x = sint n" using uint_sint [of n] sint_lt [of n] assms(1) by (simp add: x_def take_bit_int_eq_self)
  then have x: "0 < x" "x \<le> 0x7FFF0000" using assms by linarith+
  have s: "sint (n + HEADER_SIZE) = int (x + 16)" using sint_of_nat [of "x + 16"] x by (simp add: n HEADER_SIZE_def)
  define j where "j = (if x + 16 < 32 then 39 else x + 23)"
  have "round_size n = (of_nat j :: u32) AND NOT 7"
    using s by (simp add: round_size_def Let_def j_def n HEADER_SIZE_def MIN_BLOCK_def add.commute)
  also have "\<dots> = of_nat (8 * (j div 8))" by (rule and_not_7) (use x in \<open>simp add: j_def\<close>)
  finally show ?thesis by (rule that) (use x in \<open>auto simp: j_def x_def [symmetric]\<close>)
qed

lemma chunk_size_eq:
  assumes "k < 0x7FFFE000"
  obtains c where "chunk_size (of_nat k) = of_nat c" "k + 4096 \<le> c" "c < 2 ^ 31"
proof
  define c where "c = ((k + 0xFFF) div 0x1000 + 1) * 0x1000"
  have "(of_nat (k + 0xFFF) :: u32) div 0x1000 = of_nat ((k + 0xFFF) div 0x1000)"
    using assms by (simp add: word_unat_eq_iff unat_div unat_of_nat_small del: of_nat_add)
  then show "chunk_size (of_nat k) = of_nat c" by (simp add: chunk_size_def c_def)
  show "k + 4096 \<le> c" "c < 2 ^ 31" using assms by (simp_all add: c_def)
qed

subsection \<open>The break\<close>

definition lib_ok :: "('k \<Rightarrow> bool) \<Rightarrow> ('k \<Rightarrow> u64) \<Rightarrow> 'k lib \<Rightarrow> (u64 \<Rightarrow> nat option) \<Rightarrow> u64 list \<Rightarrow> bool" where
  "lib_ok ok brk st B fs \<longleftrightarrow> ok (outside st) \<and>
     (if initialized st then heap_ok (umem st) (free_list st) (brk (outside st)) B fs else B = Map.empty \<and> fs = [])"

text \<open>The blocks in use, and that an operation leaves them alone.\<close>

definition in_use :: "(u64 \<Rightarrow> nat option) \<Rightarrow> u64 list \<Rightarrow> u64 set" where
  "in_use B fs = dom B - set fs"

definition undisturbed :: "(u64 \<Rightarrow> nat option) \<Rightarrow> u64 set \<Rightarrow> memory \<Rightarrow> memory \<Rightarrow> bool" where
  "undisturbed B U m m' \<longleftrightarrow> (\<forall>a n x. a \<in> U \<and> B a = Some n \<and> unat a \<le> unat x \<and> unat x < unat a + n \<longrightarrow> m' x = m x)"

lemma outside_blocks:
  assumes H: "heap_ok m fl brk B (ys @ cur # zs)" and cur: "B cur = Some n"
    and a: "a \<in> in_use B (ys @ cur # zs)" "B a = Some l" and x: "unat a \<le> unat x" "unat x < unat a + l"
  shows "unat x < unat cur \<or> unat cur + n \<le> unat x" "j < 16 \<Longrightarrow> x \<noteq> last (0 # ys) + of_nat j"
proof -
  have ne: "a \<noteq> cur" "a \<notin> set ys" using a(1) by (auto simp: in_use_def)
  show "unat x < unat cur \<or> unat cur + n \<le> unat x" using heap_ok_disjoint [OF H a(2) cur ne(1)] x by linarith
  show "x \<noteq> last (0 # ys) + of_nat j" if j: "j < 16"
  proof (cases "ys = []")
    case True
    have "unat (of_nat j :: u64) = j" using j by (simp add: unat_of_nat_small)
    then have "x \<noteq> of_nat j" using heap_okD(2) [OF H a(2)] x(1) j by auto
    then show ?thesis using True by simp
  next
    case False
    define prev where "prev = last (0 # ys)"
    note pv = prev_block [OF H prev_def]
    have "a \<noteq> prev" using ne(2) pv(3) [OF False] by auto
    from heap_ok_disjoint [OF H a(2) pv(4) [OF False] this] heap_okD(1,4) [OF H pv(4) [OF False]]
    have "unat a + l \<le> unat prev \<or> unat prev + 16 \<le> unat a" "unat (prev + of_nat j) = unat prev + j"
      using j by (auto simp: unat_add_nowrap unat_of_nat_small)
    then show ?thesis using x j unfolding prev_def by auto
  qed
qed

lemma take_block_ok:
  assumes H: "heap_ok (umem st) (free_list st) brk B (ys @ cur # zs)" and n: "B cur = Some n" "k \<le> n" "32 \<le> k"
    and t: "take_block (of_nat k) (last (0 # ys)) cur st = (st', p)"
  shows "\<exists>B' fs' l. heap_ok (umem st') (free_list st') brk B' fs' \<and> p = cur + 16 \<and> B' cur = Some l \<and> k \<le> l \<and>
    in_use B' fs' = insert cur (in_use B (ys @ cur # zs)) \<and> (\<forall>a \<in> in_use B (ys @ cur # zs). B' a = B a) \<and>
    undisturbed B (in_use B (ys @ cur # zs)) (umem st) (umem st') \<and> outside st' = outside st \<and> initialized st' = initialized st"
proof -
  define m where "m = umem st"
  have b: "k < 2 ^ 31 - 64" "n < 2 ^ 31" using heap_okD(4) [OF H n(1)] n(2) by simp_all
  have sz: "size_of m cur = of_nat n" unfolding m_def by (rule heap_okD(5) [OF H n(1)])
  have s: "sint (size_of m cur) = int n" "sint (of_nat k + MIN_BLOCK :: u32) = int (k + 32)" "scast (of_nat k :: u32) = (of_nat k :: u64)"
    "size_of m cur - of_nat k = of_nat (n - k)"
    using sint_of_nat [of n] sint_of_nat [of "k + 32"] b scast_small [of k] n(2) by (simp_all add: sz MIN_BLOCK_def of_nat_diff)
  have out: "undisturbed B (in_use B (ys @ cur # zs)) m m2"
    if "\<And>x. unat x < unat cur \<or> unat cur + n \<le> unat x \<Longrightarrow> (\<And>j. j < 16 \<Longrightarrow> x \<noteq> last (0 # ys) + of_nat j) \<Longrightarrow> m2 x = m x" for m2
    unfolding undisturbed_def using that outside_blocks [OF H n(1)] by blast
  show ?thesis
  proof (cases "k + 32 \<le> n")
    case True
    define nf prev where "nf = cur + of_nat k" and "prev = last (0 # ys)"
    define m1 where "m1 = set_size cur (of_nat k) (set_next nf (next_of m cur) (set_magic nf MAGIC_FREE (set_size nf (of_nat (n - k)) m)))"
    define m2 where "m2 = set_magic cur MAGIC_USED (if prev \<noteq> 0 then set_next prev nf m1 else m1)"
    have u: "unat nf = unat cur + k" using heap_okD(4) [OF H n(1)] n(2) by (simp add: nf_def unat_add_nowrap unat_of_nat_small)
    have "far cur nf" by (rule far_apart) (use u n heap_okD(4) [OF H n(1)] True in auto)
    then have "st' = st\<lparr>umem := m2, free_list := (if prev \<noteq> 0 then free_list st else nf)\<rparr> \<and> p = cur + 16"
      using t True s unfolding m_def [symmetric] nf_def [symmetric] prev_def [symmetric]
      by (auto simp: take_block_def link_def Let_def m_def [symmetric] nf_def [symmetric] m2_def m1_def)
    moreover note split_block_ok [OF H [folded m_def] n(1,3) True nf_def prev_def m1_def m2_def]
    moreover have "nf \<notin> dom B" "nf \<noteq> cur" using heap_ok_disjoint [OF H n(1)] heap_okD(1) [OF H] u n(2,3) True by fastforce+
    moreover have "distinct (ys @ cur # zs)" "set (ys @ cur # zs) \<subseteq> dom B" using H by (auto simp: heap_ok_def)
    ultimately show ?thesis using out [of m2]
      by (intro exI [of _ "B(cur \<mapsto> k, nf \<mapsto> n - k)"] exI [of _ "ys @ nf # zs"] exI [of _ k])
        (auto simp: in_use_def m_def [symmetric] prev_def)
  next
    case False
    define prev where "prev = last (0 # ys)"
    define m2 where "m2 = set_magic cur MAGIC_USED (if prev \<noteq> 0 then set_next prev (next_of m cur) m else m)"
    have "st' = st\<lparr>umem := m2, free_list := (if prev \<noteq> 0 then free_list st else next_of m cur)\<rparr> \<and> p = cur + 16"
      using t False s unfolding m_def [symmetric] prev_def [symmetric]
      by (auto simp: take_block_def link_def Let_def m_def [symmetric] m2_def)
    moreover note whole_block_ok [OF H [folded m_def] n(1) prev_def m2_def]
    moreover have "distinct (ys @ cur # zs)" using H by (auto simp: heap_ok_def)
    ultimately show ?thesis using out [of m2] n
      by (intro exI [of _ B] exI [of _ "ys @ zs"] exI [of _ n]) (auto simp: in_use_def m_def [symmetric] prev_def)
  qed
qed

lemma new_chunk_ok:
  assumes H: "heap_ok (umem st) (free_list st) brk B fs" and brk: "0x510000 \<le> unat brk" "unat brk' = unat brk + c" "unat brk' \<le> 0x600000"
    and c: "chunk_size (of_nat k) = of_nat c" "k + 4096 \<le> c" "32 \<le> k" and t: "new_chunk (of_nat k) brk st = (st', p)"
  shows "\<exists>B' fs' l. heap_ok (umem st') (free_list st') brk' B' fs' \<and> p = brk + 16 \<and> B' brk = Some l \<and> k \<le> l \<and>
    in_use B' fs' = insert brk (in_use B fs) \<and> (\<forall>a \<in> in_use B fs. B' a = B a) \<and>
    undisturbed B (in_use B fs) (umem st) (umem st') \<and> outside st' = outside st \<and> initialized st' = initialized st \<and> brk \<notin> dom B"
proof -
  define m nf where "m = set_next brk (free_list st) (set_magic brk MAGIC_FREE (set_size brk (of_nat c) (umem st)))" and "nf = brk + of_nat k"
  define m1 where "m1 = set_size brk (of_nat k) (set_next nf (next_of m brk) (set_magic nf MAGIC_FREE (set_size nf (of_nat (c - k)) m)))"
  define m2 where "m2 = set_magic brk MAGIC_USED m1"
  have A: "heap_ok m brk brk' (B(brk \<mapsto> c)) ([] @ brk # fs)"
    using add_chunk_ok [OF H brk] c by (simp add: m_def)
  have S: "heap_ok m2 nf brk' (B(brk \<mapsto> k, nf \<mapsto> c - k)) (nf # fs)"
    using split_block_ok(1) [OF A _ c(3) _ nf_def _ m1_def, of 0 m2] c by (simp add: m2_def)
  have S2: "m2 x = m x" if "unat x < unat brk" "\<And>j. j < 16 \<Longrightarrow> x \<noteq> of_nat j" for x
    using split_block_ok(2) [OF A _ c(3) _ nf_def _ m1_def, of 0 m2 x] c that by (simp add: m2_def)
  have u: "unat nf = unat brk + k" using brk c by (simp add: nf_def unat_add_nowrap unat_of_nat_small)
  have "far brk nf" by (rule far_apart) (use u c brk in auto)
  moreover have "sint (of_nat c :: u32) = int c" "sint (of_nat k + MIN_BLOCK :: u32) = int (k + 32)" "(scast (of_nat k :: u32) :: u64) = of_nat k"
    "(of_nat c - of_nat k :: u32) = of_nat (c - k)" "size_of m brk = of_nat c"
    using sint_of_nat [of c] sint_of_nat [of "k + 32"] brk c scast_small [of k] by (simp_all add: MIN_BLOCK_def of_nat_diff m_def)
  ultimately have st': "st' = st\<lparr>umem := m2, free_list := nf\<rparr> \<and> p = brk + 16"
    using t c(1,2) by (simp add: new_chunk_def Let_def m_def [symmetric] nf_def [symmetric] m2_def m1_def)
  have new: "brk \<notin> dom B" "nf \<notin> dom B" "nf \<noteq> brk"
    using heap_okD(1,3) [OF H] u c(3) by fastforce+
  have "undisturbed B (in_use B fs) (umem st) m2"
    unfolding undisturbed_def
  proof (intro allI impI; elim conjE)
    fix a n and x :: u64 assume a: "a \<in> in_use B fs" "B a = Some n" "unat a \<le> unat x" "unat x < unat a + n"
    then have x: "unat x < unat brk" using heap_okD(3) [OF H a(2)] by linarith
    have "x \<noteq> brk + of_nat j" if "j < 16" for j
    proof -
      have "unat (brk + of_nat j) = unat brk + j" using brk that by (simp add: unat_add_nowrap unat_of_nat_small)
      then show ?thesis using x by auto
    qed
    then have "m x = umem st x" by (simp add: m_def set_other)
    moreover have "m2 x = m x"
    proof (rule S2 [OF x])
      fix j :: nat assume "j < 16"
      then show "x \<noteq> of_nat j" using heap_okD(2) [OF H a(2)] a(3) by (auto simp: unat_of_nat_small)
    qed
    ultimately show "m2 x = umem st x" by simp
  qed
  moreover have "set fs \<subseteq> dom B" using H by (simp add: heap_ok_def)
  ultimately show ?thesis using st' S c new
    by (intro exI [of _ "B(brk \<mapsto> k, nf \<mapsto> c - k)"] exI [of _ "nf # fs"] exI [of _ k]) (auto simp: in_use_def)
qed

lemma payload_addr:
  assumes "heap_ok m fl brk B fs" "B a = Some n"
  shows "unat (a + 16) = unat a + 16"
  using heap_okD(1,4) [OF assms] by (simp add: unat_add_nowrap)

lemma block_not_null: "heap_ok m fl brk B fs \<Longrightarrow> B a = Some n \<Longrightarrow> a + 16 \<noteq> 0"
  by (auto dest: payload_addr)

locale program_break =
  fixes brk_call :: "u64 \<Rightarrow> 'k \<Rightarrow> ('k \<times> u64) option" and brk :: "'k \<Rightarrow> u64" and ok :: "'k \<Rightarrow> bool"
  assumes range: "ok k \<Longrightarrow> 0x510000 \<le> unat (brk k) \<and> unat (brk k) \<le> 0x600000"
    and grow: "ok k \<Longrightarrow> 0 < sint inc \<Longrightarrow> \<exists>k' p. brk_call inc k = Some (k', p) \<and> ok k' \<and>
      (p = -1 \<and> brk k' = brk k \<or> p = brk k \<and> unat (brk k') = unat (brk k) + unat inc)"
begin

lemma brk_not_error: "ok k \<Longrightarrow> brk k \<noteq> -1"
  using range [of k] by (auto simp: unsigned_minus_1_eq_mask mask_eq_exp_minus_1)

text \<open>Allocating: the first free block that is large enough, or a new chunk at the break.\<close>

lemma malloc_ok:
  assumes L: "lib_ok ok brk st B fs" and n: "0 < sint n" "sint n \<le> 0x7FFF0000"
  shows "\<exists>st' p. malloc brk_call n st = Some (st', p) \<and>
    (if p = 0 then lib_ok ok brk st' B fs \<and> umem st' = umem st \<and> (\<forall>a \<in> set fs. \<forall>l. B a = Some l \<longrightarrow> l < unat (round_size n))
     else \<exists>B' fs' l. lib_ok ok brk st' B' fs' \<and> B' (p - 16) = Some l \<and> unat n + 16 \<le> l \<and> p - 16 \<notin> in_use B fs \<and>
       in_use B' fs' = insert (p - 16) (in_use B fs) \<and> (\<forall>a \<in> in_use B fs. B' a = B a) \<and>
       undisturbed B (in_use B fs) (umem st) (umem st'))"
proof -
  obtain k where k: "round_size n = of_nat k" "32 \<le> k" "unat n + 16 \<le> k" "k < 0x7FFFE000" using round_size_eq [OF n] .
  define st1 where "st1 = (if initialized st then st else st\<lparr>initialized := True, free_list := 0\<rparr>)"
  have st1: "umem st1 = umem st" "outside st1 = outside st" "initialized st1" "ok (outside st)"
    using L by (simp_all add: st1_def lib_ok_def)
  have H: "heap_ok (umem st1) (free_list st1) (brk (outside st1)) B fs"
    using L range [OF st1(4)] by (auto simp: lib_ok_def st1_def heap_ok_def split: if_splits)
  have sz: "sint (size_of (umem st1) a) < sint (round_size n) \<longleftrightarrow> l < k" if "B a = Some l" for a l
    using heap_okD(4,5) [OF H that] sint_of_nat [of l] sint_of_nat [of k] k by simp
  define ys where "ys = takeWhile (\<lambda>a. sint (size_of (umem st1) a) < sint (round_size n)) fs"
  have fb: "find_block (umem st1) (round_size n) 0 (free_list st1) = Some (case dropWhile (\<lambda>a. sint (size_of (umem st1) a) < sint (round_size n)) fs of
      [] \<Rightarrow> None | a # _ \<Rightarrow> Some (last (0 # ys), a))"
    unfolding ys_def by (rule find_block_eq) (use H heap_okD(6) [OF H] in \<open>auto simp: heap_ok_def\<close>)
  have sub: "set fs \<subseteq> dom B" "distinct fs" using H by (simp_all add: heap_ok_def)
  show ?thesis
  proof (cases "dropWhile (\<lambda>a. sint (size_of (umem st1) a) < sint (round_size n)) fs")
    case (Cons cur zs)
    then have fs: "fs = ys @ cur # zs" unfolding ys_def by (metis takeWhile_dropWhile_id)
    obtain l where l: "B cur = Some l" using sub fs by auto
    have "k \<le> l" using hd_dropWhile [of "\<lambda>a. sint (size_of (umem st1) a) < sint (round_size n)" fs] Cons sz [OF l] by simp
    obtain st' p where t: "take_block (of_nat k) (last (0 # ys)) cur st1 = (st', p)" by force
    have "malloc brk_call n st = Some (st', p)"
      using fb Cons n(1) t k(1) by (simp add: malloc_def Let_def st1_def [symmetric])
    moreover from take_block_ok [OF H [unfolded fs] l \<open>k \<le> l\<close> k(2) t] obtain B' fs' l' where
      "heap_ok (umem st') (free_list st') (brk (outside st1)) B' fs'" "p = cur + 16" "B' cur = Some l'" "k \<le> l'"
      "in_use B' fs' = insert cur (in_use B fs)" "\<forall>a \<in> in_use B fs. B' a = B a"
      "undisturbed B (in_use B fs) (umem st1) (umem st')" "outside st' = outside st1" "initialized st' = initialized st1"
      unfolding fs by blast
    moreover have "cur + 16 \<noteq> 0" using block_not_null [OF H l] .
    moreover have "cur \<notin> in_use B fs" using fs by (simp add: in_use_def)
    ultimately show ?thesis using st1 k(3)
      by (intro exI [of _ st'] exI [of _ p]) (auto simp: lib_ok_def intro!: exI [of _ B'] exI [of _ fs'] exI [of _ l'])
  next
    case Nil
    obtain c where c: "chunk_size (of_nat k) = of_nat c" "k + 4096 \<le> c" "c < 2 ^ 31" using chunk_size_eq [OF k(4)] .
    have inc: "scast (of_nat c :: u32) = (of_nat c :: u64)" "0 < sint (of_nat c :: u64)" "unat (of_nat c :: u64) = c"
      using c scast_small [of c] by (simp_all add: signed_of_nat signed_take_bit_int_eq_self unat_of_nat_small)
    obtain k' p where g: "brk_call (of_nat c) (outside st) = Some (k', p)" "ok k'"
        "p = -1 \<and> brk k' = brk (outside st) \<or> p = brk (outside st) \<and> unat (brk k') = unat (brk (outside st)) + c"
      using grow [OF st1(4) inc(2)] inc(3) by auto
    have m: "malloc brk_call n st = Some (if p = -1 then (st1\<lparr>outside := k'\<rparr>, 0) else new_chunk (of_nat k) p (st1\<lparr>outside := k'\<rparr>))"
      using fb [unfolded Nil list.case, unfolded k(1)] n(1) k(1) c(1) g(1) inc(1) st1(2) by (simp add: malloc_def Let_def st1_def [symmetric])
    show ?thesis
    proof (cases "p = -1")
      case True
      have "l < k" if "a \<in> set fs" "B a = Some l" for a l using Nil sz [OF that(2)] that(1) by (simp add: dropWhile_eq_Nil_conv)
      then have "\<forall>a \<in> set fs. \<forall>l. B a = Some l \<longrightarrow> l < unat (round_size n)" using k by (simp add: unat_of_nat_small)
      moreover have "brk k' = brk (outside st)" using g(3) True brk_not_error [OF st1(4)] by auto
      ultimately show ?thesis using m True H st1 g(2) by (simp add: lib_ok_def)
    next
      case False
      then have p: "p = brk (outside st)" "unat (brk k') = unat p + c" using g(3) by auto
      obtain st' q where t: "new_chunk (of_nat k) p (st1\<lparr>outside := k'\<rparr>) = (st', q)" by force
      have "heap_ok (umem (st1\<lparr>outside := k'\<rparr>)) (free_list (st1\<lparr>outside := k'\<rparr>)) p B fs" using H st1(2) p(1) by simp
      from new_chunk_ok [OF this _ p(2) _ c(1,2) k(2) t] obtain B' fs' l where R:
        "heap_ok (umem st') (free_list st') (brk k') B' fs'" "q = p + 16" "B' p = Some l" "k \<le> l"
        "in_use B' fs' = insert p (in_use B fs)" "\<forall>a \<in> in_use B fs. B' a = B a"
        "undisturbed B (in_use B fs) (umem st) (umem st')" "outside st' = k'" "initialized st'" "p \<notin> dom B"
        using range [OF st1(4)] range [OF g(2)] p(1) st1(1,3) by auto
      have "p + 16 \<noteq> 0" using block_not_null [OF R(1,3)] .
      then show ?thesis using m False t R k(3) g(2)
        by (intro exI [of _ st'] exI [of _ q]) (auto simp: lib_ok_def in_use_def intro!: exI [of _ B'] exI [of _ fs'] exI [of _ l])
    qed
  qed
qed

text \<open>Giving a block back.\<close>

lemma free_ok:
  assumes "lib_ok ok brk st B fs" "a \<in> in_use B fs"
  shows "lib_ok ok brk (free (a + 16) st) B (a # fs)" "undisturbed B (in_use B (a # fs)) (umem st) (umem (free (a + 16) st))"
proof -
  obtain n where n: "B a = Some n" "a \<notin> set fs" using assms(2) by (auto simp: in_use_def)
  have i: "initialized st" using assms(1) n by (auto simp: lib_ok_def split: if_splits)
  have H: "heap_ok (umem st) (free_list st) (brk (outside st)) B fs" using assms(1) i by (simp add: lib_ok_def)
  define m where "m = set_next a (free_list st) (set_magic a MAGIC_FREE (umem st))"
  have f: "free (a + 16) st = st\<lparr>umem := m, free_list := a\<rparr>"
    using heap_okD(6) [OF H n(1)] n(2) block_not_null [OF H n(1)] by (simp add: free_def Let_def m_def)
  then show "lib_ok ok brk (free (a + 16) st) B (a # fs)"
    using free_block_ok [OF H n] assms(1) i by (simp add: lib_ok_def m_def)
  show "undisturbed B (in_use B (a # fs)) (umem st) (umem (free (a + 16) st))"
    unfolding undisturbed_def f
  proof (intro allI impI; elim conjE)
    fix b l and x :: u64 assume b: "b \<in> in_use B (a # fs)" "B b = Some l" "unat b \<le> unat x" "unat x < unat b + l"
    have "x \<noteq> a + of_nat j" if "j < 16" for j
    proof -
      have "unat (a + of_nat j) = unat a + j" using heap_okD(1,4) [OF H n(1)] that by (simp add: unat_add_nowrap unat_of_nat_small)
      moreover have "unat b + l \<le> unat a \<or> unat a + n \<le> unat b"
        using heap_ok_disjoint [OF H b(2) n(1)] b(1) by (auto simp: in_use_def)
      ultimately show ?thesis using b(3,4) that heap_okD(1) [OF H n(1)] by auto
    qed
    then show "umem (st\<lparr>umem := m, free_list := a\<rparr>) x = umem st x" by (simp add: m_def set_other)
  qed
qed

text \<open>The program may write to the bytes of a block it holds.\<close>

lemma write_ok:
  assumes "lib_ok ok brk st B fs" "a \<in> in_use B fs" "B a = Some n" "unat a + 16 \<le> unat x" "unat x < unat a + n"
  shows "lib_ok ok brk (st\<lparr>umem := (umem st)(x := v)\<rparr>) B fs"
proof -
  have i: "initialized st" using assms(1,3) by (auto simp: lib_ok_def split: if_splits)
  have H: "heap_ok (umem st) (free_list st) (brk (outside st)) B fs" using assms(1) i by (simp add: lib_ok_def)
  define m where "m = (umem st)(x := v)"
  have h: "size_of m b = size_of (umem st) b" "magic_of m b = magic_of (umem st) b" "next_of m b = next_of (umem st) b" if b: "B b = Some l" for b l
  proof -
    have "b + of_nat j \<noteq> x" if "j < 16" for j
    proof -
      have "unat (b + of_nat j) = unat b + j" using heap_okD(1,4) [OF H b] that by (simp add: unat_add_nowrap unat_of_nat_small)
      then show ?thesis using heap_ok_disjoint [OF H b assms(3)] heap_okD(1) [OF H b] assms(4,5) that by (cases "b = a") auto
    qed
    then have "m (b + of_nat j) = umem st (b + of_nat j)" if "j < 16" for j using that by (simp add: m_def)
    then show "size_of m b = size_of (umem st) b" "magic_of m b = magic_of (umem st) b" "next_of m b = next_of (umem st) b"
      by (rule header_agree; blast)+
  qed
  have sub: "set fs \<subseteq> dom B" using H by (simp add: heap_ok_def)
  have "path m (free_list st) fs 0 \<longleftrightarrow> path (umem st) (free_list st) fs 0" by (rule path_cong) (use sub h(3) in blast)
  then have "heap_ok m (free_list st) (brk (outside st)) B fs" using H h(1,2) by (simp add: heap_ok_def)
  then show ?thesis using assms(1) i by (simp add: lib_ok_def m_def)
qed

end

subsection \<open>The kernel's break\<close>

text \<open>The task is the current one, and the break is in its range.\<close>

definition program_ok :: "'d kernel \<Rightarrow> bool" where
  "program_ok k \<longleftrightarrow> break_ok k \<and> current_task (ksys k) \<noteq> None"

lemma sys_sbrk_returns:
  assumes "current_task (ksys st) \<noteq> None"
  obtains st' r' where "sys_sbrk st r = Return st' r'" "current_task (ksys st') \<noteq> None"
  using assms that by (fastforce simp: sys_sbrk_def ret_def with_task_def Let_def set_sys_def split: if_splits option.splits prod.splits)

interpretation user: program_break "sbrk r" heap_break program_ok for r :: registers_t
proof
  fix k :: "'d kernel" and inc :: u64
  show "0x510000 \<le> unat (heap_break k) \<and> unat (heap_break k) \<le> 0x600000" if "program_ok k"
    using that by (simp add: program_ok_def break_ok_def word_le_nat_alt)
  assume k: "program_ok k" and inc: "0 < sint inc"
  let ?r = "r\<lparr>r_rax := 22, r_rdi := inc\<rparr>"
  have g: "break_ok k" "grows k ?r" using k inc by (simp_all add: program_ok_def grows_def)
  obtain k' r' where c: "sys_sbrk k ?r = Return k' r'" "current_task (ksys k') \<noteq> None"
    using k sys_sbrk_returns [of k ?r] by (auto simp: program_ok_def)
  have "unat (heap_break k + inc) = unat (heap_break k) + unat inc" using sbrk_sum(1) [OF g] by simp
  then show "\<exists>k' p. sbrk r inc k = Some (k', p) \<and> program_ok k' \<and>
      (p = -1 \<and> heap_break k' = heap_break k \<or> p = heap_break k \<and> unat (heap_break k') = unat (heap_break k) + unat inc)"
    using sbrk_grown [OF g c(1)] c by (auto simp: sbrk_def program_ok_def)
qed

text \<open>
  A program that allocates, writes to what it was given and gives it back: \<open>P\<close> maps the pointers it holds to the sizes
  it asked for.
\<close>

inductive user_run :: "registers_t \<Rightarrow> 'd kernel lib \<Rightarrow> (u64 \<Rightarrow> nat option) \<Rightarrow> bool" for r where
  start: "lib_ok program_ok heap_break st B fs \<Longrightarrow> in_use B fs = {} \<Longrightarrow> user_run r st Map.empty"
| alloc: "user_run r st P \<Longrightarrow> 0 < sint n \<Longrightarrow> sint n \<le> 0x7FFF0000 \<Longrightarrow> malloc (sbrk r) n st = Some (st', p) \<Longrightarrow>
    user_run r st' (if p = 0 then P else P(p \<mapsto> unat n))"
| free: "user_run r st P \<Longrightarrow> P p = Some n \<Longrightarrow> user_run r (free p st) (P(p := None))"
| store: "user_run r st P \<Longrightarrow> P p = Some n \<Longrightarrow> i < n \<Longrightarrow> user_run r (st\<lparr>umem := (umem st)(p + of_nat i := v)\<rparr>) P"

definition held :: "(u64 \<Rightarrow> nat option) \<Rightarrow> (u64 \<Rightarrow> nat option) \<Rightarrow> u64 list \<Rightarrow> bool" where
  "held P B fs \<longleftrightarrow> (\<forall>p n. P p = Some n \<longrightarrow> p - 16 \<in> in_use B fs \<and> (\<exists>l. B (p - 16) = Some l \<and> n + 16 \<le> l))"

lemma heldE:
  assumes "held P B fs" "P p = Some n"
  obtains l where "p - 16 \<in> in_use B fs" "B (p - 16) = Some l" "n + 16 \<le> l"
  using assms unfolding held_def by blast

lemma user_run_ok: "user_run r st P \<Longrightarrow> \<exists>B fs. lib_ok program_ok heap_break st B fs \<and> held P B fs"
proof (induction rule: user_run.induct)
  case (start st B fs)
  then show ?case by (intro exI [of _ B] exI [of _ fs]) (simp add: held_def)
next
  case (alloc st P n st' p)
  then obtain B fs where B: "lib_ok program_ok heap_break st B fs" "held P B fs" by blast
  show ?case
  proof (cases "p = 0")
    case True
    then show ?thesis using user.malloc_ok [OF B(1) alloc.hyps(2,3), of r] alloc.hyps(4) B(2) by auto
  next
    case False
    then obtain B' fs' l where "lib_ok program_ok heap_break st' B' fs'" "B' (p - 16) = Some l" "unat n + 16 \<le> l" "p - 16 \<notin> in_use B fs"
       "in_use B' fs' = insert (p - 16) (in_use B fs)" "\<forall>a \<in> in_use B fs. B' a = B a"
      using user.malloc_ok [OF B(1) alloc.hyps(2,3), of r] alloc.hyps(4) by auto
    then show ?thesis using False B(2) by (intro exI [of _ B'] exI [of _ fs']) (auto simp: held_def)
  qed
next
  case (free st P p n)
  then obtain B fs where B: "lib_ok program_ok heap_break st B fs" "held P B fs" by blast
  have a: "p - 16 \<in> in_use B fs" using B(2) free.hyps(2) by (simp add: held_def)
  have "held (P(p := None)) B ((p - 16) # fs)" using B(2) by (auto simp: held_def in_use_def)
  then show ?case using user.free_ok(1) [OF B(1) a] by (intro exI [of _ B] exI [of _ "(p - 16) # fs"]) (simp del: fun_upd_apply)
next
  case (store st P p n i v)
  then obtain B fs where B: "lib_ok program_ok heap_break st B fs" "held P B fs" by blast
  from B(2) store.hyps(2) obtain l where l: "p - 16 \<in> in_use B fs" "B (p - 16) = Some l" "n + 16 \<le> l" by (rule heldE)
  have "initialized st" using B(1) l(2) by (auto simp: lib_ok_def split: if_splits)
  then have "heap_ok (umem st) (free_list st) (heap_break (outside st)) B fs" using B(1) by (simp add: lib_ok_def)
  from heap_okD(4) [OF this l(2)] have "unat (p - 16 + of_nat (16 + i)) = unat (p - 16) + (16 + i)"
    using l(3) store.hyps(3) by (subst unat_add_nowrap) (simp_all add: unat_of_nat_small del: of_nat_add)
  moreover have "p - 16 + of_nat (16 + i) = p + of_nat i" by simp
  ultimately have "unat (p + of_nat i) = unat (p - 16) + (16 + i)" by metis
  then have "lib_ok program_ok heap_break (st\<lparr>umem := (umem st)(p + of_nat i := v)\<rparr>) B fs"
    using l(3) store.hyps(3) by (intro user.write_ok [OF B(1) l(1,2)]) simp_all
  then show ?case using B(2) by blast
qed

subsection \<open>Properties\<close>

text \<open>C29: allocating returns, for every size up to 0x7FFF0000. It fails only if no free block is large enough and the
  kernel grants no more memory, and then changes nothing; otherwise the block it returns has room for the
  size, overlaps no block in use, and the contents of all blocks in use are as before.\<close>

theorem malloc_correct:
  assumes "lib_ok program_ok heap_break st B fs" "0 < sint n" "sint n \<le> 0x7FFF0000"
  shows "\<exists>st' p. malloc (sbrk r) n st = Some (st', p) \<and>
    (if p = 0 then lib_ok program_ok heap_break st' B fs \<and> umem st' = umem st \<and>
       (\<forall>a \<in> set fs. \<forall>l. B a = Some l \<longrightarrow> l < unat (round_size n))
     else \<exists>B' fs' l. lib_ok program_ok heap_break st' B' fs' \<and> B' (p - 16) = Some l \<and> unat n + 16 \<le> l \<and>
       in_use B' fs' = insert (p - 16) (in_use B fs) \<and>
       (\<forall>a \<in> in_use B fs. \<forall>k. B a = Some k \<longrightarrow> B' a = Some k \<and> (unat a + k \<le> unat (p - 16) \<or> unat (p - 16) + l \<le> unat a)) \<and>
       undisturbed B (in_use B fs) (umem st) (umem st'))"
proof -
  obtain st' p where m: "malloc (sbrk r) n st = Some (st', p)"
    "if p = 0 then lib_ok program_ok heap_break st' B fs \<and> umem st' = umem st \<and> (\<forall>a \<in> set fs. \<forall>l. B a = Some l \<longrightarrow> l < unat (round_size n))
     else \<exists>B' fs' l. lib_ok program_ok heap_break st' B' fs' \<and> B' (p - 16) = Some l \<and> unat n + 16 \<le> l \<and> p - 16 \<notin> in_use B fs \<and>
       in_use B' fs' = insert (p - 16) (in_use B fs) \<and> (\<forall>a \<in> in_use B fs. B' a = B a) \<and>
       undisturbed B (in_use B fs) (umem st) (umem st')"
    using user.malloc_ok [OF assms, of r] by blast
  show ?thesis
  proof (cases "p = 0")
    case True
    then show ?thesis using m by auto
  next
    case False
    then obtain B' fs' l where B': "lib_ok program_ok heap_break st' B' fs'" "B' (p - 16) = Some l" "unat n + 16 \<le> l" "p - 16 \<notin> in_use B fs"
        "in_use B' fs' = insert (p - 16) (in_use B fs)" "\<forall>a \<in> in_use B fs. B' a = B a" "undisturbed B (in_use B fs) (umem st) (umem st')"
      using m(2) by auto
    then have H: "heap_ok (umem st') (free_list st') (heap_break (outside st')) B' fs'" by (auto simp: lib_ok_def split: if_splits)
    have "B' a = Some k \<and> (unat a + k \<le> unat (p - 16) \<or> unat (p - 16) + l \<le> unat a)" if "a \<in> in_use B fs" "B a = Some k" for a k
      using heap_ok_disjoint [OF H _ B'(2), of a k] B'(4,6) that by auto
    then show ?thesis using m(1) False B'(1-3,5,7)
      by (intro exI [of _ st'] exI [of _ p]) (auto intro!: exI [of _ B'] exI [of _ fs'] exI [of _ l])
  qed
qed

text \<open>C30: whatever a program allocates, writes to and gives back, the blocks it holds never overlap and lie between
  the start of its heap and 0x600000.\<close>

theorem allocations_disjoint:
  assumes "user_run r st P" "P p = Some n" "P q = Some k" "p \<noteq> q"
  shows "(unat p + n \<le> unat q \<or> unat q + k \<le> unat p) \<and> 0x510000 \<le> unat p \<and> unat p + n \<le> 0x600000"
proof -
  obtain B fs where L: "lib_ok program_ok heap_break st B fs" "held P B fs" using user_run_ok [OF assms(1)] by blast
  from L(2) assms(2,3) obtain l l' where B: "B (p - 16) = Some l" "n + 16 \<le> l" "B (q - 16) = Some l'" "k + 16 \<le> l'" by (metis heldE)
  from L(1) B(1) have H: "heap_ok (umem st) (free_list st) (heap_break (outside st)) B fs" by (auto simp: lib_ok_def split: if_splits)
  have "unat p = unat (p - 16) + 16" "unat q = unat (q - 16) + 16"
    using payload_addr [OF H B(1)] payload_addr [OF H B(3)] by simp_all
  moreover have "p - 16 \<noteq> q - 16" using assms(4) by simp
  ultimately show ?thesis using heap_ok_disjoint [OF H B(1,3)] heap_okD(2,4) [OF H B(1)] B(2,4) by auto
qed

text \<open>A heap of one free page.\<close>

definition one_page :: "unit kernel lib" where
  "one_page = \<lparr>umem = set_next 0x510000 0 (set_magic 0x510000 MAGIC_FREE (set_size 0x510000 4096 (\<lambda>_. 0))), free_list = 0x510000,
     initialized = True, outside = (box_kernel three_tasks)\<lparr>heap_break := 0x511000\<rparr>\<rparr>"

lemma one_page_ok: "lib_ok program_ok heap_break one_page [0x510000 \<mapsto> 4096] [0x510000]"
  by (simp add: lib_ok_def one_page_def program_ok_def break_ok_def heap_ok_def box_kernel_def box_def three_tasks_fields)

theorem malloc_correct_witness:
  "\<exists>st' p B' fs' l. malloc (sbrk zero_regs) 100 one_page = Some (st', p) \<and> B' (p - 16) = Some l \<and> 116 \<le> l \<and>
     lib_ok program_ok heap_break st' B' fs' \<and> in_use B' fs' = {p - 16}"
proof -
  have "unat (round_size 100) = 120" by (simp add: round_size_def HEADER_SIZE_def MIN_BLOCK_def)
  then show ?thesis using malloc_correct [OF one_page_ok, of 100 zero_regs] by (simp add: in_use_def split: if_splits) blast
qed

lemma one_page_first:
  "\<exists>m. malloc (sbrk zero_regs) 100 one_page = Some (one_page\<lparr>umem := m, free_list := 0x510078\<rparr>, 0x510010) \<and>
     magic_of m 0x510078 = MAGIC_FREE \<and> size_of m 0x510078 = 3976 \<and> next_of m 0x510078 = 0"
proof -
  have "far 0x510000 0x510078" by (rule far_apart) simp_all
  from this far_sym [OF this] show ?thesis
    by (simp add: malloc_def round_size_def HEADER_SIZE_def MIN_BLOCK_def one_page_def find_block.simps take_block_def link_def Let_def)
qed

theorem allocations_disjoint_witness:
  "\<exists>(st :: unit kernel lib) P. user_run zero_regs st P \<and> P 0x510010 = Some 100 \<and> P 0x510088 = Some 8 \<and> unat (0x510010 :: u64) + 100 \<le> unat (0x510088 :: u64)"
proof -
  have 0: "user_run zero_regs one_page Map.empty" by (rule start [OF one_page_ok]) (simp add: in_use_def)
  obtain m where m: "malloc (sbrk zero_regs) 100 one_page = Some (one_page\<lparr>umem := m, free_list := 0x510078\<rparr>, 0x510010)"
    "magic_of m 0x510078 = MAGIC_FREE" "size_of m 0x510078 = 3976" using one_page_first by blast
  define st1 where "st1 = one_page\<lparr>umem := m, free_list := 0x510078\<rparr>"
  have 1: "user_run zero_regs st1 [0x510010 \<mapsto> 100]" using alloc [OF 0 _ _ m(1)] by (simp add: st1_def)
  obtain st2 where "malloc (sbrk zero_regs) 8 st1 = Some (st2, 0x510088)"
    using m(2,3) by (simp add: malloc_def round_size_def HEADER_SIZE_def MIN_BLOCK_def st1_def one_page_def find_block.simps take_block_def Let_def)
  from alloc [OF 1 _ _ this] have 2: "user_run zero_regs st2 [0x510010 \<mapsto> 100, 0x510088 \<mapsto> 8]" by simp
  from allocations_disjoint [OF 2, of "0x510010" 100 "0x510088" 8] show ?thesis
    using 2 by (intro exI [of _ st2] exI [of _ "[0x510010 \<mapsto> 100, 0x510088 \<mapsto> 8]"]) simp
qed

end
