(* ===== verification/Lineedit.thy ===== *)
theory Lineedit
  imports Keyboard
begin

text \<open>
  The line editor of the shell, \<^verbatim>\<open>userspace/shell.c\<close>: the line with its cursor, the history and the completion of
  names. The terminal is reached by system calls; they are the argument \<open>tty\<close>. Arrays are lists of their full
  length, and a string is the text up to the first terminator (\<open>cstr\<close>).
\<close>

definition LINE_MAX :: nat where "LINE_MAX = 256"
definition HIST_SIZE :: nat where "HIST_SIZE = 64"
definition MAX_COMPLETIONS :: nat where "MAX_COMPLETIONS = 32"

record 'd tty =
  put :: "u8 \<Rightarrow> 'd \<Rightarrow> 'd"
  cursor :: "'d \<Rightarrow> u32"
  move :: "u32 \<Rightarrow> u32 \<Rightarrow> 'd \<Rightarrow> 'd"

record 'd shell =
  line :: bytes
  line_pos :: nat
  line_len :: nat
  prompt_col :: u32
  got_sigint :: bool
  hist_buf :: "bytes list"
  hist_count :: nat
  hist_index :: nat
  scr :: 'd

definition puts :: "'d tty \<Rightarrow> bytes \<Rightarrow> 'd \<Rightarrow> 'd" where
  "puts T cs d = fold (put T) cs d"

definition redraw_line :: "'d tty \<Rightarrow> 'd shell \<Rightarrow> 'd shell" where
  "redraw_line T s =
     (let row = drop_bit 16 (cursor T (scr s));
          d = move T row (prompt_col s) (scr s);
          d = puts T (take (line_len s) (line s)) d;
          d = put T 32 d
      in s\<lparr>scr := move T row (prompt_col s + of_nat (line_pos s)) d\<rparr>)"

subsection \<open>Moving characters\<close>

text \<open>\<^verbatim>\<open>for (i = pos + k; i > pos; i--) a[i] = a[i - 1]\<close> and \<^verbatim>\<open>for (i = pos; i < pos + k; i++) a[i] = a[i + 1]\<close>.\<close>

primrec shift_up :: "nat \<Rightarrow> nat \<Rightarrow> bytes \<Rightarrow> bytes" where
  "shift_up pos 0 a = a"
| "shift_up pos (Suc k) a = shift_up pos k (a[pos + Suc k := a ! (pos + k)])"

primrec shift_down :: "nat \<Rightarrow> nat \<Rightarrow> bytes \<Rightarrow> bytes" where
  "shift_down pos 0 a = a"
| "shift_down pos (Suc k) a = shift_down (Suc pos) k (a[pos := a ! Suc pos])"

text \<open>Copying at most \<open>n\<close> characters of a string, padded with zeros (\<^verbatim>\<open>strncpy\<close> into an array).\<close>

definition str_n :: "nat \<Rightarrow> bytes \<Rightarrow> bytes \<Rightarrow> bytes" where
  "str_n n src dst = put_at 0 (take n (cstr src @ replicate n 0)) dst"

subsection \<open>History\<close>

definition history_add :: "bytes \<Rightarrow> 'd shell \<Rightarrow> 'd shell" where
  "history_add cmd s =
     (if cstr cmd = [] then s
      else if hist_count s > 0 \<and> cstr (hist_buf s ! ((hist_count s - 1) mod HIST_SIZE)) = cstr cmd then s
      else (let idx = hist_count s mod HIST_SIZE;
                entry = (str_n (LINE_MAX - 1) cmd (hist_buf s ! idx))[LINE_MAX - 1 := 0]
            in s\<lparr>hist_buf := (hist_buf s)[idx := entry], hist_count := hist_count s + 1, hist_index := hist_count s + 1\<rparr>))"

text \<open>The lines of the history file: each non-empty line that fits is an entry.\<close>

definition load_line :: "bytes \<Rightarrow> 'd shell \<Rightarrow> 'd shell" where
  "load_line l s =
     (if 0 < length l \<and> length l < LINE_MAX then
        (let idx = hist_count s mod HIST_SIZE
         in s\<lparr>hist_buf := (hist_buf s)[idx := put_at 0 (l @ [0]) (hist_buf s ! idx)], hist_count := hist_count s + 1\<rparr>)
      else s)"

text \<open>The parts of a text between newlines; a text of \<open>k\<close> newlines has \<open>k + 1\<close> of them.\<close>

fun split_lines :: "bytes \<Rightarrow> bytes list" where
  "split_lines [] = [[]]"
| "split_lines (c # cs) = (if c = 10 then [] # split_lines cs else (case split_lines cs of l # ls \<Rightarrow> (c # l) # ls | [] \<Rightarrow> [[c]]))"

definition history_load :: "bytes option \<Rightarrow> 'd shell \<Rightarrow> 'd shell" where
  "history_load file s =
     (case file of None \<Rightarrow> s
      | Some buf \<Rightarrow>
          if buf = [] then s
          else (let s = fold load_line (split_lines (take 4096 buf)) (s\<lparr>hist_count := 0, hist_index := 0\<rparr>)
                in s\<lparr>hist_index := hist_count s\<rparr>))"

definition recall :: "nat \<Rightarrow> 'd shell \<Rightarrow> 'd shell" where
  "recall i s =
     (let l = (str_n (LINE_MAX - 1) (hist_buf s ! (i mod HIST_SIZE)) (line s))[LINE_MAX - 1 := 0]
      in s\<lparr>line := l, line_len := length (cstr l), line_pos := length (cstr l)\<rparr>)"

subsection \<open>Completion of names\<close>

definition builtin_cmds :: "bytes list" where
  "builtin_cmds = map str [''cat'', ''cd'', ''clear'', ''cp'', ''date'', ''echo'', ''ed'', ''env'', ''exec'', ''export'', ''grep'', ''help'',
     ''mkdir'', ''mv'', ''poweroff'', ''reboot'', ''rm'', ''rmdir'', ''shutdown'', ''sh'', ''touch'', ''uname'', ''unset'', ''uptime'']"

text \<open>The index after the last character \<open>c\<close> among the first \<open>n\<close>, not before \<open>from\<close>.\<close>

definition after_last :: "u8 \<Rightarrow> nat \<Rightarrow> nat \<Rightarrow> bytes \<Rightarrow> nat option" where
  "after_last c from n l = map_option Suc (find (\<lambda>i. l ! i = c) (rev [from..<n]))"

text \<open>The directory and the prefix to complete. The directory is copied from the start of the line.\<close>

definition completion_target :: "'d shell \<Rightarrow> nat \<times> bytes \<times> bytes" where
  "completion_target s =
     (let n = line_pos s; l = line s; token_start = (case after_last 32 0 n l of None \<Rightarrow> 0 | Some i \<Rightarrow> i)
      in case after_last 47 token_start n l of
           None \<Rightarrow> (token_start, [], drop token_start (take n l))
         | Some dir_len \<Rightarrow> (token_start, take dir_len l, drop dir_len (take n l)))"

text \<open>The names of a listing, one per line up to a terminator, that begin with the prefix.\<close>

definition listed :: "bytes \<Rightarrow> bytes \<Rightarrow> bytes list" where
  "listed file_prefix list_buf =
     filter (\<lambda>name. name \<noteq> [] \<and> take (length file_prefix) name = file_prefix) (split_lines (cstr list_buf))"

definition candidates :: "(bytes \<Rightarrow> bytes option) \<Rightarrow> 'd shell \<Rightarrow> bytes list" where
  "candidates ls s =
     (let (token_start, dir_path, file_prefix) = completion_target s;
          builtin = (if token_start = 0 then filter (\<lambda>cmd. take (length file_prefix) cmd = file_prefix) builtin_cmds else []);
          names = (case ls dir_path of None \<Rightarrow> [] | Some list_buf \<Rightarrow> listed file_prefix list_buf)
      in take MAX_COMPLETIONS (builtin @ names))"

fun common_len :: "bytes \<Rightarrow> bytes \<Rightarrow> nat" where
  "common_len (a # as) (b # bs) = (if a = b then Suc (common_len as bs) else 0)"
| "common_len _ _ = 0"

definition common_prefix :: "bytes list \<Rightarrow> bytes" where
  "common_prefix ms = take (fold (\<lambda>m k. min k (common_len (hd ms) m)) (tl ms) (length (hd ms))) (hd ms)"

text \<open>Room is made after the cursor, terminator included, and the missing characters are put there.\<close>

definition insert_text :: "bytes \<Rightarrow> 'd shell \<Rightarrow> 'd shell" where
  "insert_text t s =
     (if 0 < length t \<and> line_len s + length t < LINE_MAX - 1 then
        (let l = put_at (line_pos s + length t) (drop (line_pos s) (take (line_len s + 1) (line s))) (line s);
             l = put_at (line_pos s) t l;
             n = line_len s + length t
         in s\<lparr>line := l[n := 0], line_pos := line_pos s + length t, line_len := n\<rparr>)
      else s)"

definition show_matches :: "'d tty \<Rightarrow> bytes list \<Rightarrow> 'd shell \<Rightarrow> 'd shell" where
  "show_matches T ms s =
     (let d = move T (drop_bit 16 (cursor T (scr s))) 0 (scr s);
          d = put T 10 d;
          d = puts T (concat (map (\<lambda>m. m @ [32, 32]) ms)) d;
          d = puts T (10 # str ''some-tiny-os$ '') d;
          d = puts T (take (line_len s) (line s)) d
      in s\<lparr>scr := move T (drop_bit 16 (cursor T d)) (prompt_col s + of_nat (line_pos s)) d\<rparr>)"

definition tab_complete :: "'d tty \<Rightarrow> (bytes \<Rightarrow> bytes option) \<Rightarrow> 'd shell \<Rightarrow> 'd shell" where
  "tab_complete T ls s =
     (let (_, _, file_prefix) = completion_target s; ms = candidates ls s; k = length file_prefix
      in case ms of
           [] \<Rightarrow> s
         | [m] \<Rightarrow> redraw_line T (insert_text (drop k m) s)
         | _ \<Rightarrow> show_matches T ms (insert_text (drop k (common_prefix ms)) s))"

subsection \<open>Keys\<close>

text \<open>One round of the loop of \<^verbatim>\<open>shell_readline\<close>: \<open>Inl\<close> goes on, \<open>Inr\<close> leaves it.\<close>

definition insert_char :: "'d tty \<Rightarrow> u8 \<Rightarrow> 'd shell \<Rightarrow> 'd shell" where
  "insert_char T c s =
     (let pos = line_pos s; n = line_len s;
          l = (shift_up pos (n - pos) (line s))[pos := c];
          s = s\<lparr>line := l[n + 1 := 0], line_pos := pos + 1, line_len := n + 1\<rparr>
      in if line_pos s = line_len s then s\<lparr>scr := put T c (scr s)\<rparr> else redraw_line T s)"

definition backspace :: "'d tty \<Rightarrow> 'd shell \<Rightarrow> 'd shell" where
  "backspace T s =
     (if line_pos s > 0 then
        (let pos = line_pos s - 1; n = line_len s - 1;
             s = s\<lparr>line := (shift_down pos (n - pos) (line s))[n := 0], line_pos := pos, line_len := n\<rparr>
         in if pos = n then s\<lparr>scr := puts T [8, 32, 8] (scr s)\<rparr> else redraw_line T s)
      else s)"

definition delete_char :: "'d tty \<Rightarrow> 'd shell \<Rightarrow> 'd shell" where
  "delete_char T s =
     (if line_pos s < line_len s then
        (let n = line_len s - 1
         in redraw_line T (s\<lparr>line := (shift_down (line_pos s) (n - line_pos s) (line s))[n := 0], line_len := n\<rparr>))
      else s)"

definition step_cursor :: "'d tty \<Rightarrow> u32 \<Rightarrow> 'd shell \<Rightarrow> 'd shell" where
  "step_cursor T by s = (let cur = cursor T (scr s) in s\<lparr>scr := move T (drop_bit 16 cur) ((cur AND 0xFFFF) + by) (scr s)\<rparr>)"

definition history_key :: "'d tty \<Rightarrow> int \<Rightarrow> 'd shell \<Rightarrow> 'd shell" where
  "history_key T c s =
     (if c = uint KEY_UP then
        (if hist_count s > 0 \<and> hist_index s > 0
         then redraw_line T (recall (hist_index s - 1) (s\<lparr>hist_index := hist_index s - 1\<rparr>)) else s)
      else if hist_index s < hist_count s then
        (let s = s\<lparr>hist_index := hist_index s + 1\<rparr>
         in redraw_line T (if hist_index s = hist_count s then s\<lparr>line := (line s)[0 := 0], line_len := 0, line_pos := 0\<rparr>
                           else recall (hist_index s) s))
      else s)"

definition edit_key :: "'d tty \<Rightarrow> (bytes \<Rightarrow> bytes option) \<Rightarrow> int \<Rightarrow> 'd shell \<Rightarrow> 'd shell + 'd shell" where
  "edit_key T ls c s =
     (if got_sigint s then
        Inr (s\<lparr>scr := put T 10 (scr s), line_pos := 0, line_len := 0, line := (line s)[0 := 0]\<rparr>)
      else if c = 10 then Inr (s\<lparr>scr := put T 10 (scr s), line := (line s)[line_len s := 0]\<rparr>)
      else if c = 8 then Inl (backspace T s)
      else if c = uint KEY_DELETE then Inl (delete_char T s)
      else if c = uint KEY_LEFT then Inl (if line_pos s > 0 then step_cursor T (-1) (s\<lparr>line_pos := line_pos s - 1\<rparr>) else s)
      else if c = uint KEY_RIGHT then Inl (if line_pos s < line_len s then step_cursor T 1 (s\<lparr>line_pos := line_pos s + 1\<rparr>) else s)
      else if c = uint KEY_HOME then Inl (redraw_line T (s\<lparr>line_pos := 0\<rparr>))
      else if c = uint KEY_END then Inl (redraw_line T (s\<lparr>line_pos := line_len s\<rparr>))
      else if c = uint KEY_UP \<or> c = uint KEY_DOWN then Inl (history_key T c s)
      else if c = 9 then Inl (tab_complete T ls s)
      else if 32 \<le> c \<and> c < 127 \<and> line_len s < LINE_MAX - 1 then Inl (insert_char T (of_int c) s)
      else Inl s)"

definition start_line :: "'d tty \<Rightarrow> 'd shell \<Rightarrow> 'd shell" where
  "start_line T s = s\<lparr>line_pos := 0, line_len := 0, line := (line s)[0 := 0], got_sigint := False, hist_index := hist_count s,
     prompt_col := cursor T (scr s) AND 0xFFFF\<rparr>"

text \<open>While the editor waits for a key the signal handler may run.\<close>

datatype input = Key int | Sigint

definition sigint_handler :: "'d shell \<Rightarrow> 'd shell" where
  "sigint_handler s = s\<lparr>got_sigint := True\<rparr>"

text \<open>The line for a sequence of inputs; \<open>None\<close> when they do not end the line.\<close>

fun read_keys :: "'d tty \<Rightarrow> (bytes \<Rightarrow> bytes option) \<Rightarrow> input list \<Rightarrow> 'd shell \<Rightarrow> ('d shell \<times> input list) option" where
  "read_keys T ls [] s = None"
| "read_keys T ls (Sigint # cs) s = read_keys T ls cs (sigint_handler s)"
| "read_keys T ls (Key c # cs) s = (case edit_key T ls c s of Inl s \<Rightarrow> read_keys T ls cs s | Inr s \<Rightarrow> Some (s, cs))"

definition shell_readline :: "'d tty \<Rightarrow> (bytes \<Rightarrow> bytes option) \<Rightarrow> input list \<Rightarrow> 'd shell \<Rightarrow> ('d shell \<times> input list) option" where
  "shell_readline T ls cs s = read_keys T ls cs (start_line T s)"

subsection \<open>The line as text around a cursor\<close>

definition line_ok :: "'d shell \<Rightarrow> bool" where
  "line_ok s \<longleftrightarrow> length (line s) = LINE_MAX \<and> line_pos s \<le> line_len s \<and> line_len s < LINE_MAX \<and> line s ! line_len s = 0 \<and>
     0 \<notin> set (take (line_len s) (line s)) \<and> length (hist_buf s) = HIST_SIZE"

definition text_of :: "'d shell \<Rightarrow> bytes \<times> bytes" where
  "text_of s = (take (line_pos s) (line s), drop (line_pos s) (take (line_len s) (line s)))"

text \<open>What a key means for the text before and after the cursor.\<close>

fun key_spec :: "int \<Rightarrow> bytes \<times> bytes \<Rightarrow> bytes \<times> bytes" where
  "key_spec c (b, a) =
     (if c = 8 then (butlast b, a)
      else if c = uint KEY_DELETE then (b, tl a)
      else if c = uint KEY_LEFT then (if b = [] then (b, a) else (butlast b, last b # a))
      else if c = uint KEY_RIGHT then (if a = [] then (b, a) else (b @ [hd a], tl a))
      else if c = uint KEY_HOME then ([], b @ a)
      else if c = uint KEY_END then (b @ a, [])
      else if 32 \<le> c \<and> c < 127 \<and> length b + length a < 255 then (b @ [of_int c], a)
      else (b, a))"

lemma length_shift_up [simp]: "length (shift_up pos k a) = length a"
  by (induction k arbitrary: a) simp_all

lemma length_shift_down [simp]: "length (shift_down pos k a) = length a"
  by (induction k arbitrary: a pos) simp_all

lemma shift_up_nth:
  "pos + k < length a \<Longrightarrow> i < length a \<Longrightarrow> shift_up pos k a ! i = (if pos < i \<and> i \<le> pos + k then a ! (i - 1) else a ! i)"
  by (induction k arbitrary: a) (auto simp: nth_list_update)

lemma shift_down_nth:
  "pos + k < length a \<Longrightarrow> i < length a \<Longrightarrow> shift_down pos k a ! i = (if pos \<le> i \<and> i < pos + k then a ! Suc i else a ! i)"
  by (induction k arbitrary: a pos) (auto simp: nth_list_update)

lemma redraw_line_fields [simp]:
  "line (redraw_line T s) = line s" "line_pos (redraw_line T s) = line_pos s" "line_len (redraw_line T s) = line_len s"
  "hist_buf (redraw_line T s) = hist_buf s" "got_sigint (redraw_line T s) = got_sigint s"
  by (simp_all add: redraw_line_def Let_def)

text \<open>A line that holds the text \<open>b @ a\<close>, with the cursor after \<open>b\<close>.\<close>

lemma line_textI:
  assumes "length l = LINE_MAX" "take (length b + length a) l = b @ a" "l ! (length b + length a) = 0" "length b + length a < LINE_MAX"
    and "0 \<notin> set b" "0 \<notin> set a" "line s = l" "line_pos s = length b" "line_len s = length b + length a" "length (hist_buf s) = HIST_SIZE"
  shows "line_ok s \<and> text_of s = (b, a)"
proof -
  have "take (length b) l = take (length b) (take (length b + length a) l)" by (simp add: min_def)
  then have "take (length b) l = b" using assms(2) by simp
  then show ?thesis using assms by (auto simp: line_ok_def text_of_def)
qed

lemma line_okD:
  assumes "line_ok s" "text_of s = (b, a)"
  shows "line_pos s = length b" "line_len s = length b + length a" "take (length b + length a) (line s) = b @ a"
    "0 \<notin> set b" "0 \<notin> set a" "length (line s) = LINE_MAX" "line s ! (length b + length a) = 0" "length b + length a < LINE_MAX"
    "length (hist_buf s) = HIST_SIZE"
proof -
  have d: "b = take (line_pos s) (line s)" "a = drop (line_pos s) (take (line_len s) (line s))" using assms(2) by (auto simp: text_of_def)
  show len: "line_pos s = length b" "line_len s = length b + length a" using assms(1) by (auto simp: line_ok_def d)
  have "b = take (line_pos s) (take (line_len s) (line s))" using assms(1) by (simp add: line_ok_def d min_def)
  then have ba: "take (line_len s) (line s) = b @ a" using d(2) by (metis append_take_drop_id)
  then show "take (length b + length a) (line s) = b @ a" using len by simp
  have "0 \<notin> set (b @ a)" using assms(1) ba by (simp add: line_ok_def)
  then show "0 \<notin> set b" "0 \<notin> set a" by simp_all
qed (use assms(1) in \<open>auto simp: line_ok_def\<close>, use assms in \<open>auto simp: line_ok_def text_of_def\<close>)

lemma take_nth_eq:
  assumes "take (length t) l = t" "i < length t"
  shows "l ! i = t ! i"
  using assms by (metis nth_take)

lemma insert_char_text:
  assumes "line_ok s" "text_of s = (b, a)" "line_len s < 255" "c \<noteq> 0"
  shows "line_ok (insert_char T c s) \<and> text_of (insert_char T c s) = (b @ [c], a)"
proof -
  note s = line_okD [OF assms(1,2)]
  define l where "l = (shift_up (length b) (length a) (line s))[length b := c, length b + length a + 1 := 0]"
  have n: "length b + length a < 255" using assms(3) s(2) by simp
  have "take (Suc (length b + length a)) l = b @ c # a"
  proof (rule nth_equalityI)
    fix i assume "i < length (take (Suc (length b + length a)) l)"
    then have i: "i < Suc (length b + length a)" by simp
    have "line s ! j = (b @ a) ! j" if "j < length b + length a" for j using take_nth_eq [of "b @ a" "line s" j] s(3) that by simp
    then show "take (Suc (length b + length a)) l ! i = (b @ c # a) ! i"
      using i n s(6) by (auto simp: l_def nth_list_update shift_up_nth LINE_MAX_def nth_append nth_Cons')
  qed (use n s(6) in \<open>simp add: l_def LINE_MAX_def\<close>)
  then show ?thesis
    using s n assms(4) by (intro line_textI [of l]) (auto simp: l_def insert_char_def Let_def LINE_MAX_def)
qed

lemma delete_at:
  assumes "take (length b + length a) (line s) = b @ a" "length (line s) = LINE_MAX" "length b + length a < LINE_MAX" "a \<noteq> []"
  defines "l \<equiv> (shift_down (length b) (length a - 1) (line s))[length b + length a - 1 := 0]"
  shows "take (length b + length (tl a)) l = b @ tl a" "l ! (length b + length (tl a)) = 0" "length l = LINE_MAX"
proof -
  show "length l = LINE_MAX" using assms(2) by (simp add: l_def)
  have n: "length b + length (tl a) = length b + length a - 1" "0 < length a" using assms(4) by (cases a; simp)+
  have "length b + length a - 1 < length (shift_down (length b) (length a - 1) (line s))" using assms(2,3) by simp
  then show "l ! (length b + length (tl a)) = 0" unfolding n(1) l_def by (rule nth_list_update_eq)
  show "take (length b + length (tl a)) l = b @ tl a"
  proof (rule nth_equalityI)
    fix i assume "i < length (take (length b + length (tl a)) l)"
    then have i: "i < length b + length a - 1" using n by simp
    have "line s ! j = (b @ a) ! j" if "j < length b + length a" for j using take_nth_eq [of "b @ a" "line s" j] assms(1) that by simp
    then show "take (length b + length (tl a)) l ! i = (b @ tl a) ! i"
      using i n assms(2,3) by (auto simp: l_def shift_down_nth nth_append nth_tl Suc_diff_le not_less)
  qed (use assms(2,3) n in \<open>simp add: l_def\<close>)
qed

lemma delete_char_text:
  assumes "line_ok s" "text_of s = (b, a)"
  shows "line_ok (delete_char T s) \<and> text_of (delete_char T s) = (b, tl a)"
proof (cases "a = []")
  case True
  then show ?thesis using assms line_okD(1,2) [OF assms] by (simp add: delete_char_def)
next
  case False
  note s = line_okD [OF assms] and d = delete_at [OF line_okD(3,6,8) [OF assms] False]
  have "length b + length a - 1 - length b = length a - 1" "length b + length (tl a) = length b + length a - 1" using False by (cases a; simp)+
  then show ?thesis
    using s d False by (intro line_textI [OF d(3,1,2)]) (auto simp: delete_char_def Let_def dest: list.set_sel(2))
qed

lemma backspace_text:
  assumes "line_ok s" "text_of s = (b, a)"
  shows "line_ok (backspace T s) \<and> text_of (backspace T s) = (butlast b, a)"
proof (cases b rule: rev_cases)
  case Nil
  then show ?thesis using assms line_okD(1) [OF assms] by (simp add: backspace_def)
next
  case (snoc b' x)
  note s = line_okD [OF assms, unfolded snoc]
  define l where "l = (shift_down (length b') (length a) (line s))[length b' + length a := 0]"
  have "take (length b' + length a) l = b' @ a" "l ! (length b' + length a) = 0" "length l = LINE_MAX"
    using delete_at [of b' "x # a" s] s by (simp_all add: l_def)
  then show ?thesis
    using s by (intro line_textI [of l]) (auto simp: backspace_def Let_def snoc l_def)
qed

text \<open>Keys that edit the line: all but newline, tab and the keys of the history.\<close>

definition edits :: "int \<Rightarrow> bool" where
  "edits c \<longleftrightarrow> c \<noteq> 10 \<and> c \<noteq> 9 \<and> c \<noteq> uint KEY_UP \<and> c \<noteq> uint KEY_DOWN"

lemma redraw_line_scr: "\<exists>d. redraw_line T s = s\<lparr>scr := d\<rparr>"
  by (auto simp: redraw_line_def Let_def)

lemma step_cursor_scr: "\<exists>d. step_cursor T by s = s\<lparr>scr := d\<rparr>"
  by (auto simp: step_cursor_def Let_def)

lemma edit_key_spec:
  assumes "line_ok s" "\<not> got_sigint s" "edits c"
  shows "\<exists>s'. edit_key T ls c s = Inl s' \<and> line_ok s' \<and> \<not> got_sigint s' \<and> text_of s' = key_spec c (text_of s)"
proof -
  obtain b a where t: "text_of s = (b, a)" by force
  note s = line_okD [OF assms(1) t]
  have cur: "line_ok (s\<lparr>line_pos := length b', scr := d\<rparr>) \<and> text_of (s\<lparr>line_pos := length b', scr := d\<rparr>) = (b', a')" if "b' @ a' = b @ a" for b' a' d
  proof -
    have "length b' + length a' = length b + length a" "set b' \<union> set a' = set b \<union> set a" using that by (metis length_append, metis set_append)
    then show ?thesis using s that by (intro line_textI [of "line s"]) auto
  qed
  consider "c = 8" | "c = uint KEY_DELETE" | "c = uint KEY_LEFT" | "c = uint KEY_RIGHT" | "c = uint KEY_HOME" | "c = uint KEY_END"
    | "c \<notin> {8, uint KEY_DELETE, uint KEY_LEFT, uint KEY_RIGHT, uint KEY_HOME, uint KEY_END}" by blast
  then show ?thesis
  proof cases
    case 1
    then show ?thesis using backspace_text [OF assms(1) t] assms(2) t by (simp add: edit_key_def backspace_def Let_def)
  next
    case 2
    then show ?thesis using delete_char_text [OF assms(1) t] assms(2) t by (simp add: edit_key_def delete_char_def KEY_DELETE_def Let_def)
  next
    case 3
    show ?thesis
    proof (cases b rule: rev_cases)
      case (snoc b' x)
      obtain d where "step_cursor T (-1) (s\<lparr>line_pos := length b'\<rparr>) = s\<lparr>line_pos := length b', scr := d\<rparr>" using step_cursor_scr [of T "-1"] by fastforce
      then show ?thesis using 3 s(1) assms(2) t cur [of b' "x # a" d] snoc by (simp add: edit_key_def KEY_LEFT_def KEY_DELETE_def)
    qed (use 3 s(1) assms(1,2) t in \<open>simp add: edit_key_def KEY_LEFT_def KEY_DELETE_def\<close>)
  next
    case 4
    show ?thesis
    proof (cases a)
      case (Cons x a')
      obtain d where "step_cursor T 1 (s\<lparr>line_pos := length (b @ [x])\<rparr>) = s\<lparr>line_pos := length (b @ [x]), scr := d\<rparr>"
        using step_cursor_scr [of T 1] by fastforce
      then show ?thesis
        using 4 s(1,2) assms(2) t cur [of "b @ [x]" a' d] Cons by (simp add: edit_key_def KEY_LEFT_def KEY_DELETE_def KEY_RIGHT_def)
    qed (use 4 s(1,2) assms(1,2) t in \<open>simp add: edit_key_def KEY_LEFT_def KEY_DELETE_def KEY_RIGHT_def\<close>)
  next
    case 5
    obtain d where "redraw_line T (s\<lparr>line_pos := 0\<rparr>) = s\<lparr>line_pos := 0, scr := d\<rparr>" using redraw_line_scr [of T] by fastforce
    then show ?thesis
      using 5 assms(2) t cur [of "[]" "b @ a" d] by (simp add: edit_key_def KEY_LEFT_def KEY_DELETE_def KEY_RIGHT_def KEY_HOME_def)
  next
    case 6
    obtain d where "redraw_line T (s\<lparr>line_pos := length (b @ a)\<rparr>) = s\<lparr>line_pos := length (b @ a), scr := d\<rparr>"
      using redraw_line_scr [of T] by fastforce
    then show ?thesis
      using 6 s(2) assms(2) t cur [of "b @ a" "[]" d]
      by (simp add: edit_key_def KEY_LEFT_def KEY_DELETE_def KEY_RIGHT_def KEY_HOME_def KEY_END_def)
  next
    case 7
    then have e: "edit_key T ls c s = (if 32 \<le> c \<and> c < 127 \<and> line_len s < 255 then Inl (insert_char T (of_int c) s) else Inl s)"
      "key_spec c (b, a) = (if 32 \<le> c \<and> c < 127 \<and> line_len s < 255 then (b @ [of_int c], a) else (b, a))"
      using assms(2,3) s(2) by (simp_all add: edit_key_def edits_def LINE_MAX_def)
    have "(of_int c :: u8) \<noteq> 0" if "32 \<le> c" "c < 127"
      using that take_bit_int_eq_self [of c 8] by (auto simp: word_uint_eq_iff uint_word_of_int_eq)
    then show ?thesis using e insert_char_text [OF assms(1) t, of "of_int c"] assms(1,2) t by (auto simp: insert_char_def Let_def)
  qed
qed

lemma cstr_end: "0 \<in> set l \<Longrightarrow> length (cstr l) < length l \<and> l ! length (cstr l) = 0"
  by (induction l) auto

lemma whole_line_text:
  assumes "length l = LINE_MAX" "l ! (LINE_MAX - 1) = 0" "line s = l" "line_pos s = length (cstr l)" "line_len s = length (cstr l)"
    "length (hist_buf s) = HIST_SIZE"
  shows "line_ok s \<and> text_of s = (cstr l, [])"
proof -
  have "LINE_MAX - 1 < length l" using assms(1) by (simp add: LINE_MAX_def)
  then have "0 \<in> set l" using assms(2) nth_mem by metis
  from cstr_end [OF this] have n: "length (cstr l) < length l" "l ! length (cstr l) = 0" by simp_all
  moreover have "take (length (cstr l)) l = cstr l" unfolding cstr_def by (metis takeWhile_eq_take)
  ultimately show ?thesis using n assms by (intro line_textI [of l]) auto
qed

lemma recall_ok: "line_ok s \<Longrightarrow> line_ok (recall i s)"
proof -
  assume s: "line_ok s"
  define l where "l = (str_n (LINE_MAX - 1) (hist_buf s ! (i mod HIST_SIZE)) (line s))[LINE_MAX - 1 := 0]"
  have "length l = LINE_MAX" using s by (simp add: l_def str_n_def line_ok_def LINE_MAX_def)
  then have "line_ok (recall i s) \<and> text_of (recall i s) = (cstr l, [])"
    using s by (intro whole_line_text) (auto simp: recall_def Let_def l_def line_ok_def LINE_MAX_def)
  then show ?thesis by blast
qed

lemma insert_text_text:
  assumes "line_ok s" "text_of s = (b, a)" "0 \<notin> set t"
  shows "line_ok (insert_text t s) \<and> (text_of (insert_text t s) = (b @ t, a) \<or> insert_text t s = s)"
proof (cases "0 < length t \<and> line_len s + length t < LINE_MAX - 1")
  case True
  note s = line_okD [OF assms(1,2)]
  define l0 where "l0 = put_at (length b + length t) (drop (length b) (take (length b + length a + 1) (line s))) (line s)"
  define l where "l = (put_at (length b) t l0)[length b + length a + length t := 0]"
  have len: "length l0 = LINE_MAX" "length l = LINE_MAX" using True s by (auto simp: l0_def l_def LINE_MAX_def)
  have "take (length (b @ t) + length a) l = (b @ t) @ a"
  proof (rule nth_equalityI)
    fix i assume "i < length (take (length (b @ t) + length a) l)"
    then have i: "i < length b + length t + length a" by simp
    have "line s ! j = (b @ a) ! j" if "j < length b + length a" for j using take_nth_eq [of "b @ a" "line s" j] s(3) that by simp
    then show "take (length (b @ t) + length a) l ! i = ((b @ t) @ a) ! i"
      using i True s len by (auto simp: l_def l0_def put_at_nth nth_list_update nth_append LINE_MAX_def add.commute [of "length t"])
  qed (use True s len in \<open>simp add: LINE_MAX_def\<close>)
  then have "line_ok (insert_text t s) \<and> text_of (insert_text t s) = (b @ t, a)"
    using True s len assms(3) by (intro line_textI [of l]) (auto simp: insert_text_def Let_def l_def l0_def add.commute add.left_commute)
  then show ?thesis by blast
qed (use assms(1) in \<open>auto simp: insert_text_def\<close>)

lemma line_ok_scr [simp]: "line_ok (s\<lparr>scr := d\<rparr>) = line_ok s"
  by (simp add: line_ok_def)

lemma redraw_line_ok [simp]: "line_ok (redraw_line T s) = line_ok s"
  by (simp add: line_ok_def)

lemma split_lines_sub: "l \<in> set (split_lines cs) \<Longrightarrow> set l \<subseteq> set cs"
  by (induction cs arbitrary: l) (fastforce split: if_splits list.splits)+

lemma candidates_no_nul: "m \<in> set (candidates ls s) \<Longrightarrow> 0 \<notin> set m"
proof -
  have b: "0 \<notin> set c" if "c \<in> set builtin_cmds" for c using that by (auto simp: builtin_cmds_def str_def)
  have "0 \<notin> set l" if "l \<in> set (split_lines (cstr buf))" for l buf using split_lines_sub [OF that] cstr_no_nul by blast
  then show "m \<in> set (candidates ls s) \<Longrightarrow> 0 \<notin> set m"
    using b by (auto simp: candidates_def listed_def Let_def split: prod.splits option.splits if_splits dest!: in_set_takeD)
qed

lemma tab_complete_ok:
  assumes "line_ok s"
  shows "line_ok (tab_complete T ls s)"
proof -
  obtain b a where t: "text_of s = (b, a)" by force
  have i: "line_ok (insert_text (drop k m) s)" if "m \<in> set (candidates ls s)" for k m
    using insert_text_text [OF assms t] candidates_no_nul [OF that] by (metis in_set_dropD)
  have c: "line_ok (insert_text (drop k (common_prefix ms)) s)" if "ms = candidates ls s" "ms \<noteq> []" for k ms
  proof -
    have "0 \<notin> set (hd ms)" using candidates_no_nul [of "hd ms" ls s] that by simp
    then have "0 \<notin> set (drop k (common_prefix ms))" by (auto simp: common_prefix_def dest: in_set_dropD in_set_takeD)
    then show ?thesis using insert_text_text [OF assms t] by blast
  qed
  show ?thesis
    using assms i c by (auto simp: tab_complete_def show_matches_def Let_def split: prod.split list.split)
qed

lemma history_key_ok: "line_ok s \<Longrightarrow> line_ok (history_key T c s)"
proof -
  assume s: "line_ok s"
  have "line_ok (recall i (s\<lparr>hist_index := j\<rparr>))" for i j using recall_ok [of "s\<lparr>hist_index := j\<rparr>"] s by (simp add: line_ok_def)
  then show ?thesis using s by (auto simp: history_key_def Let_def line_ok_def [of "s\<lparr>hist_index := _, line := _, line_len := _, line_pos := _\<rparr>"] line_ok_def [of s] LINE_MAX_def)
qed

subsection \<open>Properties\<close>

lemma read_keys_spec:
  assumes "line_ok s" "\<not> got_sigint s" "list_all edits cs"
  shows "\<exists>s'. read_keys T ls (map Key cs @ rest) s = read_keys T ls rest s' \<and> line_ok s' \<and> \<not> got_sigint s' \<and>
    text_of s' = fold key_spec cs (text_of s)"
  using assms
proof (induction cs arbitrary: s)
  case (Cons c cs)
  obtain s1 where s1: "edit_key T ls c s = Inl s1" "line_ok s1" "\<not> got_sigint s1" "text_of s1 = key_spec c (text_of s)"
    using edit_key_spec [OF Cons.prems(1,2), of c T ls] Cons.prems(3) by auto
  then show ?case using Cons.IH [OF s1(2,3)] Cons.prems(3) by auto
qed auto

lemma line_text_cstr:
  assumes "line_ok s" "text_of s = (b, a)"
  shows "cstr (line s) = b @ a"
proof -
  note l = line_okD [OF assms]
  have "line s = (b @ a) @ 0 # drop (Suc (length b + length a)) (line s)"
    using l(3,6-8) id_take_nth_drop [of "length b + length a" "line s"] by simp
  then show ?thesis using cstr_terminated [of "b @ a"] l(4,5) by (metis UnE set_append)
qed

text \<open>C31: the line that is read is the text that the keys describe: characters go in where the cursor is, backspace and
  delete take out the character before and after it, the arrow keys, home and end move it, and what does not fit
  into 255 characters is ignored. After a signal the next key leaves an empty line.\<close>

theorem readline_correct:
  assumes "length (line s) = LINE_MAX" "length (hist_buf s) = HIST_SIZE" "list_all edits cs"
  shows "(\<exists>s'. shell_readline T ls (map Key cs @ Key 10 # rest) s = Some (s', rest) \<and>
      cstr (line s') = (let (b, a) = fold key_spec cs ([], []) in b @ a)) \<and>
    (\<exists>s'. shell_readline T ls (map Key cs @ Sigint # Key c # rest) s = Some (s', rest) \<and> cstr (line s') = [])"
proof (rule conjI)
  have "line_ok (start_line T s) \<and> text_of (start_line T s) = ([], [])"
    by (rule line_textI [of "(line s)[0 := 0]"]) (use assms in \<open>auto simp: start_line_def LINE_MAX_def\<close>)
  moreover have "\<not> got_sigint (start_line T s)" by (simp add: start_line_def)
  ultimately have run: "\<exists>s'. read_keys T ls (map Key cs @ r) (start_line T s) = read_keys T ls r s' \<and> line_ok s' \<and> \<not> got_sigint s' \<and>
      text_of s' = fold key_spec cs ([], [])" for r using read_keys_spec [OF _ _ assms(3)] by metis
  obtain b a where t: "fold key_spec cs ([], []) = (b, a)" by force
  obtain s1 where s1: "read_keys T ls (map Key cs @ Key 10 # rest) (start_line T s) = read_keys T ls (Key 10 # rest) s1"
      "line_ok s1" "\<not> got_sigint s1" "text_of s1 = (b, a)" using run [of "Key 10 # rest"] unfolding t by blast
  have "(line s1)[line_len s1 := 0] = line s1" using s1(2) by (metis line_ok_def list_update_id)
  then show "\<exists>s'. shell_readline T ls (map Key cs @ Key 10 # rest) s = Some (s', rest) \<and>
      cstr (line s') = (let (b, a) = fold key_spec cs ([], []) in b @ a)"
    using s1 line_text_cstr [OF s1(2,4)] by (simp add: shell_readline_def edit_key_def t)
  obtain s2 where s2: "read_keys T ls (map Key cs @ Sigint # Key c # rest) (start_line T s) = read_keys T ls (Sigint # Key c # rest) s2"
      "line_ok s2" using run [of "Sigint # Key c # rest"] by blast
  have "cstr ((line s2)[0 := 0]) = []" using s2(2) by (cases "line s2") (auto simp: line_ok_def LINE_MAX_def)
  then show "\<exists>s'. shell_readline T ls (map Key cs @ Sigint # Key c # rest) s = Some (s', rest) \<and> cstr (line s') = []"
    using s2(1) by (simp add: shell_readline_def edit_key_def sigint_handler_def)
qed

text \<open>A terminal that records what is written to it.\<close>

definition paper :: "bytes tty" where
  "paper = \<lparr>put = (\<lambda>c d. d @ [c]), cursor = (\<lambda>d. of_nat (length d)), move = (\<lambda>_ _ d. d)\<rparr>"

definition fresh :: "bytes shell" where
  "fresh = \<lparr>line = replicate LINE_MAX 0, line_pos = 0, line_len = 0, prompt_col = 0, got_sigint = False,
     hist_buf = replicate HIST_SIZE (replicate LINE_MAX 0), hist_count = 0, hist_index = 0, scr = []\<rparr>"

text \<open>Typing \<^verbatim>\<open>lq\<close>, backspace, \<^verbatim>\<open>s\<close>.\<close>

theorem readline_correct_witness:
  "\<exists>s'. shell_readline paper (\<lambda>_. None) (map Key [108, 113, 8, 115] @ Key 10 # [Key 65]) fresh = Some (s', [Key 65]) \<and>
     cstr (line s') = [108, 115]"
proof -
  have p: "length (line fresh) = LINE_MAX" "length (hist_buf fresh) = HIST_SIZE" by (simp_all add: fresh_def)
  have e: "list_all edits [108, 113, 8, 115]" by (simp add: edits_def KEY_UP_def KEY_DOWN_def)
  have "(let (b, a) = fold key_spec [108, 113, 8, 115] ([], []) in b @ a) = [108, 115]"
    by (simp add: KEY_DELETE_def KEY_LEFT_def KEY_RIGHT_def KEY_HOME_def KEY_END_def)
  with readline_correct [OF p e, of paper "\<lambda>_. None" "[Key 65]"] show ?thesis by simp
qed

text \<open>C32: no key takes the editor out of its buffer: the cursor stays inside the text, the text inside the 256 bytes and
  terminated, whatever is typed, recalled from the history or completed.\<close>

theorem edit_key_inv:
  assumes "line_ok s"
  shows "case edit_key T ls c s of Inl s' \<Rightarrow> line_ok s' | Inr s' \<Rightarrow> line_ok s'"
proof (cases "edits c \<and> \<not> got_sigint s")
  case True
  then show ?thesis using edit_key_spec [OF assms, of c T ls] by auto
next
  case False
  have z: "line_ok (s\<lparr>scr := d, line := (line s)[line_len s := 0]\<rparr>)"
    "line_ok (s\<lparr>scr := d, line_pos := 0, line_len := 0, line := (line s)[0 := 0]\<rparr>)" for d
    using assms by (simp_all add: line_ok_def LINE_MAX_def)
  have k: "uint KEY_UP = 0x80" "uint KEY_DOWN = 0x81" "uint KEY_LEFT = 0x82" "uint KEY_RIGHT = 0x83" "uint KEY_HOME = 0x84"
    "uint KEY_END = 0x85" "uint KEY_DELETE = 0x86"
    by (simp_all add: KEY_UP_def KEY_DOWN_def KEY_LEFT_def KEY_RIGHT_def KEY_HOME_def KEY_END_def KEY_DELETE_def)
  consider "got_sigint s" | "\<not> got_sigint s" "c = 10" | "\<not> got_sigint s" "c = 9" | "\<not> got_sigint s" "c = 0x80 \<or> c = 0x81"
    using False by (auto simp: edits_def k)
  then show ?thesis
  proof cases
    case 1
    then show ?thesis using z by (simp add: edit_key_def)
  next
    case 2
    then show ?thesis using z by (simp add: edit_key_def)
  next
    case 3
    then show ?thesis using tab_complete_ok [OF assms] by (simp add: edit_key_def k)
  next
    case 4
    then have "edit_key T ls c s = Inl (history_key T c s)" by (auto simp: edit_key_def k)
    then show ?thesis using history_key_ok [OF assms] by simp
  qed
qed

theorem edit_key_inv_witness:
  "line_ok fresh \<and> (case edit_key paper (\<lambda>_. None) 108 fresh of Inl s' \<Rightarrow> line_ok s' | Inr s' \<Rightarrow> line_ok s')"
proof -
  have "line_ok fresh" by (simp add: line_ok_def fresh_def LINE_MAX_def)
  with edit_key_inv [OF this] show ?thesis by blast
qed

lemma cstr_str_n:
  assumes "n < length dst" "length (cstr src) \<le> n"
  shows "cstr ((str_n n src dst)[n := 0]) = cstr src"
proof -
  have "take n (cstr src @ replicate n 0) = cstr src @ replicate (n - length (cstr src)) 0" using assms(2) by simp
  then have "(str_n n src dst)[n := 0] = cstr src @ replicate (n - length (cstr src)) 0 @ 0 # drop (Suc n) dst"
    using assms by (simp add: str_n_def put_at_def list_update_append flip: Cons_nth_drop_Suc)
  then show ?thesis by (cases "n - length (cstr src)") simp_all
qed

lemma history_add_last:
  assumes "length (hist_buf s) = HIST_SIZE" "\<forall>h \<in> set (hist_buf s). length h = LINE_MAX" "cstr cmd \<noteq> []" "length (cstr cmd) < LINE_MAX"
  defines "h \<equiv> history_add cmd s"
  shows "hist_count h > 0" "cstr (hist_buf h ! ((hist_count h - 1) mod HIST_SIZE)) = cstr cmd"
    "line h = line s" "length (hist_buf h) = HIST_SIZE"
proof -
  have i: "hist_count s mod HIST_SIZE < length (hist_buf s)" using assms(1) by (simp add: HIST_SIZE_def)
  then have "LINE_MAX - 1 < length (hist_buf s ! (hist_count s mod HIST_SIZE))" using assms(2) by (simp add: LINE_MAX_def)
  then have "cstr ((str_n (LINE_MAX - 1) cmd (hist_buf s ! (hist_count s mod HIST_SIZE)))[LINE_MAX - 1 := 0]) = cstr cmd"
    using assms(4) by (intro cstr_str_n) simp_all
  then show "hist_count h > 0" "cstr (hist_buf h ! ((hist_count h - 1) mod HIST_SIZE)) = cstr cmd"
    "line h = line s" "length (hist_buf h) = HIST_SIZE"
    using assms(1,3) i by (auto simp: h_def history_add_def Let_def)
qed

text \<open>A command that was entered comes back with the up key.\<close>

theorem history_recall:
  assumes "length (line s) = LINE_MAX" "length (hist_buf s) = HIST_SIZE" "\<forall>h \<in> set (hist_buf s). length h = LINE_MAX"
    and "cstr cmd \<noteq> []" "length (cstr cmd) < LINE_MAX"
  shows "\<exists>s'. edit_key T ls (uint KEY_UP) (start_line T (history_add cmd s)) = Inl s' \<and> text_of s' = (cstr cmd, [])"
proof -
  define h where "h = history_add cmd s"
  note h = history_add_last [OF assms(2-5), folded h_def]
  define u where "u = (start_line T h)\<lparr>hist_index := hist_count h - 1\<rparr>"
  define l where "l = (str_n (LINE_MAX - 1) (hist_buf h ! ((hist_count h - 1) mod HIST_SIZE)) (line u))[LINE_MAX - 1 := 0]"
  have u: "length (line u) = LINE_MAX" "hist_buf u = hist_buf h" using assms(1) h by (simp_all add: u_def start_line_def)
  then have "cstr l = cstr cmd" unfolding l_def h(2) [symmetric] using assms(5) h(2) by (intro cstr_str_n) (simp_all add: LINE_MAX_def)
  moreover have "text_of (redraw_line T (recall (hist_count h - 1) u)) = (cstr l, [])"
  proof -
    have "line_ok (recall (hist_count h - 1) u) \<and> text_of (recall (hist_count h - 1) u) = (cstr l, [])"
      using u h(4) by (intro whole_line_text) (auto simp: recall_def Let_def l_def str_n_def LINE_MAX_def)
    then show ?thesis by (simp add: text_of_def)
  qed
  moreover have "edit_key T ls (uint KEY_UP) (start_line T h) = Inl (redraw_line T (recall (hist_count h - 1) u))"
    using h(1) by (simp add: edit_key_def history_key_def start_line_def u_def KEY_UP_def KEY_DELETE_def KEY_LEFT_def KEY_RIGHT_def
        KEY_HOME_def KEY_END_def)
  ultimately show ?thesis by (simp add: h_def)
qed

theorem history_recall_witness:
  "\<exists>s'. edit_key paper (\<lambda>_. None) (uint KEY_UP) (start_line paper (history_add [108, 115, 0] fresh)) = Inl s' \<and>
     text_of s' = ([108, 115], [])"
  using history_recall [of fresh "[108, 115, 0]" paper "\<lambda>_. None"] by (simp add: fresh_def LINE_MAX_def)

end
