(* ===== verification/Environ.thy ===== *)
theory Environ
  imports Lineedit "HOL-Library.Sublist"
begin

text \<open>
  The variables of the shell, \<^verbatim>\<open>userspace/shell.c\<close>: two tables of character arrays, their file, and the replacement
  of \<^verbatim>\<open>$NAME\<close> in a command. An operation that saves the variables returns the bytes it hands to the file system.
\<close>

definition ENV_MAX :: nat where "ENV_MAX = 32"
definition ENV_KEY_MAX :: nat where "ENV_KEY_MAX = 32"
definition ENV_VAL_MAX :: nat where "ENV_VAL_MAX = 96"

record env =
  env_keys :: "bytes list"
  env_vals :: "bytes list"
  env_count :: nat

definition env_list :: "env \<Rightarrow> (bytes \<times> bytes) list" where
  "env_list E = zip (map cstr (take (env_count E) (env_keys E))) (map cstr (take (env_count E) (env_vals E)))"

text \<open>One line of the file per variable, as long as the buffer has room.\<close>

fun save_entries :: "bytes \<Rightarrow> (bytes \<times> bytes) list \<Rightarrow> bytes" where
  "save_entries buf [] = buf"
| "save_entries buf ((k, v) # es) =
     (if length buf + length k + 1 + length v + 1 \<ge> 4095 then buf else save_entries (buf @ k @ [61] @ v @ [10]) es)"

definition env_save :: "env \<Rightarrow> bytes" where
  "env_save E = save_entries [] (env_list E)"

text \<open>A string copied to the start of an array.\<close>

definition store_str :: "bytes \<Rightarrow> bytes \<Rightarrow> bytes" where
  "store_str t a = put_at 0 (t @ [0]) a"

definition load_entry :: "bytes \<Rightarrow> env \<Rightarrow> env" where
  "load_entry l E =
     (let eq = length (takeWhile (\<lambda>c. c \<noteq> 61) l); n = env_count E
      in if n < ENV_MAX \<and> eq < length l \<and> 0 < eq \<and> eq < ENV_KEY_MAX \<and> length l - eq - 1 < ENV_VAL_MAX
         then \<lparr>env_keys = (env_keys E)[n := store_str (take eq l) (env_keys E ! n)],
               env_vals = (env_vals E)[n := store_str (drop (eq + 1) l) (env_vals E ! n)], env_count = n + 1\<rparr>
         else E)"

definition env_load :: "bytes option \<Rightarrow> env \<Rightarrow> env" where
  "env_load file E =
     (let E = E\<lparr>env_count := 0\<rparr>
      in case file of None \<Rightarrow> E
         | Some buf \<Rightarrow> if buf = [] then E else fold load_entry (split_lines (take 4096 buf)) E)"

definition env_find :: "bytes \<Rightarrow> env \<Rightarrow> nat option" where
  "env_find key E = find (\<lambda>i. cstr (env_keys E ! i) = cstr key) [0..<env_count E]"

definition env_get :: "bytes \<Rightarrow> env \<Rightarrow> bytes option" where
  "env_get key E = map_option (\<lambda>i. cstr (env_vals E ! i)) (env_find key E)"

definition env_set :: "bytes \<Rightarrow> bytes \<Rightarrow> env \<Rightarrow> env \<times> bytes option" where
  "env_set key value E =
     (case env_find key E of
        Some i \<Rightarrow>
          (let vals = (env_vals E)[i := str_n (ENV_VAL_MAX - 1) value (env_vals E ! i)]; j = env_count E - 1;
               E = E\<lparr>env_vals := vals[j := (vals ! j)[ENV_VAL_MAX - 1 := 0]]\<rparr>
           in (E, Some (env_save E)))
      | None \<Rightarrow>
          if env_count E \<ge> ENV_MAX then (E, None)
          else (let n = env_count E;
                    E = \<lparr>env_keys = (env_keys E)[n := (str_n (ENV_KEY_MAX - 1) key (env_keys E ! n))[ENV_KEY_MAX - 1 := 0]],
                         env_vals = (env_vals E)[n := (str_n (ENV_VAL_MAX - 1) value (env_vals E ! n))[ENV_VAL_MAX - 1 := 0]],
                         env_count = n + 1\<rparr>
                in (E, Some (env_save E))))"

primrec move_down :: "nat \<Rightarrow> nat \<Rightarrow> bytes list \<Rightarrow> bytes list" where
  "move_down j 0 a = a"
| "move_down j (Suc k) a = move_down (Suc j) k (a[j := store_str (cstr (a ! Suc j)) (a ! j)])"

definition env_unset :: "bytes \<Rightarrow> env \<Rightarrow> env \<times> bytes option" where
  "env_unset key E =
     (case env_find key E of
        Some i \<Rightarrow>
          (let k = env_count E - 1 - i;
               E = \<lparr>env_keys = move_down i k (env_keys E), env_vals = move_down i k (env_vals E), env_count = env_count E - 1\<rparr>
           in (E, Some (env_save E)))
      | None \<Rightarrow> (E, None))"

text \<open>The name after a dollar sign ends at a space, at the next dollar sign or after 31 characters.\<close>

definition env_name :: "bytes \<Rightarrow> bytes" where
  "env_name s = take (ENV_KEY_MAX - 1) (takeWhile (\<lambda>c. c \<noteq> 32 \<and> c \<noteq> 36) s)"

function expand_loop :: "env \<Rightarrow> nat \<Rightarrow> bytes \<Rightarrow> bytes \<Rightarrow> bytes" where
  "expand_loop E limit [] dst = dst"
| "expand_loop E limit (c # s) dst =
     (if length dst < limit - 1 then
        (if c = 36 \<and> s \<noteq> [] \<and> hd s \<noteq> 32 then
           (let s' = drop (length (env_name s)) s
            in case env_get (env_name s) E of
                 None \<Rightarrow> expand_loop E limit s' dst
               | Some val \<Rightarrow> if length dst + length val \<ge> limit - 1 then dst else expand_loop E limit s' (dst @ val))
         else expand_loop E limit s (dst @ [c]))
      else dst)"
  by pat_completeness auto
termination
  by (relation "measure (\<lambda>(E, limit, s, dst). length s)") auto

definition expand_env :: "env \<Rightarrow> nat \<Rightarrow> bytes \<Rightarrow> bytes" where
  "expand_env E limit src = expand_loop E limit (cstr src) []"

subsection \<open>The variables as a map\<close>

definition env_ok :: "env \<Rightarrow> bool" where
  "env_ok E \<longleftrightarrow> length (env_keys E) = ENV_MAX \<and> length (env_vals E) = ENV_MAX \<and> env_count E \<le> ENV_MAX \<and>
     (\<forall>a \<in> set (env_keys E). length a = ENV_KEY_MAX \<and> a ! (ENV_KEY_MAX - 1) = 0) \<and>
     (\<forall>a \<in> set (env_vals E). length a = ENV_VAL_MAX \<and> a ! (ENV_VAL_MAX - 1) = 0) \<and> distinct (map fst (env_list E))"

definition env_vars :: "env \<Rightarrow> bytes \<rightharpoonup> bytes" where
  "env_vars E = map_of (env_list E)"

lemma length_env_list: "env_ok E \<Longrightarrow> length (env_list E) = env_count E"
  by (simp add: env_ok_def env_list_def)

lemma env_list_nth: "env_ok E \<Longrightarrow> i < env_count E \<Longrightarrow> env_list E ! i = (cstr (env_keys E ! i), cstr (env_vals E ! i))"
  by (simp add: env_ok_def env_list_def)

lemma env_find_Some:
  assumes "env_find key E = Some i"
  shows "i < env_count E" "cstr (env_keys E ! i) = cstr key"
  using assms by (auto simp: env_find_def find_Some_iff)

lemma env_find_None: "env_find key E = None \<longleftrightarrow> (\<forall>i < env_count E. cstr (env_keys E ! i) \<noteq> cstr key)"
  by (auto simp: env_find_def find_None_iff)

lemma env_get_vars:
  assumes "env_ok E"
  shows "env_get key E = env_vars E (cstr key)"
proof (cases "env_find key E")
  case None
  then have "cstr key \<notin> fst ` set (env_list E)"
    using env_list_nth [OF assms] length_env_list [OF assms] by (auto simp: env_find_None in_set_conv_nth)
  then show ?thesis using None map_of_eq_None_iff [of "env_list E" "cstr key"] by (simp add: env_get_def env_vars_def)
next
  case (Some i)
  note i = env_find_Some [OF Some]
  have "(cstr key, cstr (env_vals E ! i)) \<in> set (env_list E)"
    using env_list_nth [OF assms i(1)] i length_env_list [OF assms] by (metis nth_mem)
  then show ?thesis using Some assms by (simp add: env_get_def env_vars_def env_ok_def)
qed


lemma str_n_cases:
  "str_n n src dst = (if length (cstr src) \<le> n then cstr src @ replicate (n - length (cstr src)) 0 else take n (cstr src)) @ drop n dst"
  by (simp add: str_n_def put_at_def)

lemma cstr_str_n_take:
  assumes "n < length dst" "dst ! n = 0"
  shows "cstr (str_n n src dst) = take n (cstr src)" "length (str_n n src dst) = length dst" "str_n n src dst ! n = 0"
proof -
  have d: "drop n dst = 0 # drop (Suc n) dst" using assms by (simp flip: Cons_nth_drop_Suc)
  have t: "0 \<notin> set (take n (cstr src))" using cstr_no_nul by (metis in_set_takeD)
  show "cstr (str_n n src dst) = take n (cstr src)"
  proof (cases "length (cstr src) \<le> n")
    case True
    then show ?thesis using d by (cases "n - length (cstr src)") (auto simp: str_n_cases)
  next
    case False
    then show ?thesis using t by (simp add: str_n_cases d del: cstr_no_nul)
  qed
  show "length (str_n n src dst) = length dst" "str_n n src dst ! n = 0" using assms(1) d by (auto simp: str_n_cases nth_append min_def)
qed

lemma str_n_end [simp]: "(str_n n src dst)[n := 0] = str_n n src (dst[n := 0])"
  by (auto simp: str_n_cases list_update_append drop_update_swap min_def list_update_beyond)

lemma zip_snoc: "n < length ks \<Longrightarrow> n < length vs \<Longrightarrow> zip (map f (take (Suc n) ks)) (map f (take (Suc n) vs)) = zip (map f (take n ks)) (map f (take n vs)) @ [(f (ks ! n), f (vs ! n))]"
  by (simp add: take_Suc_conv_app_nth)

lemma env_okD:
  assumes "env_ok E" "i < ENV_MAX"
  shows "length (env_keys E ! i) = ENV_KEY_MAX" "env_keys E ! i ! (ENV_KEY_MAX - 1) = 0"
    "length (env_vals E ! i) = ENV_VAL_MAX" "env_vals E ! i ! (ENV_VAL_MAX - 1) = 0"
  using assms by (simp_all add: env_ok_def)

lemma env_list_grow:
  assumes "env_ok E" "env_count E < ENV_MAX" "E' = \<lparr>env_keys = (env_keys E)[env_count E := ka], env_vals = (env_vals E)[env_count E := va], env_count = env_count E + 1\<rparr>"
  shows "env_list E' = env_list E @ [(cstr ka, cstr va)]"
  using assms zip_snoc [of "env_count E" "env_keys E'" "env_vals E'" cstr] by (simp add: env_list_def env_ok_def)

lemma env_okI:
  assumes "env_ok E" "env_list E' = L" "distinct (map fst L)" "env_count E' \<le> ENV_MAX"
    and "length (env_keys E') = ENV_MAX" "\<And>a. a \<in> set (env_keys E') \<Longrightarrow> a \<in> set (env_keys E) \<or> length a = ENV_KEY_MAX \<and> a ! (ENV_KEY_MAX - 1) = 0"
    and "length (env_vals E') = ENV_MAX" "\<And>a. a \<in> set (env_vals E') \<Longrightarrow> a \<in> set (env_vals E) \<or> length a = ENV_VAL_MAX \<and> a ! (ENV_VAL_MAX - 1) = 0"
  shows "env_ok E'"
  using assms unfolding env_ok_def by blast

lemma env_set_old:
  fixes v :: bytes
  assumes "env_ok E" "env_find key E = Some i"
  defines "E' \<equiv> fst (env_set key v E)"
  shows "env_ok E' \<and> env_list E' = (env_list E)[i := (cstr key, take (ENV_VAL_MAX - 1) (cstr v))]"
proof -
  note i = env_find_Some [OF assms(2)]
  have n: "i < ENV_MAX" "env_count E - 1 < ENV_MAX" using i(1) assms(1) by (auto simp: env_ok_def)
  note a = env_okD [OF assms(1) n(1)]
  define va where "va = str_n (ENV_VAL_MAX - 1) v (env_vals E ! i)"
  have "ENV_VAL_MAX - 1 < length (env_vals E ! i)" using a(3) by (simp add: ENV_VAL_MAX_def)
  note va = cstr_str_n_take [OF this a(4), of v, folded va_def]
  define vals where "vals = (env_vals E)[i := va]"
  have "vals ! (env_count E - 1) ! (ENV_VAL_MAX - 1) = 0"
    using env_okD(4) [OF assms(1) n(2)] va(3) n assms(1) by (simp add: vals_def nth_list_update env_ok_def)
  then have "(vals ! (env_count E - 1))[ENV_VAL_MAX - 1 := 0] = vals ! (env_count E - 1)" by (metis list_update_id)
  then have E': "E' = E\<lparr>env_vals := vals\<rparr>" unfolding E'_def env_set_def assms(2) Let_def va_def [symmetric] vals_def [symmetric] option.case by simp
  have l: "env_list E' = (env_list E)[i := (cstr key, take (ENV_VAL_MAX - 1) (cstr v))]"
  proof (rule nth_equalityI)
    fix j assume "j < length (env_list E')"
    then have j: "j < env_count E" by (simp add: E' env_list_def)
    then show "env_list E' ! j = (env_list E)[i := (cstr key, take (ENV_VAL_MAX - 1) (cstr v))] ! j"
      using i va(1) assms(1) env_list_nth [OF assms(1) j] by (auto simp: E' env_list_def vals_def nth_list_update env_ok_def)
  qed (use assms(1) in \<open>simp add: E' env_list_def vals_def env_ok_def\<close>)
  have "fst (env_list E ! i) = cstr key" using env_list_nth [OF assms(1) i(1)] i(2) by simp
  then have "map fst (env_list E') = map fst (env_list E)"
    unfolding l using length_env_list [OF assms(1)] i(1) by (simp add: map_update) (metis list_update_id nth_map)
  then have "distinct (map fst (env_list E'))" using assms(1) by (simp add: env_ok_def)
  moreover have "a \<in> set (env_vals E) \<or> length a = ENV_VAL_MAX \<and> a ! (ENV_VAL_MAX - 1) = 0" if "a \<in> set vals" for a
    using that va(2,3) a(3) set_update_subset_insert [of "env_vals E" i va] by (auto simp: vals_def)
  ultimately have "env_ok E'"
    using assms(1) by (intro env_okI [OF assms(1) refl]) (auto simp: E' env_ok_def vals_def)
  then show ?thesis using l by blast
qed

lemma env_set_new:
  fixes v :: bytes
  assumes "env_ok E" "env_find key E = None" "env_count E < ENV_MAX" "length (cstr key) < ENV_KEY_MAX"
  defines "E' \<equiv> fst (env_set key v E)"
  shows "env_ok E' \<and> env_list E' = env_list E @ [(cstr key, take (ENV_VAL_MAX - 1) (cstr v))]"
proof -
  note a = env_okD [OF assms(1,3)]
  define ka where "ka = str_n (ENV_KEY_MAX - 1) key (env_keys E ! env_count E)"
  define va where "va = str_n (ENV_VAL_MAX - 1) v (env_vals E ! env_count E)"
  have lim: "ENV_KEY_MAX - 1 < length (env_keys E ! env_count E)" "ENV_VAL_MAX - 1 < length (env_vals E ! env_count E)"
    using a by (simp_all add: ENV_KEY_MAX_def ENV_VAL_MAX_def)
  note ka = cstr_str_n_take [OF lim(1) a(2), of key, folded ka_def] and va = cstr_str_n_take [OF lim(2) a(4), of v, folded va_def]
  have z: "(env_keys E ! env_count E)[ENV_KEY_MAX - 1 := 0] = env_keys E ! env_count E"
    "(env_vals E ! env_count E)[ENV_VAL_MAX - 1 := 0] = env_vals E ! env_count E" using a by (metis list_update_id)+
  have E': "E' = \<lparr>env_keys = (env_keys E)[env_count E := ka], env_vals = (env_vals E)[env_count E := va], env_count = env_count E + 1\<rparr>"
    using assms(3) by (simp add: E'_def env_set_def assms(2) Let_def z [unfolded One_nat_def] ka_def va_def)
  have l: "env_list E' = env_list E @ [(cstr key, take (ENV_VAL_MAX - 1) (cstr v))]"
    using env_list_grow [OF assms(1,3) E'] ka(1) va(1) assms(4) by simp
  have "cstr key \<notin> fst ` set (env_list E)"
    using assms(2) env_list_nth [OF assms(1)] length_env_list [OF assms(1)] by (auto simp: env_find_None in_set_conv_nth)
  then have "distinct (map fst (env_list E'))" using assms(1) by (simp add: l env_ok_def)
  moreover have "x \<in> set (env_vals E) \<or> length x = ENV_VAL_MAX \<and> x ! (ENV_VAL_MAX - 1) = 0" if "x \<in> set (env_vals E')" for x
    using that va(2,3) a(3) set_update_subset_insert [of "env_vals E" "env_count E" va] by (auto simp: E')
  moreover have "x \<in> set (env_keys E) \<or> length x = ENV_KEY_MAX \<and> x ! (ENV_KEY_MAX - 1) = 0" if "x \<in> set (env_keys E')" for x
    using that ka(2,3) a(1) set_update_subset_insert [of "env_keys E" "env_count E" ka] by (auto simp: E')
  ultimately have "env_ok E'" using assms(1,3) by (intro env_okI [OF assms(1) refl]) (auto simp: E' env_ok_def)
  then show ?thesis using l by blast
qed

lemma length_move_down [simp]: "length (move_down j k a) = length a"
  by (induction k arbitrary: a j) simp_all

lemma cstr_store_str: "0 \<notin> set t \<Longrightarrow> length t < length a \<Longrightarrow> cstr (store_str t a) = t"
  by (simp add: store_str_def put_at_def)

lemma store_str_end: "length t < n \<Longrightarrow> n \<le> length a \<Longrightarrow> a ! (n - 1) = 0 \<Longrightarrow> store_str t a ! (n - 1) = 0"
  by (auto simp: store_str_def put_at_nth nth_append)

lemma length_store_str [simp]: "length t < length a \<Longrightarrow> length (store_str t a) = length a"
  by (simp add: store_str_def)

lemma cstr_shorter: "length a = n \<Longrightarrow> 0 < n \<Longrightarrow> a ! (n - 1) = 0 \<Longrightarrow> length (cstr a) < n"
  using cstr_end [of a] nth_mem [of "n - 1" a] by force

lemma move_down_nth:
  assumes "j + k < length a" "\<forall>x \<in> set a. length x = n \<and> x ! (n - 1) = 0" "0 < n"
  shows "(\<forall>x \<in> set (move_down j k a). length x = n \<and> x ! (n - 1) = 0) \<and>
    (\<forall>i < length a. cstr (move_down j k a ! i) = (if j \<le> i \<and> i < j + k then cstr (a ! Suc i) else cstr (a ! i)))"
  using assms
proof (induction k arbitrary: j a)
  case (Suc k)
  define b where "b = a[j := store_str (cstr (a ! Suc j)) (a ! j)]"
  have aj: "length (a ! j) = n" "a ! j ! (n - 1) = 0" "length (cstr (a ! Suc j)) < n" using Suc.prems cstr_shorter [of "a ! Suc j" n] by simp_all
  have "\<forall>x \<in> set b. length x = n \<and> x ! (n - 1) = 0"
    using Suc.prems(2) aj store_str_end [OF aj(3), of "a ! j"] set_update_subset_insert [of a j "store_str (cstr (a ! Suc j)) (a ! j)"]
    unfolding b_def by fastforce
  moreover have len: "length b = length a" by (simp add: b_def)
  ultimately have IH: "(\<forall>x \<in> set (move_down (Suc j) k b). length x = n \<and> x ! (n - 1) = 0) \<and> (\<forall>i < length b.
      cstr (move_down (Suc j) k b ! i) = (if Suc j \<le> i \<and> i < Suc j + k then cstr (b ! Suc i) else cstr (b ! i)))"
    using Suc.prems by (intro Suc.IH) simp_all
  have b: "cstr (b ! i) = (if i = j then cstr (a ! Suc j) else cstr (a ! i))" if "i < length a" for i
    using that aj Suc.prems by (simp add: b_def nth_list_update cstr_store_str)
  have "cstr (move_down (Suc j) k b ! i) = (if j \<le> i \<and> i < j + Suc k then cstr (a ! Suc i) else cstr (a ! i))" if "i < length a" for i
  proof (cases "i = j")
    case False
    then show ?thesis using IH that b [of i] b [of "Suc i"] Suc.prems(1) by (auto simp: b_def)
  next
    case True
    then show ?thesis using IH that b [of j] len by simp
  qed
  then show ?case using IH by (simp add: b_def)
qed auto

lemma env_unset_list:
  assumes "env_ok E" "env_find key E = Some i"
  defines "E' \<equiv> fst (env_unset key E)"
  shows "env_ok E' \<and> env_list E' = take i (env_list E) @ drop (Suc i) (env_list E)"
proof -
  note i = env_find_Some [OF assms(2)]
  define k where "k = env_count E - 1 - i"
  have n: "i + k < ENV_MAX" "env_count E = i + k + 1" using assms(1) i(1) by (auto simp: env_ok_def k_def)
  have ks: "\<forall>a \<in> set (env_keys E). length a = ENV_KEY_MAX \<and> a ! (ENV_KEY_MAX - 1) = 0" "length (env_keys E) = ENV_MAX"
    and vs: "\<forall>a \<in> set (env_vals E). length a = ENV_VAL_MAX \<and> a ! (ENV_VAL_MAX - 1) = 0" "length (env_vals E) = ENV_MAX"
    using assms(1) by (simp_all add: env_ok_def)
  have K: "(\<forall>x \<in> set (move_down i k (env_keys E)). length x = ENV_KEY_MAX \<and> x ! (ENV_KEY_MAX - 1) = 0) \<and> (\<forall>j < ENV_MAX.
      cstr (move_down i k (env_keys E) ! j) = (if i \<le> j \<and> j < i + k then cstr (env_keys E ! Suc j) else cstr (env_keys E ! j)))"
    using move_down_nth [OF _ ks(1), of i k] n ks(2) by (simp add: ENV_KEY_MAX_def)
  have V: "(\<forall>x \<in> set (move_down i k (env_vals E)). length x = ENV_VAL_MAX \<and> x ! (ENV_VAL_MAX - 1) = 0) \<and> (\<forall>j < ENV_MAX.
      cstr (move_down i k (env_vals E) ! j) = (if i \<le> j \<and> j < i + k then cstr (env_vals E ! Suc j) else cstr (env_vals E ! j)))"
    using move_down_nth [OF _ vs(1), of i k] n vs(2) by (simp add: ENV_VAL_MAX_def)
  have E': "E' = \<lparr>env_keys = move_down i k (env_keys E), env_vals = move_down i k (env_vals E), env_count = i + k\<rparr>"
    using n(2) by (simp add: E'_def env_unset_def assms(2) Let_def k_def)
  have l: "env_list E' = take i (env_list E) @ drop (Suc i) (env_list E)"
  proof (rule nth_equalityI)
    fix j assume "j < length (env_list E')"
    then have j: "j < i + k" by (simp add: E' env_list_def)
    then have "env_list E' ! j = (cstr (move_down i k (env_keys E) ! j), cstr (move_down i k (env_vals E) ! j))"
      using n ks(2) vs(2) by (simp add: E' env_list_def)
    then show "env_list E' ! j = (take i (env_list E) @ drop (Suc i) (env_list E)) ! j"
      using j n K V env_list_nth [OF assms(1)] length_env_list [OF assms(1)] by (simp add: nth_append)
  qed (use n ks(2) vs(2) length_env_list [OF assms(1)] in \<open>simp add: E' env_list_def\<close>)
  have "distinct (map fst (take i (env_list E) @ drop (Suc i) (env_list E)))"
  proof -
    have "env_list E = take i (env_list E) @ env_list E ! i # drop (Suc i) (env_list E)"
      using length_env_list [OF assms(1)] i(1) by (simp add: id_take_nth_drop)
    then have "distinct (map fst (take i (env_list E) @ env_list E ! i # drop (Suc i) (env_list E)))" using assms(1) by (simp add: env_ok_def)
    then show ?thesis by auto
  qed
  then have "env_ok E'" using K V n ks(2) vs(2) by (intro env_okI [OF assms(1) l]) (auto simp: E')
  then show ?thesis using l by blast
qed

subsection \<open>Properties\<close>

lemma map_of_middle: "k \<notin> fst ` set xs \<Longrightarrow> map_of (xs @ (k, v) # ys) = (map_of (xs @ ys))(k \<mapsto> v)"
  by (induction xs) (auto simp: fun_eq_iff)

lemma map_of_entry:
  assumes "distinct (map fst L)" "i < length L" "fst (L ! i) = k"
  shows "map_of (L[i := (k, v)]) = (map_of L)(k \<mapsto> v)" "map_of (take i L @ drop (Suc i) L) = (map_of L)(k := None)"
proof -
  have L: "L = take i L @ (k, snd (L ! i)) # drop (Suc i) L" using assms(2,3) by (metis id_take_nth_drop prod.collapse)
  then have "distinct (map fst (take i L @ (k, snd (L ! i)) # drop (Suc i) L))" using assms(1) by simp
  then have k: "k \<notin> fst ` set (take i L)" "k \<notin> fst ` set (drop (Suc i) L)" by auto
  have m: "map_of L = (map_of (take i L @ drop (Suc i) L))(k \<mapsto> snd (L ! i))" using map_of_middle [OF k(1)] L by metis
  show "map_of (L[i := (k, v)]) = (map_of L)(k \<mapsto> v)"
    using map_of_middle [OF k(1)] by (simp add: upd_conv_take_nth_drop [OF assms(2)] m del: map_of_append)
  have "map_of (take i L @ drop (Suc i) L) k = None" using k by (subst map_of_eq_None_iff) auto
  then show "map_of (take i L @ drop (Suc i) L) = (map_of L)(k := None)" by (simp add: m fun_upd_idem del: map_of_append)
qed

lemma env_set_vars:
  assumes "env_ok E" "length (cstr key) < ENV_KEY_MAX" "cstr key \<in> dom (env_vars E) \<or> env_count E < ENV_MAX"
  shows "\<exists>E'. env_set key v E = (E', Some (env_save E')) \<and> env_ok E' \<and> env_vars E' = (env_vars E)(cstr key \<mapsto> take (ENV_VAL_MAX - 1) (cstr v))"
proof (cases "env_find key E")
  case None
  then have n: "env_vars E (cstr key) = None" using env_get_vars [OF assms(1), of key] by (simp add: env_get_def)
  then have c: "env_count E < ENV_MAX" using assms(3) by auto
  obtain E' where E': "env_set key v E = (E', Some (env_save E'))" using None c by (simp add: env_set_def Let_def)
  have "env_ok E'" "env_list E' = env_list E @ [(cstr key, take (ENV_VAL_MAX - 1) (cstr v))]"
    using env_set_new [OF assms(1) None c assms(2), of v] E' by simp_all
  then show ?thesis using E' n by (auto simp: env_vars_def fun_eq_iff map_add_def split: option.split)
next
  case (Some i)
  note i = env_find_Some [OF Some]
  have "distinct (map fst (env_list E))" "i < length (env_list E)" "fst (env_list E ! i) = cstr key"
    using assms(1) i env_list_nth [OF assms(1) i(1)] length_env_list [OF assms(1)] by (simp_all add: env_ok_def)
  from map_of_entry(1) [OF this] show ?thesis
    using env_set_old [OF assms(1) Some, of v] Some by (simp add: env_set_def Let_def env_vars_def)
qed

lemma env_unset_vars:
  assumes "env_ok E"
  shows "\<exists>E'. env_unset key E = (E', if cstr key \<in> dom (env_vars E) then Some (env_save E') else None) \<and>
    env_ok E' \<and> env_vars E' = (env_vars E)(cstr key := None)"
proof (cases "env_find key E")
  case None
  then have "env_vars E (cstr key) = None" using env_get_vars [OF assms, of key] by (simp add: env_get_def)
  then show ?thesis using None assms by (auto simp: env_unset_def fun_eq_iff)
next
  case (Some i)
  note i = env_find_Some [OF Some]
  have d: "distinct (map fst (env_list E))" "i < length (env_list E)" "fst (env_list E ! i) = cstr key"
    using assms i env_list_nth [OF assms i(1)] length_env_list [OF assms] by (simp_all add: env_ok_def)
  have "cstr key \<in> dom (env_vars E)" using env_get_vars [OF assms, of key] Some by (simp add: env_get_def domIff) (metis option.distinct(1))
  then show ?thesis
    using map_of_entry(2) [OF d] env_unset_list [OF assms Some] Some by (simp add: env_unset_def Let_def env_vars_def)
qed

text \<open>An empty table.\<close>

definition env0 :: env where
  "env0 = \<lparr>env_keys = replicate ENV_MAX (replicate ENV_KEY_MAX 0), env_vals = replicate ENV_MAX (replicate ENV_VAL_MAX 0), env_count = 0\<rparr>"

lemma env0_ok: "env_ok env0" "env_list env0 = []" "env_vars env0 = Map.empty"
  by (simp_all add: env_ok_def env_list_def env_vars_def env0_def ENV_KEY_MAX_def ENV_VAL_MAX_def)

lemma env0_set: "env_ok (fst (env_set [65] [66] env0))" "env_list (fst (env_set [65] [66] env0)) = [([65], [66])]"
  using env_set_new [OF env0_ok(1), of "[65]" "[66]"] env0_ok(2)
  by (simp_all add: env_find_None env0_def ENV_MAX_def ENV_KEY_MAX_def ENV_VAL_MAX_def)

text \<open>C33: the variables are a map. Setting a variable updates the map at its name, with the first 95 characters of the
  value, or changes nothing when the name is new and the table full; unsetting removes the name; reading
  looks it up. The table stays well formed, and what is saved are its lines.\<close>

theorem env_map_correct:
  assumes "env_ok E" "length (cstr key) < ENV_KEY_MAX"
  shows "env_get key E = env_vars E (cstr key) \<and>
    (let (E', saved) = env_set key v E
     in env_ok E' \<and> (if cstr key \<in> dom (env_vars E) \<or> env_count E < ENV_MAX
        then env_vars E' = (env_vars E)(cstr key \<mapsto> take (ENV_VAL_MAX - 1) (cstr v)) \<and> saved = Some (env_save E')
        else E' = E \<and> saved = None)) \<and>
    (let (E', saved) = env_unset key E
     in env_ok E' \<and> env_vars E' = (env_vars E)(cstr key := None) \<and> saved = (if cstr key \<in> dom (env_vars E) then Some (env_save E') else None))"
proof -
  obtain E' where u: "env_unset key E = (E', if cstr key \<in> dom (env_vars E) then Some (env_save E') else None)" "env_ok E'"
      "env_vars E' = (env_vars E)(cstr key := None)" using env_unset_vars [OF assms(1), of key] by blast
  show ?thesis
  proof (cases "cstr key \<in> dom (env_vars E) \<or> env_count E < ENV_MAX")
    case True
    then show ?thesis using env_set_vars [OF assms True, of v] u env_get_vars [OF assms(1), of key] by auto
  next
    case False
    then have "env_find key E = None" using env_get_vars [OF assms(1), of key] by (auto simp: env_get_def domIff)
    then have "env_set key v E = (E, None)" using False by (simp add: env_set_def)
    then show ?thesis using False u env_get_vars [OF assms(1), of key] assms(1) by auto
  qed
qed

theorem env_map_correct_witness:
  "env_vars (fst (env_set [65] [66] env0)) = [[65] \<mapsto> [66]] \<and> env_vars (fst (env_unset [65] env0)) = Map.empty"
  using env_map_correct [OF env0_ok(1), of "[65]" "[66]"] env0_ok(3)
  by (auto simp: Let_def split_beta env0_def ENV_MAX_def ENV_KEY_MAX_def ENV_VAL_MAX_def)

text \<open>The lines of the file.\<close>

definition env_line :: "bytes \<times> bytes \<Rightarrow> bytes" where
  "env_line = (\<lambda>(k, v). k @ 61 # v)"

definition storable :: "bytes \<times> bytes \<Rightarrow> bool" where
  "storable = (\<lambda>(k, v). k \<noteq> [] \<and> 61 \<notin> set k \<and> 10 \<notin> set k \<and> 10 \<notin> set v)"

lemma split_lines_line: "10 \<notin> set l \<Longrightarrow> split_lines (l @ 10 # r) = l # split_lines r"
  by (induction l) auto

lemma split_lines_concat: "\<forall>l \<in> set ls. 10 \<notin> set l \<Longrightarrow> split_lines (concat (map (\<lambda>l. l @ [10]) ls)) = ls @ [[]]"
  by (induction ls) (auto simp: split_lines_line)

lemma save_entries_all:
  "length (buf @ concat (map (\<lambda>e. env_line e @ [10]) es)) < 4095 \<Longrightarrow> save_entries buf es = buf @ concat (map (\<lambda>e. env_line e @ [10]) es)"
  by (induction buf es rule: save_entries.induct) (auto simp: env_line_def)

lemma load_entry_line:
  assumes "env_ok E" "env_count E < ENV_MAX" "storable (k, v)" "0 \<notin> set k" "0 \<notin> set v" "length k < ENV_KEY_MAX" "length v < ENV_VAL_MAX"
    and "k \<notin> fst ` set (env_list E)"
  shows "env_ok (load_entry (env_line (k, v)) E) \<and> env_list (load_entry (env_line (k, v)) E) = env_list E @ [(k, v)] \<and>
    env_count (load_entry (env_line (k, v)) E) = env_count E + 1"
proof -
  note a = env_okD [OF assms(1,2)]
  define ka va where "ka = store_str k (env_keys E ! env_count E)" and "va = store_str v (env_vals E ! env_count E)"
  define E' where "E' = \<lparr>env_keys = (env_keys E)[env_count E := ka], env_vals = (env_vals E)[env_count E := va], env_count = env_count E + 1\<rparr>"
  have "takeWhile (\<lambda>c. c \<noteq> 61) (k @ 61 # v) = k" using assms(3) by (auto simp: storable_def takeWhile_append)
  then have E: "load_entry (env_line (k, v)) E = E'"
    using assms(2,3,6,7) by (simp add: load_entry_def env_line_def E'_def ka_def va_def Let_def storable_def)
  have s: "cstr ka = k" "cstr va = v" "length ka = ENV_KEY_MAX" "length va = ENV_VAL_MAX" "ka ! (ENV_KEY_MAX - 1) = 0" "va ! (ENV_VAL_MAX - 1) = 0"
    using a assms(4-7) by (simp_all add: ka_def va_def cstr_store_str store_str_end [of _ ENV_KEY_MAX, simplified] store_str_end [of _ ENV_VAL_MAX, simplified])
  then have l: "env_list E' = env_list E @ [(k, v)]" using env_list_grow [OF assms(1,2) E'_def] by simp
  have "distinct (map fst (env_list E @ [(k, v)]))" using assms(1,8) by (simp add: env_ok_def)
  moreover have "x \<in> set (env_vals E) \<or> length x = ENV_VAL_MAX \<and> x ! (ENV_VAL_MAX - 1) = 0" if "x \<in> set (env_vals E')" for x
    using that s set_update_subset_insert [of "env_vals E" "env_count E" va] by (auto simp: E'_def)
  moreover have "x \<in> set (env_keys E) \<or> length x = ENV_KEY_MAX \<and> x ! (ENV_KEY_MAX - 1) = 0" if "x \<in> set (env_keys E')" for x
    using that s set_update_subset_insert [of "env_keys E" "env_count E" ka] by (auto simp: E'_def)
  ultimately have "env_ok E'" using assms(1,2) by (intro env_okI [OF assms(1) l]) (auto simp: E'_def env_ok_def)
  then show ?thesis using E l by (simp add: E'_def)
qed

lemma load_entries:
  assumes "env_ok E" "env_count E + length es \<le> ENV_MAX" "distinct (map fst (env_list E @ es))"
    and "\<forall>(k, v) \<in> set es. storable (k, v) \<and> 0 \<notin> set k \<and> 0 \<notin> set v \<and> length k < ENV_KEY_MAX \<and> length v < ENV_VAL_MAX"
  shows "env_list (fold load_entry (map env_line es) E) = env_list E @ es"
  using assms
proof (induction es arbitrary: E)
  case (Cons e es)
  obtain k v where e: "e = (k, v)" by force
  have "env_ok (load_entry (env_line (k, v)) E) \<and> env_list (load_entry (env_line (k, v)) E) = env_list E @ [(k, v)] \<and>
      env_count (load_entry (env_line (k, v)) E) = env_count E + 1"
    using Cons.prems e by (intro load_entry_line) auto
  then show ?case using Cons.IH [of "load_entry (env_line e) E"] Cons.prems e by simp
qed simp



subsection \<open>Expansion\<close>

text \<open>The command with every name replaced, whatever its length.\<close>

function expand_all :: "(bytes \<rightharpoonup> bytes) \<Rightarrow> bytes \<Rightarrow> bytes" where
  "expand_all vars [] = []"
| "expand_all vars (c # s) =
     (if c = 36 \<and> s \<noteq> [] \<and> hd s \<noteq> 32
      then (case vars (env_name s) of None \<Rightarrow> [] | Some v \<Rightarrow> v) @ expand_all vars (drop (length (env_name s)) s)
      else c # expand_all vars s)"
  by pat_completeness auto
termination
  by (relation "measure (\<lambda>(vars, s). length s)") auto

lemma env_name_text: "0 \<notin> set s \<Longrightarrow> cstr (env_name s) = env_name s"
  by (rule cstr_id) (auto simp: env_name_def dest: in_set_takeD set_takeWhileD)

lemma expand_loop_all:
  assumes "env_ok E" "0 \<notin> set s"
  shows "\<exists>r. dst @ expand_all (env_vars E) s = expand_loop E limit s dst @ r \<and>
    (length (dst @ expand_all (env_vars E) s) < limit - 1 \<longrightarrow> r = []) \<and> (length dst < limit \<longrightarrow> length (expand_loop E limit s dst) < limit)"
  using assms
proof (induction E limit s dst rule: expand_loop.induct)
  case (2 E limit c s dst)
  have g: "env_get (env_name s) E = env_vars E (env_name s)"
    using env_get_vars [OF 2(4), of "env_name s"] env_name_text [of s] 2(5) by simp
  have s: "0 \<notin> set (drop k s)" for k using 2(5) by (auto dest: in_set_dropD)
  consider "\<not> length dst < limit - 1" | "length dst < limit - 1" "\<not> (c = 36 \<and> s \<noteq> [] \<and> hd s \<noteq> 32)"
    | "length dst < limit - 1" "c = 36 \<and> s \<noteq> [] \<and> hd s \<noteq> 32" by blast
  then show ?case
  proof cases
    case 2
    then show ?thesis using "2.IH"(3) "2.prems" by force
  next
    case 3
    then show ?thesis using "2.IH"(1,2) [OF 3 refl] "2.prems"(1) s g by (cases "env_vars E (env_name s)") (auto simp: Let_def)
  qed auto
qed simp



end
