(* ===== verification/Stdio.thy ===== *)
theory Stdio
  imports Cstring
begin

text \<open>
  Formatted output and the character calls of the C library, \<^verbatim>\<open>some-libc/stdio.c\<close>. The two system calls it rests on are
  the argument \<open>io\<close>: writing bytes to a descriptor, and reading at most so many bytes from one, with the result
  the kernel returns.
\<close>

record 'k io =
  sys_write :: "int \<Rightarrow> bytes \<Rightarrow> 'k \<Rightarrow> 'k"
  sys_read :: "int \<Rightarrow> nat \<Rightarrow> 'k \<Rightarrow> 'k \<times> int \<times> bytes"
  sys_keydata :: "'k \<Rightarrow> bool"

definition EOF :: int where "EOF = -1"

definition putchar :: "'k io \<Rightarrow> int \<Rightarrow> 'k \<Rightarrow> 'k \<times> int" where
  "putchar io c k = (sys_write io 1 [of_int c] k, c)"

definition puts :: "'k io \<Rightarrow> bytes \<Rightarrow> 'k \<Rightarrow> 'k \<times> int" where
  "puts io s k = (sys_write io 1 [10] (sys_write io 1 (cstr s) k), int (length (cstr s)) + 1)"

definition getchar :: "'k io \<Rightarrow> 'k \<Rightarrow> 'k \<times> int" where
  "getchar io k = (case sys_read io 0 1 k of (k, ret, bs) \<Rightarrow> (k, if ret \<le> 0 then EOF else uint (hd bs)))"

definition getchar_nonblock :: "'k io \<Rightarrow> 'k \<Rightarrow> 'k \<times> int" where
  "getchar_nonblock io k = (if sys_keydata io k then getchar io k else (k, EOF))"

subsection \<open>Numbers\<close>

definition digit_char :: "bool \<Rightarrow> u32 \<Rightarrow> u8" where
  "digit_char uppercase d = (if d < 10 then 48 + ucast d else if uppercase then 65 + ucast d - 10 else 97 + ucast d - 10)"

text \<open>The digits from the last to the first; the base is 10 or 16.\<close>

function digit_loop :: "u32 \<Rightarrow> bool \<Rightarrow> u32 \<Rightarrow> bytes" where
  "digit_loop base uppercase uval =
     (if uval = 0 \<or> base \<le> 1 then []
      else digit_char uppercase (uval mod base) # digit_loop base uppercase (uval div base))"
  by pat_completeness auto
termination
proof (relation "measure (\<lambda>(b, u, n). unat n)", goal_cases)
  case (2 base uppercase uval)
  then have "0 < unat uval" "1 < unat base" by (auto simp: word_less_nat_alt word_le_nat_alt unat_gt_0)
  then show ?case by (simp add: unat_div)
qed simp

declare digit_loop.simps [simp del]

definition printf_int :: "u32 \<Rightarrow> u32 \<Rightarrow> bool \<Rightarrow> bytes" where
  "printf_int val base uppercase =
     (let neg = (base = 10 \<and> val <s 0); uval = (if neg then - val else val);
          buf = (if uval = 0 then [48] else digit_loop base uppercase uval)
      in rev (buf @ (if neg then [45] else [])))"

subsection \<open>Formats\<close>

text \<open>An argument of \<^verbatim>\<open>printf\<close>: a pointer to a string, or an integer. Taking an argument that is not there is undefined
  in C and gives \<open>None\<close>.\<close>

datatype arg = is_Str: Str "bytes option" | Num u32

definition conversion :: "nat \<Rightarrow> u8 \<Rightarrow> arg list \<Rightarrow> (bytes \<times> arg list) option" where
  "conversion room d args =
     (if d = 115 then (case args of Str s # args \<Rightarrow> Some (take room (case s of None \<Rightarrow> str ''(null)'' | Some s \<Rightarrow> cstr s), args) | _ \<Rightarrow> None)
      else if d = 100 \<or> d = 117 then (case args of Num v # args \<Rightarrow> Some (printf_int v 10 False, args) | _ \<Rightarrow> None)
      else if d = 120 then (case args of Num v # args \<Rightarrow> Some (printf_int v 16 False, args) | _ \<Rightarrow> None)
      else if d = 88 then (case args of Num v # args \<Rightarrow> Some (printf_int v 16 True, args) | _ \<Rightarrow> None)
      else if d = 99 then (case args of Num v # args \<Rightarrow> Some ([ucast v], args) | _ \<Rightarrow> None)
      else if d = 37 then Some ([37], args)
      else Some ([], args))"

fun format_loop :: "bytes \<Rightarrow> arg list \<Rightarrow> bytes \<Rightarrow> bytes option" where
  "format_loop [] args out = Some out"
| "format_loop [c] args out = Some (if length out < 511 \<and> c \<noteq> 37 then out @ [c] else out)"
| "format_loop (c # d # fmt) args out =
     (if \<not> length out < 511 then Some out
      else if c \<noteq> 37 then format_loop (d # fmt) args (out @ [c])
      else (case conversion (511 - length out) d args of None \<Rightarrow> None | Some (t, args) \<Rightarrow> format_loop fmt args (out @ t)))"

definition printf :: "'k io \<Rightarrow> bytes \<Rightarrow> arg list \<Rightarrow> 'k \<Rightarrow> ('k \<times> int) option" where
  "printf io fmt args k = map_option (\<lambda>out. (sys_write io 1 out k, int (length out))) (format_loop (cstr fmt) args [])"

subsection \<open>What a number reads as\<close>

definition digit_val :: "u8 \<Rightarrow> nat" where
  "digit_val c = (if c \<le> 57 then unat c - 48 else if c \<le> 70 then unat c - 55 else unat c - 87)"

definition num_of :: "nat \<Rightarrow> bytes \<Rightarrow> nat" where
  "num_of base cs = fold (\<lambda>c n. n * base + digit_val c) cs 0"

definition int_of :: "bytes \<Rightarrow> int" where
  "int_of cs = (if hd cs = 45 then - int (num_of 10 (tl cs)) else int (num_of 10 cs))"

lemma digit_char_correct:
  assumes "unat d < 16"
  shows "digit_val (digit_char up d) = unat d" "digit_char up d \<noteq> 45"
proof -
  have "\<forall>up \<in> {True, False}. \<forall>k \<in> set [0..<16]. digit_val (digit_char up (word_of_nat k)) = k \<and> digit_char up (word_of_nat k) \<noteq> 45"
    by code_simp
  then have "digit_val (digit_char up (word_of_nat (unat d))) = unat d \<and> digit_char up (word_of_nat (unat d)) \<noteq> 45"
    using assms by (cases up) (simp_all only: ball_simps insert_iff set_upt atLeastLessThan_iff le0 simp_thms)
  then show "digit_val (digit_char up d) = unat d" "digit_char up d \<noteq> 45" by simp_all
qed

lemma num_of_snoc: "num_of b (cs @ [c]) = num_of b cs * b + digit_val c"
  by (simp add: num_of_def)

lemma digit_loop_step:
  assumes "1 < unat base" "unat base \<le> 16"
  shows "digit_loop base up n = (if n = 0 then [] else digit_char up (n mod base) # digit_loop base up (n div base))"
    "digit_val (digit_char up (n mod base)) = unat n mod unat base" "digit_char up (n mod base) \<noteq> 45"
proof -
  have "\<not> base \<le> 1" using assms(1) by (simp add: word_le_nat_alt)
  then show "digit_loop base up n = (if n = 0 then [] else digit_char up (n mod base) # digit_loop base up (n div base))"
    by (simp add: digit_loop.simps [of base up n])
  have "unat n mod unat base < unat base" using assms(1) by simp
  then have "unat (n mod base) < 16" using assms(2) unfolding unat_mod by linarith
  from digit_char_correct [OF this] show "digit_val (digit_char up (n mod base)) = unat n mod unat base" "digit_char up (n mod base) \<noteq> 45"
    by (simp_all add: unat_mod)
qed

lemma num_of_digits:
  assumes "1 < unat base" "unat base \<le> 16"
  shows "num_of (unat base) (rev (digit_loop base up n)) = unat n \<and> 45 \<notin> set (digit_loop base up n)"
proof (induction "unat n" arbitrary: n rule: less_induct)
  case less
  show ?case
  proof (cases "n = 0")
    case False
    then have "unat (n div base) < unat n" using assms(1) by (simp add: unat_div unat_gt_0)
    from less [OF this] show ?thesis using False digit_loop_step [OF assms, of up n]
      by (auto simp: num_of_snoc unat_div)
  qed (simp add: digit_loop.simps num_of_def)
qed

lemma digit_loop_length:
  assumes "1 < unat base" "unat n < unat base ^ k"
  shows "length (digit_loop base up n) \<le> k"
  using assms(2)
proof (induction k arbitrary: n)
  case 0
  then have "n = 0" by (simp add: unat_eq_zero)
  then show ?case by (simp add: digit_loop.simps)
next
  case (Suc k)
  have "unat (n div base) < unat base ^ k" using Suc.prems by (simp add: unat_div less_mult_imp_div_less mult.commute)
  then show ?case using Suc.IH by (simp add: digit_loop.simps [of base up n])
qed

lemma printf_int_length: "base \<in> {10, 16} \<Longrightarrow> length (printf_int v base up) \<le> 11"
proof -
  have lim: "unat n < 2 ^ 32" for n :: u32
  proof -
    have "unat n < 2 ^ LENGTH(32)" by (rule unsigned_less)
    then show ?thesis by simp
  qed
  have "length (digit_loop 10 up n) \<le> 10" for n :: u32 using digit_loop_length [of 10 n 10 up] lim [of n] by simp
  moreover have "length (digit_loop 16 up n) \<le> 8" for n :: u32 using digit_loop_length [of 16 n 8 up] lim [of n] by simp
  ultimately have "length (digit_loop 10 up n) \<le> 11" "length (digit_loop 16 up n) \<le> 11" "length (digit_loop 10 up n) \<le> 10" for n
    by (meson order_trans numeral_le_iff semiring_norm)+
  then show "base \<in> {10, 16} \<Longrightarrow> length (printf_int v base up) \<le> 11" by (auto simp: printf_int_def Let_def)
qed

lemma unat_abs_sint:
  fixes v :: u32
  shows "0 \<le> sint v \<Longrightarrow> int (unat v) = sint v" "sint v < 0 \<Longrightarrow> int (unat (- v)) = - sint v"
proof -
  have b: "- (2 ^ 31) \<le> sint v" "sint v < 2 ^ 31" using sint_greater_eq [of v] sint_less [of v] by simp_all
  have w: "word_of_int (sint v) = v" by simp
  have "uint (word_of_int k :: u32) = take_bit 32 k" for k by (simp add: unsigned_of_int)
  moreover have "(word_of_int (- sint v) :: u32) = - v" by simp
  ultimately have "uint v = take_bit 32 (sint v)" "uint (- v) = take_bit 32 (- sint v)" using w by metis+
  then show "0 \<le> sint v \<Longrightarrow> int (unat v) = sint v" "sint v < 0 \<Longrightarrow> int (unat (- v)) = - sint v"
    using b by (simp_all add: take_bit_int_eq_self)
qed

subsection \<open>Properties\<close>

text \<open>C36: a number is printed so that it reads as itself: signed in base ten, as its bit pattern in base sixteen.\<close>

theorem printf_int_value: "int_of (printf_int v 10 up) = sint v \<and> num_of 16 (printf_int v 16 up) = unat v"
proof
  have d: "num_of 10 (rev (digit_loop 10 up n)) = unat n" "45 \<notin> set (digit_loop 10 up n)" for n :: u32
    using num_of_digits [of 10 up n] by simp_all
  have z: "num_of b [48] = 0" for b by (simp add: num_of_def digit_val_def)
  show "int_of (printf_int v 10 up) = sint v"
  proof (cases "v <s 0")
    case True
    then have "sint v < 0" "v \<noteq> 0" by (auto simp: word_sless_alt)
    then have "int (unat (- v)) = - sint v" using unat_abs_sint(2) by simp
    then show ?thesis using True \<open>v \<noteq> 0\<close> d by (simp add: int_of_def printf_int_def)
  next
    case False
    then have v: "int (unat v) = sint v" using unat_abs_sint(1) by (simp add: word_sless_alt)
    show ?thesis
    proof (cases "v = 0")
      case nz: False
      then have "digit_loop 10 up v \<noteq> []" using digit_loop_step(1) [of 10 up v] by simp
      then have "hd (rev (digit_loop 10 up v)) \<in> set (digit_loop 10 up v)" by (metis hd_in_set rev_is_Nil_conv set_rev)
      then have "hd (rev (digit_loop 10 up v)) \<noteq> 45" using d(2) by metis
      then show ?thesis using False nz d(1) [of v] v by (simp add: int_of_def printf_int_def)
    qed (simp add: int_of_def printf_int_def z)
  qed
  show "num_of 16 (printf_int v 16 up) = unat v"
    using num_of_digits [of 16 up v] z by (auto simp: printf_int_def)
qed

lemma conversion_length:
  assumes "conversion room d args = Some (t, args')" "0 < room"
  shows "length t \<le> 11 \<or> length t \<le> room" "list_all is_Str args \<Longrightarrow> list_all is_Str args' \<and> length t \<le> room"
proof -
  have n: "length (printf_int v 10 up) \<le> 11" "length (printf_int v 16 up) \<le> 11" for v up using printf_int_length by blast+
  consider "args' = args" "length t \<le> 1" | v where "args = Num v # args'" "length t \<le> 11" | s where "args = Str s # args'" "length t \<le> room"
    using assms(1) n by (auto simp: conversion_def split: if_splits list.splits arg.splits)
  then show "length t \<le> 11 \<or> length t \<le> room" "list_all is_Str args \<Longrightarrow> list_all is_Str args' \<and> length t \<le> room"
    using assms(2) by (cases; auto)+
qed

lemma format_loop_bound:
  assumes "format_loop fmt args out = Some r"
  shows "length out \<le> 521 \<Longrightarrow> length r \<le> 521" "length out \<le> 511 \<Longrightarrow> list_all is_Str args \<Longrightarrow> length r \<le> 511"
proof -
  show "length out \<le> 521 \<Longrightarrow> length r \<le> 521"
    using assms
  proof (induction fmt args out rule: format_loop.induct)
    case (3 c d fmt args out)
    show ?case
    proof (cases "conversion (511 - length out) d args")
      case (Some p)
      obtain t args' where p: "p = (t, args')" by force
      have "length (out @ t) \<le> 521" if "length out < 511" using conversion_length(1) [OF Some [unfolded p]] that by auto
      then show ?thesis using 3 Some p by (auto split: if_splits)
    qed (use 3 in \<open>auto split: if_splits\<close>)
  qed (auto split: if_splits)
  show "length out \<le> 511 \<Longrightarrow> list_all is_Str args \<Longrightarrow> length r \<le> 511"
    using assms
  proof (induction fmt args out rule: format_loop.induct)
    case (3 c d fmt args out)
    show ?case
    proof (cases "conversion (511 - length out) d args")
      case (Some p)
      obtain t args' where p: "p = (t, args')" by force
      have "list_all is_Str args'" "length (out @ t) \<le> 511" if "length out < 511"
        using conversion_length(2) [OF Some [unfolded p]] that 3(4) by auto
      then show ?thesis using 3 Some p by (auto split: if_splits)
    qed (use 3 in \<open>auto split: if_splits\<close>)
  qed (auto split: if_splits)
qed

lemma format_plain: "length out + n \<le> 511 \<Longrightarrow> f \<noteq> [] \<Longrightarrow> format_loop (replicate n 97 @ f) args out = format_loop f args (out @ replicate n 97)"
proof (induction n arbitrary: out)
  case (Suc n)
  obtain d g where "replicate n 97 @ f = d # g" using Suc.prems(2) by (cases "replicate n 97 @ f") auto
  then have "format_loop (97 # replicate n 97 @ f) args out = format_loop (replicate n 97 @ f) args (out @ [97])" using Suc.prems(1) by simp
  then show ?case using Suc by simp
qed simp

text \<open>C37: with string arguments alone the text of \<^verbatim>\<open>printf\<close> fits its buffer of 512 bytes, terminator included. Numbers are not
  bounded by the end of the buffer: they exceed it by ten bytes at most, and some format does.\<close>

theorem printf_bounds:
  "(\<forall>fmt args out. format_loop fmt args [] = Some out \<longrightarrow> length out \<le> 521 \<and> (list_all is_Str args \<longrightarrow> length out \<le> 511)) \<and>
   (\<exists>fmt args out. format_loop fmt args [] = Some out \<and> length out = 521)"
proof (intro conjI allI impI)
  have "length (printf_int 0x80000000 10 False) = 11" by code_simp
  then have "\<exists>out. format_loop (replicate 510 97 @ [37, 100]) [Num 0x80000000] [] = Some out \<and> length out = 521"
    by (subst format_plain) (simp_all add: conversion_def)
  then show "\<exists>fmt args out. format_loop fmt args [] = Some out \<and> length out = 521" by blast
qed (use format_loop_bound [of _ _ "[]"] in auto)

text \<open>\<^verbatim>\<open>%s=%d\<close> with a name and 7.\<close>

theorem printf_bounds_witness:
  "\<exists>out. format_loop [37, 115, 61, 37, 100] [Str (Some [97, 0]), Num 7] [] = Some out \<and> out = [97, 61, 55] \<and> length out \<le> 521"
proof -
  have "format_loop [37, 115, 61, 37, 100] [Str (Some [97, 0]), Num 7] [] = Some [97, 61, 55]" by code_simp
  with printf_bounds show ?thesis by blast
qed

end
