(* ===== verification/Streams.thy ===== *)
theory Streams
  imports Stdio
begin

text \<open>
  The streams of the C library, \<^verbatim>\<open>some-libc/file.c\<close>. A stream holds the whole file in a buffer. The allocator and the
  system calls are the argument \<open>fsys_calls\<close>: \<open>f_malloc\<close> tells whether a buffer could be had, \<open>f_cat\<close> gives the bytes of a file,
  or \<open>None\<close> where the call reports an error.
\<close>

record FILE =
  f_fd :: int
  f_buf :: "bytes option"
  f_bufsize :: int
  f_pos :: int
  f_mode :: u8

record libfiles =
  file_table :: "FILE list"
  file_table_used :: int

record 'k fsys_calls =
  f_malloc :: "int \<Rightarrow> 'k \<Rightarrow> 'k \<times> bool"
  f_free :: "bytes \<Rightarrow> 'k \<Rightarrow> 'k"
  f_cat :: "bytes \<Rightarrow> nat \<Rightarrow> 'k \<Rightarrow> bytes option"
  f_mkdir :: "bytes \<Rightarrow> 'k \<Rightarrow> 'k"
  f_write :: "int \<Rightarrow> bytes \<Rightarrow> 'k \<Rightarrow> 'k"

definition MAX_FILES :: nat where "MAX_FILES = 8"

definition zero_file :: FILE where
  "zero_file = \<lparr>f_fd = 0, f_buf = None, f_bufsize = 0, f_pos = 0, f_mode = 0\<rparr>"

definition std_stream :: "int \<Rightarrow> FILE" where
  "std_stream n = zero_file\<lparr>f_fd := n\<rparr>"

definition initial_files :: libfiles where
  "initial_files = \<lparr>file_table = replicate MAX_FILES zero_file, file_table_used = 0\<rparr>"

text \<open>The slot of a free entry, which is cleared.\<close>

definition file_alloc :: "libfiles \<Rightarrow> (libfiles \<times> nat) option" where
  "file_alloc L =
     (case find (\<lambda>i. \<not> (f_fd (file_table L ! i) = 0 \<and> f_buf (file_table L ! i) = None \<and> i = 0) \<and> f_fd (file_table L ! i) = -1) [0..<MAX_FILES] of
        None \<Rightarrow> None
      | Some i \<Rightarrow> Some (L\<lparr>file_table := (file_table L)[i := zero_file]\<rparr>, i))"

definition open_slot :: "bytes \<Rightarrow> u8 \<Rightarrow> libfiles \<times> nat \<Rightarrow> libfiles \<times> nat" where
  "open_slot b md = (\<lambda>(L, i).
     (L\<lparr>file_table := (file_table L)[i := \<lparr>f_fd = 3 + file_table_used L, f_buf = Some b, f_bufsize = int (length b), f_pos = 0, f_mode = md\<rparr>],
        file_table_used := file_table_used L + 1\<rparr>, i))"

datatype opened = NULL | Stream nat | Fault

text \<open>Opening for writing stores a terminator in its buffer of one byte, whose size is recorded as 0; without a buffer it writes
  through a null pointer.\<close>

definition fopen :: "'k fsys_calls \<Rightarrow> bytes option \<Rightarrow> bytes option \<Rightarrow> libfiles \<Rightarrow> 'k \<Rightarrow> libfiles \<times> 'k \<times> opened" where
  "fopen S path md L k =
     (case (path, md) of
        (Some path, Some md) \<Rightarrow>
          if chr_at md 0 = 114 then
            (let (k, ok) = f_malloc S 4096 k
             in if \<not> ok then (L, k, NULL)
                else case f_cat S path 4096 k of
                  None \<Rightarrow> (L, f_free S [] k, NULL)
                | Some b \<Rightarrow>
                    if b = [] then (L, f_free S [] k, NULL)
                    else case file_alloc L of
                      None \<Rightarrow> (L, f_free S b k, NULL)
                    | Some slot \<Rightarrow> (let (L, i) = open_slot b 114 slot in (L, k, Stream i)))
          else if chr_at md 0 = 119 then
            (let k = f_mkdir S path k
             in case file_alloc L of
                  None \<Rightarrow> (L, k, NULL)
                | Some slot \<Rightarrow> (let (L, i) = open_slot [] 119 slot; (k, ok) = f_malloc S 1 k in (L, k, if ok then Stream i else Fault)))
          else (L, k, NULL)
      | _ \<Rightarrow> (L, k, NULL))"

definition fclose :: "'k fsys_calls \<Rightarrow> FILE \<Rightarrow> 'k \<Rightarrow> FILE \<times> 'k \<times> int" where
  "fclose S f k =
     (if f_fd f \<in> {0, 1, 2} then (f, k, 0)
      else (f\<lparr>f_fd := -1, f_buf := None, f_bufsize := 0, f_pos := 0\<rparr>, (case f_buf f of None \<Rightarrow> k | Some b \<Rightarrow> f_free S b k), 0))"

definition stream_bytes :: "FILE \<Rightarrow> bytes" where
  "stream_bytes f = (case f_buf f of None \<Rightarrow> [] | Some b \<Rightarrow> b)"

definition fread :: "int \<Rightarrow> int \<Rightarrow> FILE \<Rightarrow> FILE \<times> bytes \<times> int" where
  "fread sz count f =
     (let total = min (sz * count) (f_bufsize f - f_pos f)
      in if total \<le> 0 then (f, [], 0)
         else (f\<lparr>f_pos := f_pos f + total\<rparr>, take (nat total) (drop (nat (f_pos f)) (stream_bytes f)), total div sz))"

definition fwrite :: "'k fsys_calls \<Rightarrow> bytes \<Rightarrow> int \<Rightarrow> int \<Rightarrow> FILE \<Rightarrow> 'k \<Rightarrow> 'k \<times> int" where
  "fwrite S b sz count f k =
     (if f_fd f = 1 \<or> f_fd f = 2 then (f_write S (f_fd f) (take (nat (sz * count)) b) k, count) else (k, 0))"

text \<open>The characters up to a newline, \<open>room\<close> of them at most.\<close>

fun line_loop :: "nat \<Rightarrow> bytes \<Rightarrow> bytes" where
  "line_loop 0 b = []"
| "line_loop (Suc room) [] = []"
| "line_loop (Suc room) (c # b) = c # (if c = 10 then [] else line_loop room b)"

definition fgets :: "int \<Rightarrow> FILE \<Rightarrow> FILE \<times> bytes option" where
  "fgets n f =
     (if n \<le> 0 then (f, None)
      else (let l = line_loop (nat (n - 1)) (drop (nat (f_pos f)) (take (nat (f_bufsize f)) (stream_bytes f)))
            in (f\<lparr>f_pos := f_pos f + int (length l)\<rparr>, if l = [] then None else Some (l @ [0]))))"

definition fgetc :: "FILE \<Rightarrow> FILE \<times> int" where
  "fgetc f = (if f_pos f \<ge> f_bufsize f then (f, EOF) else (f\<lparr>f_pos := f_pos f + 1\<rparr>, uint (stream_bytes f ! nat (f_pos f))))"

definition fseek :: "int \<Rightarrow> int \<Rightarrow> FILE \<Rightarrow> FILE \<times> int" where
  "fseek offset whence f =
     (if whence \<in> {0, 1, 2} then
        (let p = offset + (if whence = 0 then 0 else if whence = 1 then f_pos f else f_bufsize f)
         in (f\<lparr>f_pos := min (max p 0) (f_bufsize f)\<rparr>, 0))
      else (f, -1))"

subsection \<open>Properties\<close>

definition stream_ok :: "FILE \<Rightarrow> bool" where
  "stream_ok f \<longleftrightarrow> 0 \<le> f_pos f \<and> f_pos f \<le> f_bufsize f \<and> f_bufsize f = int (length (stream_bytes f))"

definition unread :: "FILE \<Rightarrow> bytes" where
  "unread f = drop (nat (f_pos f)) (stream_bytes f)"

lemma line_loop_prefix: "\<exists>r. b = line_loop n b @ r \<and> (10 \<in> set (line_loop n b) \<longrightarrow> last (line_loop n b) = 10) \<and> length (line_loop n b) \<le> n"
  by (induction n b rule: line_loop.induct) auto

lemma line_loop_full: "10 \<notin> set (line_loop n b) \<Longrightarrow> length (line_loop n b) < n \<Longrightarrow> line_loop n b = b"
  by (induction n b rule: line_loop.induct) (auto split: if_splits)

text \<open>No stream can be opened. The table starts with descriptor 0 in every slot while a free slot is marked by -1, and
  no call that fails changes the table: every call of \<^verbatim>\<open>fopen\<close> returns a null pointer.\<close>

theorem fopen_fails:
  assumes "file_table L = file_table initial_files"
  shows "\<exists>k'. fopen S path md L k = (L, k', NULL)"
proof -
  have "file_alloc L = None" using assms by (auto simp: file_alloc_def initial_files_def zero_file_def find_None_iff MAX_FILES_def split: option.split)
  then show ?thesis by (auto simp: fopen_def Let_def split: option.split prod.split)
qed

text \<open>Reading takes the bytes of a stream in order: \<^verbatim>\<open>fgets\<close> the rest of a line, \<^verbatim>\<open>fread\<close> a number of bytes.\<close>

theorem stream_reads_in_order:
  assumes "stream_ok f"
  shows "case fgets n f of (f', r) \<Rightarrow> stream_ok f' \<and> unread f = (case r of None \<Rightarrow> [] | Some l \<Rightarrow> butlast l) @ unread f' \<and>
      (r = None \<longleftrightarrow> n \<le> 1 \<or> unread f = [])"
    and "case fread sz count f of (f', b, _) \<Rightarrow> stream_ok f' \<and> unread f = b @ unread f'"
proof -
  have f: "0 \<le> f_pos f" "f_pos f + int (length (unread f)) = f_bufsize f" "f_bufsize f = int (length (stream_bytes f))"
    using assms by (auto simp: stream_ok_def unread_def)
  have step: "stream_ok (f\<lparr>f_pos := f_pos f + int (length l)\<rparr>) \<and> unread f = l @ unread (f\<lparr>f_pos := f_pos f + int (length l)\<rparr>)" if "unread f = l @ r" for l r
  proof -
    have "unread (f\<lparr>f_pos := f_pos f + int (length l)\<rparr>) = drop (length l) (unread f)"
      using f(1) by (simp add: unread_def stream_bytes_def nat_add_distrib add.commute)
    moreover have "length l \<le> length (unread f)" using that by simp
    ultimately show ?thesis using that f by (simp add: stream_ok_def stream_bytes_def)
  qed
  define l where "l = line_loop (nat (n - 1)) (unread f)"
  obtain r where r: "unread f = l @ r" using line_loop_prefix [of "unread f" "nat (n - 1)"] unfolding l_def by blast
  have "l = [] \<longleftrightarrow> n \<le> 1 \<or> unread f = []" unfolding l_def by (cases "nat (n - 1)"; cases "unread f") auto
  moreover have "fgets n f = (f\<lparr>f_pos := f_pos f + int (length l)\<rparr>, if l = [] then None else Some (l @ [0]))"
    using f(3) by (auto simp: fgets_def l_def unread_def Let_def)
  ultimately show "case fgets n f of (f', r) \<Rightarrow> stream_ok f' \<and> unread f = (case r of None \<Rightarrow> [] | Some l \<Rightarrow> butlast l) @ unread f' \<and>
      (r = None \<longleftrightarrow> n \<le> 1 \<or> unread f = [])" using step [OF r] by auto
  define total where "total = min (sz * count) (f_bufsize f - f_pos f)"
  show "case fread sz count f of (f', b, _) \<Rightarrow> stream_ok f' \<and> unread f = b @ unread f'"
  proof (cases "total \<le> 0")
    case False
    moreover have "total \<le> int (length (unread f))" using f by (simp add: total_def)
    ultimately have "int (length (take (nat total) (unread f))) = total" by simp
    moreover have "fread sz count f = (f\<lparr>f_pos := f_pos f + total\<rparr>, take (nat total) (unread f), total div sz)"
      using False by (simp add: fread_def unread_def Let_def total_def [symmetric])
    ultimately show ?thesis using step [of "take (nat total) (unread f)" "drop (nat total) (unread f)"] by simp
  qed (use assms in \<open>simp add: fread_def Let_def total_def [symmetric]\<close>)
qed

text \<open>A system on which every call succeeds.\<close>

definition generous :: "unit fsys_calls" where
  "generous = \<lparr>f_malloc = (\<lambda>_ k. (k, True)), f_free = (\<lambda>_ k. k), f_cat = (\<lambda>_ _ _. Some [104, 105, 10]), f_mkdir = (\<lambda>_ k. k), f_write = (\<lambda>_ _ k. k)\<rparr>"

theorem fopen_fails_witness:
  "\<exists>k'. fopen generous (Some [97, 0]) (Some [114, 0]) initial_files () = (initial_files, k', NULL)"
  by (rule fopen_fails) simp

end
