(* ===== verification/Commands.thy ===== *)
theory Commands
  imports Environ Streams
begin

text \<open>
  The commands of the shell, \<^verbatim>\<open>userspace/shell.c\<close>. A command acts on the state \<open>sh\<close>: the input that will arrive before
  the end of the file, the output so far, the variables, the streams and the rest of the system. The system calls are the
  argument \<open>os\<close>: a call yields its result and the bytes it stores in the buffer of the caller, or does not
  return, as \<^verbatim>\<open>exit\<close> and a successful \<^verbatim>\<open>exec\<close> do. Commands are texts without terminators.
\<close>

datatype call =
    SYS_SLEEP u64 | SYS_TICKS | SYS_CLEAR | SYS_LS "bytes option" nat | SYS_CD bytes | SYS_CAT bytes nat | SYS_REBOOT | SYS_SHUTDOWN
  | SYS_MKDIR bytes | SYS_RMDIR bytes | SYS_RM bytes | SYS_MV bytes bytes | SYS_CP bytes bytes | SYS_EXEC bytes | SYS_DATETIME nat
  | SYS_FORK | SYS_EXIT int | SYS_WAITPID int | SYS_PIPE | SYS_DUP2 int int | SYS_CLOSE int | SYS_TOUCH bytes | SYS_WRITE_FILE bytes bytes

record 'k sh =
  sh_in :: bytes
  sh_out :: bytes
  sh_vars :: env
  sh_files :: libfiles
  sh_kern :: 'k

datatype 'a outcome = Done 'a | Gone | Starved

type_synonym 'k os = "call \<Rightarrow> 'k \<Rightarrow> 'k \<times> (int \<times> bytes) option"
type_synonym ('k, 'a) prog = "'k sh \<Rightarrow> 'a outcome \<times> 'k sh"

definition ret :: "'a \<Rightarrow> ('k, 'a) prog" where
  "ret a s = (Done a, s)"

definition after :: "('k, 'a) prog \<Rightarrow> ('a \<Rightarrow> ('k, 'b) prog) \<Rightarrow> ('k, 'b) prog" where
  "after p q s = (case p s of (Done a, s) \<Rightarrow> q a s | (Gone, s) \<Rightarrow> (Gone, s) | (Starved, s) \<Rightarrow> (Starved, s))"

definition syscall :: "'k os \<Rightarrow> call \<Rightarrow> ('k, int \<times> bytes) prog" where
  "syscall os c s = (case os c (sh_kern s) of (k, r) \<Rightarrow> (case r of None \<Rightarrow> Gone | Some x \<Rightarrow> Done x, s\<lparr>sh_kern := k\<rparr>))"

definition exec_call :: "'k os \<Rightarrow> call \<Rightarrow> ('k, unit) prog" where
  "exec_call os c = after (syscall os c) (\<lambda>_. ret ())"

text \<open>Output. A format whose arguments are missing ends the run.\<close>

definition put_out :: "bytes \<Rightarrow> ('k, unit) prog" where
  "put_out b s = (Done (), s\<lparr>sh_out := sh_out s @ b\<rparr>)"

definition say :: "bytes \<Rightarrow> arg list \<Rightarrow> ('k, unit) prog" where
  "say fmt args = (case format_loop fmt args [] of None \<Rightarrow> Pair Gone | Some out \<Rightarrow> put_out out)"

definition text_ln :: "string \<Rightarrow> bytes" where
  "text_ln s = str s @ [10]"

primrec in_turn :: "('k, unit) prog list \<Rightarrow> ('k, unit) prog" where
  "in_turn [] = ret ()"
| "in_turn (p # ps) = after p (\<lambda>_. in_turn ps)"

definition fails :: "'k os \<Rightarrow> call \<Rightarrow> string \<Rightarrow> ('k, unit) prog" where
  "fails os c msg = after (syscall os c) (\<lambda>(n, _). if n < 0 then say (text_ln msg) [] else ret ())"

definition skip :: "bytes \<Rightarrow> bytes" where
  "skip arg = dropWhile (\<lambda>c. c = 32) arg"

definition word1 :: "bytes \<Rightarrow> bytes" where
  "word1 s = takeWhile (\<lambda>c. c \<noteq> 32) s"

definition startswith :: "bytes \<Rightarrow> string \<Rightarrow> bool" where
  "startswith s p \<longleftrightarrow> take (length p) s = str p"

subsection \<open>Built-in commands\<close>

definition cmd_help :: "('k, unit) prog" where
  "cmd_help = in_turn (map (\<lambda>l. say (text_ln l) []) [''Available commands:'', ''  help'', ''  echo'', ''  clear'', ''  reboot'', ''  shutdown'', ''  poweroff'', ''  cat'',
     ''  grep'', ''  uptime'', ''  date'', ''  mkdir'', ''  rmdir'', ''  rm'', ''  cp'', ''  mv'', ''  cd'', ''  exec'', ''  touch'', ''  uname'', ''  ed'',
     ''  sh FILE'', ''  export [KEY=VALUE]'', ''  unset KEY'', ''  env''])"

text \<open>Without a file name the input is copied until it ends.\<close>

definition cmd_cat :: "'k os \<Rightarrow> bytes \<Rightarrow> ('k, unit) prog" where
  "cmd_cat os arg =
     (let arg = skip arg
      in if arg = [] then (\<lambda>s. (Done (), s\<lparr>sh_in := [], sh_out := sh_out s @ sh_in s\<rparr>))
         else after (syscall os (SYS_CAT arg 256)) (\<lambda>(n, buf).
           if n < 0 then say (text_ln ''cat: file not found: %s'') [Str (Some arg)] else say (str ''%s'') [Str (Some (take (nat n) buf))]))"

definition cmd_echo :: "bytes \<Rightarrow> ('k, unit) prog" where
  "cmd_echo arg = say (text_ln ''%s'') [Str (Some (skip arg))]"

definition cmd_uptime :: "'k os \<Rightarrow> ('k, unit) prog" where
  "cmd_uptime os =
     after (syscall os SYS_TICKS) (\<lambda>(n, _).
       (let sec = (of_int n :: u64) div 100; min = sec div 60; hr = min div 60; days = hr div 24
        in say (text_ln ''Up: %dd %dh %dm %ds'') (map (\<lambda>v. Num (ucast v)) [days, hr mod 24, min mod 60, sec mod 60])))"

definition cmd_date :: "'k os \<Rightarrow> ('k, unit) prog" where
  "cmd_date os = after (syscall os (SYS_DATETIME 32)) (\<lambda>(n, buf). if n > 0 then say (str ''%s'') [Str (Some (take (nat n) buf))] else ret ())"

definition cmd_ls :: "'k os \<Rightarrow> bytes option \<Rightarrow> ('k, unit) prog" where
  "cmd_ls os arg =
     after (syscall os (SYS_LS arg 400)) (\<lambda>(n, buf).
       if n < 0 then say (text_ln ''ls: no such directory'') [] else say (str ''%s'') [Str (Some (take (nat n) buf))])"

definition with_operand :: "bytes \<Rightarrow> string \<Rightarrow> (bytes \<Rightarrow> ('k, unit) prog) \<Rightarrow> ('k, unit) prog" where
  "with_operand arg msg p = (let arg = skip arg in if arg = [] then say (text_ln msg) [] else p arg)"

definition cmd_mkdir :: "'k os \<Rightarrow> bytes \<Rightarrow> ('k, unit) prog" where
  "cmd_mkdir os arg = with_operand arg ''mkdir: missing operand'' (\<lambda>arg. fails os (SYS_MKDIR arg) ''mkdir: failed'')"

definition cmd_rmdir :: "'k os \<Rightarrow> bytes \<Rightarrow> ('k, unit) prog" where
  "cmd_rmdir os arg = with_operand arg ''rmdir: missing operand'' (\<lambda>arg. fails os (SYS_RMDIR arg) ''rmdir: failed'')"

definition cmd_rm :: "'k os \<Rightarrow> bytes \<Rightarrow> ('k, unit) prog" where
  "cmd_rm os arg = with_operand arg ''rm: missing operand'' (\<lambda>arg. fails os (SYS_RM arg) ''rm: failed'')"

definition cmd_reboot :: "'k os \<Rightarrow> ('k, unit) prog" where
  "cmd_reboot os = after (say (text_ln ''Rebooting...'') []) (\<lambda>_. exec_call os SYS_REBOOT)"

definition seconds :: "bytes \<Rightarrow> u64" where
  "seconds arg = fold (\<lambda>c n. n * 10 + ucast (c - 48)) (takeWhile (\<lambda>c. 48 \<le> c \<and> c \<le> 57) arg) 0"

definition cmd_shutdown :: "'k os \<Rightarrow> bytes \<Rightarrow> ('k, unit) prog" where
  "cmd_shutdown os arg =
     (let arg = skip arg; down = after (say (text_ln ''Shutting down...'') []) (\<lambda>_. exec_call os SYS_SHUTDOWN)
      in if arg = [] then down
         else (let delay_ms = seconds arg * 1000
               in if delay_ms > 0
                  then after (say (text_ln ''Shutting down in %llu seconds...'') [Num (ucast (delay_ms div 1000))]) (\<lambda>_.
                         after (exec_call os (SYS_SLEEP delay_ms)) (\<lambda>_. down))
                  else down))"

definition cmd_cd :: "'k os \<Rightarrow> bytes \<Rightarrow> ('k, unit) prog" where
  "cmd_cd os arg = (let path = skip arg in fails os (SYS_CD (if path = [] then [47] else path)) ''cd: no such directory'')"

text \<open>A line of at most \<open>room\<close> characters and the input after it.\<close>

fun read_line_from_fd :: "nat \<Rightarrow> bytes \<Rightarrow> bytes \<times> bytes" where
  "read_line_from_fd 0 inp = ([], inp)"
| "read_line_from_fd (Suc room) [] = ([], [])"
| "read_line_from_fd (Suc room) (c # inp) =
     (if c = 10 then ([], inp) else (case read_line_from_fd room inp of (l, inp) \<Rightarrow> (c # l, inp)))"

lemma read_line_shorter: "read_line_from_fd n inp = (l, r) \<Longrightarrow> length r \<le> length inp \<and> (l \<noteq> [] \<longrightarrow> length r < length inp)"
  by (induction n inp arbitrary: l r rule: read_line_from_fd.induct) (fastforce split: if_splits prod.splits)+

function grep_loop :: "bytes \<Rightarrow> bytes \<Rightarrow> bytes \<Rightarrow> bytes \<times> bytes" where
  "grep_loop pattern inp out =
     (case read_line_from_fd 255 inp of
        (lbuf, rest) \<Rightarrow>
          if lbuf = [] then (rest, out)
          else grep_loop pattern rest (if first_match pattern (cstr lbuf) \<noteq> None then out @ cstr lbuf @ [10] else out))"
  by pat_completeness auto
termination
  by (relation "measure (\<lambda>(pattern, inp, out). length inp)") (auto dest: sym [THEN read_line_shorter])

declare grep_loop.simps [simp del]

definition cmd_grep :: "bytes \<Rightarrow> ('k, unit) prog" where
  "cmd_grep arg =
     (let arg = skip arg
      in if arg = [] then say (text_ln ''grep: missing pattern'') []
         else (\<lambda>s. case grep_loop (take 127 (word1 arg)) (sh_in s) (sh_out s) of (inp, out) \<Rightarrow> (Done (), s\<lparr>sh_in := inp, sh_out := out\<rparr>)))"

definition cmd_exec :: "'k os \<Rightarrow> bytes \<Rightarrow> ('k, unit) prog" where
  "cmd_exec os arg = with_operand arg ''exec: missing filename'' (\<lambda>arg. fails os (SYS_EXEC (word1 arg)) ''exec: failed'')"

text \<open>An operation on the variables; what it saves goes to the file \<^verbatim>\<open>/env\<close>.\<close>

definition update_vars :: "'k os \<Rightarrow> (env \<Rightarrow> env \<times> bytes option) \<Rightarrow> ('k, unit) prog \<Rightarrow> ('k, unit) prog" where
  "update_vars os f otherwise s =
     (case f (sh_vars s) of
        (E, None) \<Rightarrow> otherwise (s\<lparr>sh_vars := E\<rparr>)
      | (E, Some b) \<Rightarrow> exec_call os (SYS_WRITE_FILE (str ''/env'') b) (s\<lparr>sh_vars := E\<rparr>))"

definition cmd_export :: "'k os \<Rightarrow> bytes \<Rightarrow> ('k, unit) prog" where
  "cmd_export os arg =
     (let arg = skip arg; key = takeWhile (\<lambda>c. c \<noteq> 61) arg
      in if arg = [] then (\<lambda>s. in_turn (map (\<lambda>(k, v). say (str ''declare -x %s='' @ [34] @ str ''%s'' @ [34, 10]) [Str (Some k), Str (Some v)]) (env_list (sh_vars s))) s)
         else if length key = length arg then say (text_ln ''export: usage: export KEY=VALUE'') []
         else update_vars os (env_set (take (ENV_KEY_MAX - 1) key) (drop (length key + 1) arg)) (say (text_ln ''env: too many variables'') []))"

definition cmd_unset :: "'k os \<Rightarrow> bytes \<Rightarrow> ('k, unit) prog" where
  "cmd_unset os arg = with_operand arg ''unset: missing variable name'' (\<lambda>arg. update_vars os (env_unset arg) (ret ()))"

definition cmd_env_list :: "('k, unit) prog" where
  "cmd_env_list s = in_turn (map (\<lambda>(k, v). say (text_ln ''%s=%s'') [Str (Some k), Str (Some v)]) (env_list (sh_vars s))) s"

subsection \<open>Scripts, programs and pipes\<close>

text \<open>The argument \<open>run\<close> of these commands executes a command; \<open>n\<close> bounds the number of lines of a script.\<close>

definition script_line :: "bytes \<Rightarrow> bytes" where
  "script_line buf = dropWhile (\<lambda>c. c = 32 \<or> c = 9) (rev (dropWhile (\<lambda>c. c = 10 \<or> c = 13) (rev (cstr buf))))"

definition set_stream :: "nat \<Rightarrow> FILE \<Rightarrow> 'k sh \<Rightarrow> 'k sh" where
  "set_stream i f s = s\<lparr>sh_files := (sh_files s)\<lparr>file_table := (file_table (sh_files s))[i := f]\<rparr>\<rparr>"

primrec sh_loop :: "'k fsys_calls \<Rightarrow> (bytes \<Rightarrow> bool \<Rightarrow> ('k, unit) prog) \<Rightarrow> nat \<Rightarrow> nat \<Rightarrow> ('k, unit) prog" where
  "sh_loop S run i 0 = Pair Starved"
| "sh_loop S run i (Suc n) = (\<lambda>s.
     case fgets 256 (file_table (sh_files s) ! i) of
       (f, None) \<Rightarrow> (case fclose S f (sh_kern s) of (f, k, _) \<Rightarrow> (Done (), set_stream i f (s\<lparr>sh_kern := k\<rparr>)))
     | (f, Some buf) \<Rightarrow>
         (let p = script_line buf
          in if p = [] \<or> hd p = 35 then sh_loop S run i n (set_stream i f s)
             else after (run p True) (\<lambda>_. sh_loop S run i n) (set_stream i f s)))"

definition cmd_sh :: "'k fsys_calls \<Rightarrow> (bytes \<Rightarrow> bool \<Rightarrow> ('k, unit) prog) \<Rightarrow> nat \<Rightarrow> bytes \<Rightarrow> ('k, unit) prog" where
  "cmd_sh S run n arg = with_operand arg ''sh: missing filename'' (\<lambda>arg s.
     case fopen S (Some arg) (Some (str ''r'')) (sh_files s) (sh_kern s) of
       (L, k, r) \<Rightarrow>
         (let s = s\<lparr>sh_files := L, sh_kern := k\<rparr>
          in case r of NULL \<Rightarrow> say (text_ln ''sh: cannot open: %s'') [Str (Some arg)] s | Stream i \<Rightarrow> sh_loop S run i n s | Fault \<Rightarrow> (Gone, s)))"

text \<open>The parts of a text between colons.\<close>

fun split_colon :: "bytes \<Rightarrow> bytes list" where
  "split_colon [] = [[]]"
| "split_colon (c # cs) = (if c = 58 then [] # split_colon cs else (case split_colon cs of l # ls \<Rightarrow> (c # l) # ls | [] \<Rightarrow> [[c]]))"

definition try_path_exec :: "'k os \<Rightarrow> bytes \<Rightarrow> ('k, unit) prog" where
  "try_path_exec os cmd s =
     (case env_get (str ''PATH'') (sh_vars s) of
        None \<Rightarrow> exec_call os (SYS_EXEC cmd) s
      | Some path \<Rightarrow>
          in_turn (map (\<lambda>dir. exec_call os (SYS_EXEC (dir @ [47] @ word1 cmd))) (filter (\<lambda>dir. dir \<noteq> []) (split_colon (take 255 path)))
                   @ [exec_call os (SYS_EXEC cmd)]) s)"

definition fds_end :: "nat \<Rightarrow> bytes \<Rightarrow> int" where
  "fds_end i fds = sint (le_word (take 4 (drop (4 * i) fds)) :: u32)"

definition cmd_pipe :: "'k os \<Rightarrow> (bytes \<Rightarrow> bool \<Rightarrow> ('k, unit) prog) \<Rightarrow> bytes \<Rightarrow> bytes \<Rightarrow> ('k, unit) prog" where
  "cmd_pipe os run left right =
     (let left = skip left; right = skip right
      in if left = [] \<or> right = [] then say (text_ln ''pipe: missing command'') []
         else after (syscall os SYS_PIPE) (\<lambda>(n, fds).
           if n < 0 then say (text_ln ''pipe: failed to create pipe'') []
           else (let r = fds_end 0 fds; w = fds_end 1 fds;
                     child = (\<lambda>fd std cmd. in_turn [exec_call os (SYS_DUP2 fd std), exec_call os (SYS_CLOSE r), exec_call os (SYS_CLOSE w),
                                run cmd True, exec_call os (SYS_EXIT 0)])
                 in after (syscall os SYS_FORK) (\<lambda>(pid1, _).
                      after (if pid1 = 0 then child w 1 left else ret ()) (\<lambda>_.
                      after (syscall os SYS_FORK) (\<lambda>(pid2, _).
                      after (if pid2 = 0 then child r 0 right else ret ()) (\<lambda>_.
                        in_turn [exec_call os (SYS_CLOSE r), exec_call os (SYS_CLOSE w), exec_call os (SYS_WAITPID pid1), exec_call os (SYS_WAITPID pid2)])))))))"

text \<open>Two file names, for \<^verbatim>\<open>cp\<close> and \<^verbatim>\<open>mv\<close>.\<close>

definition two_names :: "'k os \<Rightarrow> string \<Rightarrow> (bytes \<Rightarrow> bytes \<Rightarrow> call) \<Rightarrow> bytes \<Rightarrow> ('k, unit) prog" where
  "two_names os name mk args =
     with_operand args (name @ '': missing file arguments'') (\<lambda>args.
       if 32 \<notin> set args then say (text_ln (name @ '': missing destination'')) []
       else fails os (mk (word1 args) (skip (drop (length (word1 args) + 1) args))) (name @ '': failed''))"

definition run_ed :: "'k os \<Rightarrow> ('k, unit) prog" where
  "run_ed os =
     after (syscall os SYS_FORK) (\<lambda>(pid, _).
       after (if pid = 0 then in_turn [exec_call os (SYS_EXEC (str ''/bin/ed'')), say (text_ln ''ed: not found'') [], exec_call os (SYS_EXIT 127)]
              else ret ()) (\<lambda>_. exec_call os (SYS_WAITPID pid)))"

definition run_program :: "'k os \<Rightarrow> 'k fsys_calls \<Rightarrow> (bytes \<Rightarrow> bool \<Rightarrow> ('k, unit) prog) \<Rightarrow> nat \<Rightarrow> bytes \<Rightarrow> bool \<Rightarrow> ('k, unit) prog" where
  "run_program os S run n cmd allow_exec =
     (if 47 \<in> set (word1 cmd) then
        after (syscall os SYS_FORK) (\<lambda>(pid, _).
          after (if pid = 0 then in_turn [exec_call os (SYS_EXEC cmd), exec_call os (SYS_EXIT 127)] else ret ()) (\<lambda>_.
            after (syscall os (SYS_WAITPID pid)) (\<lambda>(r, _). if r = 127 then cmd_sh S run n cmd else ret ())))
      else in_turn [if allow_exec then try_path_exec os (word1 cmd) else ret (), say (text_ln ''unknown command: %s'') [Str (Some cmd)]])"

subsection \<open>Execution\<close>

definition dispatch :: "'k os \<Rightarrow> 'k fsys_calls \<Rightarrow> (bytes \<Rightarrow> bool \<Rightarrow> ('k, unit) prog) \<Rightarrow> nat \<Rightarrow> bytes \<Rightarrow> bool \<Rightarrow> ('k, unit) prog" where
  "dispatch os S run n cmd allow_exec =
     (if 124 \<in> set cmd then cmd_pipe os run (takeWhile (\<lambda>c. c \<noteq> 124) cmd) (drop 1 (dropWhile (\<lambda>c. c \<noteq> 124) cmd))
      else if cmd = str ''help'' then cmd_help
      else if cmd = str ''clear'' then exec_call os SYS_CLEAR
      else if cmd = str ''uptime'' then cmd_uptime os
      else if cmd = str ''date'' then cmd_date os
      else if cmd = str ''reboot'' then cmd_reboot os
      else if startswith cmd ''shutdown '' then cmd_shutdown os (drop 8 cmd)
      else if cmd = str ''shutdown'' \<or> cmd = str ''poweroff'' \<or> cmd = str ''exit'' then cmd_shutdown os []
      else if startswith cmd ''echo '' then cmd_echo (drop 5 cmd)
      else if cmd = str ''echo'' then say [10] []
      else if startswith cmd ''cat '' then cmd_cat os (drop 4 cmd)
      else if cmd = str ''cat'' then cmd_cat os []
      else if startswith cmd ''ls'' then cmd_ls os (if chr_at cmd 2 = 32 then Some (drop 3 cmd) else if chr_at cmd 2 \<noteq> 0 then Some (drop 2 cmd) else None)
      else if startswith cmd ''mkdir '' then cmd_mkdir os (drop 6 cmd)
      else if startswith cmd ''rmdir '' then cmd_rmdir os (drop 6 cmd)
      else if startswith cmd ''rm '' then cmd_rm os (drop 3 cmd)
      else if startswith cmd ''cd '' then cmd_cd os (drop 3 cmd)
      else if cmd = str ''cd'' then cmd_cd os []
      else if startswith cmd ''grep '' then cmd_grep (drop 5 cmd)
      else if cmd = str ''grep'' then cmd_grep []
      else if startswith cmd ''exec '' then cmd_exec os (drop 5 cmd)
      else if startswith cmd ''cp '' then two_names os ''cp'' SYS_CP (drop 3 cmd)
      else if startswith cmd ''mv '' then two_names os ''mv'' SYS_MV (drop 3 cmd)
      else if startswith cmd ''touch '' then with_operand (drop 6 cmd) ''touch: missing file operand'' (\<lambda>arg. exec_call os (SYS_TOUCH arg))
      else if cmd = str ''touch'' then say (text_ln ''touch: missing file operand'') []
      else if cmd = str ''uname'' then say (text_ln ''some-tiny-os some-tiny-os 0.4 x86_64 some-tiny-os'') []
      else if startswith cmd ''export'' then cmd_export os (drop 6 cmd)
      else if startswith cmd ''unset '' then cmd_unset os (drop 6 cmd)
      else if startswith cmd ''sh '' then cmd_sh S run n (drop 3 cmd)
      else if cmd = str ''sh'' then cmd_sh S run n []
      else if startswith cmd ''ed'' then run_ed os
      else if cmd = str ''env'' then cmd_env_list
      else run_program os S run n cmd allow_exec)"

text \<open>A pipe or a script executes commands in turn, and an expanded variable may hold another pipe: the fuel \<open>n\<close> bounds the
  depth and \<open>Starved\<close> is the outcome of a run that needs more.\<close>

primrec execute :: "'k os \<Rightarrow> 'k fsys_calls \<Rightarrow> nat \<Rightarrow> bytes \<Rightarrow> bool \<Rightarrow> ('k, unit) prog" where
  "execute os S 0 = (\<lambda>cmd allow_exec. Pair Starved)"
| "execute os S (Suc n) = (\<lambda>cmd allow_exec s.
     (let cmd = skip cmd
      in if cmd = [] then (Done (), s)
         else dispatch os S (execute os S n) n (expand_env (sh_vars s) LINE_MAX cmd) allow_exec s))"

text \<open>One round of the loop of \<^verbatim>\<open>main\<close>: the prompt, a line from the keys \<open>cs\<close>, its place in the history, its execution.\<close>

definition main_round ::
  "'d tty \<Rightarrow> (bytes \<Rightarrow> bytes option) \<Rightarrow> 'k os \<Rightarrow> 'k fsys_calls \<Rightarrow> nat \<Rightarrow> input list \<Rightarrow> 'd shell \<Rightarrow> 'k sh \<Rightarrow>
   ('d shell \<times> input list \<times> unit outcome \<times> 'k sh) option" where
  "main_round T ls os S n cs ed s =
     (case shell_readline T ls cs ed of
        None \<Rightarrow> None
      | Some (ed, cs) \<Rightarrow>
          Some (if chr_at (line ed) 0 \<noteq> 0 then history_add (line ed) ed else ed, cs,
                after (say (str ''some-tiny-os$ '') []) (\<lambda>_. execute os S n (cstr (line ed)) False) s))"

subsection \<open>Properties\<close>

lemma first_match_sublist: "first_match p l \<noteq> None \<longleftrightarrow> sublist p l"
proof
  assume "first_match p l \<noteq> None"
  then obtain i where i: "take (length p) (drop i l) = p" by (auto simp: first_match_def find_Some_iff)
  have "l = take i l @ take (length p) (drop i l) @ drop (length p) (drop i l)" by (metis append_take_drop_id)
  then show "sublist p l" unfolding i sublist_def by metis
next
  assume "sublist p l"
  then obtain xs ys where "l = xs @ p @ ys" by (auto simp: sublist_def)
  then have "\<exists>i \<in> set [0..<Suc (length l)]. take (length p) (drop i l) = p" by (intro bexI [of _ "length xs"]) auto
  then show "first_match p l \<noteq> None" unfolding first_match_def find_None_iff by blast
qed

lemma split_lines_ne [simp]: "split_lines cs \<noteq> []"
  by (induction cs) (auto split: list.splits)

lemma read_line_split:
  assumes "split_lines inp = l # ls" "length l < room"
  shows "\<exists>r. read_line_from_fd room inp = (l, r) \<and> split_lines r = (if ls = [] then [[]] else ls)"
  using assms
proof (induction inp arbitrary: l ls room)
  case Nil
  then show ?case by (cases room) auto
next
  case (Cons c inp)
  obtain m where m: "room = Suc m" using Cons.prems(2) by (cases room) auto
  show ?case
  proof (cases "c = 10")
    case True
    then show ?thesis using Cons.prems m split_lines_ne [of inp] by auto
  next
    case False
    obtain k ks where k: "split_lines inp = k # ks" using split_lines_ne [of inp] by (cases "split_lines inp") auto
    then have "l = c # k" "ls = ks" using Cons.prems(1) False by auto
    then show ?thesis using Cons.IH [OF k, of m] Cons.prems(2) m False by auto
  qed
qed

definition grep_lines :: "bytes \<Rightarrow> bytes list \<Rightarrow> bytes" where
  "grep_lines pat ls = concat (map (\<lambda>l. l @ [10]) (filter (\<lambda>l. sublist pat l) (takeWhile (\<lambda>l. l \<noteq> []) ls)))"

lemma grep_loop_lines:
  assumes "\<forall>l \<in> set (split_lines inp). length l < 255 \<and> 0 \<notin> set l"
  shows "\<exists>r. grep_loop pat inp out = (r, out @ grep_lines pat (split_lines inp))"
  using assms
proof (induction pat inp out rule: grep_loop.induct)
  case (1 pat inp out)
  obtain l ls where l: "split_lines inp = l # ls" using split_lines_ne [of inp] by (cases "split_lines inp") auto
  then have ok: "length l < 255" "cstr l = l" using "1.prems" by simp_all
  obtain r where r: "read_line_from_fd 255 inp = (l, r)" "split_lines r = (if ls = [] then [[]] else ls)" using read_line_split [OF l ok(1)] by blast
  show ?case
  proof (cases "l = []")
    case False
    have "\<forall>l \<in> set (split_lines r). length l < 255 \<and> 0 \<notin> set l" using "1.prems" l r(2) by auto
    moreover have "grep_lines pat (split_lines r) = grep_lines pat ls" using r(2) by (simp add: grep_lines_def)
    ultimately show ?thesis
      using "1.IH" [OF r(1) [symmetric] False] False l ok(2) r(1) first_match_sublist [of pat l]
      by (subst grep_loop.simps) (auto simp: grep_lines_def)
  qed (subst grep_loop.simps, simp add: r l grep_lines_def)
qed

text \<open>C38: \<^verbatim>\<open>grep\<close> prints the lines of its input that contain the pattern, in order, up to the first empty line, when every line
  is shorter than the buffer.\<close>

theorem cmd_grep_correct:
  assumes "skip arg \<noteq> []" "\<forall>l \<in> set (split_lines (sh_in s)). length l < 255 \<and> 0 \<notin> set l"
  shows "\<exists>r. cmd_grep arg s = (Done (), s\<lparr>sh_in := r, sh_out := sh_out s @
     concat (map (\<lambda>l. l @ [10]) (filter (\<lambda>l. sublist (take 127 (word1 (skip arg))) l) (takeWhile (\<lambda>l. l \<noteq> []) (split_lines (sh_in s)))))\<rparr>)"
  using grep_loop_lines [OF assms(2)] assms(1) by (auto simp: cmd_grep_def Let_def grep_lines_def split: prod.split) (metis prod.inject)

lemma expand_all_plain: "36 \<notin> set s \<Longrightarrow> expand_all vars s = s"
  by (induction s) auto

lemma expand_env_plain:
  assumes "env_ok E" "36 \<notin> set s" "0 \<notin> set s" "length s < limit - 1"
  shows "expand_env E limit s = s"
  using expand_loop_all [OF assms(1,3), of "[]" limit] assms(2-4) by (auto simp: expand_env_def expand_all_plain)

text \<open>The command \<^verbatim>\<open>export KEY=VALUE\<close> sets the variable and hands the new table to the file system.\<close>

theorem execute_export:
  assumes "env_ok (sh_vars s)" "k \<noteq> []" "hd k \<noteq> 32" "61 \<notin> set k" "length k < ENV_KEY_MAX" "{0, 36, 124} \<inter> set (k @ v) = {}"
    and "length (k @ v) < 247" "k \<in> dom (env_vars (sh_vars s)) \<or> env_count (sh_vars s) < ENV_MAX"
  shows "\<exists>E'. env_ok E' \<and> env_vars E' = (env_vars (sh_vars s))(k \<mapsto> take (ENV_VAL_MAX - 1) v) \<and>
    execute os S (Suc n) (str ''export '' @ k @ 61 # v) allow_exec s =
      exec_call os (SYS_WRITE_FILE (str ''/env'') (env_save E')) (s\<lparr>sh_vars := E'\<rparr>)"
proof -
  let ?cmd = "str ''export '' @ k @ 61 # v"
  have n: "cstr k = k" "cstr v = v" using assms(6) by auto
  have c: "skip ?cmd = ?cmd" "?cmd \<noteq> []" by (simp_all add: str_def skip_def)
  have e: "expand_env (sh_vars s) LINE_MAX ?cmd = ?cmd"
    using assms(1,6,7) by (intro expand_env_plain) (auto simp: str_def LINE_MAX_def)
  have "124 \<notin> set ?cmd" using assms(6) by (auto simp: str_def)
  then have d: "dispatch os S run m ?cmd allow_exec = cmd_export os (drop 6 ?cmd)" for run m
    unfolding dispatch_def by (simp add: startswith_def str_def)
  have "skip (drop 6 ?cmd) = k @ 61 # v" using assms(2,3) by (cases k) (simp_all add: str_def skip_def)
  moreover have "takeWhile (\<lambda>c. c \<noteq> 61) (k @ 61 # v) = k" using assms(4) by (auto simp: takeWhile_append)
  ultimately have x: "cmd_export os (drop 6 ?cmd) = update_vars os (env_set k v) (say (text_ln ''env: too many variables'') [])"
    using assms(2,5) by (simp add: cmd_export_def)
  obtain E' where "env_set k v (sh_vars s) = (E', Some (env_save E'))" "env_ok E'" "env_vars E' = (env_vars (sh_vars s))(k \<mapsto> take (ENV_VAL_MAX - 1) v)"
    using env_set_vars [OF assms(1), of k v] assms(5,8) n by auto
  then show ?thesis using c e d x by (auto simp: update_vars_def Let_def)
qed

text \<open>C39: no script is ever run: whatever the file holds, \<^verbatim>\<open>sh\<close> reports that it cannot be opened.\<close>

theorem cmd_sh_fails:
  assumes "file_table (sh_files s) = file_table initial_files" "skip arg \<noteq> []"
  shows "\<exists>k'. cmd_sh S run n arg s = say (text_ln ''sh: cannot open: %s'') [Str (Some (skip arg))] (s\<lparr>sh_kern := k'\<rparr>)"
proof -
  obtain k' where "fopen S (Some (skip arg)) (Some (str ''r'')) (sh_files s) (sh_kern s) = (sh_files s, k', NULL)"
    using fopen_fails [OF assms(1), of S "Some (skip arg)" "Some (str ''r'')" "sh_kern s"] by metis
  then show ?thesis using assms(2) by (auto simp: cmd_sh_def with_operand_def Let_def)
qed

text \<open>A system whose calls succeed without effect, and a shell with two lines of input.\<close>

definition quiet :: "unit os" where
  "quiet c k = (k, Some (0, []))"

definition two_lines :: "unit sh" where
  "two_lines = \<lparr>sh_in = [97, 98, 10, 99, 10], sh_out = [], sh_vars = env0, sh_files = initial_files, sh_kern = ()\<rparr>"

theorem cmd_grep_correct_witness: "sh_out (snd (cmd_grep [98] two_lines)) = [97, 98, 10]"
proof -
  have "sublist [98] [97, 98 :: u8]" "\<not> sublist [98] [99 :: u8]" by (auto simp: sublist_code)
  then show ?thesis using cmd_grep_correct [of "[98]" two_lines] by (auto simp: two_lines_def skip_def word1_def)
qed

theorem execute_export_witness:
  "env_vars (sh_vars (snd (execute quiet generous 1 (str ''export A=B'') False two_lines))) = [[65] \<mapsto> [66]]"
proof -
  have v: "sh_vars two_lines = env0" "env_count env0 = 0" by (simp_all add: two_lines_def env0_def)
  have "\<exists>E'. env_ok E' \<and> env_vars E' = (env_vars (sh_vars two_lines))([65] \<mapsto> take (ENV_VAL_MAX - 1) [66]) \<and>
    execute quiet generous (Suc 0) (str ''export '' @ [65] @ 61 # [66]) False two_lines =
      exec_call quiet (SYS_WRITE_FILE (str ''/env'') (env_save E')) (two_lines\<lparr>sh_vars := E'\<rparr>)"
    by (rule execute_export) (simp_all add: v env0_ok ENV_MAX_def ENV_KEY_MAX_def)
  then show ?thesis
    by (auto simp: str_def exec_call_def after_def syscall_def quiet_def ret_def two_lines_def env0_ok ENV_VAL_MAX_def simp del: execute.simps)
qed

theorem cmd_sh_fails_witness:
  "sh_out (snd (cmd_sh generous (\<lambda>_ _. ret ()) 1 [97] two_lines)) = str ''sh: cannot open: a'' @ [10]"
proof -
  have "format_loop (text_ln ''sh: cannot open: %s'') [Str (Some [97])] [] = Some (str ''sh: cannot open: a'' @ [10])" by code_simp
  moreover have "skip [97] = [97]" by (simp add: skip_def)
  ultimately show ?thesis using cmd_sh_fails [of two_lines "[97]" generous "\<lambda>_ _. ret ()" 1] by (auto simp: two_lines_def say_def put_out_def)
qed

end
