(* ===== verification/Ed.thy ===== *)
theory Ed
  imports Commands
begin

text \<open>
  The line editor \<^verbatim>\<open>userspace/ed.c\<close>. The array of lines holds pointers, \<open>None\<close> where one is null. The allocator and the
  system calls are the argument \<open>ed_sys\<close>. Undefined behaviour (a null line that is read, a line that the end of the input cuts
  off) is the result \<open>None\<close>. Line numbers do not wrap.
\<close>

definition MAX_LINES :: nat where "MAX_LINES = 512"
definition MAX_LINE_LEN :: nat where "MAX_LINE_LEN = 256"

record 'm ed_sys =
  ed_malloc :: "nat \<Rightarrow> 'm \<Rightarrow> 'm \<times> bool"
  ed_free :: "'m \<Rightarrow> 'm"
  ed_cat :: "bytes \<Rightarrow> nat \<Rightarrow> 'm \<Rightarrow> bytes option"
  ed_write :: "bytes \<Rightarrow> bytes \<Rightarrow> 'm \<Rightarrow> 'm \<times> bool"

record 'm ed =
  ed_lines :: "bytes option list"
  line_count :: nat
  current_line :: int
  filename :: bytes
  modified :: bool
  ed_in :: bytes
  ed_out :: bytes
  ed_mem :: 'm

text \<open>The characters of a line with backspace applied, the input after it, and whether a newline or the size of the
  buffer ended it.\<close>

function read_line :: "nat \<Rightarrow> bytes \<Rightarrow> bytes \<Rightarrow> bytes \<times> bytes \<times> bool" where
  "read_line room buf inp =
     (if \<not> length buf < room then (buf, inp, True)
      else case inp of
        [] \<Rightarrow> (buf, [], False)
      | c # inp \<Rightarrow> if c = 10 then (buf, inp, True) else if c = 8 then read_line room (butlast buf) inp else read_line room (buf @ [c]) inp)"
  by pat_completeness auto
termination
  by (relation "measure (\<lambda>(room, buf, inp). length inp)") auto

declare read_line.simps [simp del]

text \<open>What is drawn meanwhile: each backspace wipes a character.\<close>

function read_echo :: "nat \<Rightarrow> bytes \<Rightarrow> bytes \<Rightarrow> bytes" where
  "read_echo room buf inp =
     (if \<not> length buf < room then []
      else case inp of
        [] \<Rightarrow> []
      | c # inp \<Rightarrow> if c = 10 then [] else if c = 8 then (if buf = [] then [] else [8, 32, 8]) @ read_echo room (butlast buf) inp
                   else read_echo room (buf @ [c]) inp)"
  by pat_completeness auto
termination
  by (relation "measure (\<lambda>(room, buf, inp). length inp)") auto

declare read_echo.simps [simp del]

definition print :: "bytes \<Rightarrow> arg list \<Rightarrow> 'm ed \<Rightarrow> 'm ed" where
  "print fmt args s = (case format_loop fmt args [] of None \<Rightarrow> s | Some out \<Rightarrow> s\<lparr>ed_out := ed_out s @ out\<rparr>)"

definition huh :: "'m ed \<Rightarrow> 'm ed" where
  "huh s = print [63, 10] [] s"

definition free_lines :: "'m ed_sys \<Rightarrow> 'm ed \<Rightarrow> 'm ed" where
  "free_lines S s = s\<lparr>ed_lines := replicate (line_count s) None @ drop (line_count s) (ed_lines s), line_count := 0, current_line := 0,
     ed_mem := (ed_free S ^^ line_count s) (ed_mem s)\<rparr>"

function load_loop :: "'m ed_sys \<Rightarrow> bytes \<Rightarrow> 'm ed \<Rightarrow> 'm ed" where
  "load_loop S p s =
     (if p \<noteq> [] \<and> line_count s < MAX_LINES then
        (let l = takeWhile (\<lambda>c. c \<noteq> 10) p; (m, ok) = ed_malloc S (length l + 1) (ed_mem s)
         in if ok then load_loop S (drop (length l + 1) p)
                    (s\<lparr>ed_mem := m, ed_lines := (ed_lines s)[line_count s := Some l], line_count := line_count s + 1\<rparr>)
            else s\<lparr>ed_mem := m, ed_lines := (ed_lines s)[line_count s := None]\<rparr>)
      else s)"
  by pat_completeness auto
termination
  by (relation "measure (\<lambda>(S, p, s). length p)") auto

declare load_loop.simps [simp del]

definition load_file :: "'m ed_sys \<Rightarrow> bytes \<Rightarrow> 'm ed \<Rightarrow> 'm ed \<times> bool" where
  "load_file S fname s =
     (case ed_cat S fname 4095 (ed_mem s) of
        None \<Rightarrow> (s, False)
      | Some buf \<Rightarrow> (load_loop S (cstr buf) (free_lines S s), True))"

fun save_loop :: "bytes \<Rightarrow> bytes option list \<Rightarrow> bytes option" where
  "save_loop buf [] = Some buf"
| "save_loop buf (None # ls) = None"
| "save_loop buf (Some l # ls) = (if length buf + length l + 1 \<ge> 4096 then Some buf else save_loop (buf @ l @ [10]) ls)"

text \<open>The number of lines, or -1; \<open>None\<close> where a null line is read.\<close>

definition save_file :: "'m ed_sys \<Rightarrow> bytes \<Rightarrow> 'm ed \<Rightarrow> ('m ed \<times> int) option" where
  "save_file S fname s =
     (case save_loop [] (take (line_count s) (ed_lines s)) of
        None \<Rightarrow> None
      | Some buf \<Rightarrow> (case ed_write S fname buf (ed_mem s) of (m, ok) \<Rightarrow> Some (s\<lparr>ed_mem := m\<rparr>, if ok then int (line_count s) else -1)))"

definition print_lines :: "int \<Rightarrow> int \<Rightarrow> 'm ed \<Rightarrow> 'm ed" where
  "print_lines from to s =
     (let from = max from 1; to = min to (int (line_count s));
          s = fold (\<lambda>i. print (str ''%d'' @ [9] @ text_ln ''%s'') [Num (of_nat i), Str (ed_lines s ! (i - 1))]) [nat from..<nat (to + 1)] s
      in if to \<ge> from \<and> line_count s > 0 then s\<lparr>current_line := to\<rparr> else s)"

definition parse_num :: "bytes \<Rightarrow> int \<times> bytes" where
  "parse_num p =
     (let ds = takeWhile (\<lambda>c. 48 \<le> c \<and> c \<le> 57) p
      in (if ds = [] then -1 else fold (\<lambda>c n. n * 10 + uint (c - 48)) ds 0, drop (length ds) p))"

subsection \<open>Changing lines\<close>

text \<open>The lines from \<open>at\<close> on move up by one place; then the line is stored.\<close>

definition open_line :: "nat \<Rightarrow> bytes option \<Rightarrow> 'm ed \<Rightarrow> 'm ed" where
  "open_line at l s = s\<lparr>ed_lines := (put_at (at + 1) (drop at (take (line_count s) (ed_lines s))) (ed_lines s))[at := l]\<rparr>"

lemma read_line_size: "read_line room buf inp = (l, r, c) \<Longrightarrow> length l + length r \<le> length buf + length inp"
proof (induction room buf inp rule: read_line.induct)
  case (1 room buf inp)
  show ?case
  proof (cases inp)
    case (Cons d inp')
    then show ?thesis using "1.prems" "1.IH" by (subst (asm) read_line.simps) (fastforce split: if_splits)
  qed (use "1.prems" in \<open>subst (asm) read_line.simps, auto split: if_splits\<close>)
qed

lemma read_line_less: "(l, r, c) = read_line room [] inp \<Longrightarrow> l = [] \<or> length r < length inp"
  using read_line_size [of room "[]" inp l r c] by (cases l) auto

lemma print_fields [simp]: "ed_in (print fmt args s) = ed_in s" "ed_lines (print fmt args s) = ed_lines s" "line_count (print fmt args s) = line_count s"
    "ed_mem (print fmt args s) = ed_mem s" "current_line (print fmt args s) = current_line s" "modified (print fmt args s) = modified s"
    "filename (print fmt args s) = filename s"
  by (simp_all add: print_def split: option.split)

function insert_loop :: "'m ed_sys \<Rightarrow> nat \<Rightarrow> 'm ed \<Rightarrow> 'm ed option" where
  "insert_loop S at s =
     (let s = print (str ''? '') [] s
      in case read_line (MAX_LINE_LEN - 1) [] (ed_in s) of
           (buf, inp, complete) \<Rightarrow>
             (let s = s\<lparr>ed_in := inp, ed_out := ed_out s @ read_echo (MAX_LINE_LEN - 1) [] (ed_in s)\<rparr>
              in if buf = [] then Some s
                 else if \<not> complete then None
                 else if cstr buf = [46] then Some s
                 else if line_count s \<ge> MAX_LINES then Some s
                 else (case ed_malloc S (length buf + 1) (ed_mem s) of
                         (m, ok) \<Rightarrow>
                           if \<not> ok then Some (open_line at None (s\<lparr>ed_mem := m\<rparr>))
                           else insert_loop S (at + 1)
                                  ((open_line at (Some (cstr buf)) (s\<lparr>ed_mem := m\<rparr>))\<lparr>line_count := line_count s + 1, modified := True\<rparr>))))"
  by pat_completeness auto
termination
  by (relation "measure (\<lambda>(S, at, s). length (ed_in s))") (auto simp: open_line_def dest!: read_line_less)

declare insert_loop.simps [simp del]

definition do_insert :: "'m ed_sys \<Rightarrow> int \<Rightarrow> 'm ed \<Rightarrow> 'm ed option" where
  "do_insert S at s = insert_loop S (nat (min (max at 0) (int (line_count s)))) s"

definition do_delete :: "'m ed_sys \<Rightarrow> int \<Rightarrow> int \<Rightarrow> 'm ed \<Rightarrow> 'm ed" where
  "do_delete S from to s =
     (let from = max from 1; to = min to (int (line_count s))
      in if from > to \<or> from > int (line_count s) then s
         else (let count = nat (to - from + 1); n = line_count s - count
               in s\<lparr>ed_mem := (ed_free S ^^ count) (ed_mem s),
                    ed_lines := put_at (nat from - 1) (drop (nat to) (take (line_count s) (ed_lines s))) (ed_lines s),
                    line_count := n, modified := True,
                    current_line := (if current_line s > int n \<and> n > 0 then int n else current_line s)\<rparr>))"

definition substitute_line :: "'m ed_sys \<Rightarrow> bytes \<Rightarrow> bytes \<Rightarrow> nat \<Rightarrow> 'm ed option \<Rightarrow> 'm ed option" where
  "substitute_line S pattern replacement i so =
     (case so of None \<Rightarrow> None | Some s \<Rightarrow>
      case ed_lines s ! i of None \<Rightarrow> None | Some l \<Rightarrow>
      case first_match pattern l of None \<Rightarrow> Some s | Some idx \<Rightarrow>
        (case ed_malloc S (length l - length pattern + length replacement + 1) (ed_mem s) of
           (m, ok) \<Rightarrow>
             if \<not> ok then Some (s\<lparr>ed_mem := m\<rparr>)
             else Some (s\<lparr>ed_mem := ed_free S m, modified := True,
               ed_lines := (ed_lines s)[i := Some (take idx l @ replacement @ drop (idx + length pattern) l)]\<rparr>)))"

definition do_substitute :: "'m ed_sys \<Rightarrow> bytes \<Rightarrow> bytes \<Rightarrow> int \<Rightarrow> int \<Rightarrow> 'm ed \<Rightarrow> 'm ed option" where
  "do_substitute S pattern replacement from to s =
     fold (substitute_line S pattern replacement) [nat (max from 1 - 1)..<nat (min to (int (line_count s)))] (Some s)"

subsection \<open>Commands\<close>

text \<open>The result of a command is the new state and whether the editor ends.\<close>

definition go :: "'m ed \<Rightarrow> ('m ed \<times> bool) option" where
  "go s = Some (s, False)"

definition go_on :: "'m ed option \<Rightarrow> ('m ed \<times> bool) option" where
  "go_on so = map_option (\<lambda>s. (s, False)) so"

definition file_name :: "bytes \<Rightarrow> bytes" where
  "file_name p = take 255 (word1 p)"

definition write_cmd :: "'m ed_sys \<Rightarrow> bytes \<Rightarrow> 'm ed \<Rightarrow> ('m ed \<times> bool) option" where
  "write_cmd S arg s =
     (if arg = [] \<and> filename s = [] then go (huh s)
      else (let fname = (if arg = [] then filename s else file_name arg)
            in case save_file S fname s of
                 None \<Rightarrow> None
               | Some (s, rc) \<Rightarrow>
                   if rc \<ge> 0 then go (print (text_ln ''%d'') [Num (of_int rc)] (s\<lparr>filename := (if filename s = [] then fname else filename s), modified := False\<rparr>))
                   else go (huh s)))"

definition edit_cmd :: "'m ed_sys \<Rightarrow> bytes \<Rightarrow> 'm ed \<Rightarrow> ('m ed \<times> bool) option" where
  "edit_cmd S arg s =
     (if modified s \<or> arg = [] \<and> filename s = [] then go (huh s)
      else (let fname = (if arg = [] then filename s else file_name arg)
            in case load_file S fname s of
                 (s, True) \<Rightarrow> go (print (text_ln ''%d'') [Num (of_nat (line_count s))] (s\<lparr>filename := fname, modified := False\<rparr>))
               | (s, False) \<Rightarrow> go (huh s)))"

definition file_cmd :: "bytes \<Rightarrow> 'm ed \<Rightarrow> ('m ed \<times> bool) option" where
  "file_cmd arg s =
     (let s = (if arg = [] then s else s\<lparr>filename := file_name arg\<rparr>)
      in go (print (text_ln ''%s'') [Str (Some (if filename s = [] then str ''(no file)'' else filename s))] s))"

definition subst_cmd :: "'m ed_sys \<Rightarrow> bytes \<Rightarrow> int \<Rightarrow> 'm ed \<Rightarrow> ('m ed \<times> bool) option" where
  "subst_cmd S p at s =
     (let pattern = take 127 (takeWhile (\<lambda>c. c \<noteq> 47) p);
          p = drop (length pattern) p;
          p = (if chr_at p 0 = 47 then drop 1 p else p);
          replacement = take 127 (takeWhile (\<lambda>c. c \<noteq> 47) p)
      in if pattern = [] then go s else go_on (do_substitute S pattern replacement at at s))"

definition all_cmd :: "'m ed_sys \<Rightarrow> bytes \<Rightarrow> 'm ed \<Rightarrow> ('m ed \<times> bool) option" where
  "all_cmd S p s =
     (let c = chr_at p 0; ends = (chr_at p 1 = 32 \<or> chr_at p 1 = 0); none = (skip (drop 1 p) = [])
      in if c = 97 \<and> ends then (if none then go_on (do_insert S (int (line_count s)) s) else go (huh s))
         else if c = 100 \<and> ends then (if none then go (do_delete S 1 (int (line_count s)) s) else go (huh s))
         else if c = 112 \<or> c = 0 then go (print_lines 1 (int (line_count s)) s)
         else go (huh s))"

definition last_cmd :: "'m ed_sys \<Rightarrow> bytes \<Rightarrow> 'm ed \<Rightarrow> ('m ed \<times> bool) option" where
  "last_cmd S p s =
     (let c = chr_at p 0; n = int (line_count s)
      in if c = 0 \<or> c = 112 then go (if n > 0 then print_lines n n s else huh s)
         else if c = 100 then go (do_delete S n n s)
         else if c = 97 then go_on (do_insert S n s)
         else go (huh s))"

definition dot_cmd :: "'m ed_sys \<Rightarrow> bytes \<Rightarrow> 'm ed \<Rightarrow> ('m ed \<times> bool) option" where
  "dot_cmd S p s =
     (let c = chr_at p 0; cur = current_line s; inside = (1 \<le> cur \<and> cur \<le> int (line_count s))
      in if c = 0 \<or> c = 112 then go (if inside then print_lines cur cur s else huh s)
         else if c = 100 then go (if inside then do_delete S cur cur s else s)
         else if c = 97 then go_on (do_insert S (if cur \<ge> 1 then cur else int (line_count s)) s)
         else if c = 105 then go_on (do_insert S (if cur > 1 then cur - 1 else 0) s)
         else go (huh s))"

definition addr_cmd :: "'m ed_sys \<Rightarrow> bytes \<Rightarrow> 'm ed \<Rightarrow> ('m ed \<times> bool) option" where
  "addr_cmd S p s =
     (let (addr, p) = parse_num p; p = skip p; c = chr_at p 0; arg = skip (drop 1 p)
      in if c = 0 \<or> c = 112 then go (if addr \<ge> 1 \<and> addr \<le> int (line_count s) then print_lines addr addr s else huh s)
         else if c = 97 then (if arg = [] then go_on (do_insert S addr s) else go (huh s))
         else if c = 105 then (if arg = [] then go_on (do_insert S (if addr > 1 then addr - 1 else 0) s) else go (huh s))
         else if c = 100 then
           (let to = (if chr_at arg 0 = 44 then fst (parse_num (skip (drop 1 arg))) else addr)
            in go (do_delete S addr (if to < 0 then addr else to) s))
         else if c = 115 then subst_cmd S (drop 1 p) addr s
         else go (huh s))"

definition help_lines :: "string list" where
  "help_lines = [''Commands:'', ''  [addr]         print lines'', ''  [addr]a        append text after addr'',
     ''  [addr]i        insert text before addr'', ''  [addr]d        delete lines'', ''  [addr]s/pat/r/ substitute'', ''  w [file]       write to file'',
     ''  e [file]       load file'', ''  f [file]       set/show filename'', ''  q              quit'', ''  q!             force quit'',
     ''  ,p             print all'', ''  $              last line'', ''  .              current line'', ''  ,d             delete all'']"

definition ed_command :: "'m ed_sys \<Rightarrow> bytes \<Rightarrow> 'm ed \<Rightarrow> ('m ed \<times> bool) option" where
  "ed_command S p s =
     (let c = chr_at p 0; d = chr_at p 1; q = drop 1 p; arg = skip q; ends = (d = 32 \<or> d = 0); n = int (line_count s)
      in if c = 113 then
           (if d = 33 then Some (free_lines S s, True)
            else if arg = [] \<and> \<not> modified s then Some (free_lines S s, True) else go (huh s))
         else if c = 104 \<and> ends then go (fold (\<lambda>l. print (text_ln l) []) help_lines s)
         else if c = 119 then write_cmd S arg s
         else if c = 101 then edit_cmd S arg s
         else if c = 102 then file_cmd arg s
         else if c = 44 \<and> (d = 97 \<or> d = 100 \<or> d = 112 \<or> d = 0) then all_cmd S q s
         else if c = 36 then last_cmd S arg s
         else if c = 46 then dot_cmd S arg s
         else if 48 \<le> c \<and> c \<le> 57 then addr_cmd S p s
         else if c = 97 \<and> ends then go_on (do_insert S n s)
         else if c = 105 \<and> ends then go_on (do_insert S 0 s)
         else if c = 100 \<and> ends then go (do_delete S 1 n s)
         else if c = 115 then subst_cmd S q (if current_line s > 0 then current_line s else 1) s
         else if c = 112 \<or> c = 110 then go (if arg = [] \<and> n > 0 then print_lines 1 n s else huh s)
         else go (huh s))"

text \<open>One round of the loop of \<^verbatim>\<open>main\<close>, and the loop. At the end of the input the editor keeps asking.\<close>

definition ed_round :: "'m ed_sys \<Rightarrow> 'm ed \<Rightarrow> ('m ed \<times> bool) option" where
  "ed_round S s =
     (let s = print (str ''? '') [] s
      in case read_line (MAX_LINE_LEN + 63) [] (ed_in s) of
           (buf, inp, complete) \<Rightarrow>
             (let s = s\<lparr>ed_in := inp, ed_out := ed_out s @ read_echo (MAX_LINE_LEN + 63) [] (ed_in s)\<rparr>; p = dropWhile (\<lambda>c. c = 32 \<or> c = 9) (cstr buf)
              in if buf = [] then go s else if \<not> complete then None else if p = [] then go s else ed_command S p s))"

partial_function (option) ed_main :: "'m ed_sys \<Rightarrow> 'm ed \<Rightarrow> 'm ed option" where
  "ed_main S s = (case ed_round S s of None \<Rightarrow> None | Some (s, done) \<Rightarrow> if done then Some s else ed_main S s)"

subsection \<open>The text as a list of lines\<close>

definition ed_ok :: "'m ed \<Rightarrow> bool" where
  "ed_ok s \<longleftrightarrow> length (ed_lines s) = MAX_LINES \<and> line_count s \<le> MAX_LINES"

definition slots :: "'m ed \<Rightarrow> bytes option list" where
  "slots s = take (line_count s) (ed_lines s)"

text \<open>A line that can be typed: not empty, no control character that the editor interprets, not longer than the buffer.\<close>

definition typable :: "bytes \<Rightarrow> bool" where
  "typable l \<longleftrightarrow> l \<noteq> [] \<and> l \<noteq> [46] \<and> {0, 8, 10} \<inter> set l = {} \<and> length l < MAX_LINE_LEN - 1"

lemma length_slots [simp]: "ed_ok s \<Longrightarrow> length (slots s) = line_count s"
  by (simp add: ed_ok_def slots_def)

lemma take_slots: "i \<le> line_count s \<Longrightarrow> take i (slots s) = take i (ed_lines s)"
  by (simp add: slots_def min_def)

lemma read_line_typed:
  assumes "8 \<notin> set l" "10 \<notin> set l" "length buf + length l < room"
  shows "read_line room buf (l @ 10 # r) = (buf @ l, r, True)"
  using assms by (induction l arbitrary: buf) (subst read_line.simps, simp)+

lemma open_line_slots:
  fixes l :: "bytes option"
  assumes "ed_ok s" "at \<le> line_count s" "line_count s < MAX_LINES"
  defines "s' \<equiv> (open_line at l s)\<lparr>line_count := line_count s + 1, modified := True\<rparr>"
  shows "ed_ok s'" "slots s' = take at (slots s) @ l # drop at (slots s)"
proof -
  let ?L = "ed_lines s" and ?n = "line_count s"
  have len: "length ?L = MAX_LINES" using assms(1) by (simp add: ed_ok_def)
  then show "ed_ok s'" using assms(2,3) by (simp add: ed_ok_def s'_def open_line_def)
  have "take (at + 1) ?L = take at ?L @ [?L ! at]" using len assms(2,3) by (simp add: take_Suc_conv_app_nth)
  then have "(put_at (at + 1) (drop at (take ?n ?L)) ?L)[at := l] = take at ?L @ l # drop at (take ?n ?L) @ drop (?n + 1) ?L"
    using len assms(2,3) by (simp add: put_at_def list_update_append)
  then show "slots s' = take at (slots s) @ l # drop at (slots s)"
    using len assms(2,3) by (simp add: slots_def s'_def open_line_def min_def Suc_diff_le)
qed

lemma insert_loop_slots:
  assumes "ed_ok s" "at \<le> line_count s" "line_count s + length ls \<le> MAX_LINES" "list_all typable ls" "\<And>n m. snd (ed_malloc S n m)"
    and "ed_in s = concat (map (\<lambda>l. l @ [10]) ls) @ 46 # 10 # rest"
  shows "\<exists>s'. insert_loop S at s = Some s' \<and> ed_ok s' \<and> slots s' = take at (slots s) @ map Some ls @ drop at (slots s) \<and> ed_in s' = rest"
  using assms(1-4,6)
proof (induction ls arbitrary: s at)
  case Nil
  have "read_line (MAX_LINE_LEN - 1) [] (46 # 10 # rest) = ([46], rest, True)"
    using read_line_typed [of "[46]" "[]" "MAX_LINE_LEN - 1" rest] by (simp add: MAX_LINE_LEN_def)
  then obtain out where "insert_loop S at s = Some ((print (str ''? '') [] s)\<lparr>ed_in := rest, ed_out := out\<rparr>)"
    using Nil.prems(5) by (subst (asm) insert_loop.simps) (simp add: Let_def)
  moreover have "slots ((print (str ''? '') [] s)\<lparr>ed_in := rest, ed_out := out\<rparr>) = slots s" "ed_ok ((print (str ''? '') [] s)\<lparr>ed_in := rest, ed_out := out\<rparr>)"
    using Nil.prems(1) by (simp_all add: slots_def ed_ok_def)
  ultimately show ?case by simp
next
  case (Cons l ls)
  have l: "l \<noteq> []" "l \<noteq> [46]" "0 \<notin> set l" "8 \<notin> set l" "10 \<notin> set l" "length l < MAX_LINE_LEN - 1" using Cons.prems(4) by (auto simp: typable_def)
  define inp where "inp = concat (map (\<lambda>l. l @ [10]) ls) @ 46 # 10 # rest"
  have r: "read_line (MAX_LINE_LEN - 1) [] (ed_in s) = (l, inp, True)"
    using read_line_typed [of l "[]" "MAX_LINE_LEN - 1" inp] l Cons.prems(5) by (simp add: inp_def)
  obtain m where m: "ed_malloc S (length l + 1) (ed_mem s) = (m, True)" using assms(5) [of "length l + 1" "ed_mem s"] by (cases "ed_malloc S (length l + 1) (ed_mem s)") auto
  define t where "t = (print (str ''? '') [] s)\<lparr>ed_in := inp, ed_out := ed_out (print (str ''? '') [] s) @ read_echo (MAX_LINE_LEN - 1) [] (ed_in s), ed_mem := m\<rparr>"
  define u where "u = (open_line at (Some l) t)\<lparr>line_count := line_count t + 1, modified := True\<rparr>"
  have t: "ed_ok t" "slots t = slots s" "line_count t = line_count s" "ed_in t = inp" using Cons.prems(1) by (simp_all add: t_def ed_ok_def slots_def)
  have lim: "line_count s < MAX_LINES" using Cons.prems(3) by simp
  have step: "insert_loop S at s = insert_loop S (at + 1) u"
    using r m l lim by (subst insert_loop.simps) (simp add: Let_def u_def t_def)
  have u: "ed_ok u" "slots u = take at (slots s) @ Some l # drop at (slots s)" "line_count u = line_count s + 1" "ed_in u = inp"
    using open_line_slots [OF t(1), of at "Some l"] t Cons.prems(2) lim by (simp_all add: u_def open_line_def)
  have "\<exists>s'. insert_loop S (at + 1) u = Some s' \<and> ed_ok s' \<and> slots s' = take (at + 1) (slots u) @ map Some ls @ drop (at + 1) (slots u) \<and> ed_in s' = rest"
    using Cons.prems u by (intro Cons.IH) (simp_all add: inp_def)
  moreover have "take (length pre + 1) (pre @ x # post) = pre @ [x]" "drop (length pre + 1) (pre @ x # post) = post" for pre post :: "bytes option list" and x by simp_all
  from this [of "take at (slots s)" "Some l" "drop at (slots s)"] have "take (at + 1) (slots u) = take at (slots s) @ [Some l]" "drop (at + 1) (slots u) = drop at (slots s)"
    using u(2) Cons.prems(1,2) by (simp_all add: min_def split: if_splits)
  ultimately show ?case using step by simp
qed

lemma do_delete_slots:
  assumes "ed_ok s" "1 \<le> from" "from \<le> to" "to \<le> line_count s"
  shows "ed_ok (do_delete S (int from) (int to) s)" "slots (do_delete S (int from) (int to) s) = take (from - 1) (slots s) @ drop to (slots s)"
proof -
  let ?s = "do_delete S (int from) (int to) s"
  have n: "length (ed_lines s) = MAX_LINES" "line_count s \<le> MAX_LINES" using assms(1) by (simp_all add: ed_ok_def)
  have "nat (int to - int from + 1) = to + 1 - from" using assms(3) by linarith
  then have f: "ed_lines ?s = put_at (from - 1) (drop to (slots s)) (ed_lines s)" "line_count ?s = line_count s - (to + 1 - from)"
    using assms(2-4) by (simp_all add: do_delete_def Let_def slots_def)
  have len: "from - 1 + length (drop to (slots s)) = line_count ?s" using f(2) assms by simp
  then show "ed_ok ?s" using f n assms by (simp add: ed_ok_def)
  have "from - 1 \<le> length (ed_lines s)" using n assms(3,4) by simp
  then have "take (line_count ?s) (put_at (from - 1) (drop to (slots s)) (ed_lines s)) = take (from - 1) (ed_lines s) @ drop to (slots s)"
    unfolding len [symmetric] put_at_def by simp
  then show "slots ?s = take (from - 1) (slots s) @ drop to (slots s)"
    using f(1) assms(3,4) take_slots [of "from - 1" s] by (simp add: slots_def [of ?s])
qed

lemma do_substitute_slots:
  assumes "ed_ok s" "snd (ed_malloc S (length l - length pattern + length replacement + 1) (ed_mem s))"
    and "i < line_count s" "slots s ! i = Some l" "first_match pattern l = Some idx"
  shows "\<exists>s'. do_substitute S pattern replacement (int i + 1) (int i + 1) s = Some s' \<and> ed_ok s' \<and>
      slots s' = (slots s)[i := Some (take idx l @ replacement @ drop (idx + length pattern) l)]"
proof -
  obtain m where m: "ed_malloc S (length l - length pattern + length replacement + 1) (ed_mem s) = (m, True)" using assms(2) by (metis prod.collapse)
  have "[nat (max (int i + 1) 1 - 1)..<nat (min (int i + 1) (int (line_count s)))] = [i]" using assms(3) by (simp add: max_def min_def nat_add_distrib)
  moreover have "ed_lines s ! i = Some l" using assms(3,4) by (simp add: slots_def)
  ultimately show ?thesis
    using assms(1,3,5) m by (simp add: do_substitute_def substitute_line_def ed_ok_def slots_def take_update_swap)
qed

subsection \<open>Properties\<close>


lemma save_loop_all:
  "length (buf @ concat (map (\<lambda>l. l @ [10]) ls)) < 4096 \<Longrightarrow> save_loop buf (map Some ls) = Some (buf @ concat (map (\<lambda>l. l @ [10]) ls))"
  by (induction ls arbitrary: buf) auto

lemma load_loop_slots:
  assumes "\<And>n m. snd (ed_malloc S n m)" "ed_ok s" "line_count s + length ls \<le> MAX_LINES" "\<forall>l \<in> set ls. 10 \<notin> set l"
  shows "ed_ok (load_loop S (concat (map (\<lambda>l. l @ [10]) ls)) s) \<and> slots (load_loop S (concat (map (\<lambda>l. l @ [10]) ls)) s) = slots s @ map Some ls"
  using assms(2-4)
proof (induction ls arbitrary: s)
  case Nil
  then show ?case by (simp add: load_loop.simps)
next
  case (Cons l ls)
  obtain m where m: "ed_malloc S (length l + 1) (ed_mem s) = (m, True)" using assms(1) by (metis prod.collapse)
  define t where "t = s\<lparr>ed_mem := m, ed_lines := (ed_lines s)[line_count s := Some l], line_count := line_count s + 1\<rparr>"
  have "takeWhile (\<lambda>c. c \<noteq> 10) (l @ 10 # r) = l" for r using Cons.prems(3) by (auto simp: takeWhile_append)
  then have step: "load_loop S (concat (map (\<lambda>l. l @ [10]) (l # ls))) s = load_loop S (concat (map (\<lambda>l. l @ [10]) ls)) t"
    using Cons.prems(2) m by (subst load_loop.simps) (simp add: Let_def t_def)
  have "ed_ok t" "slots t = slots s @ [Some l]"
    using Cons.prems(1,2) by (simp_all add: t_def ed_ok_def slots_def take_Suc_conv_app_nth)
  then show ?case using Cons.IH [of t] Cons.prems(2,3) step by (simp add: t_def)
qed

text \<open>A text that is written is read back as it was, when it fits into the buffer of 4096 bytes.\<close>

theorem ed_save_load:
  assumes "ed_ok s" "slots s = map Some ls" "\<forall>l \<in> set ls. 0 \<notin> set l \<and> 10 \<notin> set l" "length (concat (map (\<lambda>l. l @ [10]) ls)) < 4096"
    and "\<And>n m. snd (ed_malloc S n m)" "\<And>b m. snd (ed_write S fname b m)" "\<And>b m n. ed_cat S fname n (fst (ed_write S fname b m)) = Some (take n b)"
  shows "\<exists>s'. save_file S fname s = Some (s', int (length ls)) \<and>
    (\<forall>t. ed_ok t \<and> ed_mem t = ed_mem s' \<longrightarrow> snd (load_file S fname t) \<and> slots (fst (load_file S fname t)) = slots s)"
proof -
  let ?b = "concat (map (\<lambda>l. l @ [10]) ls)"
  have n: "line_count s = length ls" "length ls \<le> MAX_LINES" using assms(1,2) length_slots [OF assms(1)] by (auto simp: ed_ok_def)
  have "save_loop [] (slots s) = Some ?b" using save_loop_all [of "[]" ls] assms(2,4) by simp
  then have sv: "save_file S fname s = Some (s\<lparr>ed_mem := fst (ed_write S fname ?b (ed_mem s))\<rparr>, int (length ls))"
    using n(1) assms(6) [of ?b "ed_mem s"] by (cases "ed_write S fname ?b (ed_mem s)") (simp add: save_file_def slots_def)
  have "snd (load_file S fname t) \<and> slots (fst (load_file S fname t)) = slots s" if t: "ed_ok t" "ed_mem t = fst (ed_write S fname ?b (ed_mem s))" for t
  proof -
    have "cstr ?b = ?b" using assms(3) by (intro cstr_id) auto
    moreover have "ed_cat S fname 4095 (ed_mem t) = Some ?b" using assms(4,7) t(2) by simp
    moreover have "ed_ok (free_lines S t)" "slots (free_lines S t) = []" "line_count (free_lines S t) = 0" using t(1) by (simp_all add: free_lines_def ed_ok_def slots_def)
    ultimately show ?thesis using load_loop_slots [OF assms(5), of "free_lines S t" ls] n(2) assms(2,3) by (simp add: load_file_def)
  qed
  then show ?thesis using sv by auto
qed

text \<open>The documented form of the substitution, with a delimiter before the pattern, changes nothing: the pattern that is
  read is empty.\<close>

theorem ed_substitute_documented: "ed_command S (115 # 47 # pattern @ 47 # replacement) s = Some (s, False)"
  by (simp add: ed_command_def subst_cmd_def go_def Let_def)

text \<open>A system with memory enough and one file, and a text of one line.\<close>

definition desk :: "bytes ed_sys" where
  "desk = \<lparr>ed_malloc = (\<lambda>_ m. (m, True)), ed_free = (\<lambda>m. m), ed_cat = (\<lambda>_ n m. Some (take n m)), ed_write = (\<lambda>_ b _. (b, True))\<rparr>"

definition one_line :: "bytes ed" where
  "one_line = \<lparr>ed_lines = Some [97, 98] # replicate 511 None, line_count = 1, current_line = 0, filename = [], modified = False,
     ed_in = [99, 10, 46, 10], ed_out = [], ed_mem = []\<rparr>"

lemma one_line_ok: "ed_ok one_line" "slots one_line = [Some [97, 98]]" "line_count one_line = 1" "ed_in one_line = [99, 10, 46, 10]"
  by (simp_all add: ed_ok_def slots_def one_line_def MAX_LINES_def)


theorem ed_save_load_witness:
  "\<exists>s'. save_file desk [102] one_line = Some (s', 1) \<and> (\<forall>t. ed_ok t \<and> ed_mem t = ed_mem s' \<longrightarrow> slots (fst (load_file desk [102] t)) = [Some [97, 98]])"
  using ed_save_load [of one_line "[[97, 98]]" desk "[102]"] by (auto simp: one_line_ok desk_def)

end
