(* ===== verification/Spec2Isabelle.thy ===== *)
theory Spec2Isabelle
  imports Mkfs Descriptors Malloc Ed
begin

text \<open>
  A verification of a small x86-64 operating system: its kernel (\<^verbatim>\<open>src/kernel\<close>), the tool that formats its
  disks (\<^verbatim>\<open>src/tools/mkfs.tinyfs.c\<close>), its C library (\<^verbatim>\<open>src/some-libc\<close>) and its programs, the shell and a line
  editor (\<^verbatim>\<open>src/userspace\<close>).

  \<^bold>\<open>The program.\<close> The kernel manages memory (a heap of its own, page frames, page tables), runs up to
  sixteen tasks in a ring that the timer interrupt walks, lets them fork, wait, exit and send signals, connects
  them by pipes, keeps files on an ATA disk in its own format, and serves 34 system calls. Everything meets in
  the handler of interrupts: a system call acts on the task that is current, a timer interrupt changes which task
  that is, a page fault repairs the address space, a key press fills the ring the console reads from, and before
  the return to user mode pending signals are delivered. Programs reach the kernel by system calls through a C
  library with strings, an allocator on top of \<^verbatim>\<open>sbrk\<close>, formatted output and streams; the shell edits and executes
  command lines on top of it.

  \<^bold>\<open>Which theory models what.\<close>
  \<^item> \<^verbatim>\<open>Prelude\<close>: words at the widths of \<^verbatim>\<open>stdint.h\<close>, byte buffers, little-endian integers, C strings,
    loops with an early return.
  \<^item> \<^verbatim>\<open>Heap\<close>, \<^verbatim>\<open>Pages\<close>, \<^verbatim>\<open>PageTables\<close>, \<^verbatim>\<open>Paging\<close>, \<^verbatim>\<open>Cow\<close>: \<^verbatim>\<open>kernel/memory.c\<close>. The heap is the list of its
    blocks in the order of addresses; physical memory is a function from addresses to bytes, and page tables lie in it.
    \<open>mmu\<close> is the translation the processor makes and serves as the specification of every paging operation.
  \<^item> \<^verbatim>\<open>Tasks\<close>, \<^verbatim>\<open>Process\<close>: \<^verbatim>\<open>kernel/scheduler.c\<close>. The record \<open>sys\<close> holds the static variables of the scheduler, the
    pipe pool and memory; a pointer to a task is its index in the pool.
  \<^item> \<^verbatim>\<open>Ring\<close>, \<^verbatim>\<open>Pipe\<close>, \<^verbatim>\<open>Keyboard\<close>: \<^verbatim>\<open>kernel/pipe.c\<close> and \<^verbatim>\<open>kernel/keyboard.c\<close>, two rings of bytes with one contract,
    the locale \<open>fifo\<close>.
  \<^item> \<^verbatim>\<open>Ata\<close>, \<^verbatim>\<open>Console\<close>: \<^verbatim>\<open>kernel/fs/ata.c\<close>, \<^verbatim>\<open>kernel/vga.c\<close>, \<^verbatim>\<open>kernel/serial.c\<close>, \<^verbatim>\<open>kernel/cmos.c\<close>. The port instructions
    of \<^verbatim>\<open>kernel/io.h\<close> reach hardware, so they are the argument \<open>port_io\<close>; what the drivers rely on of a device is a
    locale (\<open>ata_drive\<close>, \<open>uart\<close>, \<open>rtc\<close>), and a simulated device interprets it.
  \<^item> \<^verbatim>\<open>Tinyfs\<close>, \<^verbatim>\<open>Volume\<close>, \<^verbatim>\<open>Vfs\<close>, \<^verbatim>\<open>Files\<close>, \<^verbatim>\<open>Fileio\<close>, \<^verbatim>\<open>Mkfs\<close>: \<^verbatim>\<open>kernel/fs/tinyfs.c\<close>, \<^verbatim>\<open>kernel/fs/vfs.c\<close> and
    \<^verbatim>\<open>tools/mkfs.tinyfs.c\<close>. The file system uses the sector operations through the locale \<open>disk\<close>, which the driver of
    \<^verbatim>\<open>Ata\<close> fulfils (a sublocale).
  \<^item> \<^verbatim>\<open>Interrupts\<close>: \<^verbatim>\<open>kernel/idt.c\<close>, \<^verbatim>\<open>kernel/gdt.c\<close>, \<^verbatim>\<open>kernel/timer.c\<close> and the switch of stacks in \<^verbatim>\<open>kernel/isr.asm\<close>. The
    record \<open>machine\<close> adds the devices, \<^verbatim>\<open>cr2\<close> and \<^verbatim>\<open>cr3\<close> to \<open>sys\<close>.
  \<^item> \<^verbatim>\<open>Elf\<close>, \<^verbatim>\<open>Syscalls\<close>, \<^verbatim>\<open>Descriptors\<close>: \<^verbatim>\<open>kernel/elf.c\<close>, \<^verbatim>\<open>kernel/syscall.c\<close>, and the invariant of descriptors that spans
    the calls of \<^verbatim>\<open>Syscalls\<close>, \<^verbatim>\<open>Process\<close> and \<^verbatim>\<open>Pipe\<close>. The record \<open>kernel\<close> is the machine, the file system and the
    static break of the programs' heap. Pointers of a caller are followed through the tables the processor has loaded.
  \<^item> \<^verbatim>\<open>Cstring\<close>, \<^verbatim>\<open>Malloc\<close>, \<^verbatim>\<open>Stdio\<close>, \<^verbatim>\<open>Streams\<close>: \<^verbatim>\<open>some-libc/string.c\<close>, \<^verbatim>\<open>stdlib.c\<close>, \<^verbatim>\<open>stdio.c\<close>, \<^verbatim>\<open>file.c\<close>. Strings and the
    free list lie in byte-addressed memory. The allocator relies on the break of the kernel through the locale
    \<open>program_break\<close>, which the system call of \<^verbatim>\<open>Syscalls\<close> fulfils.
  \<^item> \<^verbatim>\<open>Lineedit\<close>, \<^verbatim>\<open>Environ\<close>, \<^verbatim>\<open>Commands\<close>, \<^verbatim>\<open>Ed\<close>: \<^verbatim>\<open>userspace/shell.c\<close> (the line with history and completion; the
    variables; the commands and the loop of \<^verbatim>\<open>main\<close>) and \<^verbatim>\<open>userspace/ed.c\<close>. The system calls of these programs are
    arguments (\<open>tty\<close>, \<open>os\<close>, \<open>fsys_calls\<close>, \<open>ed_sys\<close>); character arrays have their full length where the code can
    overrun them, and are texts elsewhere.

  \<^bold>\<open>What is shown.\<close> The heap keeps its blocks disjoint and merges back to one block; frames are handed out
  once; mapping, unmapping, the sharing of pages at fork and the two fault handlers are described by their
  effect on the translation of every address, together with the contents of memory. The scheduler is round robin,
  always returns and starves no ready task. Fork, exit, wait and signals are described on every branch. Pipes and
  keyboard are queues, and in every interleaving of system calls the reference counts of a pipe equal the descriptors
  that refer to it. The directory operations refine updates of a finite map, path resolution equals a walk along
  the components, a file that is written is read back, and a freshly formatted disk mounts. A loaded
  segment holds its bytes of the file, \<^verbatim>\<open>sbrk\<close> stays within its area and maps what it grants, and exec either enters the
  new program or leaves the caller as it was. Blocks of \<^verbatim>\<open>malloc\<close> are disjoint in every run on that break; the line
  the shell reads is the text its keys describe and never leaves its buffer; the variables of the shell are a map that survives
  in its file; expansion equals a reference expansion cut to the buffer; printed numbers read as themselves; \<^verbatim>\<open>grep\<close> prints the
  matching lines; the commands of the editor act on a list of lines. Some theorems record behaviour that the code has and should not
  have: readers that are not woken, arrow keys that are exchanged, signals delivered into the frame of
  another task, streams that never open, numbers that overrun the buffer of \<^verbatim>\<open>printf\<close>.

  \<^bold>\<open>Loops and waiting.\<close> Loops with a bound are recursive functions on it. Loops that may run forever (walks along
  the ring of tasks, the polling of devices, strings in memory) are partial functions with the result \<open>None\<close> for a
  run that does not end; the theorems say that they return on well-formed rings and on devices that become
  ready. A call that waits for another task returns a waiting result, and its remainder is a function of its own.
  Fuel is used in one place, \<open>execute\<close>: a pipe executes its two halves, and a variable may expand to another pipe, so that
  the depth has no bound; \<open>Starved\<close> marks a run that needs more, and a command without pipe or script needs one unit.

  \<^bold>\<open>Not modelled.\<close> The cache of translations and the instructions that load descriptor tables; the assembly that saves
  registers, and the boot loader; \<^verbatim>\<open>kernel/kernel.c\<close>, which calls the initialisers in order; the log messages of
  the file system and the loader; the command line of \<^verbatim>\<open>kernel/shell.c\<close>, a smaller
  version of the shell inside the kernel; the wrappers of single system calls in the C library and its assembly start-up; the host
  tool \<^verbatim>\<open>tools/tinyfs-add.c\<close>.
\<close>

end
